(* ===== verification/Prelude.thy ===== *)
theory Prelude
  imports Main "HOL-Library.Word"
begin

text \<open>
  Shared vocabulary of the development.

  The program is C++; everything a C++ operation can do beside returning a value is made
  explicit here.  An operation that may throw, fail an \<open>assert\<close> or leave the defined
  behaviour of the language (an access outside a vector, a signed overflow, erasing the end
  iterator) returns a value of \<open>fault + 'a\<close>; \<open>bindE\<close> sequences such
  operations the way C++ statements follow each other.  The C++ \<open>int\<close> is a mathematical
  integer whose range is tested where an operation may leave it; fixed-width unsigned values
  are words.  The rest of the theory is lemmas on lists, on \<open>memcpy\<close> and on the bytes of a
  word that several components use.
\<close>

unbundle bit_operations_syntax

named_theorems res_simps \<open>rewriting of sequenced fallible operations\<close>
named_theorems byte_simps \<open>bytes of machine words\<close>
named_theorems mem_simps \<open>reads and writes of byte vectors\<close>

section \<open>Types\<close>

type_synonym byte = "8 word"
type_synonym u16 = "16 word"
type_synonym u32 = "32 word"
type_synonym u64 = "64 word"

text \<open>How an operation can end other than by returning.\<close>

datatype fault =
    Out_of_bounds        \<comment> \<open>read or write outside a vector or an array\<close>
  | Length_error         \<comment> \<open>a vector asked for a negative (as \<open>size_t\<close>: huge) size\<close>
  | Int_overflow         \<comment> \<open>a signed result or a conversion outside \<open>int\<close>\<close>
  | Bad_iterator         \<comment> \<open>\<open>erase(end())\<close>\<close>
  | Null_deref           \<comment> \<open>a call or access through a null pointer\<close>
  | Assert_failed        \<comment> \<open>a failed \<open>assert\<close>\<close>
  | Malformed_data       \<comment> \<open>\<open>throw std::runtime_error("malformed data")\<close>\<close>
  | Invalid_bool         \<comment> \<open>a \<open>bool\<close> object whose byte is neither 0 nor 1\<close>
  | Empty_queue          \<comment> \<open>\<open>pop\<close>, \<open>back\<close> or \<open>front\<close> of an empty container\<close>
  | Shutting_down        \<comment> \<open>\<open>thread_pool::schedule\<close> after \<open>shutdown\<close>\<close>
  | Bad_function_call    \<comment> \<open>calling an empty \<open>std::function\<close>\<close>
  | Bad_pointer          \<comment> \<open>following a pointer that does not point to an object of its type\<close>
  | Bad_handle           \<comment> \<open>resuming a coroutine that is not suspended, or one that was destroyed\<close>
  | Div_by_zero          \<comment> \<open>integer division by zero\<close>
  | Deadlock             \<comment> \<open>locking a mutex the thread already holds\<close>
  | Out_of_fuel          \<comment> \<open>the bound on the number of loop iterations was reached\<close>

type_synonym 'a res = "fault + 'a"

definition bindE :: "'e + 'a \<Rightarrow> ('a \<Rightarrow> 'e + 'b) \<Rightarrow> 'e + 'b" where
  "bindE m f = (case m of Inl e \<Rightarrow> Inl e | Inr x \<Rightarrow> f x)"

definition guardE :: "bool \<Rightarrow> 'e \<Rightarrow> 'e + unit" where
  "guardE b e = (if b then Inr () else Inl e)"

definition is_ok :: "'e + 'a \<Rightarrow> bool" where
  "is_ok m = (case m of Inl e \<Rightarrow> False | Inr x \<Rightarrow> True)"

section \<open>Integers\<close>

definition in_int :: "int \<Rightarrow> bool" where
  "in_int x \<longleftrightarrow> - 2147483648 \<le> x \<and> x \<le> 2147483647"

definition chk_int :: "int \<Rightarrow> int res" where
  "chk_int x = (if in_int x then Inr x else Inl Int_overflow)"

text \<open>The conversion of a wider integer to \<open>int\<close> keeps the low 32 bits.\<close>

definition cast_int :: "int \<Rightarrow> int" where
  "cast_int x = signed_take_bit 31 x"

text \<open>\<open>(int)(1.5 * x)\<close>: exact in \<open>double\<close>, then truncated; undefined when it does not fit.\<close>

definition scale_1_5 :: "int \<Rightarrow> int res" where
  "scale_1_5 x = chk_int (if 0 \<le> x then 3 * x div 2 else - (3 * (- x) div 2))"

lemma scale_1_5_ok:
  "0 \<le> x \<Longrightarrow> 3 * x div 2 \<le> 2147483647 \<Longrightarrow> scale_1_5 x = Inr (3 * x div 2)"
  by (simp add: scale_1_5_def chk_int_def in_int_def)

section \<open>Byte vectors\<close>

definition zeros :: "nat \<Rightarrow> byte list" where
  "zeros n = replicate n 0"

text \<open>
  \<open>vec_resize n\<close> is the contents of a fresh \<open>std::vector<char>\<close> of the given size; the
  size is converted to \<open>size_t\<close>, so a negative one exceeds \<open>max_size()\<close>.
\<close>

definition vec_resize :: "int \<Rightarrow> byte list res" where
  "vec_resize n = (if n < 0 then Inl Length_error else Inr (zeros (nat n)))"

text \<open>
  \<open>memcpy dst di src si n\<close> is the destination vector after copying \<open>n\<close> bytes from
  index \<open>si\<close> of \<open>src\<close> to index \<open>di\<close> of \<open>dst\<close>; leaving either vector is a fault.
\<close>

definition memcpy :: "byte list \<Rightarrow> int \<Rightarrow> byte list \<Rightarrow> int \<Rightarrow> int \<Rightarrow> byte list res" where
  "memcpy dst di src si n =
     (if 0 \<le> n \<and> 0 \<le> di \<and> 0 \<le> si \<and> di + n \<le> int (length dst) \<and> si + n \<le> int (length src)
      then Inr (take (nat di) dst @ take (nat n) (drop (nat si) src) @ drop (nat (di + n)) dst)
      else Inl Out_of_bounds)"

section \<open>Bytes of a word\<close>

text \<open>
  \<open>le_bytes\<close> is the object representation of an unsigned value on a little-endian host,
  \<open>be_bytes\<close> on a big-endian one; \<open>word_of_le\<close> and \<open>word_of_be\<close> read it back.
\<close>

definition le_bytes :: "'a::len word \<Rightarrow> byte list" where
  "le_bytes w = map (\<lambda>i. ucast (drop_bit (8 * i) w)) [0..<LENGTH('a) div 8]"

definition be_bytes :: "'a::len word \<Rightarrow> byte list" where
  "be_bytes w = rev (le_bytes w)"

primrec word_of_le :: "byte list \<Rightarrow> 'a::len word" where
  "word_of_le [] = 0"
| "word_of_le (b # bs) = ucast b OR push_bit 8 (word_of_le bs)"

definition word_of_be :: "byte list \<Rightarrow> 'a::len word" where
  "word_of_be bs = word_of_le (rev bs)"

section \<open>Lemmas\<close>

subsection \<open>Sequencing\<close>

lemma bindE_simps [simp, res_simps]:
  "bindE (Inl e) f = Inl e"
  "bindE (Inr x) f = f x"
  by (simp_all add: bindE_def)

lemma bindE_assoc: "bindE (bindE m f) g = bindE m (\<lambda>x. bindE (f x) g)"
  by (cases m) simp_all

lemma bindE_Inr_iff: "bindE m f = Inr y \<longleftrightarrow> (\<exists>x. m = Inr x \<and> f x = Inr y)"
  by (cases m) simp_all

lemma bindE_Inl_iff: "bindE m f = Inl e \<longleftrightarrow> m = Inl e \<or> (\<exists>x. m = Inr x \<and> f x = Inl e)"
  by (cases m) simp_all

lemma bindE_InrE:
  assumes "bindE m f = Inr y"
  obtains x where "m = Inr x" and "f x = Inr y"
  using assms by (auto simp: bindE_Inr_iff)

lemma bindE_cong [fundef_cong]:
  "m = m' \<Longrightarrow> (\<And>x. m' = Inr x \<Longrightarrow> f x = g x) \<Longrightarrow> bindE m f = bindE m' g"
  by (cases m') simp_all

lemma guardE_simps [simp, res_simps]:
  "guardE True e = Inr ()"
  "guardE False e = Inl e"
  by (simp_all add: guardE_def)

lemma is_ok_simps [simp, res_simps]: "is_ok (Inr x)" "\<not> is_ok (Inl e)"
  by (simp_all add: is_ok_def)

lemma is_ok_iff: "is_ok m \<longleftrightarrow> (\<exists>x. m = Inr x)"
  by (cases m) simp_all

subsection \<open>Integers\<close>

lemma cast_int_id [simp]: "in_int x \<Longrightarrow> cast_int x = x"
  by (simp add: cast_int_def in_int_def signed_take_bit_int_eq_self_iff)

lemma chk_int_ok [simp]: "in_int x \<Longrightarrow> chk_int x = Inr x"
  by (simp add: chk_int_def)

lemma chk_int_Inr_iff: "chk_int x = Inr y \<longleftrightarrow> y = x \<and> in_int x"
  by (auto simp: chk_int_def)

subsection \<open>Vectors\<close>

lemma length_zeros [simp, mem_simps]: "length (zeros n) = n"
  by (simp add: zeros_def)

lemma vec_resize_ok [simp, mem_simps]: "0 \<le> n \<Longrightarrow> vec_resize n = Inr (zeros (nat n))"
  by (simp add: vec_resize_def)

lemma memcpy_ok:
  assumes "0 \<le> n" "0 \<le> di" "0 \<le> si" "di + n \<le> int (length dst)" "si + n \<le> int (length src)"
  shows "memcpy dst di src si n =
    Inr (take (nat di) dst @ take (nat n) (drop (nat si) src) @ drop (nat (di + n)) dst)"
  using assms by (simp add: memcpy_def)

lemma memcpy_length: "memcpy dst di src si n = Inr dst' \<Longrightarrow> length dst' = length dst"
  by (auto simp: memcpy_def split: if_splits)

text \<open>Copying to the front of a fresh vector.\<close>

lemma memcpy_front:
  assumes "0 \<le> n" "n \<le> int (length dst)" "0 \<le> si" "si + n \<le> int (length src)"
  shows "memcpy dst 0 src si n = Inr (take (nat n) (drop (nat si) src) @ drop (nat n) dst)"
  using assms by (simp add: memcpy_def)

subsection \<open>Bytes\<close>

lemma length_le_bytes [simp, byte_simps]: "length (le_bytes (w :: 'a::len word)) = LENGTH('a) div 8"
  by (simp add: le_bytes_def)

lemma length_be_bytes [simp, byte_simps]: "length (be_bytes (w :: 'a::len word)) = LENGTH('a) div 8"
  by (simp add: be_bytes_def)

lemma bit_word_of_le:
  "bit (word_of_le bs :: 'a::len word) n \<longleftrightarrow>
     n < LENGTH('a) \<and> n div 8 < length bs \<and> bit (bs ! (n div 8)) (n mod 8)"
proof (induction bs arbitrary: n)
  case Nil
  then show ?case by simp
next
  case (Cons b bs)
  show ?case
  proof (cases "n < 8")
    case True
    then show ?thesis
      by (auto simp: bit_or_iff bit_push_bit_iff bit_ucast_iff)
  next
    case False
    then have "n div 8 = Suc ((n - 8) div 8)" and "n mod 8 = (n - 8) mod 8"
      by (simp_all add: le_div_geq le_mod_geq)
    moreover from False have "\<not> bit b n"
      using bit_imp_le_length [of b n] by auto
    ultimately show ?thesis
      using False Cons.IH [of "n - 8"]
      by (auto simp: bit_or_iff bit_push_bit_iff bit_ucast_iff)
  qed
qed

lemma word_of_le_bytes [simp, byte_simps]:
  assumes "8 dvd LENGTH('a)"
  shows "word_of_le (le_bytes w) = (w :: 'a::len word)"
proof (rule bit_word_eqI)
  fix n assume n: "n < LENGTH('a)"
  then have "n div 8 < LENGTH('a) div 8"
    using assms by (auto simp: less_mult_imp_div_less elim!: dvdE)
  then show "bit (word_of_le (le_bytes w) :: 'a word) n \<longleftrightarrow> bit w n"
    using n by (simp add: bit_word_of_le le_bytes_def bit_ucast_iff bit_drop_bit_eq)
qed

lemma word_of_be_bytes [simp, byte_simps]:
  "8 dvd LENGTH('a) \<Longrightarrow> word_of_be (be_bytes w) = (w :: 'a::len word)"
  by (simp add: word_of_be_def be_bytes_def)

section \<open>Counting in lists\<close>

lemma filter_list_update:
  assumes "i < length xs"
  shows "length (filter P (xs[i := x])) + (if P (xs ! i) then 1 else 0) = length (filter P xs) + (if P x then 1 else 0)"
proof -
  have "filter P xs = filter P (take i xs) @ filter P [xs ! i] @ filter P (drop (Suc i) xs)"
    using assms by (metis append_Cons append_Nil filter_append id_take_nth_drop)
  then show ?thesis
    using assms by (simp add: upd_conv_take_nth_drop)
qed

lemma sum_list_update_less:
  fixes f :: "'a \<Rightarrow> nat"
  shows "i < length xs \<Longrightarrow> sum_list (map f (xs[i := x])) + f (xs ! i) = sum_list (map f xs) + f x"
proof (induction xs arbitrary: i)
  case (Cons y ys)
  then show ?case by (cases i) auto
qed simp

end
