(* ===== verification/Endian.thy ===== *)
theory Endian
  imports Prelude
begin

text \<open>
  \<open>namespace endian\<close> of \<^verbatim>\<open>src/protocol/archive.hpp\<close>: the byte swapping that takes a value to
  and from network order.  The host's byte order is a parameter (\<open>le\<close>: little-endian),
  since \<open>ShouldSwap\<close> tests it at run time.  A value of an integer type is its bit pattern;
  \<open>s\<close> says whether the C++ type \<open>T\<close> is signed, which decides how \<open>T\<close> is promoted to
  \<open>int\<close> and how \<open>>>\<close> shifts.
\<close>

section \<open>Definitions\<close>

text \<open>The object representation of a value on the host.\<close>

definition mem_bytes :: "bool \<Rightarrow> 'a::len word \<Rightarrow> byte list" where
  "mem_bytes le w = (if le then le_bytes w else be_bytes w)"

definition of_mem :: "bool \<Rightarrow> byte list \<Rightarrow> 'a::len word" where
  "of_mem le bs = (if le then word_of_le bs else word_of_be bs)"

text \<open>\<open>SwapByteBase\<close>.\<close>

definition ShouldSwap :: "bool \<Rightarrow> bool" where
  "ShouldSwap le \<longleftrightarrow> mem_bytes le (1 :: u16) ! 0 = 1"

definition SwapBytes :: "nat \<Rightarrow> nat \<Rightarrow> byte list \<Rightarrow> byte list" where
  "SwapBytes i j c = c[i := c ! j, j := c ! i]"

text \<open>Promotion of a narrow operand to \<open>int\<close>, and the right shift of a value of type \<open>T\<close>.\<close>

definition promote :: "bool \<Rightarrow> u16 \<Rightarrow> u32" where
  "promote s v = (if s then scast v else ucast v)"

definition shr :: "bool \<Rightarrow> nat \<Rightarrow> 'a::len word \<Rightarrow> 'a word" where
  "shr s n v = (if s then signed_drop_bit n v else drop_bit n v)"

text \<open>\<open>SwapByte<T, 1>\<close>, \<open>SwapByte<T, 2>\<close>, \<open>SwapByte<T, 4>\<close>, \<open>SwapByte<T, 8>\<close>.\<close>

definition Swap1 :: "bool \<Rightarrow> byte \<Rightarrow> byte" where
  "Swap1 le v = v"

definition Swap2 :: "bool \<Rightarrow> bool \<Rightarrow> u16 \<Rightarrow> u16" where
  "Swap2 s le v =
     (if ShouldSwap le
      then (let p = promote s v in ucast (signed_drop_bit 8 p OR push_bit 8 p))
      else v)"

definition Swap4 :: "bool \<Rightarrow> u32 \<Rightarrow> u32" where
  "Swap4 le v =
     (if ShouldSwap le
      then push_bit 16 (promote False (Swap2 False le (ucast (v AND 0xffff)))) OR
           promote False (Swap2 False le (ucast (drop_bit 16 (v AND 0xffff0000))))
      else v)"

definition Swap8 :: "bool \<Rightarrow> bool \<Rightarrow> u64 \<Rightarrow> u64" where
  "Swap8 s le v =
     (if ShouldSwap le
      then push_bit 32 (ucast (Swap4 le (ucast (v AND 0xffffffff)))) OR
           ucast (Swap4 le (ucast (shr s 32 v)))
      else v)"

text \<open>\<open>SwapByte<float, 4>\<close> and \<open>SwapByte<double, 8>\<close> swap inside a union.\<close>

definition SwapFloat :: "bool \<Rightarrow> u32 \<Rightarrow> u32" where
  "SwapFloat le v =
     (let c = mem_bytes le v in
      of_mem le (if ShouldSwap le then SwapBytes 1 2 (SwapBytes 0 3 c) else c))"

definition SwapDouble :: "bool \<Rightarrow> u64 \<Rightarrow> u64" where
  "SwapDouble le v =
     (let c = mem_bytes le v in
      of_mem le
        (if ShouldSwap le
         then SwapBytes 3 4 (SwapBytes 2 5 (SwapBytes 1 6 (SwapBytes 0 7 c)))
         else c))"

section \<open>Lemmas\<close>

lemma length_mem_bytes [simp, byte_simps]:
  "length (mem_bytes le (w :: 'a::len word)) = LENGTH('a) div 8"
  by (simp add: mem_bytes_def)

lemma of_mem_bytes [simp, byte_simps]:
  "8 dvd LENGTH('a) \<Longrightarrow> of_mem le (mem_bytes le w) = (w :: 'a::len word)"
  by (simp add: mem_bytes_def of_mem_def)

lemma ShouldSwap_iff [simp]: "ShouldSwap le \<longleftrightarrow> le"
  by (cases le) (simp_all add: ShouldSwap_def mem_bytes_def be_bytes_def le_bytes_def upt_rec)

lemma le_bytes_16:
  "le_bytes (v :: u16) = [ucast v, ucast (drop_bit 8 v)]"
  by (simp add: le_bytes_def upt_rec)

lemma le_bytes_32:
  "le_bytes (v :: u32) =
     [ucast v, ucast (drop_bit 8 v), ucast (drop_bit 16 v), ucast (drop_bit 24 v)]"
  by (simp add: le_bytes_def upt_rec)

lemma le_bytes_64:
  "le_bytes (v :: u64) =
     [ucast v, ucast (drop_bit 8 v), ucast (drop_bit 16 v), ucast (drop_bit 24 v),
      ucast (drop_bit 32 v), ucast (drop_bit 40 v), ucast (drop_bit 48 v), ucast (drop_bit 56 v)]"
  by (simp add: le_bytes_def upt_rec)

text \<open>Bit by bit: what each swap does to the pattern on a little-endian host.\<close>

lemma bit_mask_words [simp]:
  "bit (0xffff :: u32) n \<longleftrightarrow> n < 16"
  "bit (0xffff0000 :: u32) n \<longleftrightarrow> 16 \<le> n \<and> n < 32"
  "bit (0xffffffff :: u64) n \<longleftrightarrow> n < 32"
  "bit (0xffff :: u16) n \<longleftrightarrow> n < 16"
  "bit (0xffffffff :: u32) n \<longleftrightarrow> n < 32"
  "bit (0xffff :: int) n \<longleftrightarrow> n < 16"
  "bit (0xffffffff :: int) n \<longleftrightarrow> n < 32"
proof -
  have "(0xffff :: u32) = mask 16" by (simp add: mask_numeral)
  then show "bit (0xffff :: u32) n \<longleftrightarrow> n < 16"
    by (simp only: bit_mask_iff) auto
  have "(0xffff0000 :: u32) = push_bit 16 (mask 16)" by (simp add: mask_numeral)
  then show "bit (0xffff0000 :: u32) n \<longleftrightarrow> 16 \<le> n \<and> n < 32"
    by (simp only: bit_push_bit_iff bit_mask_iff) auto
  have "(0xffffffff :: u64) = mask 32" by (simp add: mask_numeral)
  then show "bit (0xffffffff :: u64) n \<longleftrightarrow> n < 32"
    by (simp only: bit_mask_iff) auto
  have "(0xffff :: u16) = mask 16" by (simp add: mask_numeral)
  then show "bit (0xffff :: u16) n \<longleftrightarrow> n < 16"
    by (simp only: bit_mask_iff) auto
  have "(0xffffffff :: u32) = mask 32" by (simp add: mask_numeral)
  then show "bit (0xffffffff :: u32) n \<longleftrightarrow> n < 32"
    by (simp only: bit_mask_iff) auto
  have "(0xffff :: int) = mask 16" by (simp add: mask_numeral)
  then show "bit (0xffff :: int) n \<longleftrightarrow> n < 16"
    by (simp only: bit_mask_iff) auto
  have "(0xffffffff :: int) = mask 32" by (simp add: mask_numeral)
  then show "bit (0xffffffff :: int) n \<longleftrightarrow> n < 32"
    by (simp only: bit_mask_iff) auto
qed

lemma in_byte_mod [simp]:
  fixes n :: nat
  assumes "n < 8"
  shows "(16 + n) mod 8 = n" "(24 + n) mod 8 = n"
  using assms by presburger+

lemmas bit_word_simps =
  bit_or_iff bit_and_iff bit_push_bit_iff bit_drop_bit_eq bit_ucast_iff bit_signed_drop_bit_iff

lemma bit_Swap2_unsigned:
  "bit (Swap2 False True v) n \<longleftrightarrow> n < 16 \<and> bit v (if n < 8 then 8 + n else n - 8)"
  using bit_imp_le_length [of v n]
  by (auto simp: Swap2_def Let_def promote_def bit_word_simps dest: bit_imp_le_length)

lemma bit_Swap4:
  "bit (Swap4 True v) n \<longleftrightarrow> n < 32 \<and> bit v (24 - 8 * (n div 8) + n mod 8)"
proof (cases "n < 32")
  case True
  then consider "n < 8" | "8 \<le> n" "n < 16" | "16 \<le> n" "n < 24" | "24 \<le> n" "n < 32"
    by linarith
  then show ?thesis
  proof cases
    case 1
    then show ?thesis
      by (auto simp: Swap4_def promote_def bit_word_simps bit_Swap2_unsigned)
  next
    case 2
    then have "n div 8 = 1" "n mod 8 = n - 8" by (simp_all add: le_div_geq le_mod_geq)
    with 2 show ?thesis
      by (auto simp: Swap4_def promote_def bit_word_simps bit_Swap2_unsigned)
  next
    case 3
    then have "n div 8 = 2" "n mod 8 = n - 16" by (simp_all add: le_div_geq le_mod_geq)
    with 3 show ?thesis
      by (auto simp: Swap4_def promote_def bit_word_simps bit_Swap2_unsigned)
  next
    case 4
    then have "n div 8 = 3" "n mod 8 = n - 24" by (simp_all add: le_div_geq le_mod_geq)
    with 4 show ?thesis
      by (auto simp: Swap4_def promote_def bit_word_simps bit_Swap2_unsigned)
  qed
next
  case False
  then show ?thesis using bit_imp_le_length [of "Swap4 True v" n] by auto
qed

lemma shr_low_word: "(ucast (shr s 32 (v :: u64)) :: u32) = ucast (drop_bit 32 v)"
  by (rule bit_word_eqI) (auto simp: shr_def bit_word_simps)

text \<open>The bytes of a swapped value, for the unsigned types and for all 4 and 8 byte types.\<close>

lemma le_bytes_Swap2: "le_bytes (Swap2 False True v) = be_bytes v"
  unfolding be_bytes_def le_bytes_16
  by (auto intro!: bit_word_eqI simp: bit_word_simps bit_Swap2_unsigned)

lemma le_bytes_Swap4: "le_bytes (Swap4 True v) = be_bytes v"
  unfolding be_bytes_def le_bytes_32
  by (auto intro!: bit_word_eqI simp: bit_word_simps bit_Swap4 div_add1_eq)

lemma bit_Swap8:
  "bit (Swap8 s True v) n \<longleftrightarrow>
     n < 64 \<and> (if n < 32 then bit (Swap4 True (ucast (drop_bit 32 v))) n
               else bit (Swap4 True (ucast v)) (n - 32))"
  by (auto simp: Swap8_def shr_low_word bit_word_simps bit_Swap4)

lemma le_bytes_Swap8: "le_bytes (Swap8 s True v) = be_bytes v"
  unfolding be_bytes_def le_bytes_64
  by (auto intro!: bit_word_eqI simp: bit_word_simps bit_Swap8 bit_Swap4 div_add1_eq)

lemma SwapBytes_float:
  "length c = 4 \<Longrightarrow> SwapBytes (Suc 0) 2 (SwapBytes 0 3 c) = rev c"
  by (auto simp: SwapBytes_def numeral_eq_Suc length_Suc_conv)

lemma SwapBytes_double:
  "length c = 8 \<Longrightarrow>
   SwapBytes 3 4 (SwapBytes 2 5 (SwapBytes (Suc 0) 6 (SwapBytes 0 7 c))) = rev c"
  by (auto simp: SwapBytes_def numeral_eq_Suc length_Suc_conv)

lemma rev_le_bytes [simp]: "rev (le_bytes w) = be_bytes w"
  by (simp add: be_bytes_def)

lemma le_bytes_word_of_le:
  assumes "length bs = LENGTH('a) div 8" and "8 dvd LENGTH('a)"
  shows "le_bytes (word_of_le bs :: 'a::len word) = bs"
proof (rule nth_equalityI)
  show "length (le_bytes (word_of_le bs :: 'a word)) = length bs" using assms by simp
next
  fix i assume "i < length (le_bytes (word_of_le bs :: 'a word))"
  then have i: "i < LENGTH('a) div 8" by simp
  have "(ucast (drop_bit (8 * i) (word_of_le bs :: 'a word)) :: byte) = bs ! i"
  proof (rule bit_word_eqI)
    fix n assume "n < LENGTH(8)"
    then have n: "n < 8" by simp
    then have idx: "(8 * i + n) div 8 = i" "(8 * i + n) mod 8 = n" by simp_all
    from i assms(2) have "8 * i + 8 \<le> LENGTH('a)" by auto
    with n have "8 * i + n < LENGTH('a)" by linarith
    with n i idx assms show "bit (ucast (drop_bit (8 * i) (word_of_le bs :: 'a word)) :: byte) n
        \<longleftrightarrow> bit (bs ! i) n"
      by (simp add: bit_ucast_iff bit_drop_bit_eq bit_word_of_le)
  qed
  with i show "le_bytes (word_of_le bs :: 'a word) ! i = bs ! i"
    by (simp add: le_bytes_def)
qed

text \<open>On either host the bytes that go on the wire are the big-endian ones.\<close>

lemma wire_Swap2: "mem_bytes le (Swap2 False le v) = be_bytes v"
  by (cases le) (simp_all add: mem_bytes_def le_bytes_Swap2, simp add: Swap2_def)

lemma wire_Swap4: "mem_bytes le (Swap4 le v) = be_bytes v"
  by (cases le) (simp_all add: mem_bytes_def le_bytes_Swap4, simp add: Swap4_def)

lemma wire_Swap8: "mem_bytes le (Swap8 s le v) = be_bytes v"
  by (cases le) (simp_all add: mem_bytes_def le_bytes_Swap8, simp add: Swap8_def)

lemma wire_SwapFloat: "mem_bytes le (SwapFloat le v) = be_bytes v"
  by (cases le)
    (simp_all add: mem_bytes_def of_mem_def SwapFloat_def SwapBytes_float le_bytes_word_of_le)

lemma wire_SwapDouble: "mem_bytes le (SwapDouble le v) = be_bytes v"
  by (cases le)
    (simp_all add: mem_bytes_def of_mem_def SwapDouble_def SwapBytes_double le_bytes_word_of_le)

text \<open>Swapping twice is the identity, hence reading back what was written.\<close>

lemma swap_twice:
  assumes wire: "\<And>v. mem_bytes le (f v) = be_bytes (v :: 'a::len word)" and "8 dvd LENGTH('a)"
  shows "f (f v) = v"
proof -
  have "mem_bytes le (f (f v)) = mem_bytes le v"
  proof (cases le)
    case True
    then have "rev (le_bytes (f v)) = le_bytes v"
      using wire [of v] by (simp add: mem_bytes_def be_bytes_def del: rev_le_bytes)
    with True show ?thesis using wire [of "f v"] by (simp add: mem_bytes_def)
  next
    case False
    then show ?thesis using wire by (simp add: mem_bytes_def)
  qed
  then have "of_mem le (mem_bytes le (f (f v))) = (of_mem le (mem_bytes le v) :: 'a word)"
    by simp
  then show ?thesis using assms(2) by simp
qed

lemma Swap2_twice [simp]: "Swap2 False le (Swap2 False le v) = v"
  by (rule swap_twice [of le]) (simp_all add: wire_Swap2)

lemma Swap4_twice [simp]: "Swap4 le (Swap4 le v) = v"
  by (rule swap_twice [of le]) (simp_all add: wire_Swap4)

lemma Swap8_twice [simp]: "Swap8 s le (Swap8 s le v) = v"
  by (rule swap_twice [of le]) (simp_all add: wire_Swap8)

lemma SwapFloat_twice [simp]: "SwapFloat le (SwapFloat le v) = v"
  by (rule swap_twice [of le]) (simp_all add: wire_SwapFloat)

lemma SwapDouble_twice [simp]: "SwapDouble le (SwapDouble le v) = v"
  by (rule swap_twice [of le]) (simp_all add: wire_SwapDouble)

text \<open>
  \<open>short\<close>: the promoted operand is sign-extended and shifted arithmetically, so copies of
  the sign bit are or-ed into the high byte.
\<close>

lemma bit_Swap2_signed:
  "bit (Swap2 True True v) n \<longleftrightarrow>
     n < 16 \<and> (if n < 8 then bit v (8 + n) else bit v 15 \<or> bit v (n - 8))"
proof (cases "n = 7")
  case True
  then show ?thesis
    by (auto simp: Swap2_def Let_def promote_def bit_word_simps bit_signed_iff min_def)
next
  case False
  then show ?thesis
    by (auto simp: Swap2_def Let_def promote_def bit_word_simps bit_signed_iff min_def)
qed

lemma Swap2_signed_twice:
  "Swap2 True True (Swap2 True True v) = v \<longleftrightarrow> (\<not> bit v 7 \<and> \<not> bit v 15) \<or> v = - 1"
proof -
  have twice: "bit (Swap2 True True (Swap2 True True v)) n \<longleftrightarrow>
      (if n < 8 then bit v 15 \<or> bit v n else bit v 15 \<or> bit v 7 \<or> bit v n)" if "n < 16" for n
    using that by (auto simp: bit_Swap2_signed)
  show ?thesis
  proof
    assume eq: "Swap2 True True (Swap2 True True v) = v"
    have all: "n < 16 \<Longrightarrow> bit v 15 \<Longrightarrow> bit v n" for n
      using twice [of n] eq by (auto split: if_splits)
    have "bit v 7 \<Longrightarrow> bit v 15"
      using twice [of 15] eq by auto
    moreover have "bit v 15 \<Longrightarrow> v = - 1"
      using all by (auto intro!: bit_word_eqI)
    ultimately show "(\<not> bit v 7 \<and> \<not> bit v 15) \<or> v = - 1" by blast
  next
    assume "(\<not> bit v 7 \<and> \<not> bit v 15) \<or> v = - 1"
    then show "Swap2 True True (Swap2 True True v) = v"
      by (intro bit_word_eqI) (auto simp: twice)
  qed
qed

end
