(* ===== verification/Binary.thy ===== *)
theory Binary
  imports Endian
begin

text \<open>
  \<open>codec::Binary<streamT>\<close> of \<^verbatim>\<open>src/protocol/archive.hpp\<close>: the overloads of \<open>operator&\<close> that write a
  value to a stream (the \<open>const\<close> overloads) or read one into an existing object (the others).
  The overload set is the datatype \<open>cty\<close> of the C++ types it accepts; \<open>put\<close> and \<open>get\<close>
  recurse over it the way the templates instantiate each other.  \<open>wire\<close> is the format the
  overloads are meant to produce, written down independently of the host.  The stream is
  the \<open>std::stringstream\<close> the repository instantiates the template with.
\<close>

section \<open>The stream\<close>

record stream =
  pending :: "byte list"   \<comment> \<open>written and not yet read\<close>
  failed :: bool           \<comment> \<open>\<open>failbit\<close>: \<open>!stream_\<close>\<close>

abbreviation good :: "byte list \<Rightarrow> stream" where
  "good bs \<equiv> \<lparr>pending = bs, failed = False\<rparr>"

definition stream_write :: "byte list \<Rightarrow> stream \<Rightarrow> stream" where
  "stream_write bs s = (if failed s then s else s\<lparr>pending := pending s @ bs\<rparr>)"

definition stream_read :: "nat \<Rightarrow> stream \<Rightarrow> byte list \<times> stream" where
  "stream_read n s =
     (if failed s then ([], s)
      else if n \<le> length (pending s) then (take n (pending s), s\<lparr>pending := drop n (pending s)\<rparr>)
      else (pending s, s\<lparr>pending := [], failed := True\<rparr>))"

text \<open>Decoders: a fallible read that also moves the stream.\<close>

type_synonym 'a dec = "stream \<Rightarrow> ('a \<times> stream) res"

definition retD :: "'a \<Rightarrow> 'a dec" where
  "retD x s = Inr (x, s)"

definition bindD :: "'a dec \<Rightarrow> ('a \<Rightarrow> 'b dec) \<Rightarrow> 'b dec" where
  "bindD d f s = bindE (d s) (\<lambda>(x, s'). f x s')"

definition failD :: "fault \<Rightarrow> 'a dec" where
  "failD e s = Inl e"

text \<open>\<open>stream_.read(p, n); if (!stream_) throw std::runtime_error("malformed data");\<close>\<close>

definition read_checked :: "nat \<Rightarrow> byte list dec" where
  "read_checked n s =
     (let (bs, s') = stream_read n s in if failed s' then Inl Malformed_data else Inr (bs, s'))"

section \<open>The types the overloads accept\<close>

datatype pod =
    PBool | PChar | PUChar | PShort | PUShort | PInt | PUInt | PLong | PULong | PLongLong | PULongLong
  | PFloat | PDouble

datatype seq_kind = Vector | Deque | List_

datatype cty =
    Pod pod
  | Array cty nat
  | Seq seq_kind cty
  | Set cty
  | Multiset cty
  | Map cty cty
  | Multimap cty cty
  | Pair cty cty
  | Str

datatype cval =
    VBool bool
  | V8 byte
  | V16 u16
  | V32 u32
  | V64 u64
  | VSeq "cval list"       \<comment> \<open>arrays and containers, in iteration order\<close>
  | VPair cval cval
  | VString "byte list"

fun elems :: "cval \<Rightarrow> cval list" where
  "elems (VSeq vs) = vs"
| "elems _ = []"

fun first :: "cval \<Rightarrow> cval" where
  "first (VPair a b) = a"
| "first v = v"

fun second :: "cval \<Rightarrow> cval" where
  "second (VPair a b) = b"
| "second v = v"

fun chars :: "cval \<Rightarrow> byte list" where
  "chars (VString bs) = bs"
| "chars _ = []"

fun truth :: "cval \<Rightarrow> bool" where
  "truth (VBool b) = b"
| "truth _ = False"

fun word8 :: "cval \<Rightarrow> byte" where
  "word8 (V8 w) = w"
| "word8 _ = 0"

fun word16 :: "cval \<Rightarrow> u16" where
  "word16 (V16 w) = w"
| "word16 _ = 0"

fun word64 :: "cval \<Rightarrow> u64" where
  "word64 (V64 w) = w"
| "word64 _ = 0"

fun word32 :: "cval \<Rightarrow> u32" where
  "word32 (V32 w) = w"
| "word32 _ = 0"

section \<open>Scalars\<close>

fun size_of :: "pod \<Rightarrow> nat" where
  "size_of PBool = 1"
| "size_of PChar = 1"
| "size_of PUChar = 1"
| "size_of PShort = 2"
| "size_of PUShort = 2"
| "size_of PInt = 4"
| "size_of PUInt = 4"
| "size_of PFloat = 4"
| "size_of _ = 8"

text \<open>\<open>Binary::Swap\<close>: \<open>endian::SwapByte<T, sizeof(T)>::Swap\<close>.\<close>

fun Swap :: "bool \<Rightarrow> pod \<Rightarrow> cval \<Rightarrow> cval" where
  "Swap le PBool v = v"
| "Swap le PChar v = V8 (Swap1 le (word8 v))"
| "Swap le PUChar v = V8 (Swap1 le (word8 v))"
| "Swap le PShort v = V16 (Swap2 True le (word16 v))"
| "Swap le PUShort v = V16 (Swap2 False le (word16 v))"
| "Swap le PInt v = V32 (Swap4 le (word32 v))"
| "Swap le PUInt v = V32 (Swap4 le (word32 v))"
| "Swap le PLong v = V64 (Swap8 True le (word64 v))"
| "Swap le PULong v = V64 (Swap8 False le (word64 v))"
| "Swap le PLongLong v = V64 (Swap8 True le (word64 v))"
| "Swap le PULongLong v = V64 (Swap8 False le (word64 v))"
| "Swap le PFloat v = V32 (SwapFloat le (word32 v))"
| "Swap le PDouble v = V64 (SwapDouble le (word64 v))"

text \<open>\<open>(const char*)&v\<close> and the object read back from it.\<close>

fun object_bytes :: "bool \<Rightarrow> cval \<Rightarrow> byte list" where
  "object_bytes le (VBool b) = [if b then 1 else 0]"
| "object_bytes le (V8 b) = [b]"
| "object_bytes le (V16 w) = mem_bytes le w"
| "object_bytes le (V32 w) = mem_bytes le w"
| "object_bytes le (V64 w) = mem_bytes le w"
| "object_bytes le _ = []"

definition object_of :: "bool \<Rightarrow> pod \<Rightarrow> byte list \<Rightarrow> cval res" where
  "object_of le p bs =
     (if p = PBool then (if bs = [0] then Inr (VBool False)
                        else if bs = [1] then Inr (VBool True) else Inl Invalid_bool)
      else if size_of p = 1 then Inr (V8 (of_mem le bs))
      else if size_of p = 2 then Inr (V16 (of_mem le bs))
      else if size_of p = 4 then Inr (V32 (of_mem le bs))
      else Inr (V64 (of_mem le bs)))"

definition put_pod :: "bool \<Rightarrow> pod \<Rightarrow> cval \<Rightarrow> stream \<Rightarrow> stream" where
  "put_pod le p v s = stream_write (object_bytes le (Swap le p v)) s"

definition get_pod :: "bool \<Rightarrow> pod \<Rightarrow> cval dec" where
  "get_pod le p =
     bindD (read_checked (size_of p))
       (\<lambda>bs s. bindE (object_of le p bs) (\<lambda>v. Inr (Swap le p v, s)))"

definition put_len :: "bool \<Rightarrow> nat \<Rightarrow> stream \<Rightarrow> stream" where
  "put_len le n s = put_pod le PUInt (V32 (of_nat n)) s"

definition get_len :: "bool \<Rightarrow> u32 dec" where
  "get_len le = bindD (get_pod le PUInt) (\<lambda>v. retD (word32 v))"

section \<open>Ordering of keys\<close>

text \<open>
  \<open>std::less\<close> on the key types of \<open>std::set\<close> and \<open>std::map\<close>.  Containers compare
  lexicographically, pairs by \<open>first\<close> and then \<open>second\<close>, strings by unsigned characters,
  floating-point numbers by IEEE 754 (a NaN is not less than anything, the zeros are equal).
\<close>

fun lex_less :: "('a \<Rightarrow> 'a \<Rightarrow> bool) \<Rightarrow> 'a list \<Rightarrow> 'a list \<Rightarrow> bool" where
  "lex_less lt [] ys = (ys \<noteq> [])"
| "lex_less lt (x # xs) [] = False"
| "lex_less lt (x # xs) (y # ys) =
     (if lt x y then True else if lt y x then False else lex_less lt xs ys)"

definition ieee_less :: "nat \<Rightarrow> 'a::len word \<Rightarrow> 'a word \<Rightarrow> bool" where
  "ieee_less infinity a b =
     (let mag = (\<lambda>w. unat (take_bit (LENGTH('a) - 1) w));
          num = (\<lambda>w. if bit w (LENGTH('a) - 1) then - int (mag w) else int (mag w))
      in mag a \<le> infinity \<and> mag b \<le> infinity \<and> num a < num b)"

fun pod_less :: "pod \<Rightarrow> cval \<Rightarrow> cval \<Rightarrow> bool" where
  "pod_less PBool a b = (\<not> truth a \<and> truth b)"
| "pod_less PChar a b = (sint (word8 a) < sint (word8 b))"
| "pod_less PUChar a b = (uint (word8 a) < uint (word8 b))"
| "pod_less PShort a b = (sint (word16 a) < sint (word16 b))"
| "pod_less PUShort a b = (uint (word16 a) < uint (word16 b))"
| "pod_less PInt a b = (sint (word32 a) < sint (word32 b))"
| "pod_less PUInt a b = (uint (word32 a) < uint (word32 b))"
| "pod_less PLong a b = (sint (word64 a) < sint (word64 b))"
| "pod_less PULong a b = (uint (word64 a) < uint (word64 b))"
| "pod_less PLongLong a b = (sint (word64 a) < sint (word64 b))"
| "pod_less PULongLong a b = (uint (word64 a) < uint (word64 b))"
| "pod_less PFloat a b = ieee_less 0x7f800000 (word32 a) (word32 b)"
| "pod_less PDouble a b = ieee_less 0x7ff0000000000000 (word64 a) (word64 b)"

definition pair_less :: "(cval \<Rightarrow> cval \<Rightarrow> bool) \<Rightarrow> (cval \<Rightarrow> cval \<Rightarrow> bool) \<Rightarrow> cval \<Rightarrow> cval \<Rightarrow> bool" where
  "pair_less lt1 lt2 a b \<longleftrightarrow>
     lt1 (first a) (first b) \<or> (\<not> lt1 (first b) (first a) \<and> lt2 (second a) (second b))"

primrec less_val :: "cty \<Rightarrow> cval \<Rightarrow> cval \<Rightarrow> bool" where
  "less_val (Pod p) a b = pod_less p a b"
| "less_val (Array t n) a b = False"
| "less_val (Seq k t) a b = lex_less (less_val t) (elems a) (elems b)"
| "less_val (Set t) a b = lex_less (less_val t) (elems a) (elems b)"
| "less_val (Multiset t) a b = lex_less (less_val t) (elems a) (elems b)"
| "less_val (Map k t) a b = lex_less (pair_less (less_val k) (less_val t)) (elems a) (elems b)"
| "less_val (Multimap k t) a b = lex_less (pair_less (less_val k) (less_val t)) (elems a) (elems b)"
| "less_val (Pair t1 t2) a b = pair_less (less_val t1) (less_val t2) a b"
| "less_val Str a b = lex_less (\<lambda>x y. uint x < uint y) (chars a) (chars b)"

text \<open>
  \<open>v.insert(v.end(), value)\<close>: at the end of a sequence; in order, dropping an equivalent key,
  for \<open>set\<close> and \<open>map\<close>; at the upper bound for \<open>multiset\<close> and \<open>multimap\<close>.
\<close>

definition ins_back :: "cval \<Rightarrow> cval list \<Rightarrow> cval list" where
  "ins_back x xs = xs @ [x]"

fun ins_unique :: "(cval \<Rightarrow> cval \<Rightarrow> bool) \<Rightarrow> cval \<Rightarrow> cval list \<Rightarrow> cval list" where
  "ins_unique lt x [] = [x]"
| "ins_unique lt x (y # ys) =
     (if lt x y then x # y # ys else if lt y x then y # ins_unique lt x ys else y # ys)"

fun ins_equal :: "(cval \<Rightarrow> cval \<Rightarrow> bool) \<Rightarrow> cval \<Rightarrow> cval list \<Rightarrow> cval list" where
  "ins_equal lt x [] = [x]"
| "ins_equal lt x (y # ys) = (if lt x y then x # y # ys else y # ins_equal lt x ys)"

definition key_less :: "cty \<Rightarrow> cval \<Rightarrow> cval \<Rightarrow> bool" where
  "key_less k a b = less_val k (first a) (first b)"

section \<open>Writing and reading\<close>

text \<open>The value \<open>T value;\<close> starts with (scalars are overwritten before they are read).\<close>

fun dflt_pod :: "pod \<Rightarrow> cval" where
  "dflt_pod p = (if p = PBool then VBool False else if size_of p = 1 then V8 0
     else if size_of p = 2 then V16 0 else if size_of p = 4 then V32 0 else V64 0)"

primrec dflt :: "cty \<Rightarrow> cval" where
  "dflt (Pod p) = dflt_pod p"
| "dflt (Array t n) = VSeq (replicate n (dflt t))"
| "dflt (Seq k t) = VSeq []"
| "dflt (Set t) = VSeq []"
| "dflt (Multiset t) = VSeq []"
| "dflt (Map k t) = VSeq []"
| "dflt (Multimap k t) = VSeq []"
| "dflt (Pair t1 t2) = VPair (dflt t1) (dflt t2)"
| "dflt Str = VString []"

primrec put :: "cty \<Rightarrow> bool \<Rightarrow> cval \<Rightarrow> stream \<Rightarrow> stream" where
  "put (Pod p) le v s = put_pod le p v s"
| "put (Array t n) le v s = fold (put t le) (elems v) (put_len le n s)"
| "put (Seq k t) le v s = fold (put t le) (elems v) (put_len le (length (elems v)) s)"
| "put (Set t) le v s = fold (put t le) (elems v) (put_len le (length (elems v)) s)"
| "put (Multiset t) le v s = fold (put t le) (elems v) (put_len le (length (elems v)) s)"
| "put (Map k t) le v s =
     fold (\<lambda>p s. put t le (second p) (put k le (first p) s)) (elems v)
       (put_len le (length (elems v)) s)"
| "put (Multimap k t) le v s =
     fold (\<lambda>p s. put t le (second p) (put k le (first p) s)) (elems v)
       (put_len le (length (elems v)) s)"
| "put (Pair t1 t2) le v s = put t2 le (second v) (put t1 le (first v) s)"
| "put Str le v s =
     (let len = of_nat (length (chars v)) :: u32 in
      stream_write (take (unat len) (chars v)) (put_pod le PUInt (V32 len) s))"

text \<open>The loops: over the elements of an array, and \<open>len\<close> times for a container.\<close>

primrec get_elems :: "(cval \<Rightarrow> cval dec) \<Rightarrow> cval list \<Rightarrow> cval list dec" where
  "get_elems d [] = retD []"
| "get_elems d (v # vs) = bindD (d v) (\<lambda>x. bindD (get_elems d vs) (\<lambda>xs. retD (x # xs)))"

primrec get_loop :: "cval dec \<Rightarrow> (cval \<Rightarrow> cval list \<Rightarrow> cval list) \<Rightarrow> nat \<Rightarrow> cval list \<Rightarrow> cval list dec" where
  "get_loop d ins 0 acc = retD acc"
| "get_loop d ins (Suc n) acc = bindD d (\<lambda>x. get_loop d ins n (ins x acc))"

text \<open>\<open>while (toRead != 0)\<close>: a string is read through a buffer of 4096 bytes.\<close>

function get_chunks :: "nat \<Rightarrow> byte list \<Rightarrow> byte list dec" where
  "get_chunks toRead acc =
     (if toRead = 0 then retD acc
      else let l = min toRead 4096 in
        bindD (read_checked l) (\<lambda>bs. get_chunks (toRead - l) (acc @ bs)))"
  by pat_completeness auto
termination
  by (relation "measure fst") auto

declare get_chunks.simps [simp del]

primrec get :: "cty \<Rightarrow> bool \<Rightarrow> cval \<Rightarrow> cval dec" where
  "get (Pod p) le v = get_pod le p"
| "get (Array t n) le v =
     bindD (get_len le) (\<lambda>len. bindD (get_elems (get t le) (elems v)) (\<lambda>xs. retD (VSeq xs)))"
| "get (Seq k t) le v =
     bindD (get_len le) (\<lambda>len.
       bindD (get_loop (get t le (dflt t)) ins_back (unat len) (elems v)) (\<lambda>xs. retD (VSeq xs)))"
| "get (Set t) le v =
     bindD (get_len le) (\<lambda>len.
       bindD (get_loop (get t le (dflt t)) (ins_unique (less_val t)) (unat len) (elems v))
         (\<lambda>xs. retD (VSeq xs)))"
| "get (Multiset t) le v =
     bindD (get_len le) (\<lambda>len.
       bindD (get_loop (get t le (dflt t)) (ins_equal (less_val t)) (unat len) (elems v))
         (\<lambda>xs. retD (VSeq xs)))"
| "get (Map k t) le v =
     bindD (get_len le) (\<lambda>len.
       bindD (get_loop
           (bindD (get k le (dflt k)) (\<lambda>a. bindD (get t le (dflt t)) (\<lambda>b. retD (VPair a b))))
           (ins_unique (key_less k)) (unat len) (elems v))
         (\<lambda>xs. retD (VSeq xs)))"
| "get (Multimap k t) le v =
     bindD (get_len le) (\<lambda>len.
       bindD (get_loop
           (bindD (get k le (dflt k)) (\<lambda>a. bindD (get t le (dflt t)) (\<lambda>b. retD (VPair a b))))
           (ins_equal (key_less k)) (unat len) (elems v))
         (\<lambda>xs. retD (VSeq xs)))"
| "get (Pair t1 t2) le v =
     bindD (get t1 le (first v)) (\<lambda>a. bindD (get t2 le (second v)) (\<lambda>b. retD (VPair a b)))"
| "get Str le v =
     bindD (get_len le) (\<lambda>len. bindD (get_chunks (unat len) []) (\<lambda>bs. retD (VString bs)))"

section \<open>What is on the wire\<close>

text \<open>
  The well-formed values of a type (the elements of a \<open>set\<close> or \<open>map\<close> are in key order,
  every size fits the 32-bit length field), and the bytes that stand for them: every scalar
  big-endian, every container preceded by its 32-bit element count.
\<close>

fun pod_wt :: "pod \<Rightarrow> cval \<Rightarrow> bool" where
  "pod_wt p (VBool b) = (p = PBool)"
| "pod_wt p (V8 b) = (p = PChar \<or> p = PUChar)"
| "pod_wt p (V16 b) = (p = PShort \<or> p = PUShort)"
| "pod_wt p (V32 b) = (size_of p = 4)"
| "pod_wt p (V64 b) = (size_of p = 8)"
| "pod_wt p _ = False"

fun pair_wt :: "(cval \<Rightarrow> bool) \<Rightarrow> (cval \<Rightarrow> bool) \<Rightarrow> cval \<Rightarrow> bool" where
  "pair_wt P Q (VPair a b) = (P a \<and> Q b)"
| "pair_wt P Q _ = False"

fun seq_wt :: "(cval \<Rightarrow> bool) \<Rightarrow> (cval \<Rightarrow> cval \<Rightarrow> bool) \<Rightarrow> cval \<Rightarrow> bool" where
  "seq_wt P R (VSeq vs) = (list_all P vs \<and> sorted_wrt R vs \<and> length vs < 2 ^ 32)"
| "seq_wt P R _ = False"

fun is_string :: "cval \<Rightarrow> bool" where
  "is_string (VString bs) = (length bs < 2 ^ 32)"
| "is_string _ = False"

primrec wt :: "cty \<Rightarrow> cval \<Rightarrow> bool" where
  "wt (Pod p) v = pod_wt p v"
| "wt (Array t n) v = (seq_wt (wt t) (\<lambda>a b. True) v \<and> length (elems v) = n)"
| "wt (Seq k t) v = seq_wt (wt t) (\<lambda>a b. True) v"
| "wt (Set t) v = seq_wt (wt t) (less_val t) v"
| "wt (Multiset t) v = seq_wt (wt t) (\<lambda>a b. \<not> less_val t b a) v"
| "wt (Map k t) v = seq_wt (pair_wt (wt k) (wt t)) (key_less k) v"
| "wt (Multimap k t) v = seq_wt (pair_wt (wt k) (wt t)) (\<lambda>a b. \<not> key_less k b a) v"
| "wt (Pair t1 t2) v = pair_wt (wt t1) (wt t2) v"
| "wt Str v = is_string v"

fun wire_pod :: "cval \<Rightarrow> byte list" where
  "wire_pod (VBool b) = [if b then 1 else 0]"
| "wire_pod (V8 b) = [b]"
| "wire_pod (V16 w) = be_bytes w"
| "wire_pod (V32 w) = be_bytes w"
| "wire_pod (V64 w) = be_bytes w"
| "wire_pod _ = []"

definition wire_len :: "nat \<Rightarrow> byte list" where
  "wire_len n = be_bytes (of_nat n :: u32)"

primrec wire :: "cty \<Rightarrow> cval \<Rightarrow> byte list" where
  "wire (Pod p) v = wire_pod v"
| "wire (Array t n) v = wire_len n @ concat (map (wire t) (elems v))"
| "wire (Seq k t) v = wire_len (length (elems v)) @ concat (map (wire t) (elems v))"
| "wire (Set t) v = wire_len (length (elems v)) @ concat (map (wire t) (elems v))"
| "wire (Multiset t) v = wire_len (length (elems v)) @ concat (map (wire t) (elems v))"
| "wire (Map k t) v =
     wire_len (length (elems v)) @ concat (map (\<lambda>p. wire k (first p) @ wire t (second p)) (elems v))"
| "wire (Multimap k t) v =
     wire_len (length (elems v)) @ concat (map (\<lambda>p. wire k (first p) @ wire t (second p)) (elems v))"
| "wire (Pair t1 t2) v = wire t1 (first v) @ wire t2 (second v)"
| "wire Str v = wire_len (length (chars v)) @ chars v"

text \<open>Types in which no \<open>short\<close> occurs.\<close>

primrec no_short :: "cty \<Rightarrow> bool" where
  "no_short (Pod p) = (p \<noteq> PShort)"
| "no_short (Array t n) = no_short t"
| "no_short (Seq k t) = no_short t"
| "no_short (Set t) = no_short t"
| "no_short (Multiset t) = no_short t"
| "no_short (Map k t) = (no_short k \<and> no_short t)"
| "no_short (Multimap k t) = (no_short k \<and> no_short t)"
| "no_short (Pair t1 t2) = (no_short t1 \<and> no_short t2)"
| "no_short Str = True"

text \<open>Objects into which a value can be read without mixing with old contents.\<close>

primrec fresh :: "cty \<Rightarrow> cval \<Rightarrow> bool" where
  "fresh (Pod p) v = True"
| "fresh (Array t n) v = (length (elems v) = n \<and> list_all (fresh t) (elems v))"
| "fresh (Seq k t) v = (elems v = [])"
| "fresh (Set t) v = (elems v = [])"
| "fresh (Multiset t) v = (elems v = [])"
| "fresh (Map k t) v = (elems v = [])"
| "fresh (Multimap k t) v = (elems v = [])"
| "fresh (Pair t1 t2) v = (fresh t1 (first v) \<and> fresh t2 (second v))"
| "fresh Str v = True"

section \<open>Decoders\<close>

lemma retD_apply [simp]: "retD x s = Inr (x, s)"
  by (simp add: retD_def)

lemma bindD_apply: "bindD d f s = bindE (d s) (\<lambda>(x, s'). f x s')"
  by (simp add: bindD_def)

lemma bindD_Inr [simp]: "d s = Inr (x, s') \<Longrightarrow> bindD d f s = f x s'"
  by (simp add: bindD_def)

lemma bindD_Inl [simp]: "d s = Inl e \<Longrightarrow> bindD d f s = Inl e"
  by (simp add: bindD_def)

lemma read_checked_good [simp]:
  "read_checked n (good bs) =
     (if n \<le> length bs then Inr (take n bs, good (drop n bs)) else Inl Malformed_data)"
  by (simp add: read_checked_def stream_read_def)

lemma read_checked_append [simp]:
  "length b = n \<Longrightarrow> read_checked n (good (b @ rest)) = Inr (b, good rest)"
  by simp

lemma stream_write_good [simp]: "stream_write bs (good w) = good (w @ bs)"
  by (simp add: stream_write_def)

section \<open>Scalars on the wire\<close>

lemma be_bytes_ne [simp]: "length (be_bytes (w :: u16)) = 2" "length (be_bytes (w' :: u32)) = 4"
    "length (be_bytes (w'' :: u64)) = 8"
  by simp_all

lemma length_wire_pod: "pod_wt p v \<Longrightarrow> length (wire_pod v) = size_of p"
  by (cases v) auto

lemma object_bytes_Swap:
  "pod_wt p v \<Longrightarrow> p \<noteq> PShort \<Longrightarrow> object_bytes le (Swap le p v) = wire_pod v"
  by (cases p; cases v)
    (auto simp: wire_Swap2 wire_Swap4 wire_Swap8 wire_SwapFloat wire_SwapDouble Swap1_def)

lemma pod_wt_Swap: "pod_wt p v \<Longrightarrow> pod_wt p (Swap le p v)"
  by (cases p) auto

lemma Swap_twice: "pod_wt p v \<Longrightarrow> p \<noteq> PShort \<Longrightarrow> Swap le p (Swap le p v) = v"
  by (cases p; cases v) (auto simp: Swap1_def)

lemma of_mem_singleton [simp]: "of_mem le [b] = (b :: byte)"
  using of_mem_bytes [where le = le and w = b]
  by (simp add: mem_bytes_def be_bytes_def le_bytes_def split: if_splits)

lemma object_of_bytes: "pod_wt p v \<Longrightarrow> object_of le p (object_bytes le v) = Inr v"
  by (cases p; cases v) (auto simp: object_of_def)

lemma get_pod_wire:
  assumes "pod_wt p v" and "p \<noteq> PShort"
  shows "get_pod le p (good (wire_pod v @ rest)) = Inr (v, good rest)"
proof -
  have "object_of le p (wire_pod v) = Inr (Swap le p v)"
    using object_of_bytes [OF pod_wt_Swap, of p v le le] object_bytes_Swap assms by simp
  with assms show ?thesis
    by (simp add: get_pod_def bindD_apply length_wire_pod Swap_twice)
qed

lemma put_pod_wire:
  assumes "pod_wt p v" and "p \<noteq> PShort"
  shows "put_pod le p v (good w) = good (w @ wire_pod v)"
  using assms by (simp add: put_pod_def object_bytes_Swap)

lemma get_len_wire [simp]:
  "n < 2 ^ 32 \<Longrightarrow> get_len le (good (wire_len n @ rest)) = Inr (of_nat n, good rest)"
  using get_pod_wire [of PUInt "V32 (of_nat n)" le rest]
  by (simp add: get_len_def wire_len_def)

lemma put_len_wire [simp]: "put_len le n (good w) = good (w @ wire_len n)"
  using put_pod_wire [of PUInt "V32 (of_nat n)" le w]
  by (simp add: put_len_def wire_len_def)

lemma unat_of_nat_len [simp]: "n < 2 ^ 32 \<Longrightarrow> unat (of_nat n :: u32) = n"
  by (simp add: unat_of_nat)

section \<open>The string loop\<close>

text \<open>Reading a string through the 4096 byte buffer is one read of the whole length.\<close>

lemma read_checked_split:
  assumes "m \<le> n"
  shows "bindD (read_checked m) (\<lambda>a. bindD (read_checked (n - m)) (\<lambda>b. f (a @ b))) (good bs) =
    bindD (read_checked n) f (good bs)"
  using assms by (auto simp: bindD_apply take_add [symmetric] add.commute min_def not_le)

lemma get_chunks_read:
  "get_chunks n acc (good bs) = bindD (read_checked n) (\<lambda>b. retD (acc @ b)) (good bs)"
proof (induction n acc arbitrary: bs rule: get_chunks.induct)
  case (1 n acc)
  show ?case
  proof (cases "n = 0")
    case True
    then show ?thesis by (simp add: get_chunks.simps bindD_apply)
  next
    case False
    let ?l = "min n 4096"
    have "get_chunks n acc (good bs) =
        bindD (read_checked ?l) (\<lambda>a. get_chunks (n - ?l) (acc @ a)) (good bs)"
      using False by (subst get_chunks.simps) (simp add: Let_def)
    also have "\<dots> = bindD (read_checked ?l)
        (\<lambda>a. bindD (read_checked (n - ?l)) (\<lambda>b. retD (acc @ (a @ b)))) (good bs)"
      using "1.IH" [OF False refl] by (simp add: bindD_apply del: min_def)
    also have "\<dots> = bindD (read_checked n) (\<lambda>b. retD (acc @ b)) (good bs)"
      by (rule read_checked_split) simp
    finally show ?thesis .
  qed
qed

section \<open>Round trips of elements give round trips of loops\<close>

text \<open>
  The contract the templates place on an element type: \<open>enc\<close> is what writing a well-formed
  value appends, \<open>dec\<close> reads it back into a fresh object and consumes exactly those bytes.
\<close>

locale elem_codec =
  fixes wf :: "cval \<Rightarrow> bool" and fresh_obj :: "cval \<Rightarrow> bool"
    and enc :: "cval \<Rightarrow> byte list" and dec :: "cval \<Rightarrow> cval dec"
  assumes dec_enc: "wf v \<Longrightarrow> fresh_obj i \<Longrightarrow> dec i (good (enc v @ rest)) = Inr (v, good rest)"
begin

lemma elems_roundtrip:
  "list_all wf vs \<Longrightarrow> list_all fresh_obj is \<Longrightarrow> length is = length vs \<Longrightarrow>
   get_elems dec is (good (concat (map enc vs) @ rest)) = Inr (vs, good rest)"
proof (induction vs arbitrary: "is")
  case Nil
  then show ?case by simp
next
  case (Cons v vs)
  then obtain i js where "is = i # js" by (cases "is") auto
  with Cons show ?case by (simp add: dec_enc)
qed

lemma loop_roundtrip:
  assumes "fresh_obj i"
  shows "list_all wf vs \<Longrightarrow>
   (\<And>xs x ys. acc @ vs = xs @ x # ys \<Longrightarrow> length acc \<le> length xs \<Longrightarrow> ins x xs = xs @ [x]) \<Longrightarrow>
   get_loop (dec i) ins (length vs) acc (good (concat (map enc vs) @ rest)) =
     Inr (acc @ vs, good rest)"
proof (induction vs arbitrary: acc)
  case Nil
  then show ?case by simp
next
  case (Cons v vs)
  have ins: "ins v acc = acc @ [v]"
    using Cons.prems(2) [of acc v vs] by simp
  have "get_loop (dec i) ins (length vs) (acc @ [v]) (good (concat (map enc vs) @ rest)) =
      Inr ((acc @ [v]) @ vs, good rest)"
    by (rule Cons.IH) (use Cons.prems in auto)
  with assms Cons.prems(1) ins show ?case
    by (simp add: dec_enc)
qed

text \<open>The elements of a container, in iteration order, into an empty object.\<close>

lemma container_roundtrip:
  assumes "list_all wf vs" and "fresh_obj i"
    and ins: "\<And>xs x ys. vs = xs @ x # ys \<Longrightarrow> ins x xs = xs @ [x]"
  shows "bindD (get_loop (dec i) ins (length vs) []) (\<lambda>xs. retD (VSeq xs))
      (good (concat (map enc vs) @ rest)) = Inr (VSeq vs, good rest)"
proof -
  have "get_loop (dec i) ins (length vs) [] (good (concat (map enc vs) @ rest)) =
      Inr ([] @ vs, good rest)"
    by (rule loop_roundtrip) (use assms in auto)
  then show ?thesis by simp
qed

end

section \<open>The order of keys\<close>

lemma lex_less_asym:
  assumes "\<And>x y. lt x y \<Longrightarrow> \<not> lt y x"
  shows "lex_less lt xs ys \<Longrightarrow> \<not> lex_less lt ys xs"
  using assms
proof (induction lt xs ys rule: lex_less.induct)
  case (1 lt ys)
  then show ?case by (cases ys) auto
qed (auto split: if_splits)

lemma ieee_less_asym: "ieee_less n a b \<Longrightarrow> \<not> ieee_less n b a"
  by (simp add: ieee_less_def Let_def)

lemma pod_less_asym: "pod_less p a b \<Longrightarrow> \<not> pod_less p b a"
  by (cases p) (auto dest: ieee_less_asym)

lemma pair_less_asym:
  assumes "\<And>x y. lt1 x y \<Longrightarrow> \<not> lt1 y x" and "\<And>x y. lt2 x y \<Longrightarrow> \<not> lt2 y x"
  shows "pair_less lt1 lt2 a b \<Longrightarrow> \<not> pair_less lt1 lt2 b a"
  using assms by (auto simp: pair_less_def)

lemma less_val_asym: "less_val t a b \<Longrightarrow> \<not> less_val t b a"
proof (induction t arbitrary: a b)
  case (Pod p)
  then show ?case by (simp add: pod_less_asym)
next
  case (Map k t)
  then show ?case
    using lex_less_asym [of "pair_less (less_val k) (less_val t)"]
      pair_less_asym [of "less_val k" "less_val t"] by auto
next
  case (Multimap k t)
  then show ?case
    using lex_less_asym [of "pair_less (less_val k) (less_val t)"]
      pair_less_asym [of "less_val k" "less_val t"] by auto
next
  case (Pair t1 t2)
  then show ?case using pair_less_asym [of "less_val t1" "less_val t2"] by auto
next
  case Str
  then show ?case using lex_less_asym [of "\<lambda>x y. uint (x :: byte) < uint y"] by simp
next
  case (Array t n)
  then show ?case by simp
next
  case (Seq k t)
  from lex_less_asym [OF Seq.IH] Seq.prems show ?case by simp
next
  case (Set t)
  from lex_less_asym [OF Set.IH] Set.prems show ?case by simp
next
  case (Multiset t)
  from lex_less_asym [OF Multiset.IH] Multiset.prems show ?case by simp
qed

lemma key_less_asym: "key_less k a b \<Longrightarrow> \<not> key_less k b a"
  by (simp add: key_less_def less_val_asym)

lemma ins_unique_back:
  assumes asym: "\<And>a b. lt a b \<Longrightarrow> \<not> lt b a"
  shows "(\<And>y. y \<in> set xs \<Longrightarrow> lt y x) \<Longrightarrow> ins_unique lt x xs = xs @ [x]"
  by (induction xs) (auto dest: asym)

lemma ins_equal_back: "(\<And>y. y \<in> set xs \<Longrightarrow> \<not> lt x y) \<Longrightarrow> ins_equal lt x xs = xs @ [x]"
  by (induction xs) auto

lemma sorted_wrt_middle:
  assumes "sorted_wrt R vs" and "vs = xs @ x # ys" and "y \<in> set xs"
  shows "R y x"
  using assms by (auto simp: sorted_wrt_append)

text \<open>A well-formed container is rebuilt by inserting its elements in iteration order.\<close>

lemma ins_unique_sorted:
  assumes "sorted_wrt lt vs" and "vs = xs @ x # ys" and "\<And>a b. lt a b \<Longrightarrow> \<not> lt b a"
  shows "ins_unique lt x xs = xs @ [x]"
  by (rule ins_unique_back [OF assms(3)], assumption) (rule sorted_wrt_middle [OF assms(1,2)])

lemma ins_equal_sorted:
  assumes "sorted_wrt (\<lambda>a b. \<not> lt b a) vs" and "vs = xs @ x # ys"
  shows "ins_equal lt x xs = xs @ [x]"
  by (rule ins_equal_back) (rule sorted_wrt_middle [OF assms])

section \<open>Round trip of every type\<close>

lemma fresh_dflt [simp]: "fresh t (dflt t)"
  by (induction t) (simp_all add: list_all_iff)

lemma seq_wtE:
  assumes "seq_wt P R v"
  obtains vs where "v = VSeq vs" "list_all P vs" "sorted_wrt R vs" "length vs < 2 ^ 32"
  using assms by (cases v) auto

lemma pair_wtE:
  assumes "pair_wt P Q v"
  obtains a b where "v = VPair a b" "P a" "Q b"
  using assms by (cases v) auto

text \<open>The decoder and the encoding of the elements of a map.\<close>

lemma pair_codec:
  assumes "elem_codec (wt k) (fresh k) (wire k) (get k le)"
    and "elem_codec (wt t) (fresh t) (wire t) (get t le)"
  shows "elem_codec (pair_wt (wt k) (wt t)) (\<lambda>v. True)
    (\<lambda>p. wire k (first p) @ wire t (second p))
    (\<lambda>v. bindD (get k le (dflt k)) (\<lambda>a. bindD (get t le (dflt t)) (\<lambda>b. retD (VPair a b))))"
proof
  fix v i rest assume "pair_wt (wt k) (wt t) v"
  then obtain a b where "v = VPair a b" "wt k a" "wt t b" by (rule pair_wtE)
  with assms show "bindD (get k le (dflt k)) (\<lambda>a. bindD (get t le (dflt t)) (\<lambda>b. retD (VPair a b)))
      (good ((wire k (first v) @ wire t (second v)) @ rest)) = Inr (v, good rest)"
    by (simp add: elem_codec.dec_enc)
qed

lemma get_wire:
  "no_short t \<Longrightarrow> elem_codec (wt t) (fresh t) (wire t) (get t le)"
proof (induction t)
  case (Pod p)
  then show ?case by unfold_locales (simp add: get_pod_wire)
next
  case (Array t n)
  then have IH: "elem_codec (wt t) (fresh t) (wire t) (get t le)" by simp
  show ?case
    by unfold_locales (auto simp: elem_codec.elems_roundtrip [OF IH] elim!: seq_wtE)
next
  case (Seq k t)
  then have IH: "elem_codec (wt t) (fresh t) (wire t) (get t le)" by simp
  show ?case
    by unfold_locales
      (auto simp: ins_back_def elim!: seq_wtE intro!: elem_codec.container_roundtrip [OF IH])
next
  case (Set t)
  then have IH: "elem_codec (wt t) (fresh t) (wire t) (get t le)" by simp
  show ?case
    by unfold_locales
      (auto elim!: seq_wtE intro!: elem_codec.container_roundtrip [OF IH]
        ins_unique_sorted [OF _ _ less_val_asym])
next
  case (Multiset t)
  then have IH: "elem_codec (wt t) (fresh t) (wire t) (get t le)" by simp
  show ?case
    by unfold_locales
      (auto elim!: seq_wtE intro!: elem_codec.container_roundtrip [OF IH] ins_equal_sorted)
next
  case (Map k t)
  then have IH: "elem_codec (wt k) (fresh k) (wire k) (get k le)"
    "elem_codec (wt t) (fresh t) (wire t) (get t le)" by simp_all
  show ?case
    by unfold_locales
      (auto elim!: seq_wtE intro!: elem_codec.container_roundtrip [OF pair_codec [OF IH], simplified]
        ins_unique_sorted [OF _ _ key_less_asym])
next
  case (Multimap k t)
  then have IH: "elem_codec (wt k) (fresh k) (wire k) (get k le)"
    "elem_codec (wt t) (fresh t) (wire t) (get t le)" by simp_all
  show ?case
    by unfold_locales
      (auto elim!: seq_wtE intro!: elem_codec.container_roundtrip [OF pair_codec [OF IH], simplified]
        ins_equal_sorted)
next
  case (Pair t1 t2)
  then have IH: "elem_codec (wt t1) (fresh t1) (wire t1) (get t1 le)"
    "elem_codec (wt t2) (fresh t2) (wire t2) (get t2 le)" by simp_all
  show ?case
    by unfold_locales (auto simp: IH [THEN elem_codec.dec_enc] elim!: pair_wtE)
next
  case Str
  show ?case
  proof
    fix v i rest assume "wt Str v"
    then show "get Str le i (good (wire Str v @ rest)) = Inr (v, good rest)"
      by (cases v) (simp_all add: get_chunks_read bindD_apply)
  qed
qed

interpretation wire_codec: elem_codec "\<lambda>v. no_short t \<and> wt t v" "fresh t" "wire t" "get t le" for t le
  by unfold_locales (simp add: elem_codec.dec_enc [OF get_wire])

section \<open>Writing produces the wire format\<close>

lemma fold_put_wire:
  assumes "\<And>v w. v \<in> set vs \<Longrightarrow> f v (good w) = good (w @ enc v)"
  shows "fold f vs (good w) = good (w @ concat (map enc vs))"
  using assms by (induction vs arbitrary: w) simp_all

lemma put_wire:
  "no_short t \<Longrightarrow> wt t v \<Longrightarrow> put t le v (good w) = good (w @ wire t v)"
proof (induction t arbitrary: v w)
  case (Pod p)
  then show ?case by (simp add: put_pod_wire)
next
  case (Map k t)
  then show ?case
    by (auto simp: list_all_iff elim!: seq_wtE pair_wtE
        intro!: fold_put_wire [where enc = "\<lambda>p. wire k (first p) @ wire t (second p)", THEN trans]
        dest!: bspec)
next
  case (Multimap k t)
  then show ?case
    by (auto simp: list_all_iff elim!: seq_wtE pair_wtE
        intro!: fold_put_wire [where enc = "\<lambda>p. wire k (first p) @ wire t (second p)", THEN trans]
        dest!: bspec)
next
  case (Pair t1 t2)
  then show ?case by (auto elim!: pair_wtE)
next
  case Str
  then show ?case
    using put_len_wire [of le _ w] by (cases v) (simp_all add: put_len_def Let_def)
qed (auto simp: list_all_iff fold_put_wire elim!: seq_wtE)

section \<open>Reading a prefix\<close>

text \<open>
  A decoder looks at its input from the left only: what it returns from \<open>bs\<close> it returns
  from every extension, and a fault other than running out of input stays.
\<close>

definition left_dec :: "'a dec \<Rightarrow> bool" where
  "left_dec d \<longleftrightarrow> (\<forall>bs.
     (\<exists>x c rest. bs = c @ rest \<and> d (good bs) = Inr (x, good rest) \<and>
        (\<forall>more. d (good (c @ more)) = Inr (x, good more))) \<or>
     d (good bs) = Inl Malformed_data \<or>
     (\<exists>e. e \<noteq> Malformed_data \<and> (\<forall>more. d (good (bs @ more)) = Inl e)))"

lemma left_decE:
  assumes "left_dec d"
  obtains x c rest where "bs = c @ rest" "d (good bs) = Inr (x, good rest)"
      "\<And>more. d (good (c @ more)) = Inr (x, good more)"
    | "d (good bs) = Inl Malformed_data"
    | e where "e \<noteq> Malformed_data" "\<And>more. d (good (bs @ more)) = Inl e"
  using assms [unfolded left_dec_def, rule_format, of bs] that by (elim disjE exE conjE) metis+

lemma left_retD [intro]: "left_dec (retD x)"
  by (auto simp: left_dec_def)

lemma left_read [intro]: "left_dec (read_checked n)"
proof -
  have "(\<exists>x c rest. bs = c @ rest \<and> read_checked n (good bs) = Inr (x, good rest) \<and>
      (\<forall>more. read_checked n (good (c @ more)) = Inr (x, good more)))"
    if "n \<le> length bs" for bs
    by (rule exI [of _ "take n bs"], rule exI [of _ "take n bs"], rule exI [of _ "drop n bs"])
      (use that in simp)
  then show ?thesis unfolding left_dec_def by (auto simp: not_le)
qed

lemma left_bindD [intro]:
  assumes d: "left_dec d" and f: "\<And>x. left_dec (f x)"
  shows "left_dec (bindD d f)"
  unfolding left_dec_def
proof (rule allI, goal_cases)
  case (1 bs)
  from d show ?case
  proof (cases rule: left_decE [where bs = bs])
    case (1 x c rest)
    from f [of x] show ?thesis
    proof (cases rule: left_decE [where bs = rest])
      case (1 y c' rest')
      with \<open>bs = c @ rest\<close> \<open>\<And>more. d (good (c @ more)) = Inr (x, good more)\<close>
      show ?thesis
        by (intro disjI1 exI [of _ y] exI [of _ "c @ c'"] exI [of _ rest']) simp
    next
      case 2
      with 1 show ?thesis by simp
    next
      case (3 e)
      with 1 show ?thesis by (intro disjI2 exI [of _ e]) simp
    qed
  next
    case 2
    then show ?thesis by simp
  next
    case (3 e)
    then show ?thesis by (intro disjI2 exI [of _ e]) simp
  qed
qed

lemma left_object [intro]: "left_dec (\<lambda>s. bindE (object_of le p bs) (\<lambda>v. Inr (f v, s)))"
proof (cases "object_of le p bs")
  case (Inl e)
  then have "e \<noteq> Malformed_data" by (auto simp: object_of_def split: if_splits)
  with Inl show ?thesis by (auto simp: left_dec_def)
next
  case (Inr v)
  then have "(\<lambda>s. bindE (object_of le p bs) (\<lambda>v. Inr (f v, s))) = retD (f v)" by auto
  then show ?thesis by auto
qed

lemma left_get_pod [intro]: "left_dec (get_pod le p)"
  unfolding get_pod_def by (intro left_bindD left_read left_object)

lemma left_get_len [intro]: "left_dec (get_len le)"
  unfolding get_len_def by (intro left_bindD left_get_pod left_retD)

lemma left_get_elems [intro]: "(\<And>v. left_dec (d v)) \<Longrightarrow> left_dec (get_elems d vs)"
  by (induction vs) auto

lemma left_get_loop [intro]: "left_dec d \<Longrightarrow> left_dec (get_loop d ins n acc)"
  by (induction n arbitrary: acc) auto

lemma left_get_chunks [intro]: "left_dec (get_chunks n acc)"
proof (induction n acc rule: get_chunks.induct)
  case (1 n acc)
  then show ?case by (subst get_chunks.simps) (auto simp: Let_def)
qed

lemmas left_intros = left_bindD left_retD left_get_pod left_get_len left_get_elems left_get_loop
  left_get_chunks

lemma left_get: "left_dec (get t le i)"
  by (induction t arbitrary: i) (simp_all add: left_intros)

lemma left_dec_truncated:
  assumes "left_dec d" and all: "d (good bs) = Inr (x, good [])" and "n < length bs"
  shows "d (good (take n bs)) = Inl Malformed_data"
  using assms(1)
proof (cases rule: left_decE [where bs = "take n bs"])
  case (1 y c rest)
  have "bs = c @ (rest @ drop n bs)"
    using 1(1) append_take_drop_id [of n bs] by simp
  then have "d (good bs) = Inr (y, good (rest @ drop n bs))"
    using 1(3) by metis
  with all assms(3) show ?thesis by simp
next
  case 2
  then show ?thesis by simp
next
  case (3 e)
  then have "d (good (take n bs @ drop n bs)) = Inl e" by blast
  with all show ?thesis by simp
qed

lemma get_pod_short:
  "get_pod True PShort (good (mem_bytes True w @ rest)) = Inr (V16 (Swap2 True True w), good rest)"
  by (simp add: get_pod_def bindD_apply object_of_def)

text \<open>Containers are not cleared: reading a sequence into an object that already holds
  elements keeps them and appends what was read, for every old contents and every well-formed
  value on the stream.\<close>

lemma get_seq_appends:
  assumes "no_short t" and "wt (Seq k t) (VSeq vs)"
  shows "get (Seq k t) le (VSeq old) (good (wire (Seq k t) (VSeq vs) @ rest)) =
    Inr (VSeq (old @ vs), good rest)"
proof -
  have "get_loop (get t le (dflt t)) ins_back (length vs) old
      (good (concat (map (wire t) vs) @ rest)) = Inr (old @ vs, good rest)"
    by (rule wire_codec.loop_roundtrip) (use assms in \<open>auto simp: ins_back_def list_all_iff\<close>)
  with assms show ?thesis by simp
qed

section \<open>Properties\<close>

text \<open>C2. Round trip.  What a host of either byte order writes for a well-formed value of any
  supported type (scalars other than \<open>short\<close>, arrays, containers, pairs and strings, nested
  in any way) is appended to the stream, and a host of either byte order that reads it into a
  fresh object gets the same value back and leaves the rest of the stream untouched.\<close>

theorem codec_roundtrip:
  assumes "no_short t" and "wt t v" and "fresh t i"
  shows "\<exists>bs. put t le v (good w) = good (w @ bs) \<and>
    get t le' i (good (bs @ rest)) = Inr (v, good rest)"
  using assms wire_codec.dec_enc put_wire by blast

definition sample_type :: cty where
  "sample_type = Pair (Map Str (Seq Vector (Pod PInt))) (Set (Pod PUShort))"

definition sample_value :: cval where
  "sample_value =
     VPair (VSeq [VPair (VString [104, 105]) (VSeq [V32 7, V32 (- 1)])]) (VSeq [V16 3, V16 500])"

theorem codec_roundtrip_witness:
  "no_short sample_type \<and> wt sample_type sample_value \<and> fresh sample_type (dflt sample_type) \<and>
   (\<exists>bs. put sample_type True sample_value (good [9]) = good ([9] @ bs) \<and>
     get sample_type False (dflt sample_type) (good (bs @ [1])) = Inr (sample_value, good [1]))"
proof -
  have "no_short sample_type" "wt sample_type sample_value"
    by (simp_all add: sample_type_def sample_value_def)
  then show ?thesis
    using codec_roundtrip [of sample_type sample_value "dflt sample_type" True "[9]" False "[1]"]
    by simp
qed

text \<open>Wire format.  Writing a well-formed value appends exactly its encoding in the format
  \<open>wire\<close>: big-endian scalars, each container preceded by its element count as a big-endian
  32-bit number, whatever the byte order of the host.\<close>

theorem put_is_wire:
  assumes "no_short t" and "wt t v"
  shows "put t le v (good w) = good (w @ wire t v)"
  using assms by (rule put_wire)

theorem put_is_wire_witness:
  "no_short (Seq Deque (Pod PLong)) \<and> wt (Seq Deque (Pod PLong)) (VSeq [V64 258]) \<and>
   put (Seq Deque (Pod PLong)) True (VSeq [V64 258]) (good []) =
     good ([] @ [0, 0, 0, 1, 0, 0, 0, 0, 0, 0, 1, 2])"
  using put_is_wire [of "Seq Deque (Pod PLong)" "VSeq [V64 258]" True "[]"]
  by (simp add: wire_len_def be_bytes_def le_bytes_def upt_rec)

text \<open>C12. Truncated input.  Reading any proper prefix of the encoding of a well-formed value
  throws \<open>malformed data\<close>; it neither returns a value nor ends in another way.\<close>

theorem get_truncated:
  assumes "no_short t" and "wt t v" and "fresh t i" and "n < length (wire t v)"
  shows "get t le i (good (take n (wire t v))) = Inl Malformed_data"
proof (rule left_dec_truncated [OF left_get])
  show "get t le i (good (wire t v)) = Inr (v, good [])"
    using wire_codec.dec_enc [of t v i le "[]"] assms by simp
qed (rule assms(4))

theorem get_truncated_witness:
  "wt Str (VString [1, 2, 3]) \<and> 5 < length (wire Str (VString [1, 2, 3])) \<and>
   get Str True (VString []) (good (take 5 (wire Str (VString [1, 2, 3])))) = Inl Malformed_data"
  using get_truncated [of Str "VString [1, 2, 3]" "VString []" 5 True]
  by (simp add: wire_len_def)

text \<open>The string loop.  Reading \<open>n\<close> bytes of a string through the 4096 byte buffer
  terminates and gives what one read of \<open>n\<close> bytes gives: those bytes appended to what was read
  before, or \<open>malformed data\<close> when the stream holds fewer.\<close>

theorem get_chunks_eq_read:
  "get_chunks n acc (good bs) =
     (if n \<le> length bs then Inr (acc @ take n bs, good (drop n bs)) else Inl Malformed_data)"
  by (simp add: get_chunks_read bindD_apply)

text \<open>\<open>short\<close> does not survive the codec.  On a little-endian host a \<open>short\<close> is read back
  as it was written exactly when both of its bytes are below 128 or it is -1: the swap shifts
  the promoted, sign-extended value arithmetically.\<close>

theorem short_roundtrip_iff:
  "get (Pod PShort) True i (put (Pod PShort) True (V16 w) (good [])) = Inr (V16 w, good []) \<longleftrightarrow>
     (\<not> bit w 7 \<and> \<not> bit w 15) \<or> w = - 1"
  using get_pod_short [of "Swap2 True True w" "[]"]
  by (simp add: put_pod_def Swap2_signed_twice)

text \<open>The length in front of an array is not looked at: whatever four bytes stand there, an
  array of \<open>n\<close> elements is read as the \<open>n\<close> encodings that follow.\<close>

theorem get_array_ignores_length:
  assumes "no_short t" and "list_all (wt t) vs" and "fresh (Array t (length vs)) i"
    and "length hdr = 4"
  shows "get (Array t (length vs)) le i (good (hdr @ concat (map (wire t) vs) @ rest)) =
    Inr (VSeq vs, good rest)"
proof -
  have "\<exists>w. get_len le (good (hdr @ more)) = Inr (w, good more)" for more
    using assms(4) by (simp add: get_len_def get_pod_def bindD_apply object_of_def)
  then obtain w where "get_len le (good (hdr @ concat (map (wire t) vs) @ rest)) =
      Inr (w, good (concat (map (wire t) vs) @ rest))" by blast
  moreover have "get_elems (get t le) (elems i) (good (concat (map (wire t) vs) @ rest)) =
      Inr (vs, good rest)"
    by (rule wire_codec.elems_roundtrip) (use assms in \<open>auto simp: list_all_iff\<close>)
  ultimately show ?thesis by simp
qed

theorem get_array_ignores_length_witness:
  "get (Array (Pod PUChar) (length [V8 5, V8 6])) True (VSeq [V8 0, V8 0])
     (good ([255, 255, 255, 255] @ concat (map (wire (Pod PUChar)) [V8 5, V8 6]) @ [])) =
     Inr (VSeq [V8 5, V8 6], good [])"
  by (rule get_array_ignores_length) simp_all

end
