(* ===== verification/Rpc.thy ===== *)
theory Rpc
  imports Binary
begin

text \<open>
  The RPC layer: \<^verbatim>\<open>src/protocol/factory.hpp\<close> (the registry of constructors), \<^verbatim>\<open>src/protocol/schema.hpp\<close>
  (\<open>message\<close>, \<open>export\<close> and \<open>for_each\<close> over the exported fields of a struct) and
  \<^verbatim>\<open>src/protocol/rpc.hpp\<close> (\<open>rpc\<close> and \<open>dispatch\<close>).  A struct object is the list of its members in
  declaration order; the handler is the application's function.
\<close>

section \<open>The object factory\<close>

text \<open>A \<open>Constructor\<close> is a function pointer, which may be null.\<close>

type_synonym 'o ctor = "(unit \<Rightarrow> 'o) option"

type_synonym 'o ctor_map = "string \<rightharpoonup> 'o ctor"

definition factory_set :: "string \<Rightarrow> 'o ctor \<Rightarrow> 'o ctor_map \<Rightarrow> 'o ctor_map" where
  "factory_set name constructor m = m(name \<mapsto> constructor)"

definition factory_create :: "string \<Rightarrow> 'o ctor_map \<Rightarrow> 'o option" where
  "factory_create name m =
     (let constructor = (case m name of None \<Rightarrow> None | Some c \<Rightarrow> c) in
      case constructor of None \<Rightarrow> None | Some c \<Rightarrow> Some (c ()))"

definition register_class :: "string \<Rightarrow> (unit \<Rightarrow> 'o) \<Rightarrow> 'o ctor_map \<Rightarrow> 'o ctor_map" where
  "register_class class_name creatObjFunc m = factory_set class_name (Some creatObjFunc) m"

section \<open>Struct metadata\<close>

text \<open>
  \<open>StructMeta\<close>: for each exported field its name and its member pointer, which is the
  position of the member; a struct without \<open>message\<close> has the empty tuple.
\<close>

type_synonym struct_meta = "(string \<times> nat) list"

record struct_ty =
  members :: "cty list"
  meta :: struct_meta
  init :: "cval list"      \<comment> \<open>the members of a default-initialised object\<close>

primrec for_each_fields ::
  "struct_meta \<Rightarrow> (string \<Rightarrow> nat \<Rightarrow> cval \<Rightarrow> 's \<Rightarrow> (cval \<times> 's) res) \<Rightarrow> cval list \<Rightarrow> 's \<Rightarrow>
   (cval list \<times> 's) res" where
  "for_each_fields [] f obj s = Inr (obj, s)"
| "for_each_fields (x # xs) f obj s =
     bindE (f (fst x) (snd x) (obj ! snd x) s)
       (\<lambda>(v, s'). for_each_fields xs f (obj[snd x := v]) s')"

definition for_each ::
  "struct_ty \<Rightarrow> (string \<Rightarrow> cty \<Rightarrow> cval \<Rightarrow> 's \<Rightarrow> (cval \<times> 's) res) \<Rightarrow> cval list \<Rightarrow> 's \<Rightarrow>
   (cval list \<times> 's) res" where
  "for_each T f obj s = for_each_fields (meta T) (\<lambda>name i. f name (members T ! i)) obj s"

text \<open>The two lambdas of \<open>call\<close>: \<open>codec_ >> value\<close> and \<open>codec_ << value\<close>.\<close>

definition read_field :: "bool \<Rightarrow> string \<Rightarrow> cty \<Rightarrow> cval \<Rightarrow> stream \<Rightarrow> (cval \<times> stream) res" where
  "read_field le name t v s = get t le v s"

definition write_field :: "bool \<Rightarrow> string \<Rightarrow> cty \<Rightarrow> cval \<Rightarrow> stream \<Rightarrow> (cval \<times> stream) res" where
  "write_field le name t v s = Inr (v, put t le v s)"

section \<open>Remote procedures\<close>

record procedure =
  request :: struct_ty
  response :: struct_ty
  handler :: "cval list \<Rightarrow> cval list"

definition call :: "bool \<Rightarrow> procedure \<Rightarrow> stream \<Rightarrow> stream res" where
  "call le p s =
     bindE (for_each (request p) (read_field le) (init (request p)) s) (\<lambda>(req, s1).
       let resp = handler p req in
       bindE (for_each (response p) (write_field le) resp s1) (\<lambda>(_, s2). Inr s2))"

definition register_rpc :: "string \<Rightarrow> procedure \<Rightarrow> procedure ctor_map \<Rightarrow> procedure ctor_map" where
  "register_rpc name p m = register_class name (\<lambda>_. p) m"

definition dispatch :: "string \<Rightarrow> procedure ctor_map \<Rightarrow> procedure option" where
  "dispatch method_str m = factory_create method_str m"

text \<open>\<open>dispatch(method, codec)->call(cdc)\<close>.\<close>

definition dispatch_call :: "bool \<Rightarrow> procedure ctor_map \<Rightarrow> string \<Rightarrow> stream \<Rightarrow> stream res" where
  "dispatch_call le m name s =
     (case dispatch name m of None \<Rightarrow> Inl Null_deref | Some p \<Rightarrow> call le p s)"

text \<open>Structs all of whose members are exported once, and their well-formed objects.\<close>

definition struct_ok :: "struct_ty \<Rightarrow> bool" where
  "struct_ok T \<longleftrightarrow>
     distinct (map snd (meta T)) \<and> set (map snd (meta T)) = {0..<length (members T)} \<and>
     list_all no_short (members T)"

definition obj_wt :: "struct_ty \<Rightarrow> cval list \<Rightarrow> bool" where
  "obj_wt T obj \<longleftrightarrow> list_all2 wt (members T) obj"

definition obj_fresh :: "struct_ty \<Rightarrow> cval list \<Rightarrow> bool" where
  "obj_fresh T obj \<longleftrightarrow> list_all2 fresh (members T) obj"

definition struct_wire :: "struct_ty \<Rightarrow> cval list \<Rightarrow> byte list" where
  "struct_wire T obj = concat (map (\<lambda>(name, i). wire (members T ! i) (obj ! i)) (meta T))"

section \<open>Lemmas\<close>

text \<open>What the registry promises to \<open>dispatch\<close>.\<close>

locale registry =
  fixes lookup_obj :: "string \<Rightarrow> 'm \<Rightarrow> 'o option"
    and register :: "string \<Rightarrow> 'o \<Rightarrow> 'm \<Rightarrow> 'm"
  assumes lookup_same: "lookup_obj n (register n x m) = Some x"
    and lookup_other: "n \<noteq> n' \<Longrightarrow> lookup_obj n (register n' x m) = lookup_obj n m"
begin

lemma last_registration_wins:
  "lookup_obj n (fold (\<lambda>(k, x). register k x) rs m) =
     (case map_of (rev rs) n of Some x \<Rightarrow> Some x | None \<Rightarrow> lookup_obj n m)"
proof (induction rs arbitrary: m)
  case Nil
  then show ?case by simp
next
  case (Cons r rs)
  obtain k x where "r = (k, x)" by fastforce
  with Cons.IH [of "register k x m"] show ?case
    by (cases "n = k") (auto simp: lookup_same lookup_other map_add_def split: option.splits)
qed

end

interpretation rpc_registry: registry dispatch register_rpc
  by unfold_locales
    (simp_all add: dispatch_def register_rpc_def register_class_def factory_set_def factory_create_def)

text \<open>Writing the exported fields appends their encodings; reading them back restores them.\<close>

lemma for_each_write:
  assumes "\<And>i. i \<in> set (map snd ms) \<Longrightarrow> no_short (tys ! i) \<and> wt (tys ! i) (obj ! i)"
  shows "for_each_fields ms (\<lambda>n i. write_field le n (tys ! i)) obj (good w) =
    Inr (obj, good (w @ concat (map (\<lambda>(n, i). wire (tys ! i) (obj ! i)) ms)))"
  using assms
proof (induction ms arbitrary: w)
  case Nil
  then show ?case by simp
next
  case (Cons x xs)
  obtain n i where x: "x = (n, i)" by fastforce
  with Cons.prems have "no_short (tys ! i)" "wt (tys ! i) (obj ! i)" by auto
  then have "write_field le n (tys ! i) (obj ! i) (good w) =
      Inr (obj ! i, good (w @ wire (tys ! i) (obj ! i)))"
    by (simp add: write_field_def put_wire)
  with Cons.IH Cons.prems show ?case by (simp add: x)
qed

lemma for_each_read:
  assumes "\<And>i. i \<in> set (map snd ms) \<Longrightarrow>
      no_short (tys ! i) \<and> wt (tys ! i) (a ! i) \<and> fresh (tys ! i) (obj ! i) \<and> i < length obj"
    and "distinct (map snd ms)"
  shows "\<exists>obj'. for_each_fields ms (\<lambda>n i. read_field le n (tys ! i)) obj
      (good (concat (map (\<lambda>(n, i). wire (tys ! i) (a ! i)) ms) @ rest)) = Inr (obj', good rest) \<and>
    length obj' = length obj \<and>
    (\<forall>j < length obj. obj' ! j = (if j \<in> set (map snd ms) then a ! j else obj ! j))"
  using assms
proof (induction ms arbitrary: obj)
  case Nil
  then show ?case by simp
next
  case (Cons x xs)
  obtain n i where x: "x = (n, i)" by fastforce
  have i: "no_short (tys ! i)" "wt (tys ! i) (a ! i)" "fresh (tys ! i) (obj ! i)" "i < length obj"
    using Cons.prems(1) x by auto
  have new: "i \<notin> set (map snd xs)" and "distinct (map snd xs)"
    using Cons.prems(2) x by auto
  have step: "no_short (tys ! j) \<and> wt (tys ! j) (a ! j) \<and>
      fresh (tys ! j) (obj[i := a ! i] ! j) \<and> j < length (obj[i := a ! i])"
    if "j \<in> set (map snd xs)" for j
  proof -
    have "j \<noteq> i" using that new by metis
    then show ?thesis using Cons.prems(1) [of j] that by simp
  qed
  obtain obj' where obj':
    "for_each_fields xs (\<lambda>n i. read_field le n (tys ! i)) (obj[i := a ! i])
       (good (concat (map (\<lambda>(n, i). wire (tys ! i) (a ! i)) xs) @ rest)) = Inr (obj', good rest)"
    "length obj' = length obj"
    "\<forall>j < length obj. obj' ! j = (if j \<in> set (map snd xs) then a ! j else obj[i := a ! i] ! j)"
    using Cons.IH [OF step \<open>distinct (map snd xs)\<close>] by auto
  have "for_each_fields (x # xs) (\<lambda>n i. read_field le n (tys ! i)) obj
      (good (concat (map (\<lambda>(n, i). wire (tys ! i) (a ! i)) (x # xs)) @ rest)) = Inr (obj', good rest)"
    using i obj'(1) by (simp add: x read_field_def wire_codec.dec_enc)
  moreover have "obj' ! j = (if j \<in> set (map snd (x # xs)) then a ! j else obj ! j)"
    if "j < length obj" for j
    using obj'(3) that by (cases "j = i") (simp_all add: x)
  ultimately show ?case using obj'(2) by blast
qed

lemma struct_ok_index:
  assumes "struct_ok T" and "i \<in> set (map snd (meta T))"
  shows "i < length (members T)" and "no_short (members T ! i)"
proof -
  show "i < length (members T)" using assms by (simp add: struct_ok_def)
  with assms(1) show "no_short (members T ! i)" by (simp add: struct_ok_def list_all_length)
qed

lemma write_struct:
  assumes "struct_ok T" and "obj_wt T obj"
  shows "for_each T (write_field le) obj (good w) = Inr (obj, good (w @ struct_wire T obj))"
proof -
  have ok: "no_short (members T ! i) \<and> wt (members T ! i) (obj ! i)"
    if "i \<in> set (map snd (meta T))" for i
    using assms struct_ok_index [OF assms(1) that] by (simp add: obj_wt_def list_all2_conv_all_nth)
  from for_each_write [OF ok] show ?thesis
    by (simp add: for_each_def struct_wire_def)
qed

lemma read_struct:
  assumes "struct_ok T" and "obj_wt T obj" and "obj_fresh T i"
  shows "for_each T (read_field le) i (good (struct_wire T obj @ rest)) = Inr (obj, good rest)"
proof -
  have len: "length i = length (members T)" "length obj = length (members T)"
    using assms by (auto simp: obj_wt_def obj_fresh_def dest: list_all2_lengthD)
  have ok: "no_short (members T ! k) \<and> wt (members T ! k) (obj ! k) \<and> fresh (members T ! k) (i ! k) \<and>
      k < length i" if "k \<in> set (map snd (meta T))" for k
    using assms struct_ok_index [OF assms(1) that] len
    by (simp add: obj_wt_def obj_fresh_def list_all2_conv_all_nth)
  have "distinct (map snd (meta T))" using assms(1) by (simp add: struct_ok_def)
  from for_each_read [where a = obj and le = le and rest = rest, OF ok this] obtain obj' where
    run: "for_each T (read_field le) i (good (struct_wire T obj @ rest)) = Inr (obj', good rest)"
    and "length obj' = length i"
    and "\<forall>j < length i. obj' ! j = (if j \<in> set (map snd (meta T)) then obj ! j else i ! j)"
    by (auto simp: for_each_def struct_wire_def)
  moreover have "set (map snd (meta T)) = {0..<length (members T)}"
    using assms(1) by (simp add: struct_ok_def)
  ultimately have "obj' = obj" using len by (intro nth_equalityI) auto
  with run show ?thesis by simp
qed

section \<open>Properties\<close>


definition echo_struct :: struct_ty where
  "echo_struct = \<lparr>members = [Pod PInt, Str], meta = [(''a'', 0), (''b'', 1)],
     init = [V32 0, VString []]\<rparr>"

definition echo_proc :: procedure where
  "echo_proc = \<lparr>request = echo_struct, response = echo_struct, handler = (\<lambda>req. req)\<rparr>"


text \<open>The registry.  After any sequence of registrations \<open>dispatch\<close> finds for a method the
  procedure registered last under its name, and what was there before when there is none.\<close>

theorem dispatch_last_registration:
  "dispatch name (fold (\<lambda>(k, p). register_rpc k p) rs m) =
     (case map_of (rev rs) name of Some p \<Rightarrow> Some p | None \<Rightarrow> dispatch name m)"
  by (rule rpc_registry.last_registration_wins)

text \<open>Unknown methods.  \<open>dispatch\<close> gives a null pointer for a method that was never
  registered, and the call through it that the macro invites is undefined behaviour.\<close>

theorem dispatch_unknown_method:
  assumes "name \<notin> fst ` set rs"
  shows "dispatch name (fold (\<lambda>(k, p). register_rpc k p) rs Map.empty) = None \<and>
    dispatch_call le (fold (\<lambda>(k, p). register_rpc k p) rs Map.empty) name s = Inl Null_deref"
proof -
  have "map_of (rev rs) name = None" using assms by (simp add: map_of_eq_None_iff)
  then have "dispatch name (fold (\<lambda>(k, p). register_rpc k p) rs Map.empty) = None"
    using rpc_registry.last_registration_wins [of name rs Map.empty]
    by (simp add: dispatch_def [of name Map.empty] factory_create_def)
  then show ?thesis by (simp add: dispatch_call_def)
qed

theorem dispatch_unknown_method_witness:
  "''GetC'' \<notin> fst ` set [(''GetB'', echo_proc)] \<and>
   dispatch ''GetC'' (fold (\<lambda>(k, p). register_rpc k p) [(''GetB'', echo_proc)] Map.empty) = None \<and>
   dispatch_call True (fold (\<lambda>(k, p). register_rpc k p) [(''GetB'', echo_proc)] Map.empty)
     ''GetC'' (good []) = Inl Null_deref"
  using dispatch_unknown_method [of "''GetC''" "[(''GetB'', echo_proc)]" True "good []"] by simp

text \<open>Default members leak into requests.  When the request struct's vector member has a
  default initialiser, the handler sees those default elements in front of the ones the client
  sent, for every request.\<close>

theorem call_sees_default_elements:
  assumes "request p = \<lparr>members = [Seq k t], meta = [(n, 0)], init = [VSeq old]\<rparr>"
    and "no_short t" and "wt (Seq k t) (VSeq vs)"
    and "struct_ok (response p)" and "obj_wt (response p) (handler p [VSeq (old @ vs)])"
  shows "call le p (good (wire (Seq k t) (VSeq vs))) =
    Inr (good (struct_wire (response p) (handler p [VSeq (old @ vs)])))"
  using get_seq_appends [OF assms(2,3), of le old "[]"] write_struct [OF assms(4,5), of le "[]"]
  by (simp add: call_def for_each_def assms(1) read_field_def Let_def)

definition sum_proc :: procedure where
  "sum_proc = \<lparr>request = \<lparr>members = [Seq Vector (Pod PInt)], meta = [(''vec'', 0)],
       init = [VSeq [V32 1, V32 2]]\<rparr>,
     response = \<lparr>members = [Pod PInt], meta = [(''a'', 0)], init = [V32 0]\<rparr>,
     handler = (\<lambda>req. [V32 (sum_list (map word32 (elems (hd req))))])\<rparr>"

theorem call_sees_default_elements_witness:
  "call True sum_proc (good (wire (Seq Vector (Pod PInt)) (VSeq [V32 10]))) =
     Inr (good [0, 0, 0, 13])"
proof -
  have "struct_ok (response sum_proc)" by (auto simp: struct_ok_def sum_proc_def)
  moreover have "obj_wt (response sum_proc) (handler sum_proc [VSeq ([V32 1, V32 2] @ [V32 10])])"
    by (simp add: obj_wt_def sum_proc_def)
  ultimately show ?thesis
    using call_sees_default_elements [of sum_proc Vector "Pod PInt" "''vec''" "[V32 1, V32 2]"
        "[V32 10]" True]
    by (simp add: sum_proc_def struct_wire_def be_bytes_def le_bytes_def upt_rec)
qed

end
