(* ===== verification/Tcp_Buffer.thy ===== *)
theory Tcp_Buffer
  imports Prelude
begin

text \<open>
  \<open>net::TcpBuffer\<close> of \<^verbatim>\<open>src/net/tcp_buffer.h\<close> and \<^verbatim>\<open>src/net/tcp_buffer.cc\<close>: a byte vector with a read and a
  write index.  The unread bytes are those between the indices.  The member \<open>size_\<close> is never
  read or written by the code and is left out; logging is left out.
\<close>

section \<open>State and operations\<close>

record tcp_buffer =
  read_index :: int
  write_index :: int
  buffer :: "byte list"

definition new_TcpBuffer :: "int \<Rightarrow> tcp_buffer res" where
  "new_TcpBuffer sz =
     bindE (vec_resize sz) (\<lambda>v. Inr \<lparr>read_index = 0, write_index = 0, buffer = v\<rparr>)"

definition readAble :: "tcp_buffer \<Rightarrow> int" where
  "readAble b = write_index b - read_index b"

definition writeAble :: "tcp_buffer \<Rightarrow> int" where
  "writeAble b = cast_int (int (length (buffer b)) - write_index b)"

definition getSize :: "tcp_buffer \<Rightarrow> int" where
  "getSize b = cast_int (int (length (buffer b)))"

definition resizeBuffer :: "int \<Rightarrow> tcp_buffer \<Rightarrow> tcp_buffer res" where
  "resizeBuffer sz b =
     bindE (vec_resize sz) (\<lambda>tmp.
       let c = min sz (readAble b) in
       bindE (memcpy tmp 0 (buffer b) (read_index b) c) (\<lambda>tmp.
         Inr (b\<lparr>buffer := tmp, read_index := 0, write_index := 0 + c\<rparr>)))"

definition writeToBuffer :: "byte list \<Rightarrow> int \<Rightarrow> tcp_buffer \<Rightarrow> tcp_buffer res" where
  "writeToBuffer buf sz b =
     bindE
       (if sz > writeAble b
        then bindE (chk_int (write_index b + sz)) (\<lambda>x. bindE (scale_1_5 x) (\<lambda>new_size.
          resizeBuffer new_size b))
        else Inr b) (\<lambda>b.
     bindE (memcpy (buffer b) (write_index b) buf 0 sz) (\<lambda>v.
     bindE (chk_int (write_index b + sz)) (\<lambda>w.
       Inr (b\<lparr>buffer := v, write_index := w\<rparr>))))"

definition adjustBuffer :: "tcp_buffer \<Rightarrow> tcp_buffer res" where
  "adjustBuffer b =
     (if read_index b > cast_int (int (length (buffer b) div 3))
      then
        let new_buffer = zeros (length (buffer b)); count = readAble b in
        bindE (memcpy new_buffer 0 (buffer b) (read_index b) count) (\<lambda>new_buffer.
          Inr (b\<lparr>buffer := new_buffer, read_index := 0, write_index := count\<rparr>))
      else Inr b)"

text \<open>\<open>re\<close> is the caller's vector; it is returned untouched when there is nothing to read.\<close>

definition readFromBuffer :: "byte list \<Rightarrow> int \<Rightarrow> tcp_buffer \<Rightarrow> (byte list \<times> tcp_buffer) res" where
  "readFromBuffer re sz b =
     (if readAble b = 0 then Inr (re, b)
      else
        let read_size = (if readAble b > sz then sz else readAble b) in
        bindE (vec_resize read_size) (\<lambda>tmp.
        bindE (memcpy tmp 0 (buffer b) (read_index b) read_size) (\<lambda>tmp.
        bindE (chk_int (read_index b + read_size)) (\<lambda>r.
        bindE (adjustBuffer (b\<lparr>read_index := r\<rparr>)) (\<lambda>b. Inr (tmp, b))))))"

definition clearBuffer :: "tcp_buffer \<Rightarrow> tcp_buffer" where
  "clearBuffer b = b\<lparr>buffer := [], read_index := 0, write_index := 0\<rparr>"

definition recycleRead :: "int \<Rightarrow> tcp_buffer \<Rightarrow> tcp_buffer res" where
  "recycleRead index b =
     bindE (chk_int (read_index b + index)) (\<lambda>j.
       if j \<ge> cast_int (int (length (buffer b))) then Inr b
       else adjustBuffer (b\<lparr>read_index := j\<rparr>))"

definition recycleWrite :: "int \<Rightarrow> tcp_buffer \<Rightarrow> tcp_buffer res" where
  "recycleWrite index b =
     bindE (chk_int (write_index b + index)) (\<lambda>j.
       if j \<ge> cast_int (int (length (buffer b))) then Inr b
       else adjustBuffer (b\<lparr>write_index := j\<rparr>))"

definition getBufferVector :: "tcp_buffer \<Rightarrow> byte list" where
  "getBufferVector b = buffer b"

section \<open>Invariant and contents\<close>

definition buf_ok :: "tcp_buffer \<Rightarrow> bool" where
  "buf_ok b \<longleftrightarrow> 0 \<le> read_index b \<and> read_index b \<le> write_index b \<and>
     write_index b \<le> int (length (buffer b)) \<and> length (buffer b) \<le> 2147483647"

definition contents :: "tcp_buffer \<Rightarrow> byte list" where
  "contents b = take (nat (write_index b - read_index b)) (drop (nat (read_index b)) (buffer b))"

text \<open>The bytes between the write index and the end, into which the socket is read.\<close>

definition free_area :: "tcp_buffer \<Rightarrow> byte list" where
  "free_area b = drop (nat (write_index b)) (buffer b)"

text \<open>The most bytes a buffer may be sent: \<open>1.5\<close> times that still fits \<open>int\<close>.\<close>

definition buf_cap :: nat where
  "buf_cap = 1431655764"

section \<open>Lemmas\<close>

lemma buf_okD:
  assumes "buf_ok b"
  shows "0 \<le> read_index b" "read_index b \<le> write_index b"
    "write_index b \<le> int (length (buffer b))" "length (buffer b) \<le> 2147483647"
  using assms by (auto simp: buf_ok_def)

lemma in_int_length [simp]: "n \<le> 2147483647 \<Longrightarrow> in_int (int n)"
  by (simp add: in_int_def)

lemma buf_ok_in_int:
  assumes "buf_ok b"
  shows "in_int (read_index b)" "in_int (write_index b)" "in_int (readAble b)"
    "in_int (int (length (buffer b)) - write_index b)" "in_int (int (length (buffer b)))"
  using buf_okD [OF assms] by (auto simp: in_int_def readAble_def)

lemma cast_third [simp]: "n \<le> 2147483647 \<Longrightarrow> cast_int (int (n div 3)) = int (n div 3)"
  by (rule cast_int_id) (simp add: in_int_def)

lemma writeAble_eq: "buf_ok b \<Longrightarrow> writeAble b = int (length (buffer b)) - write_index b"
  by (simp add: writeAble_def buf_ok_in_int)

lemma getSize_eq: "buf_ok b \<Longrightarrow> getSize b = int (length (buffer b))"
  by (simp add: getSize_def buf_ok_in_int)

lemma length_contents: "buf_ok b \<Longrightarrow> int (length (contents b)) = readAble b"
  by (auto simp: contents_def readAble_def buf_ok_def min_def)

lemma new_TcpBuffer_ok:
  assumes "0 \<le> sz" and "sz \<le> 2147483647"
  shows "\<exists>b. new_TcpBuffer sz = Inr b \<and> buf_ok b \<and> contents b = [] \<and> write_index b = 0"
  using assms by (simp add: new_TcpBuffer_def buf_ok_def contents_def)

text \<open>Moving the first \<open>c\<close> unread bytes to the front of a fresh vector.\<close>

lemma compact_ok:
  assumes "buf_ok b" and "0 \<le> c" and "c \<le> readAble b" and "c \<le> int (length tmp)"
    and "length tmp \<le> 2147483647"
  shows "\<exists>v. memcpy tmp 0 (buffer b) (read_index b) c = Inr v \<and>
    buf_ok (b\<lparr>buffer := v, read_index := 0, write_index := c\<rparr>) \<and>
    contents (b\<lparr>buffer := v, read_index := 0, write_index := c\<rparr>) = take (nat c) (contents b) \<and>
    length v = length tmp"
proof -
  have cpy: "memcpy tmp 0 (buffer b) (read_index b) c =
      Inr (take (nat c) (drop (nat (read_index b)) (buffer b)) @ drop (nat c) tmp)"
    by (rule memcpy_front) (use assms buf_okD [OF assms(1)] in \<open>auto simp: readAble_def\<close>)
  have len: "length (take (nat c) (drop (nat (read_index b)) (buffer b))) = nat c"
    using assms buf_okD [OF assms(1)] by (auto simp: readAble_def)
  have "take (nat c) (contents b) = take (nat c) (drop (nat (read_index b)) (buffer b))"
    using assms by (simp add: contents_def readAble_def min_def)
  with cpy len assms show ?thesis
    by (auto simp: buf_ok_def contents_def)
qed

lemma resizeBuffer_ok:
  assumes "buf_ok b" and "0 \<le> sz" and "sz \<le> 2147483647"
  shows "\<exists>b'. resizeBuffer sz b = Inr b' \<and> buf_ok b' \<and>
    contents b' = take (nat sz) (contents b) \<and> int (length (buffer b')) = sz \<and>
    read_index b' = 0 \<and> write_index b' = min sz (readAble b)"
proof -
  let ?c = "min sz (readAble b)"
  have "0 \<le> ?c" "?c \<le> readAble b" "?c \<le> int (length (zeros (nat sz)))"
    "length (zeros (nat sz)) \<le> 2147483647"
    using assms buf_okD [OF assms(1)] by (auto simp: readAble_def)
  from compact_ok [OF assms(1) this] obtain v where v:
    "memcpy (zeros (nat sz)) 0 (buffer b) (read_index b) ?c = Inr v"
    "buf_ok (b\<lparr>buffer := v, read_index := 0, write_index := ?c\<rparr>)"
    "contents (b\<lparr>buffer := v, read_index := 0, write_index := ?c\<rparr>) = take (nat ?c) (contents b)"
    "length v = nat sz"
    by auto
  have "take (nat ?c) (contents b) = take (nat sz) (contents b)"
    using length_contents [OF assms(1)] by (auto simp: min_def)
  with v assms(2) show ?thesis
    by (simp add: resizeBuffer_def Let_def)
qed

lemma adjustBuffer_ok:
  assumes "buf_ok b"
  shows "\<exists>b'. adjustBuffer b = Inr b' \<and> buf_ok b' \<and> contents b' = contents b \<and>
    write_index b' \<le> write_index b \<and> length (buffer b') = length (buffer b)"
proof (cases "read_index b > int (length (buffer b) div 3)")
  case True
  have "0 \<le> readAble b" "readAble b \<le> int (length (zeros (length (buffer b))))"
    using buf_okD [OF assms] by (auto simp: readAble_def)
  with compact_ok [OF assms, of "readAble b" "zeros (length (buffer b))"] obtain v where
    "memcpy (zeros (length (buffer b))) 0 (buffer b) (read_index b) (readAble b) = Inr v"
    "buf_ok (b\<lparr>buffer := v, read_index := 0, write_index := readAble b\<rparr>)"
    "contents (b\<lparr>buffer := v, read_index := 0, write_index := readAble b\<rparr>) =
       take (nat (readAble b)) (contents b)"
    "length v = length (buffer b)"
    using buf_okD [OF assms] by auto
  moreover have "take (nat (readAble b)) (contents b) = contents b"
    using length_contents [OF assms] by simp
  ultimately show ?thesis
    using True buf_okD [OF assms] by (simp add: adjustBuffer_def Let_def readAble_def)
next
  case False
  then show ?thesis using assms buf_okD [OF assms] by (simp add: adjustBuffer_def)
qed

text \<open>Placing bytes at the write index when they fit.\<close>

lemma buf_okE:
  assumes "buf_ok b"
  obtains r w where "read_index b = int r" "write_index b = int w"
    "r \<le> w" "w \<le> length (buffer b)" "length (buffer b) \<le> 2147483647"
    "contents b = take (w - r) (drop r (buffer b))"
proof (rule that [of "nat (read_index b)" "nat (write_index b)"])
  show "contents b = take (nat (write_index b) - nat (read_index b)) (drop (nat (read_index b)) (buffer b))"
    using buf_okD [OF assms] by (simp add: contents_def nat_diff_distrib)
qed (use buf_okD [OF assms] in auto)

lemma append_at_ok:
  assumes "buf_ok b" and "int (length d) \<le> int (length (buffer b)) - write_index b"
  shows "\<exists>v. memcpy (buffer b) (write_index b) d 0 (int (length d)) = Inr v \<and>
    buf_ok (b\<lparr>buffer := v, write_index := write_index b + int (length d)\<rparr>) \<and>
    contents (b\<lparr>buffer := v, write_index := write_index b + int (length d)\<rparr>) = contents b @ d"
  using assms(1)
proof (cases rule: buf_okE)
  case (1 r w)
  note ix = 1(1,2)
  let ?v = "take w (buffer b) @ d @ drop (w + length d) (buffer b)"
  have fits: "w + length d \<le> length (buffer b)" using assms(2) ix by simp
  then have cpy: "memcpy (buffer b) (int w) d 0 (int (length d)) = Inr ?v"
    by (simp add: memcpy_ok nat_add_distrib)
  have "w + length d - r = (w - r) + length d" using 1 by simp
  moreover have "drop r ?v = take (w - r) (drop r (buffer b)) @ d @ drop (w + length d) (buffer b)"
    using 1 by (simp add: drop_take)
  moreover have "length (take (w - r) (drop r (buffer b))) = w - r" using 1 by simp
  ultimately have tk: "take (w + length d - r) (drop r ?v) = take (w - r) (drop r (buffer b)) @ d"
    by (simp del: length_take)
  have len: "length ?v = length (buffer b)" using fits by simp
  have nd: "nat (int w + int (length d) - int r) = w + length d - r"
    using 1 by linarith
  show ?thesis
    using cpy tk len 1 fits nd
    by (intro exI [of _ ?v]) (simp add: ix buf_ok_def contents_def del: length_append)
qed

lemma writeToBuffer_ok:
  assumes "buf_ok b" and "write_index b + int (length d) \<le> int buf_cap"
  shows "\<exists>b'. writeToBuffer d (int (length d)) b = Inr b' \<and> buf_ok b' \<and>
    contents b' = contents b @ d \<and> write_index b' \<le> write_index b + int (length d)"
proof -
  note ok = buf_okD [OF assms(1)]
  let ?x = "write_index b + int (length d)"
  have x: "0 \<le> ?x" "?x \<le> 1431655764" using ok assms(2) by (auto simp: buf_cap_def)
  have room: "\<exists>b1. (if int (length d) > writeAble b
        then bindE (chk_int ?x) (\<lambda>x. bindE (scale_1_5 x) (\<lambda>new_size. resizeBuffer new_size b))
        else Inr b) = Inr b1 \<and> buf_ok b1 \<and> contents b1 = contents b \<and>
      write_index b1 \<le> write_index b \<and> int (length d) \<le> int (length (buffer b1)) - write_index b1"
  proof (cases "int (length d) > writeAble b")
    case True
    have s: "0 \<le> 3 * ?x div 2" "3 * ?x div 2 \<le> 2147483647" "?x \<le> 3 * ?x div 2"
      using x by auto
    from resizeBuffer_ok [OF assms(1) s(1,2)] obtain b1 where b1:
      "resizeBuffer (3 * ?x div 2) b = Inr b1" "buf_ok b1"
      "contents b1 = take (nat (3 * ?x div 2)) (contents b)"
      "int (length (buffer b1)) = 3 * ?x div 2" "write_index b1 = min (3 * ?x div 2) (readAble b)"
      by auto
    have "readAble b \<le> write_index b" "0 \<le> readAble b" using ok by (auto simp: readAble_def)
    moreover have "contents b1 = contents b"
      using b1(3) length_contents [OF assms(1)] s(3) \<open>readAble b \<le> write_index b\<close> by simp
    moreover have "chk_int ?x = Inr ?x" using x by (simp add: in_int_def)
    moreover have "scale_1_5 ?x = Inr (3 * ?x div 2)" by (rule scale_1_5_ok) (use x s in auto)
    ultimately show ?thesis using True b1 s(3) by simp
  next
    case False
    with assms(1) writeAble_eq [OF assms(1)] show ?thesis by simp
  qed
  then obtain b1 where b1: "(if int (length d) > writeAble b
        then bindE (chk_int ?x) (\<lambda>x. bindE (scale_1_5 x) (\<lambda>new_size. resizeBuffer new_size b))
        else Inr b) = Inr b1"
    "buf_ok b1" "contents b1 = contents b" "write_index b1 \<le> write_index b"
    "int (length d) \<le> int (length (buffer b1)) - write_index b1"
    by blast
  have "in_int (write_index b1 + int (length d))"
    using b1(4) x buf_okD [OF b1(2)] by (simp add: in_int_def)
  with append_at_ok [OF b1(2,5)] b1 show ?thesis
    by (auto simp: writeToBuffer_def)
qed

lemma advance_read_ok:
  assumes "buf_ok b" and "0 \<le> n" and "n \<le> readAble b"
  shows "buf_ok (b\<lparr>read_index := read_index b + n\<rparr>)"
    and "contents (b\<lparr>read_index := read_index b + n\<rparr>) = drop (nat n) (contents b)"
proof -
  note ok = buf_okD [OF assms(1)]
  show "buf_ok (b\<lparr>read_index := read_index b + n\<rparr>)"
    using ok assms by (simp add: buf_ok_def readAble_def)
  obtain r w where rw: "read_index b = int r" "write_index b = int w"
    using buf_okE [OF assms(1)] by blast
  obtain k where k: "n = int k" using assms(2) by (rule nonneg_int_cases)
  have "r + k \<le> w" using assms(3) rw k by (simp add: readAble_def)
  then have "nat (int w - (int r + int k)) = w - r - k" "nat (int w - int r) = w - r" by linarith+
  with rw k show "contents (b\<lparr>read_index := read_index b + n\<rparr>) = drop (nat n) (contents b)"
    by (simp add: contents_def drop_take nat_add_distrib add.commute)
qed

lemma readFromBuffer_ok:
  assumes "buf_ok b" and "0 \<le> n"
  shows "\<exists>b'. readFromBuffer re n b =
      Inr (if contents b = [] then re else take (nat n) (contents b), b') \<and>
    buf_ok b' \<and> contents b' = drop (nat n) (contents b) \<and> write_index b' \<le> write_index b"
proof (cases "readAble b = 0")
  case True
  then have "contents b = []" using length_contents [OF assms(1)] by simp
  with True assms(1) show ?thesis by (simp add: readFromBuffer_def)
next
  case False
  note ok = buf_okD [OF assms(1)]
  have ne: "contents b \<noteq> []" using False length_contents [OF assms(1)] by auto
  define m where "m = min n (readAble b)"
  have m: "0 \<le> m" "m \<le> readAble b" "(if readAble b > n then n else readAble b) = m"
    using assms ok by (auto simp: m_def readAble_def)
  have tk: "take (nat m) (drop (nat (read_index b)) (buffer b)) = take (nat n) (contents b)"
    and dr: "drop (nat m) (contents b) = drop (nat n) (contents b)"
    using length_contents [OF assms(1)] assms ok m
    by (auto simp: contents_def m_def readAble_def min_def)
  have cpy: "memcpy (zeros (nat m)) 0 (buffer b) (read_index b) m = Inr (take (nat n) (contents b))"
    using m ok tk by (simp add: memcpy_front readAble_def)
  have "in_int (read_index b + m)" using m ok by (simp add: in_int_def readAble_def)
  moreover obtain b' where
    "adjustBuffer (b\<lparr>read_index := read_index b + m\<rparr>) = Inr b'" "buf_ok b'"
    "contents b' = drop (nat m) (contents b)" "write_index b' \<le> write_index b"
    using adjustBuffer_ok [OF advance_read_ok(1) [OF assms(1) m(1,2)]]
      advance_read_ok(2) [OF assms(1) m(1,2)] by auto
  ultimately show ?thesis
    using False ne m cpy dr by (simp add: readFromBuffer_def Let_def)
qed

text \<open>What \<open>recycleWrite\<close> makes of bytes placed in the free area, and \<open>recycleRead\<close> of sent ones.\<close>

lemma recycleWrite_ok:
  assumes "buf_ok b" and "0 \<le> n" and "write_index b + n < int (length (buffer b))"
  shows "\<exists>b'. recycleWrite n b = Inr b' \<and> buf_ok b' \<and>
    contents b' = contents b @ take (nat n) (free_area b)"
proof -
  note ok = buf_okD [OF assms(1)]
  let ?b = "b\<lparr>write_index := write_index b + n\<rparr>"
  have "buf_ok ?b" using ok assms by (simp add: buf_ok_def)
  moreover have "contents ?b = contents b @ take (nat n) (free_area b)"
  proof -
    obtain r w where rw: "read_index b = int r" "write_index b = int w" "r \<le> w" "w \<le> length (buffer b)"
      using buf_okE [OF assms(1)] by blast
    moreover obtain k where "n = int k" using assms(2) by (rule nonneg_int_cases)
    moreover have "nat (int w + int k - int r) = (w - r) + k" "nat (int w - int r) = w - r" for k
      using rw(3) by linarith+
    moreover have "take ((w - r) + k) (drop r (buffer b)) =
        take (w - r) (drop r (buffer b)) @ take k (drop w (buffer b))" for k
      unfolding take_add using rw(3) by simp
    ultimately show ?thesis
      by (simp add: contents_def free_area_def del: diff_add_assoc2 Nat.add_diff_assoc2)
  qed
  moreover have "in_int (write_index b + n)" using ok assms by (simp add: in_int_def)
  ultimately show ?thesis
    using adjustBuffer_ok [of ?b] assms(3) buf_ok_in_int(5) [OF assms(1)]
    by (auto simp: recycleWrite_def)
qed

lemma recycleWrite_full:
  assumes "buf_ok b" and "int (length (buffer b)) \<le> write_index b + n" and "in_int (write_index b + n)"
  shows "recycleWrite n b = Inr b"
  using assms buf_ok_in_int(5) [OF assms(1)] by (simp add: recycleWrite_def)

lemma recycleRead_ok:
  assumes "buf_ok b" and "0 \<le> n" and "n \<le> readAble b"
    and "read_index b + n < int (length (buffer b))"
  shows "\<exists>b'. recycleRead n b = Inr b' \<and> buf_ok b' \<and> contents b' = drop (nat n) (contents b)"
proof -
  note ok = buf_okD [OF assms(1)]
  have "in_int (read_index b + n)" using ok assms by (simp add: in_int_def)
  then show ?thesis
    using adjustBuffer_ok [OF advance_read_ok(1) [OF assms(1-3)]] advance_read_ok(2) [OF assms(1-3)]
      assms(4) buf_ok_in_int(5) [OF assms(1)]
    by (auto simp: recycleRead_def)
qed

lemma recycleRead_end:
  assumes "buf_ok b" and "int (length (buffer b)) \<le> read_index b + n" and "in_int (read_index b + n)"
  shows "recycleRead n b = Inr b"
  using assms buf_ok_in_int(5) [OF assms(1)] by (simp add: recycleRead_def)

section \<open>The queue the buffer implements\<close>

text \<open>
  Clients of a buffer write blocks of bytes and read up to a number of bytes.  \<open>acc k q\<close> says that
  \<open>q\<close> is a valid buffer that has accepted at most \<open>k\<close> bytes; below \<open>cap\<close> a write cannot fail.
\<close>

datatype io_op = Write "byte list" | Read nat

primrec run_io :: "(byte list \<Rightarrow> 'q \<Rightarrow> 'q res) \<Rightarrow> (nat \<Rightarrow> 'q \<Rightarrow> (byte list \<times> 'q) res) \<Rightarrow>
    io_op list \<Rightarrow> byte list \<Rightarrow> 'q \<Rightarrow> (byte list \<times> 'q) res" where
  "run_io enq deq [] out q = Inr (out, q)"
| "run_io enq deq (x # xs) out q =
     (case x of
        Write d \<Rightarrow> bindE (enq d q) (run_io enq deq xs out)
      | Read n \<Rightarrow> bindE (deq n q) (\<lambda>(bs, q'). run_io enq deq xs (out @ bs) q'))"

primrec written :: "io_op list \<Rightarrow> byte list" where
  "written [] = []"
| "written (x # xs) = (case x of Write d \<Rightarrow> d | Read n \<Rightarrow> []) @ written xs"

locale byte_queue =
  fixes acc :: "nat \<Rightarrow> 'q \<Rightarrow> bool" and unread :: "'q \<Rightarrow> byte list" and cap :: nat
    and enq :: "byte list \<Rightarrow> 'q \<Rightarrow> 'q res" and deq :: "nat \<Rightarrow> 'q \<Rightarrow> (byte list \<times> 'q) res"
  assumes enq_ok: "acc k q \<Longrightarrow> k + length d \<le> cap \<Longrightarrow>
      \<exists>q'. enq d q = Inr q' \<and> acc (k + length d) q' \<and> unread q' = unread q @ d"
    and deq_ok: "acc k q \<Longrightarrow>
      \<exists>q'. deq n q = Inr (take n (unread q), q') \<and> acc k q' \<and> unread q' = drop n (unread q)"
begin

lemma run_fifo:
  "acc k q \<Longrightarrow> k + length (written ops) \<le> cap \<Longrightarrow>
   \<exists>got q'. run_io enq deq ops out q = Inr (out @ got, q') \<and> acc (k + length (written ops)) q' \<and>
     got @ unread q' = unread q @ written ops"
proof (induction ops arbitrary: out q k)
  case Nil
  then show ?case by simp
next
  case (Cons x xs)
  show ?case
  proof (cases x)
    case (Write d)
    with Cons.prems enq_ok [of k q d] obtain q1 where
      q1: "enq d q = Inr q1" "acc (k + length d) q1" "unread q1 = unread q @ d" by auto
    from Cons.IH [OF q1(2), of out] Cons.prems Write q1 show ?thesis
      by (auto simp: add.assoc)
  next
    case (Read n)
    with Cons.prems deq_ok [of k q n] obtain q1 where
      q1: "deq n q = Inr (take n (unread q), q1)" "acc k q1" "unread q1 = drop n (unread q)" by auto
    from Cons.IH [OF q1(2), of "out @ take n (unread q)"] Cons.prems Read obtain got q' where
      "run_io enq deq xs (out @ take n (unread q)) q1 = Inr ((out @ take n (unread q)) @ got, q')"
      "acc (k + length (written xs)) q'" "got @ unread q' = unread q1 @ written xs"
      by auto
    moreover have "(take n (unread q) @ got) @ unread q' = unread q @ written xs"
      using calculation(3) q1(3) by (metis append.assoc append_take_drop_id)
    ultimately show ?thesis using q1 Read
      by (intro exI [of _ "take n (unread q) @ got"] exI [of _ q']) simp
  qed
qed

end

definition buf_acc :: "nat \<Rightarrow> tcp_buffer \<Rightarrow> bool" where
  "buf_acc k b \<longleftrightarrow> buf_ok b \<and> write_index b \<le> int k"

definition buf_write :: "byte list \<Rightarrow> tcp_buffer \<Rightarrow> tcp_buffer res" where
  "buf_write d b = writeToBuffer d (int (length d)) b"

definition buf_read :: "nat \<Rightarrow> tcp_buffer \<Rightarrow> (byte list \<times> tcp_buffer) res" where
  "buf_read n b = readFromBuffer [] (int n) b"

interpretation tcp_queue: byte_queue buf_acc contents buf_cap buf_write buf_read
proof
  fix k q and d :: "byte list" assume "buf_acc k q" "k + length d \<le> buf_cap"
  then show "\<exists>q'. buf_write d q = Inr q' \<and> buf_acc (k + length d) q' \<and> contents q' = contents q @ d"
    using writeToBuffer_ok [of q d] by (force simp: buf_acc_def buf_write_def)
next
  fix k q n assume "buf_acc k q"
  then show "\<exists>q'. buf_read n q = Inr (take n (contents q), q') \<and> buf_acc k q' \<and>
      contents q' = drop n (contents q)"
    using readFromBuffer_ok [of q "int n" "[]"] by (force simp: buf_acc_def buf_read_def)
qed

section \<open>Properties\<close>

text \<open>C3. The buffer is a byte queue.  From a fresh buffer of any size, any sequence of
  \<open>writeToBuffer\<close> and \<open>readFromBuffer\<close> calls that writes no more than 1431655764 bytes in all
  runs without a fault, and what has been read followed by what is still in the buffer is
  exactly what was written, in order: growing and compacting lose and reorder nothing.\<close>

theorem tcp_buffer_fifo:
  assumes "0 \<le> sz" and "sz \<le> 2147483647" and "length (written ops) \<le> buf_cap"
  shows "\<exists>b got b'. new_TcpBuffer sz = Inr b \<and> run_io buf_write buf_read ops [] b = Inr (got, b') \<and>
    buf_ok b' \<and> got @ contents b' = written ops"
proof -
  obtain b where b: "new_TcpBuffer sz = Inr b" "buf_acc 0 b" "contents b = []"
    using new_TcpBuffer_ok [OF assms(1,2)] by (auto simp: buf_acc_def)
  from tcp_queue.run_fifo [OF b(2), of ops "[]"] b assms(3) show ?thesis
    by (auto simp: buf_acc_def)
qed

theorem tcp_buffer_fifo_witness:
  "\<exists>b got b'. new_TcpBuffer 2 = Inr b \<and>
     run_io buf_write buf_read [Write [1, 2, 3], Read 2, Write [4]] [] b = Inr (got, b') \<and>
     buf_ok b' \<and> got @ contents b' = [1, 2, 3, 4]"
  using tcp_buffer_fifo [of 2 "[Write [1, 2, 3], Read 2, Write [4]]"] by (simp add: buf_cap_def)

text \<open>Accounting for bytes placed in the free area.  After \<open>n\<close> bytes were read from a socket
  to the free area of a valid buffer, \<open>recycleWrite(n)\<close> makes them the newest unread bytes as
  long as the vector is not filled to its end.\<close>

theorem recycleWrite_appends:
  assumes "buf_ok b" and "0 \<le> n" and "write_index b + n < int (length (buffer b))"
  shows "\<exists>b'. recycleWrite n b = Inr b' \<and> buf_ok b' \<and>
    contents b' = contents b @ take (nat n) (free_area b)"
  using assms by (rule recycleWrite_ok)

theorem recycleWrite_appends_witness:
  "\<exists>b'. recycleWrite 2 \<lparr>read_index = 1, write_index = 2, buffer = [9, 8, 7, 6, 5]\<rparr> = Inr b' \<and>
     buf_ok b' \<and> contents b' = [8, 7, 6]"
  using recycleWrite_appends [of "\<lparr>read_index = 1, write_index = 2, buffer = [9, 8, 7, 6, 5]\<rparr>" 2]
  by (simp add: buf_ok_def contents_def free_area_def)

text \<open>A full vector is refused.  When the bytes read fill the vector exactly,
  \<open>recycleWrite\<close> reports an error and leaves the write index where it was: the bytes are not
  part of the unread contents and the next read overwrites them.  In the same way
  \<open>recycleRead\<close> refuses to consume bytes up to the end of the vector.\<close>

theorem recycle_refuses_end:
  assumes "buf_ok b"
  shows "recycleWrite (writeAble b) b = Inr b \<and>
    (write_index b = int (length (buffer b)) \<longrightarrow> recycleRead (readAble b) b = Inr b)"
  using assms recycleWrite_full [OF assms, of "writeAble b"] recycleRead_end [OF assms, of "readAble b"]
    buf_ok_in_int [OF assms]
  by (auto simp: writeAble_eq readAble_def)

theorem recycle_refuses_end_witness:
  "recycleWrite 3 \<lparr>read_index = 0, write_index = 1, buffer = [9, 8, 7, 6]\<rparr> =
     Inr \<lparr>read_index = 0, write_index = 1, buffer = [9, 8, 7, 6]\<rparr> \<and>
   recycleRead 3 \<lparr>read_index = 1, write_index = 4, buffer = [9, 8, 7, 6]\<rparr> =
     Inr \<lparr>read_index = 1, write_index = 4, buffer = [9, 8, 7, 6]\<rparr>"
  using recycle_refuses_end [of "\<lparr>read_index = 0, write_index = 1, buffer = [9, 8, 7, 6]\<rparr>"]
    recycle_refuses_end [of "\<lparr>read_index = 1, write_index = 4, buffer = [9, 8, 7, 6]\<rparr>"]
  by (simp add: buf_ok_def writeAble_def readAble_def cast_int_def)

end
