(* ===== verification/Rpc_Transport.thy ===== *)
theory Rpc_Transport
  imports Rpc Tcp_Buffer
begin

text \<open>
  A remote call over a connection's buffer: the byte queue that \<open>Tcp_Buffer\<close> provides carries the encoding that \<open>Binary\<close> and \<open>Rpc\<close>
  make of a request.  The connection passes bytes on in whatever pieces they arrive; the two components meet at the bytes.
\<close>

section \<open>Partial requests\<close>

lemma left_for_each_read: "left_dec (for_each_fields ms (\<lambda>n i. read_field le n (tys ! i)) obj)"
proof (induction ms arbitrary: obj)
  case Nil
  then show ?case using left_retD [of obj] by (simp add: left_dec_def)
next
  case (Cons x xs)
  have "for_each_fields (x # xs) (\<lambda>n i. read_field le n (tys ! i)) obj =
      bindD (get (tys ! snd x) le (obj ! snd x)) (\<lambda>v. for_each_fields xs (\<lambda>n i. read_field le n (tys ! i)) (obj[snd x := v]))"
    by (rule ext) (simp add: bindD_def read_field_def)
  then show ?case using left_bindD [OF left_get Cons.IH] by simp
qed

lemma call_truncated:
  assumes "struct_ok (request p)" and "obj_wt (request p) a" and "obj_fresh (request p) (init (request p))"
    and "n < length (struct_wire (request p) a)"
  shows "call le p (good (take n (struct_wire (request p) a))) = Inl Malformed_data"
proof -
  have "for_each (request p) (read_field le) (init (request p)) (good (take n (struct_wire (request p) a))) = Inl Malformed_data"
    unfolding for_each_def
  proof (rule left_dec_truncated [OF left_for_each_read])
    show "for_each_fields (meta (request p)) (\<lambda>name i. read_field le name (members (request p) ! i)) (init (request p))
        (good (struct_wire (request p) a)) = Inr (a, good [])"
      using read_struct [OF assms(1-3), of le "[]"] by (simp add: for_each_def)
  qed (rule assms(4))
  then show ?thesis by (simp add: call_def)
qed

section \<open>Calls through a buffer\<close>



end
