(* ===== verification/Sys.thy ===== *)
theory Sys
  imports Prelude
begin

text \<open>
  The operating system as the network code sees it.  The calls are not part of the repository:
  they are a parameter of the model, a record of functions over a kernel state of any type
  \<open>'k\<close>.  Every call takes the kernel state and returns the result with the next state.  What the
  code relies on is stated below as named predicates over such a record, after the manual pages
  of the calls; \<open>mini_sys\<close> is a small kernel that satisfies them.
\<close>

section \<open>Calls\<close>

datatype ctl_op = EPOLL_CTL_ADD | EPOLL_CTL_MOD | EPOLL_CTL_DEL

record epoll_event =
  events :: u32
  data :: u64

definition EPOLLIN :: u32 where "EPOLLIN = 1"
definition EPOLLOUT :: u32 where "EPOLLOUT = 4"
definition EPOLLET :: u32 where "EPOLLET = 2147483648"

definition EAGAIN :: int where "EAGAIN = 11"
definition EISCONN :: int where "EISCONN = 106"
definition ETIMEDOUT :: int where "ETIMEDOUT = 110"
definition EINPROGRESS :: int where "EINPROGRESS = 115"

lemmas errno_defs = EAGAIN_def EISCONN_def ETIMEDOUT_def EINPROGRESS_def

text \<open>
  The result of a call that transfers data or may fail is its return value and \<open>errno\<close>; a read
  also gives the bytes stored.
\<close>

record io_ret =
  rt :: int
  errno :: int

record 'k sys =
  sys_gettid :: "'k \<Rightarrow> int"
  sys_gettimeofday :: "'k \<Rightarrow> (int \<times> int) \<times> 'k"
  sys_epoll_create :: "'k \<Rightarrow> int \<times> 'k"
  sys_eventfd :: "'k \<Rightarrow> int \<times> 'k"
  sys_epoll_ctl :: "int \<Rightarrow> ctl_op \<Rightarrow> int \<Rightarrow> epoll_event option \<Rightarrow> 'k \<Rightarrow> int \<times> 'k"
  sys_epoll_wait :: "int \<Rightarrow> nat \<Rightarrow> int \<Rightarrow> 'k \<Rightarrow> (int \<times> epoll_event list) \<times> 'k"
  sys_read :: "int \<Rightarrow> nat \<Rightarrow> 'k \<Rightarrow> (io_ret \<times> byte list) \<times> 'k"
  sys_write :: "int \<Rightarrow> byte list \<Rightarrow> 'k \<Rightarrow> io_ret \<times> 'k"
  sys_timerfd_create :: "'k \<Rightarrow> int \<times> 'k"
  sys_timerfd_settime :: "int \<Rightarrow> int \<times> int \<Rightarrow> 'k \<Rightarrow> int \<times> 'k"
  sys_fcntl_get :: "int \<Rightarrow> 'k \<Rightarrow> u32 \<times> 'k"
  sys_fcntl_set :: "int \<Rightarrow> u32 \<Rightarrow> 'k \<Rightarrow> 'k"
  sys_accept :: "int \<Rightarrow> 'k \<Rightarrow> io_ret \<times> 'k"
  sys_connect :: "int \<Rightarrow> 'k \<Rightarrow> io_ret \<times> 'k"
  sys_close :: "int \<Rightarrow> 'k \<Rightarrow> 'k"
  sys_shutdown :: "int \<Rightarrow> 'k \<Rightarrow> 'k"

section \<open>What the code relies on\<close>

text \<open>
  How the program's epoll instance is seen: its descriptor, its interest list in a kernel state, and the descriptors for which a call
  of \<open>epoll_ctl\<close> on the instance has failed so far.
\<close>

record 'k epoll_view =
  inst :: int
  reg :: "'k \<Rightarrow> int \<Rightarrow> epoll_event option"
  refused :: "'k \<Rightarrow> int set"

text \<open>
  \<open>epoll_ctl\<close> after its manual page: a call that returns 0 has done what it was asked for, and can only do so when a descriptor to add
  is not in the list (\<open>EEXIST\<close>) and one to modify or delete is (\<open>ENOENT\<close>).  Any call may fail, for these or for other reasons
  (\<open>EBADF\<close>, \<open>EPERM\<close>, \<open>ENOMEM\<close>, \<open>ENOSPC\<close>, \<open>\<dots>\<close>); a failed call leaves the list alone.
\<close>

definition epoll_ctl_spec :: "'k sys \<Rightarrow> 'k epoll_view \<Rightarrow> bool" where
  "epoll_ctl_spec S V \<longleftrightarrow>
     (\<forall>oper fd e k. case sys_epoll_ctl S (inst V) oper fd e k of (rc, k') \<Rightarrow>
        sys_gettid S k' = sys_gettid S k \<and>
        (if rc = 0
         then (oper = EPOLL_CTL_ADD \<longleftrightarrow> reg V k fd = None) \<and> (oper \<noteq> EPOLL_CTL_DEL \<longrightarrow> e \<noteq> None) \<and>
              reg V k' = (reg V k)(fd := if oper = EPOLL_CTL_DEL then None else e) \<and> refused V k' = refused V k
         else reg V k' = reg V k \<and> refused V k' = insert fd (refused V k)))"

text \<open>Calls that do not concern the interest list: neither it nor the thread changes.\<close>

definition same_reg :: "'k sys \<Rightarrow> 'k epoll_view \<Rightarrow> 'k \<Rightarrow> 'k \<Rightarrow> bool" where
  "same_reg S V k k' \<longleftrightarrow> reg V k' = reg V k \<and> refused V k' = refused V k \<and> sys_gettid S k' = sys_gettid S k"

text \<open>Writing to the wakeup descriptor is one of them.\<close>

definition wake_spec :: "'k sys \<Rightarrow> 'k epoll_view \<Rightarrow> int \<Rightarrow> bool" where
  "wake_spec S V fd \<longleftrightarrow> (\<forall>bs k. same_reg S V k (snd (sys_write S fd bs k)))"

text \<open>
  Reading a non-blocking counter descriptor (\<open>eventfd\<close>, \<open>timerfd\<close>): the first read may return 8
  bytes and resets the counter, the next one fails with \<open>EAGAIN\<close>; nothing else changes.
  \<open>same\<close> relates kernel states that differ in the counter only.
\<close>

definition counter_spec :: "'k sys \<Rightarrow> int \<Rightarrow> ('k \<Rightarrow> bool) \<Rightarrow> bool" where
  "counter_spec S fd idle \<longleftrightarrow>
     (\<forall>k. \<exists>r bs k'. sys_read S fd 8 k = ((r, bs), k') \<and>
        (if idle k then rt r = -1 \<and> errno r = EAGAIN \<and> k' = k else rt r = 8 \<and> idle k'))"

section \<open>Draining a counter descriptor\<close>

text \<open>
  The loop \<open>while (1) { if (g_sys_read_fun(fd, buf, 8) == -1 && errno == EAGAIN) break; }\<close> of
  \<open>Reactor::loop\<close> and \<open>Timer::onTimer\<close>.
\<close>

primrec read_until_again :: "nat \<Rightarrow> 'k sys \<Rightarrow> int \<Rightarrow> 'k \<Rightarrow> 'k res" where
  "read_until_again 0 S fd k = Inl Out_of_fuel"
| "read_until_again (Suc n) S fd k =
     (let ((r, bs), k') = sys_read S fd 8 k in
      if rt r = -1 \<and> errno r = EAGAIN then Inr k' else read_until_again n S fd k')"

lemma read_until_again_ends:
  assumes "counter_spec S fd idle" and "2 \<le> n"
  shows "\<exists>k'. read_until_again n S fd k = Inr k' \<and> idle k'"
proof -
  obtain m where n: "n = Suc (Suc m)" using assms(2) by (auto simp: le_iff_add)
  have spec: "\<exists>r bs k'. sys_read S fd 8 k = ((r, bs), k') \<and>
        (if idle k then rt r = -1 \<and> errno r = EAGAIN \<and> k' = k else rt r = 8 \<and> idle k')" for k
    using assms(1) by (simp add: counter_spec_def)
  show ?thesis
  proof (cases "idle k")
    case True
    then show ?thesis using spec [of k] n by auto
  next
    case False
    then obtain r bs k' where 1: "sys_read S fd 8 k = ((r, bs), k')" "rt r = 8" "idle k'"
      using spec [of k] by auto
    then show ?thesis using spec [of k'] n by auto
  qed
qed

section \<open>A small kernel\<close>

text \<open>One epoll interest list, one counter, a clock that advances by a millisecond per reading, the bytes written so far.\<close>

record mini_kernel =
  mk_tid :: int
  mk_reg :: "(int \<times> epoll_event) list"
  mk_refused :: "int list"
  mk_counter :: bool
  mk_ms :: int
  mk_armed :: "(int \<times> int) option"
  mk_sent :: "byte list"

text \<open>Adding a descriptor of 1000 or more fails, as with an exhausted limit on watches.\<close>

definition mini_ctl :: "int \<Rightarrow> ctl_op \<Rightarrow> int \<Rightarrow> epoll_event option \<Rightarrow> mini_kernel \<Rightarrow> int \<times> mini_kernel" where
  "mini_ctl ep oper fd e k =
     (let known = map_of (mk_reg k) fd \<noteq> None; rest = filter (\<lambda>p. fst p \<noteq> fd) (mk_reg k);
          fail = (-1, k\<lparr>mk_refused := fd # mk_refused k\<rparr>) in
      case oper of
        EPOLL_CTL_ADD \<Rightarrow> (case e of None \<Rightarrow> fail | Some ev \<Rightarrow>
           if known \<or> 1000 \<le> fd then fail else (0, k\<lparr>mk_reg := (fd, ev) # mk_reg k\<rparr>))
      | EPOLL_CTL_MOD \<Rightarrow> (case e of None \<Rightarrow> fail | Some ev \<Rightarrow>
           if known then (0, k\<lparr>mk_reg := (fd, ev) # rest\<rparr>) else fail)
      | EPOLL_CTL_DEL \<Rightarrow> if known then (0, k\<lparr>mk_reg := rest\<rparr>) else fail)"

definition mini_sys :: "mini_kernel sys" where
  "mini_sys =
     \<lparr>sys_gettid = mk_tid,
      sys_gettimeofday = (\<lambda>k. ((mk_ms k div 1000, mk_ms k mod 1000 * 1000), k\<lparr>mk_ms := mk_ms k + 1\<rparr>)),
      sys_epoll_create = (\<lambda>k. (3, k)),
      sys_eventfd = (\<lambda>k. (4, k)),
      sys_epoll_ctl = mini_ctl,
      sys_epoll_wait = (\<lambda>ep n t k. ((0, []), k)),
      sys_read = (\<lambda>fd n k. if mk_counter k then ((\<lparr>rt = 8, errno = 0\<rparr>, replicate 8 0), k\<lparr>mk_counter := False\<rparr>)
                   else ((\<lparr>rt = -1, errno = EAGAIN\<rparr>, []), k)),
      sys_write = (\<lambda>fd bs k. (\<lparr>rt = int (length bs), errno = 0\<rparr>, k\<lparr>mk_counter := True, mk_sent := mk_sent k @ bs\<rparr>)),
      sys_timerfd_create = (\<lambda>k. (5, k)),
      sys_timerfd_settime = (\<lambda>fd t k. (0, k\<lparr>mk_armed := if t = (0, 0) then None else Some t\<rparr>)),
      sys_fcntl_get = (\<lambda>fd k. (0, k)),
      sys_fcntl_set = (\<lambda>fd f k. k),
      sys_accept = (\<lambda>fd k. (\<lparr>rt = -1, errno = EAGAIN\<rparr>, k)),
      sys_connect = (\<lambda>fd k. (\<lparr>rt = -1, errno = EINPROGRESS\<rparr>, k)),
      sys_close = (\<lambda>fd k. k),
      sys_shutdown = (\<lambda>fd k. k)\<rparr>"

definition mini_view :: "mini_kernel epoll_view" where
  "mini_view = \<lparr>inst = 3, reg = (\<lambda>k. map_of (mk_reg k)), refused = (\<lambda>k. set (mk_refused k))\<rparr>"

lemma map_of_filter_other:
  "map_of (filter (\<lambda>p. fst p \<noteq> a) xs) = (map_of xs)(a := None)"
  by (induction xs) auto

lemma mini_epoll_ctl_spec: "epoll_ctl_spec mini_sys mini_view"
  by (auto simp: epoll_ctl_spec_def mini_sys_def mini_ctl_def mini_view_def map_of_filter_other
      fun_eq_iff Let_def split: ctl_op.splits option.splits)

lemma mini_wake_spec: "wake_spec mini_sys mini_view fd"
  by (simp add: wake_spec_def same_reg_def mini_sys_def mini_view_def)

lemma mini_counter_spec: "counter_spec mini_sys fd (\<lambda>k. \<not> mk_counter k)"
  by (simp add: counter_spec_def mini_sys_def)

end
