(* ===== verification/Reactor.thy ===== *)
theory Reactor
  imports Sys
begin

text \<open>
  \<open>net::Reactor\<close> of \<^verbatim>\<open>src/net/reactor.h\<close> and \<^verbatim>\<open>src/net/reactor.cc\<close>, with the part of \<open>net::FdEvent\<close> that its loop reads.

  The state is the reactor object together with what it can reach: the kernel, and the
  \<open>FdEvent\<close> objects by address (\<open>heap\<close>).  Callbacks are values of a type \<open>'t\<close>; what a callback
  does to the state is a parameter \<open>exec\<close>.  An empty \<open>std::function\<close> is \<open>None\<close>.  The sections
  guarded by \<open>mutex_\<close> are one step each.  Loops that the code does not bound take fuel.
\<close>

section \<open>State\<close>

text \<open>\<open>enum IOEvent\<close> of \<^verbatim>\<open>fd_event.h\<close>.\<close>

datatype IOEvent = READ | WRITE | ETModel

primrec flag_of :: "IOEvent \<Rightarrow> u32" where
  "flag_of READ = EPOLLIN"
| "flag_of WRITE = EPOLLOUT"
| "flag_of ETModel = EPOLLET"

record 't fd_event =
  m_fd :: int
  read_cb :: "'t option"
  write_cb :: "'t option"
  listen_events :: u32
  m_reactor :: "nat option"

definition getCallBack :: "IOEvent \<Rightarrow> 't fd_event \<Rightarrow> 't option" where
  "getCallBack flag e = (if flag = READ then read_cb e else if flag = WRITE then write_cb e else None)"

record ('t, 'k) reactor =
  epfd :: int
  wake_fd :: int
  timer_fd :: int
  stop_flag :: bool
  looping :: bool
  init_timer :: bool
  tid :: int
  fds :: "int list"
  pending_add_fds :: "(int \<times> epoll_event) list"
  pending_del_fds :: "int list"
  pending_tasks :: "'t option list"
  kern :: 'k
  heap :: "u64 \<rightharpoonup> 't fd_event"

text \<open>\<open>std::map::insert\<close>: ordered by key, an existing entry stays.\<close>

fun map_insert :: "int \<Rightarrow> 'v \<Rightarrow> (int \<times> 'v) list \<Rightarrow> (int \<times> 'v) list" where
  "map_insert a v [] = [(a, v)]"
| "map_insert a v ((b, w) # xs) =
     (if a < b then (a, v) # (b, w) # xs else if a = b then (b, w) # xs else (b, w) # map_insert a v xs)"

text \<open>\<open>event.data\<close> is a union of 64 bits: \<open>data.fd\<close> is its low half.\<close>

definition data_fd :: "u64 \<Rightarrow> int" where
  "data_fd d = sint (ucast d :: u32)"

section \<open>Operations\<close>

definition isLoopThread :: "'k sys \<Rightarrow> ('t, 'k) reactor \<Rightarrow> bool" where
  "isLoopThread S r \<longleftrightarrow> tid r = sys_gettid S (kern r)"

text \<open>
  \<open>addWakeupFd\<close> sets \<open>data.fd\<close> only; the other half of the union keeps whatever the
  uninitialised \<open>event\<close> held, \<open>junk\<close>.
\<close>

definition addWakeupFd :: "'k sys \<Rightarrow> u32 \<Rightarrow> ('t, 'k) reactor \<Rightarrow> ('t, 'k) reactor" where
  "addWakeupFd S junk r =
     (let ev = \<lparr>events = EPOLLIN, data = push_bit 32 (ucast junk) OR ucast (word_of_int (wake_fd r) :: u32)\<rparr>;
          (rc, k) = sys_epoll_ctl S (epfd r) EPOLL_CTL_ADD (wake_fd r) (Some ev) (kern r) in
      r\<lparr>kern := k, fds := fds r @ [wake_fd r]\<rparr>)"

text \<open>The constructor; \<open>have\<close> says whether the thread already owns a reactor.\<close>

definition new_Reactor :: "'k sys \<Rightarrow> bool \<Rightarrow> u32 \<Rightarrow> 'k \<Rightarrow> ('t, 'k) reactor res" where
  "new_Reactor S have junk k =
     bindE (guardE (\<not> have) Assert_failed) (\<lambda>_.
     let (ep, k1) = sys_epoll_create S k in
     bindE (guardE (ep > 0) Assert_failed) (\<lambda>_.
     let (wf, k2) = sys_eventfd S k1 in
     bindE (guardE (wf > 0) Assert_failed) (\<lambda>_.
       Inr (addWakeupFd S junk
         \<lparr>epfd = ep, wake_fd = wf, timer_fd = -1, stop_flag = False, looping = False, init_timer = False,
          tid = sys_gettid S k, fds = [], pending_add_fds = [], pending_del_fds = [], pending_tasks = [],
          kern = k2, heap = Map.empty\<rparr>))))"

definition wakeup :: "'k sys \<Rightarrow> ('t, 'k) reactor \<Rightarrow> ('t, 'k) reactor" where
  "wakeup S r =
     (if \<not> looping r then r
      else r\<lparr>kern := snd (sys_write S (wake_fd r) (le_bytes (1 :: u64)) (kern r))\<rparr>)"

definition addEventInLoopThread :: "'k sys \<Rightarrow> int \<Rightarrow> epoll_event \<Rightarrow> ('t, 'k) reactor \<Rightarrow> ('t, 'k) reactor res" where
  "addEventInLoopThread S fd ev r =
     bindE (guardE (isLoopThread S r) Assert_failed) (\<lambda>_.
     let is_add = fd \<notin> set (fds r);
         oper = (if is_add then EPOLL_CTL_ADD else EPOLL_CTL_MOD);
         (rc, k) = sys_epoll_ctl S (epfd r) oper fd (Some ev) (kern r) in
     if rc \<noteq> 0 then Inr (r\<lparr>kern := k\<rparr>)
     else Inr (r\<lparr>kern := k, fds := (if is_add then fds r @ [fd] else fds r)\<rparr>))"

definition delEventInLoopThread :: "'k sys \<Rightarrow> int \<Rightarrow> ('t, 'k) reactor \<Rightarrow> ('t, 'k) reactor res" where
  "delEventInLoopThread S fd r =
     bindE (guardE (isLoopThread S r) Assert_failed) (\<lambda>_.
     let (rc, k) = sys_epoll_ctl S (epfd r) EPOLL_CTL_DEL fd None (kern r) in
     bindE (guardE (fd \<in> set (fds r)) Bad_iterator) (\<lambda>_.
       Inr (r\<lparr>kern := k, fds := remove1 fd (fds r)\<rparr>)))"

definition addEvent :: "'k sys \<Rightarrow> int \<Rightarrow> epoll_event \<Rightarrow> bool \<Rightarrow> ('t, 'k) reactor \<Rightarrow> ('t, 'k) reactor res" where
  "addEvent S fd ev is_wakeup r =
     (if fd = -1 then Inr r
      else if isLoopThread S r then addEventInLoopThread S fd ev r
      else let r1 = r\<lparr>pending_add_fds := map_insert fd ev (pending_add_fds r)\<rparr> in
           Inr (if is_wakeup then wakeup S r1 else r1))"

definition delEvent :: "'k sys \<Rightarrow> int \<Rightarrow> bool \<Rightarrow> ('t, 'k) reactor \<Rightarrow> ('t, 'k) reactor res" where
  "delEvent S fd is_wakeup r =
     (if fd = -1 then Inr r
      else if isLoopThread S r then delEventInLoopThread S fd r
      else let r1 = r\<lparr>pending_del_fds := pending_del_fds r @ [fd]\<rparr> in
           Inr (if is_wakeup then wakeup S r1 else r1))"

definition addTask :: "'k sys \<Rightarrow> 't option \<Rightarrow> bool \<Rightarrow> ('t, 'k) reactor \<Rightarrow> ('t, 'k) reactor" where
  "addTask S task is_wakeup r =
     (let r1 = r\<lparr>pending_tasks := pending_tasks r @ [task]\<rparr> in
      if is_wakeup then wakeup S r1 else r1)"

definition addTasks :: "'k sys \<Rightarrow> 't option list \<Rightarrow> bool \<Rightarrow> ('t, 'k) reactor \<Rightarrow> ('t, 'k) reactor" where
  "addTasks S task is_wakeup r =
     (if length task = 0 then r
      else let r1 = r\<lparr>pending_tasks := pending_tasks r @ task\<rparr> in
           if is_wakeup then wakeup S r1 else r1)"

text \<open>\<open>mk_resume cor\<close> is the closure \<open>[cor]() { Coroutine::Resume(cor.get()); }\<close>.\<close>

definition addCoroutine :: "'k sys \<Rightarrow> (nat \<Rightarrow> 't) \<Rightarrow> nat \<Rightarrow> bool \<Rightarrow> ('t, 'k) reactor \<Rightarrow> ('t, 'k) reactor" where
  "addCoroutine S mk_resume cor is_wakeup r = addTask S (Some (mk_resume cor)) is_wakeup r"

definition stop :: "'k sys \<Rightarrow> ('t, 'k) reactor \<Rightarrow> ('t, 'k) reactor" where
  "stop S r = (if \<not> stop_flag r \<and> looping r then wakeup S (r\<lparr>stop_flag := True\<rparr>) else r)"

section \<open>The loop\<close>

text \<open>\<open>for (size_t i = 0; i < pending_tasks_.size(); ++i) pending_tasks_[i]();\<close>\<close>

fun run_tasks ::
  "nat \<Rightarrow> ('t \<Rightarrow> ('t, 'k) reactor \<Rightarrow> ('t, 'k) reactor res) \<Rightarrow> nat \<Rightarrow> ('t, 'k) reactor \<Rightarrow> ('t, 'k) reactor res" where
  "run_tasks n exec i r =
     (if i < length (pending_tasks r)
      then (case n of 0 \<Rightarrow> Inl Out_of_fuel | Suc m \<Rightarrow>
        (case pending_tasks r ! i of None \<Rightarrow> Inl Bad_function_call
         | Some t \<Rightarrow> bindE (exec t r) (run_tasks m exec (Suc i))))
      else Inr r)"

declare run_tasks.simps [simp del]

text \<open>
  One entry of \<open>re_events\<close>.  The address in the event is followed without a check that the
  object still exists; a dangling one is a fault.
\<close>

definition handle_event :: "nat \<Rightarrow> 'k sys \<Rightarrow> epoll_event \<Rightarrow> ('t, 'k) reactor \<Rightarrow> ('t, 'k) reactor res" where
  "handle_event n S ev r =
     (if data_fd (data ev) = wake_fd r \<and> events ev AND flag_of READ \<noteq> 0
      then bindE (read_until_again n S (wake_fd r) (kern r)) (\<lambda>k. Inr (r\<lparr>kern := k\<rparr>))
      else if data ev = 0 then Inr r
      else case heap r (data ev) of None \<Rightarrow> Inl Null_deref
        | Some e \<Rightarrow>
            if events ev AND EPOLLIN = 0 \<and> events ev AND EPOLLOUT = 0
            then delEventInLoopThread S (m_fd e) r
            else
              let r1 = (if events ev AND EPOLLIN \<noteq> 0
                        then r\<lparr>pending_tasks := pending_tasks r @ [getCallBack READ e]\<rparr> else r);
                  r2 = (if events ev AND EPOLLOUT \<noteq> 0
                        then r1\<lparr>pending_tasks := pending_tasks r1 @ [getCallBack WRITE e]\<rparr> else r1)
              in Inr r2)"

primrec foldE :: "('a \<Rightarrow> 's \<Rightarrow> 's res) \<Rightarrow> 'a list \<Rightarrow> 's \<Rightarrow> 's res" where
  "foldE f [] s = Inr s"
| "foldE f (x # xs) s = bindE (f x s) (foldE f xs)"

text \<open>Taking over the requests of other threads: all additions, then all deletions.\<close>

definition apply_pending :: "'k sys \<Rightarrow> ('t, 'k) reactor \<Rightarrow> ('t, 'k) reactor res" where
  "apply_pending S r =
     (let tmp_add = pending_add_fds r; tmp_del = pending_del_fds r in
      bindE (foldE (\<lambda>(fd, ev). addEventInLoopThread S fd ev) tmp_add
               (r\<lparr>pending_add_fds := [], pending_del_fds := []\<rparr>))
        (foldE (delEventInLoopThread S) tmp_del))"

text \<open>The body of \<open>while (!stop_flag_)\<close>.\<close>

definition loop_body ::
  "nat \<Rightarrow> 'k sys \<Rightarrow> ('t \<Rightarrow> ('t, 'k) reactor \<Rightarrow> ('t, 'k) reactor res) \<Rightarrow> ('t, 'k) reactor \<Rightarrow> ('t, 'k) reactor res" where
  "loop_body n S exec r =
     bindE (run_tasks n exec 0 r) (\<lambda>r1.
     let r2 = r1\<lparr>pending_tasks := []\<rparr>;
         ((rv, re_events), k) = sys_epoll_wait S (epfd r2) 10 10000 (kern r2);
         r3 = r2\<lparr>kern := k\<rparr> in
     if rv < 0 then Inr r3
     else bindE (foldE (handle_event n S) (take (nat rv) re_events) r3) (apply_pending S))"

fun loop_while ::
  "nat \<Rightarrow> nat \<Rightarrow> 'k sys \<Rightarrow> ('t \<Rightarrow> ('t, 'k) reactor \<Rightarrow> ('t, 'k) reactor res) \<Rightarrow> ('t, 'k) reactor \<Rightarrow>
   ('t, 'k) reactor res" where
  "loop_while m n S exec r =
     (if stop_flag r then Inr (r\<lparr>looping := False\<rparr>)
      else case m of 0 \<Rightarrow> Inl Out_of_fuel | Suc m' \<Rightarrow> bindE (loop_body n S exec r) (loop_while m' n S exec))"

declare loop_while.simps [simp del]

definition loop ::
  "nat \<Rightarrow> nat \<Rightarrow> 'k sys \<Rightarrow> ('t \<Rightarrow> ('t, 'k) reactor \<Rightarrow> ('t, 'k) reactor res) \<Rightarrow> ('t, 'k) reactor \<Rightarrow>
   ('t, 'k) reactor res" where
  "loop m n S exec r =
     bindE (guardE (isLoopThread S r) Assert_failed) (\<lambda>_.
     if looping r then Inr r
     else loop_while m n S exec (r\<lparr>looping := True, stop_flag := False\<rparr>))"

section \<open>Registration\<close>

text \<open>
  The reactor lists only descriptors that the kernel watches, and all of them except some for which a call of \<open>epoll_ctl\<close> has failed.
\<close>

definition in_sync :: "'k sys \<Rightarrow> 'k epoll_view \<Rightarrow> ('t, 'k) reactor \<Rightarrow> bool" where
  "in_sync S V r \<longleftrightarrow> isLoopThread S r \<and> epfd r = inst V \<and> distinct (fds r) \<and> set (fds r) \<subseteq> dom (reg V (kern r)) \<and>
     dom (reg V (kern r)) \<subseteq> set (fds r) \<union> refused V (kern r)"

lemma foldE_append: "foldE f (xs @ ys) s = bindE (foldE f xs s) (foldE f ys)"
  by (induction xs arbitrary: s) (auto simp: bindE_def split: sum.splits)

text \<open>A request that sets the entry of \<open>fd\<close> to \<open>e\<close> was carried out or refused.\<close>

definition applied :: "'k epoll_view \<Rightarrow> int \<Rightarrow> epoll_event option \<Rightarrow> 'k \<Rightarrow> 'k \<Rightarrow> bool" where
  "applied V fd e k k' \<longleftrightarrow>
     (reg V k' = (reg V k)(fd := e) \<and> refused V k' = refused V k) \<or>
     (reg V k' = reg V k \<and> refused V k' = insert fd (refused V k))"

lemma appliedD:
  assumes "applied V fd e k k'"
  shows "refused V k \<subseteq> refused V k'" and "x \<noteq> fd \<Longrightarrow> reg V k' x = reg V k x"
    and "fd \<notin> refused V k' \<Longrightarrow> reg V k' = (reg V k)(fd := e)" and "reg V k' fd = e \<or> reg V k' fd = reg V k fd"
  using assms by (auto simp: applied_def)

lemma ctl_cases:
  assumes "epoll_ctl_spec S V" and "sys_epoll_ctl S (inst V) oper fd e k = (rc, k')"
  shows "sys_gettid S k' = sys_gettid S k"
    and "rc = 0 \<Longrightarrow> (oper = EPOLL_CTL_ADD \<longleftrightarrow> reg V k fd = None) \<and>
      reg V k' = (reg V k)(fd := if oper = EPOLL_CTL_DEL then None else e) \<and> refused V k' = refused V k"
    and "rc \<noteq> 0 \<Longrightarrow> reg V k' = reg V k \<and> refused V k' = insert fd (refused V k)"
proof -
  have "sys_gettid S k' = sys_gettid S k \<and>
      (if rc = 0
       then (oper = EPOLL_CTL_ADD \<longleftrightarrow> reg V k fd = None) \<and> (oper \<noteq> EPOLL_CTL_DEL \<longrightarrow> e \<noteq> None) \<and>
            reg V k' = (reg V k)(fd := if oper = EPOLL_CTL_DEL then None else e) \<and> refused V k' = refused V k
       else reg V k' = reg V k \<and> refused V k' = insert fd (refused V k))"
    using spec [OF spec [OF spec [OF spec [OF assms(1) [unfolded epoll_ctl_spec_def], of oper], of fd], of e], of k]
    by (simp add: assms(2))
  then show "sys_gettid S k' = sys_gettid S k"
    and "rc = 0 \<Longrightarrow> (oper = EPOLL_CTL_ADD \<longleftrightarrow> reg V k fd = None) \<and>
      reg V k' = (reg V k)(fd := if oper = EPOLL_CTL_DEL then None else e) \<and> refused V k' = refused V k"
    and "rc \<noteq> 0 \<Longrightarrow> reg V k' = reg V k \<and> refused V k' = insert fd (refused V k)" by simp_all
qed

lemma addEventInLoopThread_ok:
  assumes "epoll_ctl_spec S V" and "in_sync S V r"
  shows "\<exists>r'. addEventInLoopThread S fd ev r = Inr r' \<and> in_sync S V r' \<and> applied V fd (Some ev) (kern r) (kern r')"
proof -
  define oper where "oper = (if fd \<notin> set (fds r) then EPOLL_CTL_ADD else EPOLL_CTL_MOD)"
  obtain rc k where c: "sys_epoll_ctl S (inst V) oper fd (Some ev) (kern r) = (rc, k)" by fastforce
  note k = ctl_cases [OF assms(1) c]
  have "oper \<noteq> EPOLL_CTL_DEL" by (simp add: oper_def)
  let ?r = "if rc \<noteq> 0 then r\<lparr>kern := k\<rparr> else r\<lparr>kern := k, fds := (if fd \<notin> set (fds r) then fds r @ [fd] else fds r)\<rparr>"
  have "addEventInLoopThread S fd ev r = Inr ?r"
    using assms(2) c by (simp add: addEventInLoopThread_def in_sync_def guardE_def oper_def [symmetric])
  moreover have "applied V fd (Some ev) (kern r) (kern ?r)"
    using k(2,3) \<open>oper \<noteq> EPOLL_CTL_DEL\<close> by (auto simp: applied_def)
  moreover have "in_sync S V ?r"
  proof (cases "rc = 0")
    case True
    then have "reg V k = (reg V (kern r))(fd \<mapsto> ev)" "refused V k = refused V (kern r)"
      using k(2) \<open>oper \<noteq> EPOLL_CTL_DEL\<close> by simp_all
    then show ?thesis using assms(2) k(1) True unfolding in_sync_def isLoopThread_def by (cases "fd \<in> set (fds r)") auto
  next
    case False
    then show ?thesis using assms(2) k(1,3) unfolding in_sync_def isLoopThread_def by auto
  qed
  ultimately show ?thesis by blast
qed

lemma delEventInLoopThread_ok:
  assumes "epoll_ctl_spec S V" and "in_sync S V r" and "fd \<in> set (fds r)"
  shows "\<exists>r'. delEventInLoopThread S fd r = Inr r' \<and> in_sync S V r' \<and> applied V fd None (kern r) (kern r') \<and>
    fds r' = remove1 fd (fds r)"
proof -
  obtain rc k where c: "sys_epoll_ctl S (inst V) EPOLL_CTL_DEL fd None (kern r) = (rc, k)" by fastforce
  note k = ctl_cases [OF assms(1) c]
  let ?r = "r\<lparr>kern := k, fds := remove1 fd (fds r)\<rparr>"
  have "delEventInLoopThread S fd r = Inr ?r"
    using assms(2,3) c by (simp add: delEventInLoopThread_def in_sync_def guardE_def)
  moreover have "applied V fd None (kern r) (kern ?r)"
    using k(2,3) by (auto simp: applied_def)
  moreover have "in_sync S V ?r"
  proof (cases "rc = 0")
    case True
    then have "reg V k = (reg V (kern r))(fd := None)" "refused V k = refused V (kern r)" using k(2) by simp_all
    then show ?thesis using assms(2) k(1) unfolding in_sync_def isLoopThread_def by auto
  next
    case False
    then have "reg V k = reg V (kern r)" "refused V k = insert fd (refused V (kern r))" using k(3) by simp_all
    then show ?thesis using assms(2) k(1) unfolding in_sync_def isLoopThread_def by auto
  qed
  ultimately show ?thesis by (intro exI [of _ ?r] conjI) simp_all
qed

lemma delEventInLoopThread_unknown:
  "isLoopThread S r \<Longrightarrow> fd \<notin> set (fds r) \<Longrightarrow> delEventInLoopThread S fd r = Inl Bad_iterator"
  by (simp add: delEventInLoopThread_def guardE_def split: prod.split)

lemma adds_ok:
  assumes "epoll_ctl_spec S V"
  shows "in_sync S V r \<Longrightarrow>
    \<exists>r'. foldE (\<lambda>(fd, ev). addEventInLoopThread S fd ev) as r = Inr r' \<and> in_sync S V r' \<and>
      refused V (kern r) \<subseteq> refused V (kern r') \<and> set (fds r) \<subseteq> set (fds r') \<and>
      (\<forall>fd. fd \<notin> refused V (kern r') \<longrightarrow> reg V (kern r') fd = (reg V (kern r) ++ map_of (rev as)) fd) \<and>
      (\<forall>fd. fd \<notin> fst ` set as \<longrightarrow> reg V (kern r') fd = reg V (kern r) fd)"
proof (induction as arbitrary: r)
  case (Cons a as)
  obtain fd ev where a: "a = (fd, ev)" by force
  from addEventInLoopThread_ok [OF assms Cons.prems] obtain r1 where
    r1: "addEventInLoopThread S fd ev r = Inr r1" "in_sync S V r1" "applied V fd (Some ev) (kern r) (kern r1)" by blast
  have f: "set (fds r) \<subseteq> set (fds r1)"
    using r1(1) by (auto simp: addEventInLoopThread_def bindE_Inr_iff Let_def split: prod.splits if_splits)
  from Cons.IH [OF r1(2)] obtain r' where
    r': "foldE (\<lambda>(fd, ev). addEventInLoopThread S fd ev) as r1 = Inr r'" "in_sync S V r'"
      "refused V (kern r1) \<subseteq> refused V (kern r')" "set (fds r1) \<subseteq> set (fds r')"
      "\<forall>fd. fd \<notin> refused V (kern r') \<longrightarrow> reg V (kern r') fd = (reg V (kern r1) ++ map_of (rev as)) fd"
      "\<forall>fd. fd \<notin> fst ` set as \<longrightarrow> reg V (kern r') fd = reg V (kern r1) fd" by blast
  have "reg V (kern r') x = (reg V (kern r) ++ map_of (rev (a # as))) x" if "x \<notin> refused V (kern r')" for x
  proof -
    have "x \<notin> refused V (kern r1)" using that r'(3) by blast
    then have "reg V (kern r1) x = ((reg V (kern r))(fd \<mapsto> ev)) x"
      using appliedD(2,3) [OF r1(3)] by (cases "x = fd") auto
    then show ?thesis using r'(5) that a by (auto simp: map_add_def split: option.splits)
  qed
  moreover have "reg V (kern r') x = reg V (kern r) x" if "x \<notin> fst ` set (a # as)" for x
    using that a r'(6) appliedD(2) [OF r1(3)] by auto
  ultimately show ?case
    using r1(1) r'(1-4) f appliedD(1) [OF r1(3)] a by (simp del: rev.simps) blast
qed simp

lemma dels_ok:
  assumes "epoll_ctl_spec S V"
  shows "in_sync S V r \<Longrightarrow>
    case foldE (delEventInLoopThread S) ds r of
      Inl f \<Rightarrow> f = Bad_iterator \<and> \<not> (distinct ds \<and> set ds \<subseteq> set (fds r))
    | Inr r' \<Rightarrow> in_sync S V r' \<and> refused V (kern r) \<subseteq> refused V (kern r') \<and>
        (\<forall>fd. fd \<notin> refused V (kern r') \<longrightarrow> reg V (kern r') fd = (if fd \<in> set ds then None else reg V (kern r) fd)) \<and>
        (\<forall>fd. fd \<notin> set ds \<longrightarrow> reg V (kern r') fd = reg V (kern r) fd)"
proof (induction ds arbitrary: r)
  case (Cons d ds)
  show ?case
  proof (cases "d \<in> set (fds r)")
    case False
    then show ?thesis using Cons.prems by (simp add: in_sync_def delEventInLoopThread_unknown)
  next
    case True
    from delEventInLoopThread_ok [OF assms Cons.prems this] obtain r1 where
      r1: "delEventInLoopThread S d r = Inr r1" "in_sync S V r1" "applied V d None (kern r) (kern r1)"
        "fds r1 = remove1 d (fds r)" by blast
    have d: "set (fds r1) = set (fds r) - {d}" using r1(4) Cons.prems by (simp add: in_sync_def)
    note a = appliedD [OF r1(3)]
    show ?thesis
    proof (cases "foldE (delEventInLoopThread S) ds r1")
      case (Inl f)
      then show ?thesis using Cons.IH [OF r1(2)] r1(1) d by auto
    next
      case (Inr r')
      note ih = Cons.IH [OF r1(2), unfolded Inr, simplified]
      have "reg V (kern r') x = (if x \<in> set (d # ds) then None else reg V (kern r) x)" if "x \<notin> refused V (kern r')" for x
      proof (cases "x = d")
        case True
        then have "d \<notin> refused V (kern r1)" using ih that by blast
        then show ?thesis using ih that a(3) True by auto
      qed (use ih that a(2) [of x] in auto)
      then show ?thesis using ih r1(1) Inr a(1,2) by auto
    qed
  qed
qed simp

lemma in_sync_clear:
  "in_sync S V (r\<lparr>pending_add_fds := as, pending_del_fds := ds\<rparr>) = in_sync S V r"
  by (simp add: in_sync_def isLoopThread_def)

lemma apply_pending_ok:
  assumes "epoll_ctl_spec S V" and "in_sync S V r"
  shows "case apply_pending S r of
      Inl f \<Rightarrow> f = Bad_iterator \<and> \<not> (distinct (pending_del_fds r) \<and> set (pending_del_fds r) \<subseteq> set (fds r))
    | Inr r' \<Rightarrow> in_sync S V r' \<and>
        (\<forall>fd. fd \<notin> refused V (kern r') \<longrightarrow> reg V (kern r') fd =
           (if fd \<in> set (pending_del_fds r) then None else (reg V (kern r) ++ map_of (rev (pending_add_fds r))) fd)) \<and>
        (\<forall>fd. fd \<notin> fst ` set (pending_add_fds r) \<union> set (pending_del_fds r) \<longrightarrow> reg V (kern r') fd = reg V (kern r) fd)"
proof -
  let ?r = "r\<lparr>pending_add_fds := [], pending_del_fds := []\<rparr>"
  from adds_ok [OF assms(1), of ?r "pending_add_fds r"] assms(2) obtain r1 where
    r1: "foldE (\<lambda>(fd, ev). addEventInLoopThread S fd ev) (pending_add_fds r) ?r = Inr r1" "in_sync S V r1"
      "set (fds r) \<subseteq> set (fds r1)"
      "\<forall>fd. fd \<notin> refused V (kern r1) \<longrightarrow> reg V (kern r1) fd = (reg V (kern r) ++ map_of (rev (pending_add_fds r))) fd"
      "\<forall>fd. fd \<notin> fst ` set (pending_add_fds r) \<longrightarrow> reg V (kern r1) fd = reg V (kern r) fd"
    by (auto simp: in_sync_clear)
  have "apply_pending S r = foldE (delEventInLoopThread S) (pending_del_fds r) r1"
    using r1(1) by (simp add: apply_pending_def Let_def)
  then show ?thesis
    using dels_ok [OF assms(1) r1(2), of "pending_del_fds r"] r1(3-5) by (auto split: sum.splits)
qed

text \<open>The ordered map of pending additions.\<close>

lemma map_insert_keys:
  "sorted_wrt (<) (map fst xs) \<Longrightarrow> sorted_wrt (<) (map fst (map_insert a v xs)) \<and>
     fst ` set (map_insert a v xs) = insert a (fst ` set xs)"
  by (induction a v xs rule: map_insert.induct) (auto simp: image_iff)

lemma map_of_above:
  "\<forall>x\<in>set xs. b < fst x \<Longrightarrow> a \<le> b \<Longrightarrow> map_of xs (a :: int) = None"
  by (induction xs) auto

lemma map_of_map_insert:
  "sorted_wrt (<) (map fst xs) \<Longrightarrow>
     map_of (map_insert a v xs) = (map_of xs)(a \<mapsto> (case map_of xs a of None \<Rightarrow> v | Some w \<Rightarrow> w))"
  by (induction a v xs rule: map_insert.induct) (auto simp: fun_eq_iff map_of_above)

lemma map_of_rev_sorted:
  "sorted_wrt (<) (map fst xs) \<Longrightarrow> map_of (rev xs) = map_of (xs :: (int \<times> 'v) list)"
  by (induction xs) (auto simp: fun_eq_iff map_add_def map_of_above split: option.splits)

section \<open>Requests of other threads\<close>

datatype reg_op = Add int epoll_event | Del int

definition post :: "'k sys \<Rightarrow> reg_op \<Rightarrow> ('t, 'k) reactor \<Rightarrow> ('t, 'k) reactor res" where
  "post S x r = (case x of Add fd ev \<Rightarrow> addEvent S fd ev True r | Del fd \<Rightarrow> delEvent S fd True r)"

text \<open>The same calls made by thread \<open>t\<close>.\<close>

definition as_thread :: "int \<Rightarrow> 'k sys \<Rightarrow> 'k sys" where
  "as_thread t S = S\<lparr>sys_gettid := (\<lambda>_. t)\<rparr>"

primrec op_fd :: "reg_op \<Rightarrow> int" where
  "op_fd (Add fd ev) = fd"
| "op_fd (Del fd) = fd"

primrec adds_of :: "reg_op list \<Rightarrow> (int \<times> epoll_event) list" where
  "adds_of [] = []"
| "adds_of (x # xs) = (case x of Add fd ev \<Rightarrow> [(fd, ev)] | Del fd \<Rightarrow> []) @ adds_of xs"

primrec dels_of :: "reg_op list \<Rightarrow> int list" where
  "dels_of [] = []"
| "dels_of (x # xs) = (case x of Add fd ev \<Rightarrow> [] | Del fd \<Rightarrow> [fd]) @ dels_of xs"

lemma wakeup_sel [simp]:
  "fds (wakeup S r) = fds r" "epfd (wakeup S r) = epfd r" "tid (wakeup S r) = tid r" "wake_fd (wakeup S r) = wake_fd r"
  "pending_add_fds (wakeup S r) = pending_add_fds r" "pending_del_fds (wakeup S r) = pending_del_fds r"
  "pending_tasks (wakeup S r) = pending_tasks r" "heap (wakeup S r) = heap r"
  "stop_flag (wakeup S r) = stop_flag r" "looping (wakeup S r) = looping r"
  by (simp_all add: wakeup_def)

lemma wakeup_kern:
  "wake_spec S V (wake_fd r) \<Longrightarrow> same_reg S V (kern r) (kern (wakeup (as_thread t S) r))"
  by (simp add: wakeup_def wake_spec_def as_thread_def same_reg_def)

lemma posts_ok:
  assumes "wake_spec S V (wake_fd r)" and "t \<noteq> tid r" and "\<forall>x\<in>set ops. op_fd x \<noteq> -1"
    and "sorted_wrt (<) (map fst (pending_add_fds r))"
  shows "\<exists>r'. foldE (post (as_thread t S)) ops r = Inr r' \<and> fds r' = fds r \<and> tid r' = tid r \<and> epfd r' = epfd r \<and>
    same_reg S V (kern r) (kern r') \<and>
    pending_del_fds r' = pending_del_fds r @ dels_of ops \<and>
    sorted_wrt (<) (map fst (pending_add_fds r')) \<and>
    map_of (pending_add_fds r') = map_of (adds_of ops) ++ map_of (pending_add_fds r)"
  using assms
proof (induction ops arbitrary: r)
  case (Cons x ops)
  show ?case
  proof (cases x)
    case (Add fd ev)
    let ?r1 = "wakeup (as_thread t S) (r\<lparr>pending_add_fds := map_insert fd ev (pending_add_fds r)\<rparr>)"
    have step: "post (as_thread t S) x r = Inr ?r1"
      using Cons.prems Add by (simp add: post_def addEvent_def isLoopThread_def as_thread_def)
    have "map_of (adds_of ops) ++ map_of (map_insert fd ev (pending_add_fds r)) =
        map_of (adds_of (x # ops)) ++ map_of (pending_add_fds r)"
      using Cons.prems(4) Add
      by (auto simp: map_of_map_insert fun_eq_iff map_add_def split: option.splits)
    with Cons.IH [of ?r1] Cons.prems step map_insert_keys [OF Cons.prems(4), of fd ev]
      wakeup_kern [of S V "r\<lparr>pending_add_fds := map_insert fd ev (pending_add_fds r)\<rparr>" t]
    show ?thesis by (auto simp: Add fun_upd_def same_reg_def)
  next
    case (Del fd)
    let ?r1 = "wakeup (as_thread t S) (r\<lparr>pending_del_fds := pending_del_fds r @ [fd]\<rparr>)"
    have "post (as_thread t S) x r = Inr ?r1"
      using Cons.prems Del by (simp add: post_def delEvent_def isLoopThread_def as_thread_def)
    with Cons.IH [of ?r1] Cons.prems
      wakeup_kern [of S V "r\<lparr>pending_del_fds := pending_del_fds r @ [fd]\<rparr>" t]
    show ?thesis by (auto simp: Del same_reg_def)
  qed
qed (simp add: same_reg_def)

section \<open>Tasks\<close>

definition exec_all ::
  "('t \<Rightarrow> ('t, 'k) reactor \<Rightarrow> ('t, 'k) reactor res) \<Rightarrow> 't option list \<Rightarrow> ('t, 'k) reactor \<Rightarrow> ('t, 'k) reactor res" where
  "exec_all exec = foldE (\<lambda>t r. case t of None \<Rightarrow> Inl Bad_function_call | Some t \<Rightarrow> exec t r)"

text \<open>
  Tasks return, and may queue further tasks as long as the weight of what a task queues is less
  than its own: no task keeps the sweep going forever.
\<close>

definition bounded_tasks ::
  "('t option \<Rightarrow> nat) \<Rightarrow> ('t \<Rightarrow> ('t, 'k) reactor \<Rightarrow> ('t, 'k) reactor res) \<Rightarrow> bool" where
  "bounded_tasks w exec \<longleftrightarrow>
     (\<forall>t r. \<exists>r' new. exec t r = Inr r' \<and> pending_tasks r' = pending_tasks r @ new \<and>
        None \<notin> set new \<and> sum_list (map w new) < w (Some t))"

lemma run_tasks_from:
  assumes "bounded_tasks w exec" and "None \<notin> set (pending_tasks r)"
    and "sum_list (map w (drop i (pending_tasks r))) \<le> n"
  shows "\<exists>r' new. run_tasks n exec i r = Inr r' \<and> exec_all exec (drop i (pending_tasks r')) r = Inr r' \<and>
    pending_tasks r' = pending_tasks r @ new"
  using assms(2,3)
proof (induction n arbitrary: i r)
  case (0 i r)
  show ?case
  proof (cases "i < length (pending_tasks r)")
    case True
    then obtain t where t: "pending_tasks r ! i = Some t"
      using 0 by (metis nth_mem option.exhaust)
    then have "0 < w (pending_tasks r ! i)"
      using assms(1) by (metis bounded_tasks_def gr_zeroI not_less_zero)
    moreover have "w (pending_tasks r ! i) \<le> sum_list (map w (drop i (pending_tasks r)))"
      using True by (simp add: Cons_nth_drop_Suc [symmetric])
    ultimately show ?thesis using 0 by simp
  qed (simp add: run_tasks.simps exec_all_def)
next
  case (Suc n i r)
  show ?case
  proof (cases "i < length (pending_tasks r)")
    case True
    then obtain t where t: "pending_tasks r ! i = Some t"
      using Suc.prems by (metis nth_mem option.exhaust)
    obtain r1 new where e: "exec t r = Inr r1" "pending_tasks r1 = pending_tasks r @ new"
      "None \<notin> set new" "sum_list (map w new) < w (Some t)"
      using assms(1) unfolding bounded_tasks_def by blast
    have "sum_list (map w (drop (Suc i) (pending_tasks r1))) \<le> n"
      using Suc.prems(2) True e(2,4) t by (simp add: Cons_nth_drop_Suc [symmetric])
    with Suc.IH [of r1 "Suc i"] Suc.prems(1) e obtain r' new' where
      IH: "run_tasks n exec (Suc i) r1 = Inr r'" "exec_all exec (drop (Suc i) (pending_tasks r')) r1 = Inr r'"
        "pending_tasks r' = pending_tasks r1 @ new'" by auto
    have "drop i (pending_tasks r') = Some t # drop (Suc i) (pending_tasks r')"
      using IH(3) e(2) True t by (simp add: Cons_nth_drop_Suc [symmetric] nth_append)
    with IH e True t show ?thesis
      by (simp add: run_tasks.simps [of "Suc n"] exec_all_def)
  qed (simp add: run_tasks.simps exec_all_def)
qed

section \<open>Events\<close>

definition is_wake_event :: "('t, 'k) reactor \<Rightarrow> epoll_event \<Rightarrow> bool" where
  "is_wake_event r ev \<longleftrightarrow> data_fd (data ev) = wake_fd r \<and> events ev AND EPOLLIN \<noteq> 0"

text \<open>The callbacks an event stands for: the read callback first.\<close>

definition callbacks :: "('t, 'k) reactor \<Rightarrow> epoll_event \<Rightarrow> 't option list" where
  "callbacks r ev =
     (if is_wake_event r ev \<or> data ev = 0 then []
      else case heap r (data ev) of None \<Rightarrow> []
        | Some e \<Rightarrow> (if events ev AND EPOLLIN \<noteq> 0 then [read_cb e] else []) @
                   (if events ev AND EPOLLOUT \<noteq> 0 then [write_cb e] else []))"

definition event_ok :: "('t, 'k) reactor \<Rightarrow> epoll_event \<Rightarrow> bool" where
  "event_ok r ev \<longleftrightarrow> is_wake_event r ev \<or> data ev = 0 \<or>
     (heap r (data ev) \<noteq> None \<and> (events ev AND EPOLLIN \<noteq> 0 \<or> events ev AND EPOLLOUT \<noteq> 0))"

lemma handle_event_ok:
  assumes "counter_spec S (wake_fd r) idle" and "2 \<le> n" and "event_ok r ev"
  shows "\<exists>r'. handle_event n S ev r = Inr r' \<and> pending_tasks r' = pending_tasks r @ callbacks r ev \<and>
    fds r' = fds r \<and> heap r' = heap r \<and> wake_fd r' = wake_fd r"
proof (cases "is_wake_event r ev")
  case True
  with read_until_again_ends [OF assms(1,2), of "kern r"] show ?thesis
    by (auto simp: handle_event_def is_wake_event_def callbacks_def)
next
  case False
  with assms(3) show ?thesis
    by (auto simp: handle_event_def is_wake_event_def callbacks_def event_ok_def getCallBack_def Let_def)
qed

lemma handle_events_from:
  assumes "2 \<le> n"
  shows "counter_spec S (wake_fd r) idle \<Longrightarrow> \<forall>ev\<in>set evs. event_ok r ev \<Longrightarrow>
    \<exists>r'. foldE (handle_event n S) evs r = Inr r' \<and>
      pending_tasks r' = pending_tasks r @ concat (map (callbacks r) evs) \<and>
      fds r' = fds r \<and> heap r' = heap r \<and> wake_fd r' = wake_fd r"
proof (induction evs arbitrary: r)
  case (Cons ev evs)
  from handle_event_ok [OF Cons.prems(1) assms, of ev] Cons.prems(2) obtain r1 where
    r1: "handle_event n S ev r = Inr r1" "pending_tasks r1 = pending_tasks r @ callbacks r ev"
      "fds r1 = fds r" "heap r1 = heap r" "wake_fd r1 = wake_fd r" by auto
  have eq: "event_ok r1 = event_ok r" "callbacks r1 = callbacks r"
    using r1 by (simp_all add: event_ok_def callbacks_def is_wake_event_def fun_eq_iff)
  from Cons.IH [of r1] Cons.prems r1 eq show ?case by auto
qed simp

section \<open>Properties\<close>

text \<open>C7. Requests of another thread.  A thread other than the loop's posts any sequence of \<open>addEvent\<close> and \<open>delEvent\<close> calls, and the loop then
  takes them over.  When the loop takes them over without a fault, every descriptor for which no call of \<open>epoll_ctl\<close> has failed ends
  as follows: unregistered when any of the calls deleted it, else registered with the event of the \<open>first\<close> \<open>addEvent\<close> for it, else as
  before; a descriptor that no call names is as before in any case; and the reactor still lists only descriptors the kernel
  watches, and all of them but refused ones.  The order of the calls is not kept: deleting and then adding a descriptor leaves it unregistered,
  and a second \<open>addEvent\<close> with another mask has no effect.  The only fault is the erasure of an unknown iterator, and there is none when
  the descriptors deleted are different from each other and known to the reactor.\<close>

theorem pending_requests:
  assumes "epoll_ctl_spec S V" and "wake_spec S V (wake_fd r)" and "in_sync S V r"
    and "pending_add_fds r = []" and "pending_del_fds r = []" and "t \<noteq> tid r"
    and "\<forall>x\<in>set ops. op_fd x \<noteq> -1"
  shows "\<exists>r1. foldE (post (as_thread t S)) ops r = Inr r1 \<and>
    (case apply_pending S r1 of
       Inl f \<Rightarrow> f = Bad_iterator \<and> \<not> (distinct (dels_of ops) \<and> set (dels_of ops) \<subseteq> set (fds r))
     | Inr r2 \<Rightarrow> in_sync S V r2 \<and>
         (\<forall>fd. fd \<notin> refused V (kern r2) \<longrightarrow> reg V (kern r2) fd =
            (if fd \<in> set (dels_of ops) then None
             else case map_of (adds_of ops) fd of None \<Rightarrow> reg V (kern r) fd | Some ev \<Rightarrow> Some ev)) \<and>
         (\<forall>fd. fd \<notin> op_fd ` set ops \<longrightarrow> reg V (kern r2) fd = reg V (kern r) fd))"
proof -
  from posts_ok [OF assms(2,6,7)] assms(4,5) obtain r1 where
    r1: "foldE (post (as_thread t S)) ops r = Inr r1" "fds r1 = fds r" "tid r1 = tid r" "epfd r1 = epfd r"
      "same_reg S V (kern r) (kern r1)" "pending_del_fds r1 = dels_of ops" "sorted_wrt (<) (map fst (pending_add_fds r1))"
      "map_of (pending_add_fds r1) = map_of (adds_of ops)" by auto
  have sync: "in_sync S V r1" using assms(3) r1 by (simp add: in_sync_def isLoopThread_def same_reg_def)
  have a: "fst ` set (pending_add_fds r1) = fst ` set (adds_of ops)"
    using arg_cong [OF r1(8), of dom] by (simp add: dom_map_of_conv_image_fst)
  have ops: "fst ` set (adds_of ops) \<union> set (dels_of ops) = op_fd ` set ops"
  proof (induction ops)
    case (Cons x xs)
    then show ?case by (cases x) auto
  qed simp
  have "reg V (kern r1) = reg V (kern r)" using r1(5) by (simp add: same_reg_def)
  with apply_pending_ok [OF assms(1) sync] r1(1,2,6) show ?thesis
    unfolding a ops r1(6) map_of_rev_sorted [OF r1(7)] r1(8) by (auto simp: map_add_def split: sum.splits)
qed

definition demo_reactor :: "(nat, mini_kernel) reactor" where
  "demo_reactor =
     \<lparr>epfd = 3, wake_fd = 4, timer_fd = -1, stop_flag = False, looping = True, init_timer = False, tid = 1,
      fds = [4, 9], pending_add_fds = [], pending_del_fds = [], pending_tasks = [Some 1],
      kern = \<lparr>mk_tid = 1, mk_reg = [(4, \<lparr>events = 1, data = 4\<rparr>), (9, \<lparr>events = 1, data = 64\<rparr>)],
              mk_refused = [], mk_counter = False, mk_ms = 0, mk_armed = None, mk_sent = []\<rparr>,
      heap = [64 \<mapsto> \<lparr>m_fd = 9, read_cb = Some 7, write_cb = Some 8, listen_events = 1, m_reactor = Some 0\<rparr>]\<rparr>"

lemma demo_in_sync: "in_sync mini_sys mini_view demo_reactor"
  by (auto simp: in_sync_def isLoopThread_def demo_reactor_def mini_sys_def mini_view_def)

theorem pending_requests_witness:
  "\<exists>r1 r2. foldE (post (as_thread 2 mini_sys)) [Del 9, Add 9 \<lparr>events = 4, data = 64\<rparr>] demo_reactor = Inr r1 \<and>
     apply_pending mini_sys r1 = Inr r2 \<and> in_sync mini_sys mini_view r2 \<and> refused mini_view (kern r2) = {} \<and>
     reg mini_view (kern r2) 9 = None"
proof -
  let ?ops = "[Del 9, Add 9 \<lparr>events = 4, data = 64\<rparr>]"
  have run: "\<exists>r1 r2. foldE (post (as_thread 2 mini_sys)) ?ops demo_reactor = Inr r1 \<and> apply_pending mini_sys r1 = Inr r2 \<and>
      refused mini_view (kern r2) = {}"
    by (simp add: demo_reactor_def post_def delEvent_def addEvent_def isLoopThread_def as_thread_def wakeup_def apply_pending_def
        addEventInLoopThread_def delEventInLoopThread_def mini_sys_def mini_ctl_def mini_view_def guardE_def Let_def)
  then obtain r1 r2 where r: "foldE (post (as_thread 2 mini_sys)) ?ops demo_reactor = Inr r1" "apply_pending mini_sys r1 = Inr r2"
    "refused mini_view (kern r2) = {}" by blast
  have "\<exists>r1. foldE (post (as_thread 2 mini_sys)) ?ops demo_reactor = Inr r1 \<and>
    (case apply_pending mini_sys r1 of Inl f \<Rightarrow> True
     | Inr r2 \<Rightarrow> in_sync mini_sys mini_view r2 \<and> (9 \<notin> refused mini_view (kern r2) \<longrightarrow> reg mini_view (kern r2) 9 = None))"
  proof -
    have "pending_add_fds demo_reactor = []" "pending_del_fds demo_reactor = []" "2 \<noteq> tid demo_reactor" "\<forall>x\<in>set ?ops. op_fd x \<noteq> -1"
      by (simp_all add: demo_reactor_def)
    from pending_requests [OF mini_epoll_ctl_spec mini_wake_spec demo_in_sync this] show ?thesis
      by (elim ex_forward conj_forward) (auto split: sum.splits)
  qed
  with r show ?thesis by auto
qed

text \<open>The task sweep.  When every queued task is a callable and tasks only append to the queue,
  each queuing less than its own weight, the sweep at the top of the loop returns; every task that
  was in the queue or was appended while it ran has then been called exactly once, in queue order,
  so that clearing the queue drops nothing.\<close>

theorem run_tasks_all:
  assumes "bounded_tasks w exec" and "None \<notin> set (pending_tasks r)"
    and "sum_list (map w (pending_tasks r)) \<le> n"
  shows "\<exists>r' new. run_tasks n exec 0 r = Inr r' \<and> exec_all exec (pending_tasks r') r = Inr r' \<and>
    pending_tasks r' = pending_tasks r @ new"
  using run_tasks_from [OF assms(1,2), of 0 n] assms(3) by simp

definition countdown :: "nat \<Rightarrow> (nat, mini_kernel) reactor \<Rightarrow> (nat, mini_kernel) reactor res" where
  "countdown t r = Inr (if t = 0 then r else addTask mini_sys (Some (t - 1)) False r)"

lemma countdown_bounded:
  "bounded_tasks (\<lambda>x. case x of None \<Rightarrow> 0 | Some m \<Rightarrow> Suc m) countdown"
  unfolding bounded_tasks_def
proof (intro allI)
  fix t :: nat and r :: "(nat, mini_kernel) reactor"
  show "\<exists>r' new. countdown t r = Inr r' \<and> pending_tasks r' = pending_tasks r @ new \<and> None \<notin> set new \<and>
      sum_list (map (\<lambda>x. case x of None \<Rightarrow> 0 | Some m \<Rightarrow> Suc m) new) < (case Some t of None \<Rightarrow> 0 | Some m \<Rightarrow> Suc m)"
    by (cases t) (auto simp: countdown_def addTask_def)
qed

theorem run_tasks_all_witness:
  "\<exists>r'. run_tasks 2 countdown 0 demo_reactor = Inr r' \<and> exec_all countdown (pending_tasks r') demo_reactor = Inr r'"
  using run_tasks_all [OF countdown_bounded, of demo_reactor 2] by (auto simp: demo_reactor_def)

text \<open>Dispatch of ready descriptors.  For any batch of events that are the wakeup event, carry a
  null pointer, or name a live \<open>FdEvent\<close> with \<open>EPOLLIN\<close> or \<open>EPOLLOUT\<close>, the loop appends to the task
  queue exactly the read and write callbacks of the ready descriptors, in the order of the
  events with the read callback first, and drains the wakeup descriptor.\<close>

theorem handle_events_queue:
  assumes "counter_spec S (wake_fd r) idle" and "2 \<le> n" and "\<forall>ev\<in>set evs. event_ok r ev"
  shows "\<exists>r'. foldE (handle_event n S) evs r = Inr r' \<and>
    pending_tasks r' = pending_tasks r @ concat (map (callbacks r) evs) \<and> fds r' = fds r"
  using handle_events_from [OF assms(2,1,3)] by blast

theorem handle_events_queue_witness:
  "\<exists>r'. foldE (handle_event 2 mini_sys) [\<lparr>events = 1, data = 4\<rparr>, \<lparr>events = 5, data = 64\<rparr>] demo_reactor = Inr r' \<and>
     pending_tasks r' = [Some 1, Some 7, Some 8]"
proof -
  have c: "counter_spec mini_sys (wake_fd demo_reactor) (\<lambda>k. \<not> mk_counter k)" by (rule mini_counter_spec)
  have "(1::u32) AND 1 = 1" "(5::u32) AND 1 = 1" "(5::u32) AND 4 = 4" "(1::u32) AND 4 = 0" by simp_all
  with handle_events_queue [OF c, of 2 "[\<lparr>events = 1, data = 4\<rparr>, \<lparr>events = 5, data = 64\<rparr>]"] show ?thesis
    by (auto simp: demo_reactor_def event_ok_def is_wake_event_def callbacks_def data_fd_def
        EPOLLIN_def EPOLLOUT_def)
qed

text \<open>Unregistering twice.  Deleting a listed descriptor in the loop thread removes it from the list, and from the kernel unless \<open>epoll_ctl\<close>
  fails, but deleting it again erases the end iterator of the list, which
  C++ leaves undefined: the test for an unknown descriptor only logs.\<close>

theorem unregister_twice:
  assumes "epoll_ctl_spec S V" and "in_sync S V r" and "fd \<in> set (fds r)" and "fd \<noteq> -1"
  shows "\<exists>r'. delEvent S fd w r = Inr r' \<and> in_sync S V r' \<and> applied V fd None (kern r) (kern r') \<and>
    delEvent S fd w r' = Inl Bad_iterator"
proof -
  from delEventInLoopThread_ok [OF assms(1-3)] obtain r' where
    r': "delEventInLoopThread S fd r = Inr r'" "in_sync S V r'" "applied V fd None (kern r) (kern r')" "fds r' = remove1 fd (fds r)" by blast
  then have "fd \<notin> set (fds r')" using assms(2) by (simp add: in_sync_def)
  then have "delEventInLoopThread S fd r' = Inl Bad_iterator"
    using r'(2) by (simp add: in_sync_def delEventInLoopThread_unknown)
  then show ?thesis using r' assms(2,4) by (auto simp: delEvent_def in_sync_def)
qed

theorem unregister_twice_witness:
  "\<exists>r'. delEvent mini_sys 9 True demo_reactor = Inr r' \<and> delEvent mini_sys 9 True r' = Inl Bad_iterator"
  using unregister_twice [OF mini_epoll_ctl_spec demo_in_sync, of 9 True] by (auto simp: demo_reactor_def)

text \<open>A descriptor whose deletion the kernel refused stays in the interest list and is forgotten by the reactor; it cannot be added again.\<close>

lemma stale_registration:
  assumes "epoll_ctl_spec S V" and "in_sync S V r" and "fd \<notin> set (fds r)" and "reg V (kern r) fd = Some old"
  shows "\<exists>r'. addEventInLoopThread S fd ev r = Inr r' \<and> fds r' = fds r \<and> reg V (kern r') fd = Some old"
proof -
  obtain rc k where c: "sys_epoll_ctl S (inst V) EPOLL_CTL_ADD fd (Some ev) (kern r) = (rc, k)" by fastforce
  then have "rc \<noteq> 0" "reg V k = reg V (kern r)" using ctl_cases [OF assms(1) c] assms(4) by auto
  then show ?thesis
    using assms c by (simp add: addEventInLoopThread_def in_sync_def guardE_def)
qed

end
