(* ===== verification/Fd_Event.thy ===== *)
theory Fd_Event
  imports Reactor
begin

text \<open>
  \<open>net::FdEvent\<close> and \<open>net::FdEventContainer\<close> of \<^verbatim>\<open>src/net/fd_event.h\<close> and \<^verbatim>\<open>src/net/fd_event.cc\<close>.

  An \<open>FdEvent\<close> lives at an address \<open>p\<close> of the reactor state's heap; its operations take the
  address and the state of the reactor that \<open>m_reactor\<close> points to.  The container is the vector
  of pointers together with the objects it has made, an object being named by its position in
  the order of creation; a lookup that has to grow the vector copies it, releases the lock, and
  publishes the grown copy later, so it is two steps.
\<close>

section \<open>Operations of an event\<close>

definition new_FdEvent :: "int \<Rightarrow> 't fd_event" where
  "new_FdEvent fd = \<lparr>m_fd = fd, read_cb = None, write_cb = None, listen_events = 0, m_reactor = None\<rparr>"

definition new_FdEvent_in :: "nat option \<Rightarrow> int \<Rightarrow> 't fd_event res" where
  "new_FdEvent_in reactor fd =
     bindE (guardE (reactor \<noteq> None) Assert_failed) (\<lambda>_. Inr ((new_FdEvent fd)\<lparr>m_reactor := reactor\<rparr>))"

text \<open>The callback \<open>handleEvent\<close> calls; \<open>None\<close> when the flag is neither \<open>READ\<close> nor \<open>WRITE\<close>.\<close>

definition handleEvent :: "u32 \<Rightarrow> 't fd_event \<Rightarrow> 't option res" where
  "handleEvent flag e =
     (let call = (\<lambda>cb. case cb of None \<Rightarrow> Inl Bad_function_call | Some t \<Rightarrow> Inr (Some t)) in
      if flag = flag_of READ then call (read_cb e)
      else if flag = flag_of WRITE then call (write_cb e)
      else Inr None)"

definition setCallBack :: "IOEvent \<Rightarrow> 't option \<Rightarrow> 't fd_event \<Rightarrow> 't fd_event" where
  "setCallBack flag cb e =
     (if flag = READ then e\<lparr>read_cb := cb\<rparr> else if flag = WRITE then e\<lparr>write_cb := cb\<rparr> else e)"

definition with_event ::
  "u64 \<Rightarrow> ('t, 'k) reactor \<Rightarrow> ('t fd_event \<Rightarrow> ('t, 'k) reactor res) \<Rightarrow> ('t, 'k) reactor res" where
  "with_event p r f = (case heap r p of None \<Rightarrow> Inl Null_deref | Some e \<Rightarrow> f e)"

definition store_event :: "u64 \<Rightarrow> 't fd_event \<Rightarrow> ('t, 'k) reactor \<Rightarrow> ('t, 'k) reactor" where
  "store_event p e r = r\<lparr>heap := (heap r)(p \<mapsto> e)\<rparr>"

definition updateToReactor :: "'k sys \<Rightarrow> u64 \<Rightarrow> ('t, 'k) reactor \<Rightarrow> ('t, 'k) reactor res" where
  "updateToReactor S p r = with_event p r (\<lambda>e.
     bindE (guardE (m_reactor e \<noteq> None) Null_deref) (\<lambda>_.
       addEvent S (m_fd e) \<lparr>events = listen_events e, data = p\<rparr> True r))"

definition addListenEvents :: "'k sys \<Rightarrow> u64 \<Rightarrow> IOEvent \<Rightarrow> ('t, 'k) reactor \<Rightarrow> ('t, 'k) reactor res" where
  "addListenEvents S p event r = with_event p r (\<lambda>e.
     if listen_events e AND flag_of event \<noteq> 0 then Inr r
     else updateToReactor S p
       (store_event p (e\<lparr>listen_events := listen_events e OR flag_of event\<rparr>) r))"

definition delListenEvents :: "'k sys \<Rightarrow> u64 \<Rightarrow> IOEvent \<Rightarrow> ('t, 'k) reactor \<Rightarrow> ('t, 'k) reactor res" where
  "delListenEvents S p event r = with_event p r (\<lambda>e.
     if listen_events e AND flag_of event \<noteq> 0
     then updateToReactor S p
       (store_event p (e\<lparr>listen_events := listen_events e AND NOT (flag_of event)\<rparr>) r)
     else Inr r)"

definition unregisterFromReactor :: "'k sys \<Rightarrow> u64 \<Rightarrow> ('t, 'k) reactor \<Rightarrow> ('t, 'k) reactor res" where
  "unregisterFromReactor S p r = with_event p r (\<lambda>e.
     bindE (guardE (m_reactor e \<noteq> None) Null_deref) (\<lambda>_.
     bindE (delEvent S (m_fd e) True r) (\<lambda>r1.
       Inr (store_event p (e\<lparr>listen_events := 0, read_cb := None, write_cb := None\<rparr>) r1))))"

definition O_NONBLOCK :: u32 where "O_NONBLOCK = 2048"

definition setNonBlock :: "'k sys \<Rightarrow> 't fd_event \<Rightarrow> 'k \<Rightarrow> 'k" where
  "setNonBlock S e k =
     (if m_fd e = -1 then k
      else let (flag, k1) = sys_fcntl_get S (m_fd e) k in
        if flag AND O_NONBLOCK \<noteq> 0 then k1
        else snd (sys_fcntl_get S (m_fd e) (sys_fcntl_set S (m_fd e) (flag OR O_NONBLOCK) k1)))"

definition isNonBlock :: "'k sys \<Rightarrow> 't fd_event \<Rightarrow> 'k \<Rightarrow> bool \<times> 'k" where
  "isNonBlock S e k =
     (if m_fd e = -1 then (False, k)
      else let (flag, k1) = sys_fcntl_get S (m_fd e) k in (flag AND O_NONBLOCK \<noteq> 0, k1))"

section \<open>The container\<close>

record 't fd_container =
  fds_vec :: "nat list"
  made :: "'t fd_event list"

text \<open>\<open>for (int i = a; i < b; ++i) push_back(std::make_shared<FdEvent>(i))\<close> on a vector.\<close>

definition push_events :: "int \<Rightarrow> int \<Rightarrow> nat list \<Rightarrow> 't fd_event list \<Rightarrow> nat list \<times> 't fd_event list" where
  "push_events a b v objs =
     (v @ [length objs..<length objs + nat (b - a)], objs @ map new_FdEvent [a..b - 1])"

definition new_FdEventContainer :: "int \<Rightarrow> 't fd_container" where
  "new_FdEventContainer sz = (let (v, objs) = push_events 0 sz [] [] in \<lparr>fds_vec = v, made = objs\<rparr>)"

definition GetFdContainer :: "'t fd_container option \<Rightarrow> 't fd_container" where
  "GetFdContainer g = (case g of None \<Rightarrow> new_FdEventContainer 128 | Some c \<Rightarrow> c)"

text \<open>The part after the copy \<open>tmps\<close> was taken under the read lock.\<close>

definition getFdEvent_rest :: "int \<Rightarrow> nat list \<Rightarrow> 't fd_container \<Rightarrow> (nat \<times> 't fd_container) res" where
  "getFdEvent_rest fd tmps c =
     (if fd < cast_int (int (length tmps))
      then (if fd < 0 then Inl Out_of_bounds else Inr (tmps ! nat fd, c))
      else
        bindE (scale_1_5 (int (length tmps))) (\<lambda>n.
        let n = (if n > fd then n else fd);
            (tmps, objs) = push_events (int (length tmps)) n tmps (made c) in
        if fd < 0 \<or> int (length tmps) \<le> fd then Inl Out_of_bounds
        else Inr (tmps ! nat fd, c\<lparr>fds_vec := tmps, made := objs\<rparr>)))"

definition getFdEvent :: "int \<Rightarrow> 't fd_container \<Rightarrow> (nat \<times> 't fd_container) res" where
  "getFdEvent fd c = getFdEvent_rest fd (fds_vec c) c"

text \<open>The pointer at index \<open>i\<close> leads to an event whose descriptor is \<open>i\<close>.\<close>

definition container_ok :: "'t fd_container \<Rightarrow> bool" where
  "container_ok c \<longleftrightarrow>
     (\<forall>i<length (fds_vec c). fds_vec c ! i < length (made c) \<and> m_fd (made c ! (fds_vec c ! i)) = int i)"

section \<open>Lemmas\<close>

text \<open>The kernel's registration of an event is what the event says it listens to, unless a call of \<open>epoll_ctl\<close> for it has failed.\<close>

definition agrees :: "'k epoll_view \<Rightarrow> u64 \<Rightarrow> ('t, 'k) reactor \<Rightarrow> bool" where
  "agrees V p r \<longleftrightarrow> (case heap r p of None \<Rightarrow> False | Some e \<Rightarrow>
     m_fd e \<noteq> -1 \<and> m_reactor e \<noteq> None \<and>
     (m_fd e \<in> refused V (kern r) \<or>
      reg V (kern r) (m_fd e) = Some \<lparr>events = listen_events e, data = p\<rparr> \<or>
      (listen_events e = 0 \<and> reg V (kern r) (m_fd e) = None)))"

lemma addEventInLoopThread_heap:
  "addEventInLoopThread S fd ev r = Inr r' \<Longrightarrow> heap r' = heap r"
  by (auto simp: addEventInLoopThread_def bindE_def guardE_def Let_def split: if_splits prod.splits sum.splits)

lemma update_ok:
  assumes "epoll_ctl_spec S V" and "in_sync S V r" and "heap r p = Some e0"
    and "m_fd e \<noteq> -1" and "m_reactor e \<noteq> None"
  shows "\<exists>r'. updateToReactor S p (store_event p e r) = Inr r' \<and> in_sync S V r' \<and>
    heap r' = (heap r)(p \<mapsto> e) \<and> applied V (m_fd e) (Some \<lparr>events = listen_events e, data = p\<rparr>) (kern r) (kern r')"
proof -
  let ?r = "store_event p e r"
  have sync: "in_sync S V ?r" using assms(2) by (simp add: in_sync_def isLoopThread_def store_event_def)
  from addEventInLoopThread_ok [OF assms(1) this] obtain r' where
    r': "addEventInLoopThread S (m_fd e) \<lparr>events = listen_events e, data = p\<rparr> ?r = Inr r'" "in_sync S V r'"
      "applied V (m_fd e) (Some \<lparr>events = listen_events e, data = p\<rparr>) (kern ?r) (kern r')" by blast
  moreover have "heap r' = (heap r)(p \<mapsto> e)"
    using addEventInLoopThread_heap [OF r'(1)] by (simp add: store_event_def)
  moreover have "isLoopThread S ?r" using sync by (simp add: in_sync_def)
  ultimately show ?thesis
    using assms(4,5)
    by (auto simp: updateToReactor_def with_event_def store_event_def addEvent_def guardE_def)
qed

definition flag_pos :: "IOEvent \<Rightarrow> nat" where
  "flag_pos ev = (case ev of READ \<Rightarrow> 0 | WRITE \<Rightarrow> 2 | ETModel \<Rightarrow> 31)"

lemma bit_flag_of: "bit (flag_of ev) n \<longleftrightarrow> n = flag_pos ev"
proof -
  have "flag_of ev = push_bit (flag_pos ev) (1 :: u32)"
    by (cases ev) (simp_all add: flag_pos_def EPOLLIN_def EPOLLOUT_def EPOLLET_def push_bit_eq_mult)
  moreover have "flag_pos ev < 32" by (cases ev) (simp_all add: flag_pos_def)
  ultimately show ?thesis by (auto simp: bit_simps)
qed

lemma flag_set:
  assumes "x AND flag_of ev \<noteq> 0"
  shows "x OR flag_of ev = x"
proof -
  have "bit x (flag_pos ev)"
  proof (rule ccontr)
    assume "\<not> bit x (flag_pos ev)"
    then have "x AND flag_of ev = 0" by (intro bit_word_eqI) (auto simp: bit_simps bit_flag_of)
    with assms show False by simp
  qed
  then show ?thesis by (intro bit_word_eqI) (auto simp: bit_simps bit_flag_of)
qed

lemma flag_clear: "x AND flag_of ev = 0 \<Longrightarrow> x AND NOT (flag_of ev) = x"
  by (auto simp: bit_eq_iff bit_simps bit_flag_of)

text \<open>One call sets the mask; the kernel's entry is then the new one or what it was, and nothing else of the event changes.\<close>

definition listen_to :: "'k sys \<Rightarrow> 'k epoll_view \<Rightarrow> u64 \<Rightarrow> 't fd_event \<Rightarrow> u32 \<Rightarrow> ('t, 'k) reactor \<Rightarrow> ('t, 'k) reactor \<Rightarrow> bool" where
  "listen_to S V p e m r r' \<longleftrightarrow> in_sync S V r' \<and> agrees V p r' \<and> heap r' p = Some (e\<lparr>listen_events := m\<rparr>) \<and>
     (reg V (kern r') (m_fd e) = Some \<lparr>events = m, data = p\<rparr> \<or> reg V (kern r') (m_fd e) = reg V (kern r) (m_fd e))"

lemma update_listens:
  assumes "epoll_ctl_spec S V" and "in_sync S V r" and "agrees V p r" and "heap r p = Some e"
  shows "\<exists>r'. updateToReactor S p (store_event p (e\<lparr>listen_events := m\<rparr>) r) = Inr r' \<and> listen_to S V p e m r r'"
proof -
  have e: "m_fd e \<noteq> -1" "m_reactor e \<noteq> None" using assms(3,4) by (auto simp: agrees_def)
  with update_ok [OF assms(1,2,4), of "e\<lparr>listen_events := m\<rparr>"] obtain r' where
    r': "updateToReactor S p (store_event p (e\<lparr>listen_events := m\<rparr>) r) = Inr r'" "in_sync S V r'"
      "heap r' = (heap r)(p \<mapsto> e\<lparr>listen_events := m\<rparr>)"
      "applied V (m_fd e) (Some \<lparr>events = m, data = p\<rparr>) (kern r) (kern r')" by auto
  moreover have "agrees V p r'"
    using r'(3) e appliedD(3) [OF r'(4)] by (auto simp: agrees_def)
  ultimately show ?thesis using appliedD(4) [OF r'(4)] by (auto simp: listen_to_def)
qed

lemma listen_step_ok:
  assumes "epoll_ctl_spec S V" and "in_sync S V r" and "agrees V p r" and "heap r p = Some e"
  shows "\<exists>r'. addListenEvents S p ev r = Inr r' \<and> listen_to S V p e (listen_events e OR flag_of ev) r r'"
    and "\<exists>r'. delListenEvents S p ev r = Inr r' \<and> listen_to S V p e (listen_events e AND NOT (flag_of ev)) r r'"
proof -
  have same: "listen_to S V p e (listen_events e) r r" using assms by (simp add: listen_to_def)
  show "\<exists>r'. addListenEvents S p ev r = Inr r' \<and> listen_to S V p e (listen_events e OR flag_of ev) r r'"
    using update_listens [OF assms, of "listen_events e OR flag_of ev"] assms(4) same flag_set [of "listen_events e" ev]
    by (auto simp: addListenEvents_def with_event_def)
  show "\<exists>r'. delListenEvents S p ev r = Inr r' \<and> listen_to S V p e (listen_events e AND NOT (flag_of ev)) r r'"
    using update_listens [OF assms, of "listen_events e AND NOT (flag_of ev)"] assms(4) same flag_clear [of "listen_events e" ev]
    by (auto simp: delListenEvents_def with_event_def)
qed

text \<open>A sequence of calls on one event and the mask it should end with.\<close>

datatype listen_op = Listen IOEvent | Unlisten IOEvent

definition listen_call :: "'k sys \<Rightarrow> u64 \<Rightarrow> listen_op \<Rightarrow> ('t, 'k) reactor \<Rightarrow> ('t, 'k) reactor res" where
  "listen_call S p x r = (case x of Listen ev \<Rightarrow> addListenEvents S p ev r | Unlisten ev \<Rightarrow> delListenEvents S p ev r)"

definition mask_after :: "listen_op list \<Rightarrow> u32 \<Rightarrow> u32" where
  "mask_after ops m =
     fold (\<lambda>x m. case x of Listen ev \<Rightarrow> m OR flag_of ev | Unlisten ev \<Rightarrow> m AND NOT (flag_of ev)) ops m"

text \<open>What the kernel may have after them: the entry it had, or the mask after some of the calls.\<close>

definition entry_from :: "u64 \<Rightarrow> listen_op list \<Rightarrow> u32 \<Rightarrow> epoll_event option \<Rightarrow> epoll_event option \<Rightarrow> bool" where
  "entry_from p ops m x y \<longleftrightarrow>
     y = x \<or> (\<exists>n\<le>length ops. y = Some \<lparr>events = mask_after (take n ops) m, data = p\<rparr>)"

lemma mask_after_Cons: "mask_after (x # ops) m = mask_after ops (mask_after [x] m)"
  by (simp add: mask_after_def)

lemma listen_calls_ok:
  assumes "epoll_ctl_spec S V"
  shows "in_sync S V r \<Longrightarrow> agrees V p r \<Longrightarrow> heap r p = Some e \<Longrightarrow>
    \<exists>r'. foldE (listen_call S p) ops r = Inr r' \<and> in_sync S V r' \<and> agrees V p r' \<and>
      heap r' p = Some (e\<lparr>listen_events := mask_after ops (listen_events e)\<rparr>) \<and>
      entry_from p ops (listen_events e) (reg V (kern r) (m_fd e)) (reg V (kern r') (m_fd e))"
proof (induction ops arbitrary: r e)
  case (Cons x ops)
  obtain r1 where r1: "listen_call S p x r = Inr r1" "listen_to S V p e (mask_after [x] (listen_events e)) r r1"
    using listen_step_ok [OF assms Cons.prems] by (cases x) (auto simp: listen_call_def mask_after_def)
  let ?m = "mask_after [x] (listen_events e)" let ?e = "e\<lparr>listen_events := ?m\<rparr>"
  have "in_sync S V r1" "agrees V p r1" "heap r1 p = Some ?e" using r1(2) by (simp_all add: listen_to_def)
  from Cons.IH [OF this] obtain r' where
    r': "foldE (listen_call S p) ops r1 = Inr r'" "in_sync S V r'" "agrees V p r'"
      "heap r' p = Some (e\<lparr>listen_events := mask_after ops ?m\<rparr>)"
      "entry_from p ops ?m (reg V (kern r1) (m_fd e)) (reg V (kern r') (m_fd e))" by auto
  have "entry_from p (x # ops) (listen_events e) (reg V (kern r) (m_fd e)) (reg V (kern r') (m_fd e))"
  proof -
    consider "reg V (kern r') (m_fd e) = reg V (kern r1) (m_fd e)"
      | n where "n \<le> length ops" "reg V (kern r') (m_fd e) = Some \<lparr>events = mask_after (take n ops) ?m, data = p\<rparr>"
      using r'(5) by (auto simp: entry_from_def)
    then show ?thesis
    proof cases
      case 1
      then show ?thesis using r1(2) by (auto simp: entry_from_def listen_to_def intro!: exI [of _ "1 :: nat"])
    next
      case (2 n)
      then have "mask_after (take (Suc n) (x # ops)) (listen_events e) = mask_after (take n ops) ?m"
        by (simp add: mask_after_Cons [of x "take n ops"])
      then show ?thesis using 2 by (auto simp: entry_from_def intro!: exI [of _ "Suc n"])
    qed
  qed
  then show ?case using r1(1) r'(1-4) by (simp add: mask_after_Cons [of x ops])
qed (simp add: mask_after_def entry_from_def)

section \<open>Container lemmas\<close>

lemma cast_int_small: "0 \<le> x \<Longrightarrow> x \<le> 2147483647 \<Longrightarrow> cast_int x = x"
  by (simp add: cast_int_def signed_take_bit_int_eq_self)

text \<open>How far the vector reaches after a lookup that grows it.\<close>

definition grown :: "int \<Rightarrow> nat list \<Rightarrow> int" where
  "grown fd v = max (3 * int (length v) div 2) fd"

lemma getFdEvent_rest_eq:
  assumes "length v \<le> 1431655764" and "int (length v) \<le> fd"
  shows "getFdEvent_rest fd v c =
    (if fd < grown fd v
     then Inr (length (made c) + nat (fd - int (length v)),
       c\<lparr>fds_vec := v @ [length (made c)..<length (made c) + nat (grown fd v - int (length v))],
         made := made c @ map new_FdEvent [int (length v)..grown fd v - 1]\<rparr>)
     else Inl Out_of_bounds)"
proof -
  have n: "(if 3 * int (length v) div 2 > fd then 3 * int (length v) div 2 else fd) = grown fd v"
    by (auto simp: grown_def)
  have ge: "int (length v) \<le> grown fd v" using assms(2) by (simp add: grown_def)
  have sc: "scale_1_5 (int (length v)) = Inr (3 * int (length v) div 2)"
    by (rule scale_1_5_ok) (use assms in auto)
  have ix: "fd < grown fd v \<Longrightarrow>
      (v @ [length (made c)..<length (made c) + nat (grown fd v - int (length v))]) ! nat fd =
      length (made c) + nat (fd - int (length v))"
  proof -
    assume "fd < grown fd v"
    moreover have "\<not> nat fd < length v" "nat fd - length v = nat (fd - int (length v))"
      using assms(2) by linarith+
    ultimately show ?thesis by (simp only: nth_append if_False) (use assms(2) in simp)
  qed
  have "\<not> fd < cast_int (int (length v))" using assms by (simp add: cast_int_small)
  then show ?thesis
    using sc n ix ge assms(2) unfolding getFdEvent_rest_def push_events_def Let_def
    by auto
qed

lemma getFdEvent_grows:
  assumes "container_ok c" and "length (fds_vec c) \<le> 1431655764"
    and "int (length (fds_vec c)) \<le> fd" and "fd < 3 * int (length (fds_vec c)) div 2"
  shows "\<exists>c'. getFdEvent fd c = Inr (length (made c) + nat (fd - int (length (fds_vec c))), c') \<and>
    m_fd (made c' ! (length (made c) + nat (fd - int (length (fds_vec c))))) = fd \<and>
    container_ok c' \<and> take (length (fds_vec c)) (fds_vec c') = fds_vec c"
proof -
  let ?v = "fds_vec c" let ?g = "3 * int (length ?v) div 2"
  let ?c = "c\<lparr>fds_vec := ?v @ [length (made c)..<length (made c) + nat (?g - int (length ?v))],
     made := made c @ map new_FdEvent [int (length ?v)..?g - 1]\<rparr>"
  have g: "grown fd ?v = ?g" using assms(4) by (simp add: grown_def)
  have eq: "getFdEvent fd c = Inr (length (made c) + nat (fd - int (length ?v)), ?c)"
    using getFdEvent_rest_eq [OF assms(2,3), of c] assms(4) by (simp add: getFdEvent_def g)
  have new: "made ?c ! (length (made c) + k) = new_FdEvent (int (length ?v) + int k)"
    if "int k < ?g - int (length ?v)" for k
    using that by (simp add: nth_append)
  have "container_ok ?c"
    unfolding container_ok_def
  proof (intro allI impI)
    fix i assume i: "i < length (fds_vec ?c)"
    show "fds_vec ?c ! i < length (made ?c) \<and> m_fd (made ?c ! (fds_vec ?c ! i)) = int i"
    proof (cases "i < length ?v")
      case True
      then show ?thesis using assms(1) by (simp add: container_ok_def nth_append trans_less_add1)
    next
      case False
      with i have "fds_vec ?c ! i = length (made c) + (i - length ?v)" "int (i - length ?v) < ?g - int (length ?v)"
        by (auto simp: nth_append)
      with new [of "i - length ?v"] False show ?thesis by (simp add: new_FdEvent_def)
    qed
  qed
  moreover have "m_fd (made ?c ! (length (made c) + nat (fd - int (length ?v)))) = fd"
    using new [of "nat (fd - int (length ?v))"] assms(3,4) by (simp add: new_FdEvent_def)
  ultimately show ?thesis using eq by (intro exI [of _ ?c]) simp
qed

section \<open>Properties\<close>

text \<open>C29. Listening masks.  A thread calls \<open>addListenEvents\<close> and \<open>delListenEvents\<close> any number of times, in any order, on an event that has a
  descriptor and belongs to the thread's own reactor.  No call faults, and the event ends with exactly the mask the calls add up to.  When no
  call of \<open>epoll_ctl\<close> for the descriptor has failed, the kernel's entry is that mask with the event's address (or there is none and the mask is
  0): a call skipped because of the mask loses nothing.  When one has failed, the entry is still the one from before the calls or the mask after some of them.\<close>

theorem listen_events_in_kernel:
  assumes "epoll_ctl_spec S V" and "in_sync S V r" and "agrees V p r" and "heap r p = Some e"
  shows "\<exists>r'. foldE (listen_call S p) ops r = Inr r' \<and> in_sync S V r' \<and>
    heap r' p = Some (e\<lparr>listen_events := mask_after ops (listen_events e)\<rparr>) \<and>
    (m_fd e \<notin> refused V (kern r') \<longrightarrow>
       reg V (kern r') (m_fd e) = Some \<lparr>events = mask_after ops (listen_events e), data = p\<rparr> \<or>
       (mask_after ops (listen_events e) = 0 \<and> reg V (kern r') (m_fd e) = None)) \<and>
    (reg V (kern r') (m_fd e) = reg V (kern r) (m_fd e) \<or>
     (\<exists>n\<le>length ops. reg V (kern r') (m_fd e) = Some \<lparr>events = mask_after (take n ops) (listen_events e), data = p\<rparr>))"
proof -
  from listen_calls_ok [OF assms] obtain r' where
    "foldE (listen_call S p) ops r = Inr r'" "in_sync S V r'" "agrees V p r'"
      "heap r' p = Some (e\<lparr>listen_events := mask_after ops (listen_events e)\<rparr>)"
      "entry_from p ops (listen_events e) (reg V (kern r) (m_fd e)) (reg V (kern r') (m_fd e))" by blast
  then show ?thesis by (intro exI [of _ r']) (auto simp: agrees_def entry_from_def)
qed

lemma demo_agrees: "agrees mini_view 64 demo_reactor"
  by (simp add: agrees_def demo_reactor_def mini_view_def)

theorem listen_events_in_kernel_witness:
  "\<exists>r'. foldE (listen_call mini_sys 64) [Listen WRITE, Listen READ, Unlisten WRITE] demo_reactor = Inr r' \<and>
     heap r' 64 = Some \<lparr>m_fd = 9, read_cb = Some 7, write_cb = Some 8, listen_events = 1, m_reactor = Some 0\<rparr> \<and>
     in_sync mini_sys mini_view r'"
proof -
  have "heap demo_reactor 64 = Some \<lparr>m_fd = 9, read_cb = Some 7, write_cb = Some 8, listen_events = 1, m_reactor = Some 0\<rparr>"
    by (simp add: demo_reactor_def)
  from listen_events_in_kernel [OF mini_epoll_ctl_spec demo_in_sync demo_agrees this,
      of "[Listen WRITE, Listen READ, Unlisten WRITE]"]
  show ?thesis by (auto simp: mask_after_def EPOLLIN_def EPOLLOUT_def)
qed

text \<open>Lookup of the event of a descriptor.  In a container whose entries are the events of their
  positions, \<open>getFdEvent(fd)\<close> with \<open>fd\<close> below the size or below one and a half times the size gives
  an event whose descriptor is \<open>fd\<close>; the container stays of that form, and every descriptor that
  had an event keeps the same one.\<close>

theorem getFdEvent_stable:
  assumes "container_ok c" and "length (fds_vec c) \<le> 1431655764" and "0 \<le> fd"
    and "fd < max (int (length (fds_vec c))) (3 * int (length (fds_vec c)) div 2)"
  shows "\<exists>p c'. getFdEvent fd c = Inr (p, c') \<and> m_fd (made c' ! p) = fd \<and> container_ok c' \<and>
    take (length (fds_vec c)) (fds_vec c') = fds_vec c"
proof (cases "fd < int (length (fds_vec c))")
  case True
  then have "getFdEvent fd c = Inr (fds_vec c ! nat fd, c)"
    using assms(2,3) by (simp add: getFdEvent_def getFdEvent_rest_def cast_int_small)
  moreover have "m_fd (made c ! (fds_vec c ! nat fd)) = fd"
    using assms(1,3) True by (simp add: container_ok_def nat_less_iff)
  ultimately show ?thesis using assms(1) by simp
next
  case False
  with assms(4) getFdEvent_grows [OF assms(1,2), of fd] show ?thesis by (auto simp: max_def split: if_splits)
qed

theorem getFdEvent_stable_witness:
  "\<exists>p c'. getFdEvent 2 (new_FdEventContainer 2 :: nat fd_container) = Inr (p, c') \<and> m_fd (made c' ! p) = 2"
proof -
  have ok: "container_ok (new_FdEventContainer 2 :: nat fd_container)"
    by (auto simp: container_ok_def new_FdEventContainer_def push_events_def new_FdEvent_def
        upto_rec1 less_Suc_eq numeral_2_eq_2)
  have "length (fds_vec (new_FdEventContainer 2 :: nat fd_container)) = 2"
    by (simp add: new_FdEventContainer_def push_events_def)
  with getFdEvent_stable [OF ok, of 2] show ?thesis by auto
qed

text \<open>Lookups past the growth.  The vector grows to one and a half times its size or, when the
  descriptor is at least that, to the descriptor itself, one entry short of containing it: a
  lookup indexes outside the vector exactly when the descriptor is negative or not below both
  its size and one and a half times its size.  With the initial 128 entries that is every
  descriptor from 192 on.\<close>

theorem getFdEvent_fails_iff:
  assumes "length (fds_vec c) \<le> 1431655764"
  shows "getFdEvent fd c = Inl Out_of_bounds \<longleftrightarrow>
    fd < 0 \<or> max (int (length (fds_vec c))) (3 * int (length (fds_vec c)) div 2) \<le> fd"
proof (cases "fd < int (length (fds_vec c))")
  case True
  then show ?thesis
    using assms by (simp add: getFdEvent_def getFdEvent_rest_def cast_int_small) linarith
next
  case False
  then have "getFdEvent fd c = Inl Out_of_bounds \<longleftrightarrow> \<not> fd < grown fd (fds_vec c)"
    using getFdEvent_rest_eq [OF assms, of fd c] by (simp add: getFdEvent_def)
  then show ?thesis using False by (auto simp: grown_def)
qed

theorem getFdEvent_fails_iff_witness:
  "getFdEvent 192 (GetFdContainer None :: nat fd_container) = Inl Out_of_bounds \<and>
   getFdEvent 191 (GetFdContainer None :: nat fd_container) \<noteq> Inl Out_of_bounds"
proof -
  have "length (fds_vec (GetFdContainer None :: nat fd_container)) = 128"
    by (simp add: GetFdContainer_def new_FdEventContainer_def push_events_def)
  then show ?thesis
    using getFdEvent_fails_iff [of "GetFdContainer None :: nat fd_container" 192]
      getFdEvent_fails_iff [of "GetFdContainer None :: nat fd_container" 191] by simp
qed

text \<open>Two lookups at once.  The copy of the vector is grown without the lock.  When two threads
  look up a descriptor that has no event yet and both copied the vector before either stored its
  own, they are given different events for the same descriptor, and only the later one stays in
  the container.\<close>

theorem getFdEvent_race:
  assumes "length (fds_vec c) \<le> 1431655764" and "int (length (fds_vec c)) \<le> fd"
    and "fd < 3 * int (length (fds_vec c)) div 2"
  shows "\<exists>p1 c1 p2 c2. getFdEvent_rest fd (fds_vec c) c = Inr (p1, c1) \<and>
    getFdEvent_rest fd (fds_vec c) c1 = Inr (p2, c2) \<and> p1 \<noteq> p2 \<and>
    fds_vec c1 ! nat fd = p1 \<and> fds_vec c2 ! nat fd = p2"
proof -
  have g: "fd < grown fd (fds_vec c)" "int (length (fds_vec c)) < grown fd (fds_vec c)"
    using assms(2,3) by (auto simp: grown_def)
  have ix: "(fds_vec c @ [a..<a + nat (grown fd (fds_vec c) - int (length (fds_vec c)))]) ! nat fd =
      a + nat (fd - int (length (fds_vec c)))" for a
  proof -
    have "\<not> nat fd < length (fds_vec c)" "nat fd - length (fds_vec c) = nat (fd - int (length (fds_vec c)))"
      using assms(2) by linarith+
    then show ?thesis using g assms(2) by (simp only: nth_append if_False) simp
  qed
  have step: "\<exists>c'. getFdEvent_rest fd (fds_vec c) d = Inr (length (made d) + nat (fd - int (length (fds_vec c))), c') \<and>
      fds_vec c' ! nat fd = length (made d) + nat (fd - int (length (fds_vec c))) \<and>
      length (made d) < length (made c')" for d :: "'a fd_container"
    using getFdEvent_rest_eq [OF assms(1,2), of d] g ix by simp
  obtain c1 where "getFdEvent_rest fd (fds_vec c) c = Inr (length (made c) + nat (fd - int (length (fds_vec c))), c1)"
    "fds_vec c1 ! nat fd = length (made c) + nat (fd - int (length (fds_vec c)))"
    "length (made c) < length (made c1)"
    using step [of c] by blast
  with step [of c1] show ?thesis by fastforce
qed

theorem getFdEvent_race_witness:
  "\<exists>p1 c1 p2 c2. getFdEvent_rest 2 [0, 1] (new_FdEventContainer 2 :: nat fd_container) = Inr (p1, c1) \<and>
     getFdEvent_rest 2 [0, 1] c1 = Inr (p2, c2) \<and> p1 \<noteq> p2"
proof -
  have "fds_vec (new_FdEventContainer 2 :: nat fd_container) = [0, 1]"
    by (simp add: new_FdEventContainer_def push_events_def upt_rec)
  with getFdEvent_race [of "new_FdEventContainer 2 :: nat fd_container" 2] show ?thesis by auto
qed

end
