(* ===== verification/Timer.thy ===== *)
theory Timer
  imports Fd_Event "HOL-Library.Multiset"
begin

text \<open>
  \<open>net::TimerEvent\<close> and \<open>net::Timer\<close> of \<^verbatim>\<open>src/net/timer.h\<close> and \<^verbatim>\<open>src/net/timer.cc\<close>.

  Timer events are shared objects; they are named by a number and kept in a table, so that
  cancelling one is seen through every pointer to it.  The \<open>std::multimap\<close> of pending events is
  a list in key order.  Times are milliseconds; the code's \<open>int64_t\<close> arithmetic on them does not
  overflow for any real clock and is that of the integers here.  The reactor the timer queues its
  tasks with is part of the state, and the kernel is reached through it.
\<close>

section \<open>State\<close>

record 't timer_event =
  arrive_time :: int
  interval :: int
  is_repeated :: bool
  is_cancled :: bool
  task :: "'t option"

record ('t, 'k) timer =
  t_fd :: int
  pending_events :: "(int \<times> nat) list"
  tev :: "nat \<Rightarrow> 't timer_event"
  rea :: "('t, 'k) reactor"

text \<open>\<open>std::multimap::emplace\<close>: behind the entries with an equal key.\<close>

fun mm_emplace :: "int \<Rightarrow> 'v \<Rightarrow> (int \<times> 'v) list \<Rightarrow> (int \<times> 'v) list" where
  "mm_emplace a v [] = [(a, v)]"
| "mm_emplace a v ((b, w) # xs) = (if a < b then (a, v) # (b, w) # xs else (b, w) # mm_emplace a v xs)"

section \<open>Operations\<close>

definition getNowMs :: "'k sys \<Rightarrow> 'k \<Rightarrow> int \<times> 'k" where
  "getNowMs S k = (let ((sec, usec), k1) = sys_gettimeofday S k in (sec * 1000 + usec div 1000, k1))"

definition new_TimerEvent :: "'k sys \<Rightarrow> int \<Rightarrow> bool \<Rightarrow> 't option \<Rightarrow> 'k \<Rightarrow> 't timer_event \<times> 'k" where
  "new_TimerEvent S iv rep f k =
     (let (now, k1) = getNowMs S k in
      (\<lparr>arrive_time = now + iv, interval = iv, is_repeated = rep, is_cancled = False, task = f\<rparr>, k1))"

definition set_kern :: "'k \<Rightarrow> ('t, 'k) timer \<Rightarrow> ('t, 'k) timer" where
  "set_kern k st = st\<lparr>rea := (rea st)\<lparr>kern := k\<rparr>\<rparr>"

definition resetTime :: "'k sys \<Rightarrow> nat \<Rightarrow> ('t, 'k) timer \<Rightarrow> ('t, 'k) timer" where
  "resetTime S i st =
     (let (now, k) = getNowMs S (kern (rea st)); e = tev st i in
      set_kern k (st\<lparr>tev := (tev st)(i := e\<lparr>arrive_time := now + interval e\<rparr>)\<rparr>))"

text \<open>
  The constructor: a timer descriptor, \<open>onTimer\<close> as the read callback (\<open>on_timer\<close>), and the
  event at address \<open>p\<close> listening for reads.
\<close>

definition new_Timer :: "'k sys \<Rightarrow> nat option \<Rightarrow> 't \<Rightarrow> u64 \<Rightarrow> ('t, 'k) reactor \<Rightarrow> ('t, 'k) timer res" where
  "new_Timer S reactor on_timer p r =
     bindE (new_FdEvent_in reactor (-1)) (\<lambda>e.
     let (fd, k) = sys_timerfd_create S (kern r);
         e = e\<lparr>m_fd := fd, read_cb := Some on_timer\<rparr> in
     bindE (addListenEvents S p READ (store_event p e (r\<lparr>kern := k\<rparr>))) (\<lambda>r.
       Inr \<lparr>t_fd = fd, pending_events = [],
            tev = (\<lambda>_. \<lparr>arrive_time = 0, interval = 0, is_repeated = False, is_cancled = False, task = None\<rparr>),
            rea = r\<rparr>))"

definition resetArriveTime :: "'k sys \<Rightarrow> ('t, 'k) timer \<Rightarrow> ('t, 'k) timer" where
  "resetArriveTime S st =
     (case pending_events st of [] \<Rightarrow> st
      | (a, i) # _ \<Rightarrow>
          let (now, k) = getNowMs S (kern (rea st)) in
          if a < now then set_kern k st
          else
            let iv = a - now in
            set_kern (snd (sys_timerfd_settime S (t_fd st) (iv div 1000, (iv mod 1000) * 1000000) k)) st)"

definition addTimerEvent :: "'k sys \<Rightarrow> nat \<Rightarrow> bool \<Rightarrow> ('t, 'k) timer \<Rightarrow> ('t, 'k) timer" where
  "addTimerEvent S i need_reset st =
     (let is_reset = (case pending_events st of [] \<Rightarrow> True
                      | (a, j) # _ \<Rightarrow> arrive_time (tev st i) < arrive_time (tev st j));
          st1 = st\<lparr>pending_events := mm_emplace (arrive_time (tev st i)) i (pending_events st)\<rparr> in
      if is_reset \<and> need_reset then resetArriveTime S st1 else st1)"

definition delTimerEvent :: "nat \<Rightarrow> ('t, 'k) timer \<Rightarrow> ('t, 'k) timer" where
  "delTimerEvent i st = st\<lparr>tev := (tev st)(i := (tev st i)\<lparr>is_cancled := True\<rparr>)\<rparr>"

text \<open>Putting the repeated ones of the events that fired back.\<close>

primrec reschedule :: "'k sys \<Rightarrow> nat list \<Rightarrow> ('t, 'k) timer \<Rightarrow> ('t, 'k) timer" where
  "reschedule S [] st = st"
| "reschedule S (i # is) st =
     reschedule S is (if is_repeated (tev st i) then addTimerEvent S i False (resetTime S i st) else st)"

definition fires :: "int \<Rightarrow> ('t, 'k) timer \<Rightarrow> int \<times> nat \<Rightarrow> bool" where
  "fires now st x \<longleftrightarrow> fst x \<le> now \<and> \<not> is_cancled (tev st (snd x))"

definition onTimer :: "nat \<Rightarrow> 'k sys \<Rightarrow> ('t, 'k) timer \<Rightarrow> ('t, 'k) timer res" where
  "onTimer n S st =
     bindE (read_until_again n S (t_fd st) (kern (rea st))) (\<lambda>k.
     let (now, k) = getNowMs S k;
         tmps = takeWhile (fires now st) (pending_events st);
         rest = dropWhile (fires now st) (pending_events st);
         tasks = map (\<lambda>x. task (tev st (snd x))) tmps;
         r = addTasks S tasks True ((rea st)\<lparr>kern := k\<rparr>);
         st = st\<lparr>rea := r, pending_events := rest\<rparr> in
     Inr (resetArriveTime S (reschedule S (map snd tmps) st)))"

section \<open>Lemmas\<close>

lemma mm_emplace_mset: "mset (mm_emplace a v xs) = mset xs + {#(a, v)#}"
  by (induction a v xs rule: mm_emplace.induct) auto

lemma mm_emplace_sorted: "sorted (map fst xs) \<Longrightarrow> sorted (map fst (mm_emplace a v xs))"
proof (induction a v xs rule: mm_emplace.induct)
  case (2 a v b w xs)
  have "set (mm_emplace a v xs) = insert (a, v) (set xs)"
    using arg_cong [OF mm_emplace_mset, of set_mset] by simp
  with 2 show ?case by auto
qed simp

lemma set_kern_sel [simp]:
  "t_fd (set_kern k st) = t_fd st" "pending_events (set_kern k st) = pending_events st"
  "tev (set_kern k st) = tev st" "pending_tasks (rea (set_kern k st)) = pending_tasks (rea st)"
  "kern (rea (set_kern k st)) = k"
  by (simp_all add: set_kern_def)

lemma resetArriveTime_sel [simp]:
  "t_fd (resetArriveTime S st) = t_fd st" "pending_events (resetArriveTime S st) = pending_events st"
  "tev (resetArriveTime S st) = tev st"
  "pending_tasks (rea (resetArriveTime S st)) = pending_tasks (rea st)"
  by (auto simp: resetArriveTime_def Let_def split: list.splits prod.splits)

lemma resetTime_sel [simp]:
  "t_fd (resetTime S i st) = t_fd st" "pending_events (resetTime S i st) = pending_events st"
  "pending_tasks (rea (resetTime S i st)) = pending_tasks (rea st)"
  "is_repeated (tev (resetTime S i st) j) = is_repeated (tev st j)"
  "is_cancled (tev (resetTime S i st) j) = is_cancled (tev st j)"
  "interval (tev (resetTime S i st) j) = interval (tev st j)"
  "task (tev (resetTime S i st) j) = task (tev st j)"
  by (auto simp: resetTime_def Let_def split: prod.splits)

lemma addTimerEvent_sel [simp]:
  "t_fd (addTimerEvent S i b st) = t_fd st" "tev (addTimerEvent S i b st) = tev st"
  "pending_tasks (rea (addTimerEvent S i b st)) = pending_tasks (rea st)"
  "pending_events (addTimerEvent S i b st) = mm_emplace (arrive_time (tev st i)) i (pending_events st)"
  by (auto simp: addTimerEvent_def Let_def)

lemma reschedule_sel [simp]:
  "t_fd (reschedule S is st) = t_fd st"
  "pending_tasks (rea (reschedule S is st)) = pending_tasks (rea st)"
  "is_cancled (tev (reschedule S is st) j) = is_cancled (tev st j)"
  "is_repeated (tev (reschedule S is st) j) = is_repeated (tev st j)"
  "interval (tev (reschedule S is st) j) = interval (tev st j)"
  "task (tev (reschedule S is st) j) = task (tev st j)"
  by (induction "is" arbitrary: st) simp_all

text \<open>
  The times the repeated events \<open>is\<close> get when they are put back in turn: each reads the clock and adds its interval.
\<close>

primrec rearm :: "'k sys \<Rightarrow> (nat \<Rightarrow> int) \<Rightarrow> 'k \<Rightarrow> nat list \<Rightarrow> (int \<times> nat) list" where
  "rearm S iv k [] = []"
| "rearm S iv k (i # is) = (let (now, k) = getNowMs S k in (now + iv i, i) # rearm S iv k is)"

definition retimed :: "(int \<times> nat) list \<Rightarrow> (nat \<Rightarrow> 't timer_event) \<Rightarrow> nat \<Rightarrow> 't timer_event" where
  "retimed L ev i = (case map_of (map prod.swap (rev L)) i of None \<Rightarrow> ev i | Some a \<Rightarrow> (ev i)\<lparr>arrive_time := a\<rparr>)"

lemma retimed_Cons: "retimed ((a, i) # L) ev = retimed L (ev(i := (ev i)\<lparr>arrive_time := a\<rparr>))"
  by (auto simp: retimed_def map_add_def fun_eq_iff split: option.splits)

lemma reschedule_exact:
  "mset (pending_events (reschedule S is st)) = mset (pending_events st) +
     mset (rearm S (\<lambda>i. interval (tev st i)) (kern (rea st)) (filter (\<lambda>i. is_repeated (tev st i)) is)) \<and>
   tev (reschedule S is st) =
     retimed (rearm S (\<lambda>i. interval (tev st i)) (kern (rea st)) (filter (\<lambda>i. is_repeated (tev st i)) is)) (tev st)"
proof (induction "is" arbitrary: st)
  case (Cons i "is")
  show ?case
  proof (cases "is_repeated (tev st i)")
    case True
    obtain now k where k: "getNowMs S (kern (rea st)) = (now, k)" by fastforce
    let ?e = "(tev st i)\<lparr>arrive_time := now + interval (tev st i)\<rparr>"
    let ?st = "addTimerEvent S i False (resetTime S i st)"
    have st: "tev ?st = (tev st)(i := ?e)" "kern (rea ?st) = k"
      "pending_events ?st = mm_emplace (now + interval (tev st i)) i (pending_events st)"
      using k by (simp_all add: resetTime_def addTimerEvent_def Let_def)
    have f: "(\<lambda>j. interval (tev ?st j)) = (\<lambda>j. interval (tev st j))" "(\<lambda>j. is_repeated (tev ?st j)) = (\<lambda>j. is_repeated (tev st j))"
      by (simp_all add: fun_eq_iff)
    show ?thesis using Cons.IH [of ?st, unfolded f, unfolded st] True k by (simp add: mm_emplace_mset retimed_Cons fun_upd_def)
  next
    case False
    then show ?thesis using Cons.IH [of st] by simp
  qed
qed (simp add: retimed_def fun_eq_iff)

lemma reschedule_sorted:
  "sorted (map fst (pending_events st)) \<Longrightarrow> sorted (map fst (pending_events (reschedule S is st)))"
  by (induction "is" arbitrary: st) (simp_all add: mm_emplace_sorted)

lemma takeWhile_sorted_filter:
  fixes now :: int
  assumes "sorted (map fst xs)"
  shows "takeWhile (\<lambda>x. fst x \<le> now) xs = filter (\<lambda>x. fst x \<le> now) xs"
    and "dropWhile (\<lambda>x. fst x \<le> now) xs = filter (\<lambda>x. \<not> fst x \<le> now) xs"
  using assms
proof (induction xs)
  case (Cons x xs)
  {
    case 1
    with Cons show ?case by (auto simp: empty_filter_conv)
  next
    case 2
    with Cons show ?case by (auto intro!: sym [OF filter_True])
  }
qed simp_all

lemma addTasks_pending [simp]: "pending_tasks (addTasks S ts w r) = pending_tasks r @ ts"
  by (simp add: addTasks_def Let_def)

lemma onTimer_eq:
  assumes "counter_spec S (t_fd st) idle" and "2 \<le> n"
  shows "\<exists>k now k1 st'. read_until_again n S (t_fd st) (kern (rea st)) = Inr k \<and> getNowMs S k = (now, k1) \<and>
    onTimer n S st = Inr st' \<and> t_fd st' = t_fd st \<and>
    (let due = takeWhile (fires now st) (pending_events st); tasks = map (\<lambda>x. task (tev st (snd x))) due;
         L = rearm S (\<lambda>i. interval (tev st i)) (kern (addTasks S tasks True ((rea st)\<lparr>kern := k1\<rparr>)))
               (filter (\<lambda>i. is_repeated (tev st i)) (map snd due)) in
     pending_tasks (rea st') = pending_tasks (rea st) @ tasks \<and>
     (sorted (map fst (pending_events st)) \<longrightarrow> sorted (map fst (pending_events st'))) \<and>
     mset (pending_events st') = mset (dropWhile (fires now st) (pending_events st)) + mset L \<and> tev st' = retimed L (tev st) \<and>
     (due = [] \<longrightarrow> pending_events st' = pending_events st))"
proof -
  obtain k where k: "read_until_again n S (t_fd st) (kern (rea st)) = Inr k"
    using read_until_again_ends [OF assms] by blast
  obtain now k1 where t: "getNowMs S k = (now, k1)" by force
  have dw: "sorted (map fst (pending_events st)) \<Longrightarrow>
      sorted (map fst (dropWhile (fires now st) (pending_events st)))"
    by (metis dropWhile_eq_drop drop_map sorted_wrt_drop)
  have "dropWhile (fires now st) (pending_events st) = pending_events st"
    if "takeWhile (fires now st) (pending_events st) = []"
    using that by (metis append_Nil takeWhile_dropWhile_id)
  then show ?thesis
    using k t dw by (auto simp: onTimer_def Let_def reschedule_exact intro!: reschedule_sorted)
qed

text \<open>Calls on a timer: the descriptor became readable, or an event is added.\<close>

datatype timer_call = Fire | Schedule nat

definition timer_step :: "nat \<Rightarrow> 'k sys \<Rightarrow> timer_call \<Rightarrow> ('t, 'k) timer \<Rightarrow> ('t, 'k) timer res" where
  "timer_step n S x st = (case x of Fire \<Rightarrow> onTimer n S st | Schedule i \<Rightarrow> Inr (addTimerEvent S i True st))"

lemma blocked_step:
  assumes "counter_spec S (t_fd st) idle" and "2 \<le> n"
    and "pending_events st = (a, j) # xs" and "is_cancled (tev st j)"
    and "\<forall>i. x = Schedule i \<longrightarrow> a \<le> arrive_time (tev st i)"
  shows "\<exists>st' ys. timer_step n S x st = Inr st' \<and> t_fd st' = t_fd st \<and> tev st' = tev st \<and>
    pending_tasks (rea st') = pending_tasks (rea st) \<and> pending_events st' = (a, j) # ys"
proof (cases x)
  case Fire
  have none: "takeWhile (fires now st) (pending_events st) = []" for now using assms(3,4) by (simp add: fires_def)
  from onTimer_eq [OF assms(1,2)] obtain st' where "onTimer n S st = Inr st'" "t_fd st' = t_fd st"
    "pending_tasks (rea st') = pending_tasks (rea st)" "pending_events st' = pending_events st" "tev st' = retimed [] (tev st)"
    by (auto simp: none Let_def)
  with assms(3) Fire show ?thesis by (simp add: timer_step_def retimed_def fun_eq_iff)
next
  case (Schedule i)
  then show ?thesis using assms(3,5) by (simp add: timer_step_def)
qed

lemma blocked_steps:
  assumes "2 \<le> n"
  shows "counter_spec S (t_fd st) idle \<Longrightarrow> pending_events st = (a, j) # xs \<Longrightarrow> is_cancled (tev st j) \<Longrightarrow>
    \<forall>i. Schedule i \<in> set calls \<longrightarrow> a \<le> arrive_time (tev st i) \<Longrightarrow>
    \<exists>st' ys. foldE (timer_step n S) calls st = Inr st' \<and>
      pending_tasks (rea st') = pending_tasks (rea st) \<and> pending_events st' = (a, j) # ys"
proof (induction calls arbitrary: st xs)
  case (Cons x calls)
  then have "\<forall>i. x = Schedule i \<longrightarrow> a \<le> arrive_time (tev st i)" by auto
  from blocked_step [OF Cons.prems(1) assms Cons.prems(2,3) this] obtain st1 ys where
    1: "timer_step n S x st = Inr st1" "t_fd st1 = t_fd st" "tev st1 = tev st"
      "pending_tasks (rea st1) = pending_tasks (rea st)" "pending_events st1 = (a, j) # ys" by blast
  have "counter_spec S (t_fd st1) idle" "is_cancled (tev st1 j)"
    "\<forall>i. Schedule i \<in> set calls \<longrightarrow> a \<le> arrive_time (tev st1 i)"
    using Cons.prems 1 by auto
  from Cons.IH [OF this(1) 1(5) this(2,3)] 1 show ?case by simp
qed simp

section \<open>Properties\<close>


definition demo_timer :: "(nat, mini_kernel) timer" where
  "demo_timer =
     \<lparr>t_fd = 5, pending_events = [(0, 0), (70, 1)],
      tev = (\<lambda>i. \<lparr>arrive_time = 70 * int i, interval = 70, is_repeated = (i = 0), is_cancled = (i = 2),
                  task = Some (i + 20)\<rparr>),
      rea = demo_reactor\<rparr>"


text \<open>A cancelled first event stops the timer.  \<open>delTimerEvent\<close> only marks an event; the loop of
  \<open>onTimer\<close> stops at the first event that is not due or is cancelled, and never removes a cancelled
  one.  Once the earliest pending event is cancelled, no sequence of expiries and of additions of
  events that are not earlier ever queues another task, however late it is.\<close>

theorem cancelled_first_blocks:
  assumes "counter_spec S (t_fd st) idle" and "2 \<le> n"
    and "pending_events st = (a, j) # xs" and "is_cancled (tev st j)"
    and "\<forall>i. Schedule i \<in> set calls \<longrightarrow> a \<le> arrive_time (tev st i)"
  shows "\<exists>st' ys. foldE (timer_step n S) calls st = Inr st' \<and>
    pending_tasks (rea st') = pending_tasks (rea st) \<and> pending_events st' = (a, j) # ys"
  using blocked_steps [OF assms(2,1,3-5)] .

theorem cancelled_first_blocks_witness:
  "\<exists>st' ys. foldE (timer_step 2 mini_sys) [Fire, Schedule 1, Fire] (delTimerEvent 0 demo_timer) = Inr st' \<and>
     pending_tasks (rea st') = [Some 1] \<and> pending_events st' = (0, 0) # ys"
proof -
  have "counter_spec mini_sys (t_fd (delTimerEvent 0 demo_timer)) (\<lambda>k. \<not> mk_counter k)" by (rule mini_counter_spec)
  from cancelled_first_blocks [OF this, of 2 0 0 "[(70, 1)]" "[Fire, Schedule 1, Fire]"] show ?thesis
    by (simp add: delTimerEvent_def demo_timer_def demo_reactor_def)
qed

text \<open>Arming.  \<open>timerfd_settime\<close> with a zero time disarms the timer, with any other time arms it.
  After \<open>resetArriveTime\<close> with a pending event, the descriptor is armed for exactly the distance from
  the clock reading to the earliest event when that event is later than the reading; it is disarmed
  when the event is due at that very millisecond; and when the event is earlier the descriptor is
  left as it was.\<close>

theorem resetArriveTime_arms:
  assumes "\<forall>fd t k. armed (snd (sys_timerfd_settime S fd t k)) = (if t = (0, 0) then None else Some t)"
    and "pending_events st = (a, i) # xs" and "getNowMs S (kern (rea st)) = (now, k)"
  shows "armed (kern (rea (resetArriveTime S st))) =
    (if a < now then armed k
     else if a = now then None
     else Some ((a - now) div 1000, (a - now) mod 1000 * 1000000))"
proof -
  have "((a - now) div 1000, (a - now) mod 1000 * 1000000) = (0, 0) \<longleftrightarrow> a = now" if "now \<le> a"
  proof -
    have "a - now = (a - now) div 1000 * 1000 + (a - now) mod 1000" by simp
    then show ?thesis by auto
  qed
  then show ?thesis
    using assms by (auto simp: resetArriveTime_def Let_def)
qed

theorem resetArriveTime_arms_witness:
  "mk_armed (kern (rea (resetArriveTime mini_sys (demo_timer\<lparr>pending_events := [(70, 1)]\<rparr>)))) = Some (0, 70000000) \<and>
   mk_armed (kern (rea (resetArriveTime mini_sys demo_timer))) = None"
  using resetArriveTime_arms [of mk_armed mini_sys "demo_timer\<lparr>pending_events := [(70, 1)]\<rparr>"]
    resetArriveTime_arms [of mk_armed mini_sys demo_timer]
  by (simp add: mini_sys_def demo_timer_def demo_reactor_def getNowMs_def)

end
