(* ===== verification/Coroutine_Hook.thy ===== *)
theory Coroutine_Hook
  imports Timer
begin

text \<open>
  The hooks of \<^verbatim>\<open>src/net/coroutine_hook.cc\<close>: \<open>read\<close>, \<open>write\<close>, \<open>accept\<close>, \<open>connect\<close> and \<open>sleep\<close> as a coroutine calls
  them.

  A hook that has to wait calls \<open>Coroutine::Yield\<close>; other code of the thread then runs.  Each hook
  is therefore two functions: the part up to its return or its yield (result \<open>None\<close>: it yields),
  and the part after it is resumed.  The closures the hooks make are given by \<open>mk_resume\<close>, the task
  that resumes a coroutine, and \<open>mk_timeout\<close>, the one that sets \<open>is_timeout\<close> first.  Object \<open>i\<close> of the
  event container lives at address \<open>addr i\<close>.
\<close>

section \<open>State\<close>

record ('t, 'k) hook_st =
  hr :: "('t, 'k) reactor"
  hc :: "'t fd_container"
  in_main :: bool           \<comment> \<open>\<open>Coroutine::IsMainCoroutine()\<close>\<close>
  cur_cor :: nat            \<comment> \<open>\<open>Coroutine::GetCurrentCoroutine()\<close>\<close>

definition addr :: "nat \<Rightarrow> u64" where
  "addr i = word_of_nat (Suc i)"

text \<open>\<open>FdEventContainer::getFdEvent(fd)\<close>; the events it makes are new objects on the heap.\<close>

definition event_of :: "int \<Rightarrow> ('t, 'k) hook_st \<Rightarrow> (u64 \<times> ('t, 'k) hook_st) res" where
  "event_of fd st =
     bindE (getFdEvent fd (hc st)) (\<lambda>(p, c).
       let new = [length (made (hc st))..<length (made c)];
           r = (hr st)\<lparr>heap := fold (\<lambda>i h. h(addr i \<mapsto> made c ! i)) new (heap (hr st))\<rparr> in
       Inr (addr p, st\<lparr>hr := r, hc := c\<rparr>))"

definition on_event :: "u64 \<Rightarrow> ('t fd_event \<Rightarrow> 't fd_event) \<Rightarrow> ('t, 'k) reactor \<Rightarrow> ('t, 'k) reactor res" where
  "on_event p f r = with_event p r (\<lambda>e. Inr (store_event p (f e) r))"

section \<open>Hooks\<close>

definition toEpoll ::
  "'k sys \<Rightarrow> (nat \<Rightarrow> 't) \<Rightarrow> u64 \<Rightarrow> u32 \<Rightarrow> nat \<Rightarrow> ('t, 'k) reactor \<Rightarrow> ('t, 'k) reactor res" where
  "toEpoll S mk_resume p evs cor r =
     bindE (if evs AND flag_of READ \<noteq> 0
            then bindE (on_event p (setCallBack READ (Some (mk_resume cor))) r) (addListenEvents S p READ)
            else Inr r) (\<lambda>r.
     if evs AND flag_of WRITE \<noteq> 0
     then bindE (on_event p (setCallBack WRITE (Some (mk_resume cor))) r) (addListenEvents S p WRITE)
     else Inr r)"

text \<open>What every hook does first: find the event, give it this thread's reactor, set it non-blocking.\<close>

definition prepare :: "'k sys \<Rightarrow> nat \<Rightarrow> int \<Rightarrow> ('t, 'k) hook_st \<Rightarrow> (u64 \<times> ('t, 'k) hook_st) res" where
  "prepare S this_reactor fd st =
     bindE (event_of fd st) (\<lambda>(p, st).
     bindE (on_event p (\<lambda>e. if m_reactor e = None then e\<lparr>m_reactor := Some this_reactor\<rparr> else e) (hr st)) (\<lambda>r.
     case heap r p of None \<Rightarrow> Inl Null_deref | Some e \<Rightarrow>
       Inr (p, st\<lparr>hr := r\<lparr>kern := setNonBlock S e (kern r)\<rparr>\<rparr>)))"

definition with_kern :: "'k \<Rightarrow> ('t, 'k) hook_st \<Rightarrow> ('t, 'k) hook_st" where
  "with_kern k st = st\<lparr>hr := (hr st)\<lparr>kern := k\<rparr>\<rparr>"

definition read_hook ::
  "'k sys \<Rightarrow> (nat \<Rightarrow> 't) \<Rightarrow> nat \<Rightarrow> int \<Rightarrow> nat \<Rightarrow> ('t, 'k) hook_st \<Rightarrow> ((io_ret \<times> byte list) option \<times> ('t, 'k) hook_st) res" where
  "read_hook S mk_resume this_reactor fd cnt st =
     (if in_main st
      then let (x, k) = sys_read S fd cnt (kern (hr st)) in Inr (Some x, with_kern k st)
      else
        bindE (prepare S this_reactor fd st) (\<lambda>(p, st).
        bindE (toEpoll S mk_resume p (flag_of READ) (cur_cor st) (hr st)) (\<lambda>r.
        let (x, k) = sys_read S fd cnt (kern r); st = with_kern k (st\<lparr>hr := r\<rparr>) in
        if rt (fst x) > 0 then Inr (Some x, st) else Inr (None, st))))"

definition read_hook_resumed :: "'k sys \<Rightarrow> int \<Rightarrow> nat \<Rightarrow> ('t, 'k) hook_st \<Rightarrow> (io_ret \<times> byte list) \<times> ('t, 'k) hook_st" where
  "read_hook_resumed S fd cnt st = (let (x, k) = sys_read S fd cnt (kern (hr st)) in (x, with_kern k st))"

definition write_hook ::
  "'k sys \<Rightarrow> (nat \<Rightarrow> 't) \<Rightarrow> nat \<Rightarrow> int \<Rightarrow> byte list \<Rightarrow> ('t, 'k) hook_st \<Rightarrow> (io_ret option \<times> ('t, 'k) hook_st) res" where
  "write_hook S mk_resume this_reactor fd buf st =
     (if in_main st
      then let (x, k) = sys_write S fd buf (kern (hr st)) in Inr (Some x, with_kern k st)
      else
        bindE (prepare S this_reactor fd st) (\<lambda>(p, st).
        bindE (toEpoll S mk_resume p (flag_of WRITE) (cur_cor st) (hr st)) (\<lambda>r.
        let (x, k) = sys_write S fd buf (kern r); st = with_kern k (st\<lparr>hr := r\<rparr>) in
        if rt x > 0 then Inr (Some x, st) else Inr (None, st))))"

definition write_hook_resumed :: "'k sys \<Rightarrow> int \<Rightarrow> byte list \<Rightarrow> ('t, 'k) hook_st \<Rightarrow> io_ret \<times> ('t, 'k) hook_st" where
  "write_hook_resumed S fd buf st = (let (x, k) = sys_write S fd buf (kern (hr st)) in (x, with_kern k st))"

definition accept_hook ::
  "'k sys \<Rightarrow> (nat \<Rightarrow> 't) \<Rightarrow> nat \<Rightarrow> int \<Rightarrow> ('t, 'k) hook_st \<Rightarrow> (io_ret option \<times> ('t, 'k) hook_st) res" where
  "accept_hook S mk_resume this_reactor fd st =
     (if in_main st
      then let (x, k) = sys_accept S fd (kern (hr st)) in Inr (Some x, with_kern k st)
      else
        bindE (prepare S this_reactor fd st) (\<lambda>(p, st).
        let (x, k) = sys_accept S fd (kern (hr st)); st = with_kern k st in
        if rt x > 0 then Inr (Some x, st)
        else bindE (toEpoll S mk_resume p (flag_of READ) (cur_cor st) (hr st)) (\<lambda>r.
          Inr (None, st\<lparr>hr := r\<rparr>))))"

definition accept_hook_resumed :: "'k sys \<Rightarrow> int \<Rightarrow> ('t, 'k) hook_st \<Rightarrow> io_ret \<times> ('t, 'k) hook_st" where
  "accept_hook_resumed S fd st = (let (x, k) = sys_accept S fd (kern (hr st)) in (x, with_kern k st))"

text \<open>
  \<open>connect_hook\<close> waits for writability with a timeout: a non-repeated event of \<open>g_max_timeout\<close> on
  the timer \<open>reactor->getTimer()\<close> returns.  That call makes a new timer every time, as
  \<open>init_timer_\<close> is never set; its event is at address \<open>q\<close>.
\<close>

definition getTimer ::
  "'k sys \<Rightarrow> nat \<Rightarrow> 't \<Rightarrow> u64 \<Rightarrow> ('t, 'k) timer option \<Rightarrow> ('t, 'k) reactor \<Rightarrow> ('t, 'k) timer res" where
  "getTimer S this_reactor on_timer q cur r =
     (if init_timer r then (case cur of None \<Rightarrow> Inl Null_deref | Some tm \<Rightarrow> Inr (tm\<lparr>rea := r\<rparr>))
      else bindE (new_Timer S (Some this_reactor) on_timer q r) (\<lambda>tm.
        Inr (tm\<lparr>rea := (rea tm)\<lparr>timer_fd := t_fd tm\<rparr>\<rparr>)))"

definition add_new_event :: "'k sys \<Rightarrow> int \<Rightarrow> 't \<Rightarrow> ('t, 'k) timer \<Rightarrow> ('t, 'k) timer" where
  "add_new_event S ms f tm =
     (let (e, k) = new_TimerEvent S ms False (Some f) (kern (rea tm)) in
      addTimerEvent S 0 True (set_kern k (tm\<lparr>tev := (tev tm)(0 := e)\<rparr>)))"

definition connect_hook ::
  "'k sys \<Rightarrow> (nat \<Rightarrow> 't) \<Rightarrow> (nat \<Rightarrow> 't) \<Rightarrow> 't \<Rightarrow> int \<Rightarrow> u64 \<Rightarrow> nat \<Rightarrow> int \<Rightarrow> ('t, 'k) hook_st \<Rightarrow>
   (io_ret option \<times> ('t, 'k) timer option \<times> ('t, 'k) hook_st) res" where
  "connect_hook S mk_resume mk_timeout on_timer g_max_timeout q this_reactor fd st =
     (if in_main st
      then let (x, k) = sys_connect S fd (kern (hr st)) in Inr (Some x, None, with_kern k st)
      else
        bindE (prepare S this_reactor fd st) (\<lambda>(p, st).
        let (x, k) = sys_connect S fd (kern (hr st)); st = with_kern k st in
        if rt x = 0 then Inr (Some x, None, st)
        else if errno x \<noteq> EINPROGRESS then Inr (Some x, None, st)
        else
          bindE (toEpoll S mk_resume p (flag_of WRITE) (cur_cor st) (hr st)) (\<lambda>r.
          bindE (getTimer S this_reactor on_timer q None r) (\<lambda>tm.
          let tm = add_new_event S g_max_timeout (mk_timeout (cur_cor st)) tm in
          Inr (None, Some tm, st\<lparr>hr := rea tm\<rparr>)))))"

text \<open>After the yield: \<open>is_timeout\<close> says whether the timeout callback ran.\<close>

definition connect_hook_resumed ::
  "'k sys \<Rightarrow> int \<Rightarrow> u64 \<Rightarrow> bool \<Rightarrow> ('t, 'k) timer \<Rightarrow> ('t, 'k) hook_st \<Rightarrow> (io_ret \<times> ('t, 'k) timer \<times> ('t, 'k) hook_st) res" where
  "connect_hook_resumed S fd p is_timeout tm st =
     bindE (delListenEvents S p WRITE (hr st)) (\<lambda>r.
     let tm = delTimerEvent 0 tm;
         (x, k) = sys_connect S fd (kern r); st = with_kern k (st\<lparr>hr := r\<rparr>) in
     if (rt x < 0 \<and> errno x = EISCONN) \<or> rt x = 0 then Inr (x\<lparr>rt := 0\<rparr>, tm, st)
     else Inr (\<lparr>rt = -1, errno = (if is_timeout then ETIMEDOUT else errno x)\<rparr>, tm, st))"

text \<open>\<open>1000 * seconds\<close> is computed in \<open>unsigned int\<close>.  \<open>None\<close>: the coroutine yields.\<close>

definition sleep_hook ::
  "'k sys \<Rightarrow> (nat \<Rightarrow> 't) \<Rightarrow> 't \<Rightarrow> u64 \<Rightarrow> nat \<Rightarrow> u32 \<Rightarrow> ('t, 'k) hook_st \<Rightarrow>
   (('t, 'k) timer option \<times> ('t, 'k) hook_st) res" where
  "sleep_hook S mk_resume on_timer q this_reactor seconds st =
     (if in_main st then Inr (None, st)
      else
        bindE (getTimer S this_reactor on_timer q None (hr st)) (\<lambda>tm.
        let tm = add_new_event S (uint (1000 * seconds)) (mk_resume (cur_cor st)) tm in
        Inr (Some tm, st\<lparr>hr := rea tm\<rparr>)))"

definition setMaxTimeOut :: "int \<Rightarrow> int res" where
  "setMaxTimeOut v = chk_int (v * 1000)"

section \<open>Lemmas\<close>

text \<open>The event at \<open>p\<close> is consistent with the kernel, and its descriptor is \<open>fd\<close>.\<close>

definition watch_ok :: "'k sys \<Rightarrow> 'k epoll_view \<Rightarrow> u64 \<Rightarrow> ('t, 'k) reactor \<Rightarrow> bool" where
  "watch_ok S V p r \<longleftrightarrow> in_sync S V r \<and> agrees V p r"

lemma agrees_cb:
  "agrees V p r \<Longrightarrow> heap r p = Some e \<Longrightarrow> agrees V p (store_event p (setCallBack ev cb e) r)"
  by (auto simp: agrees_def store_event_def setCallBack_def)

text \<open>After \<open>toEpoll\<close> a readiness event for the descriptor queues the resumption of the coroutine.\<close>

lemma toEpoll_one:
  assumes "epoll_ctl_spec S V" and "watch_ok S V p r" and "ev = READ \<or> ev = WRITE"
  shows "\<exists>r' e'. bindE (on_event p (setCallBack ev (Some f)) r) (addListenEvents S p ev) = Inr r' \<and>
    watch_ok S V p r' \<and> heap r' p = Some e' \<and> getCallBack ev e' = Some f \<and>
    listen_events e' AND flag_of ev \<noteq> 0"
proof -
  obtain e where e: "heap r p = Some e" using assms(2) by (auto simp: watch_ok_def agrees_def split: option.splits)
  let ?r = "store_event p (setCallBack ev (Some f) e) r"
  have "in_sync S V ?r" "agrees V p ?r" "heap ?r p = Some (setCallBack ev (Some f) e)"
    using assms(2) e agrees_cb by (auto simp: watch_ok_def in_sync_def isLoopThread_def store_event_def)
  from listen_step_ok(1) [OF assms(1) this, of ev] obtain r' where
    r': "addListenEvents S p ev ?r = Inr r'" "in_sync S V r'" "agrees V p r'"
      "heap r' p = Some ((setCallBack ev (Some f) e)\<lparr>listen_events :=
         listen_events (setCallBack ev (Some f) e) OR flag_of ev\<rparr>)" unfolding listen_to_def by blast
  have "(x OR flag_of ev) AND flag_of ev \<noteq> 0" for x
  proof -
    have "bit ((x OR flag_of ev) AND flag_of ev) (flag_pos ev)" by (simp add: bit_simps bit_flag_of)
    then show ?thesis by auto
  qed
  then show ?thesis
    using r' e assms(3) by (auto simp: on_event_def with_event_def watch_ok_def getCallBack_def setCallBack_def)
qed

lemma flag_of_and: "flag_of READ AND flag_of WRITE = 0" "flag_of WRITE AND flag_of READ = 0"
  "flag_of READ AND flag_of READ \<noteq> 0" "flag_of WRITE AND flag_of WRITE \<noteq> 0"
  by (simp_all add: EPOLLIN_def EPOLLOUT_def)

lemma toEpoll_eq:
  "toEpoll S mk p (flag_of READ) cor r =
     bindE (on_event p (setCallBack READ (Some (mk cor))) r) (addListenEvents S p READ)"
  "toEpoll S mk p (flag_of WRITE) cor r =
     bindE (on_event p (setCallBack WRITE (Some (mk cor))) r) (addListenEvents S p WRITE)"
  by (auto simp: toEpoll_def EPOLLIN_def EPOLLOUT_def bindE_def split: sum.splits)

text \<open>Transferring data and setting flags does not touch the interest list.\<close>

definition io_spec :: "'k sys \<Rightarrow> 'k epoll_view \<Rightarrow> bool" where
  "io_spec S V \<longleftrightarrow>
     (\<forall>k fd n. same_reg S V k (snd (sys_read S fd n k))) \<and>
     (\<forall>k fd bs. same_reg S V k (snd (sys_write S fd bs k))) \<and>
     (\<forall>k fd. same_reg S V k (snd (sys_fcntl_get S fd k))) \<and>
     (\<forall>k fd f. same_reg S V k (sys_fcntl_set S fd f k))"

lemma mini_io_spec: "io_spec mini_sys mini_view"
  by (simp add: io_spec_def same_reg_def mini_sys_def mini_view_def)

lemma same_reg_trans: "same_reg S V k1 k2 \<Longrightarrow> same_reg S V k2 k3 \<Longrightarrow> same_reg S V k1 k3"
  by (simp add: same_reg_def)

lemma setNonBlock_reg:
  assumes "io_spec S V"
  shows "same_reg S V k (setNonBlock S e k)"
proof -
  have g: "same_reg S V k (snd (sys_fcntl_get S fd k))" and s: "same_reg S V k (sys_fcntl_set S fd f k)" for fd f k
    using assms by (simp_all add: io_spec_def)
  obtain flag k1 where k1: "sys_fcntl_get S (m_fd e) k = (flag, k1)" by force
  with g [of k "m_fd e"] have "same_reg S V k k1" by simp
  moreover have "same_reg S V k1 (snd (sys_fcntl_get S (m_fd e) (sys_fcntl_set S (m_fd e) (flag OR O_NONBLOCK) k1)))"
    using same_reg_trans [OF s g] .
  ultimately show ?thesis using k1 same_reg_trans by (auto simp: setNonBlock_def same_reg_def [of S V k k])
qed

lemma watch_ok_kern:
  "same_reg S V (kern r) k \<Longrightarrow> watch_ok S V p (r\<lparr>kern := k\<rparr>) = watch_ok S V p r"
  by (simp add: watch_ok_def in_sync_def isLoopThread_def agrees_def same_reg_def split: option.split)

definition give_reactor :: "nat \<Rightarrow> 't fd_event \<Rightarrow> 't fd_event" where
  "give_reactor R e = (if m_reactor e = None then e\<lparr>m_reactor := Some R\<rparr> else e)"

text \<open>
  The descriptor has an event at \<open>p\<close>, which is registered with its mask or not registered at all.
\<close>

definition hook_pre ::
  "'k sys \<Rightarrow> 'k epoll_view \<Rightarrow> nat \<Rightarrow> int \<Rightarrow> u64 \<Rightarrow> ('t, 'k) hook_st \<Rightarrow> bool" where
  "hook_pre S V R fd p st \<longleftrightarrow>
     0 \<le> fd \<and> fd < int (length (fds_vec (hc st))) \<and> length (fds_vec (hc st)) \<le> 1431655764 \<and>
     p = addr (fds_vec (hc st) ! nat fd) \<and>
     (case heap (hr st) p of None \<Rightarrow> False
      | Some e \<Rightarrow> m_fd e = fd \<and> watch_ok S V p (store_event p (give_reactor R e) (hr st)))"

lemma prepare_ok:
  assumes "io_spec S V" and "hook_pre S V R fd p st"
  shows "\<exists>st' e. prepare S R fd st = Inr (p, st') \<and> watch_ok S V p (hr st') \<and> cur_cor st' = cur_cor st \<and>
    wake_fd (hr st') = wake_fd (hr st) \<and> pending_tasks (hr st') = pending_tasks (hr st) \<and>
    heap (hr st') p = Some e \<and> m_fd e = fd \<and> same_reg S V (kern (hr st)) (kern (hr st')) \<and>
    hc st' = hc st \<and> in_main st' = in_main st"
proof -
  obtain e where e: "heap (hr st) p = Some e" "m_fd e = fd" "watch_ok S V p (store_event p (give_reactor R e) (hr st))"
    using assms(2) by (auto simp: hook_pre_def split: option.splits)
  have "getFdEvent fd (hc st) = Inr (fds_vec (hc st) ! nat fd, hc st)"
    using assms(2) by (simp add: hook_pre_def getFdEvent_def getFdEvent_rest_def cast_int_small)
  then have ev: "event_of fd st = Inr (p, st)"
    using assms(2) by (simp add: event_of_def hook_pre_def)
  let ?r = "store_event p (give_reactor R e) (hr st)"
  have "watch_ok S V p (?r\<lparr>kern := setNonBlock S (give_reactor R e) (kern ?r)\<rparr>)"
    using e(3) watch_ok_kern [OF setNonBlock_reg [OF assms(1)]] by blast
  then show ?thesis
    using ev e(1,2)
    by (simp add: prepare_def on_event_def with_event_def store_event_def give_reactor_def setNonBlock_reg [OF assms(1)])
qed

text \<open>The parts of the reactor state that registering an event leaves alone.\<close>

lemma addListenEvents_frame:
  assumes "addListenEvents S p ev r = Inr r'" and "isLoopThread S r"
  shows "wake_fd r' = wake_fd r" "pending_tasks r' = pending_tasks r"
    and "\<exists>e e'. heap r p = Some e \<and> heap r' p = Some e' \<and> m_fd e' = m_fd e"
  using assms
  by (auto simp: addListenEvents_def updateToReactor_def with_event_def store_event_def addEvent_def isLoopThread_def
      addEventInLoopThread_def guardE_def bindE_def Let_def split: option.splits if_splits prod.splits sum.splits)

lemma toEpoll_watch:
  assumes "epoll_ctl_spec S V" and "watch_ok S V p r" and "ev = READ \<or> ev = WRITE"
    and "heap r p = Some e"
  shows "\<exists>r' e'. toEpoll S mk p (flag_of ev) cor r = Inr r' \<and> watch_ok S V p r' \<and> heap r' p = Some e' \<and>
    m_fd e' = m_fd e \<and> getCallBack ev e' = Some (mk cor) \<and> listen_events e' AND flag_of ev \<noteq> 0 \<and>
    wake_fd r' = wake_fd r \<and> pending_tasks r' = pending_tasks r"
proof -
  let ?r = "store_event p (setCallBack ev (Some (mk cor)) e) r"
  have eq: "toEpoll S mk p (flag_of ev) cor r =
      bindE (on_event p (setCallBack ev (Some (mk cor))) r) (addListenEvents S p ev)"
    using assms(3) toEpoll_eq by blast
  from toEpoll_one [OF assms(1-3), of "mk cor"] obtain r' e' where
    r': "toEpoll S mk p (flag_of ev) cor r = Inr r'" "watch_ok S V p r'" "heap r' p = Some e'"
      "getCallBack ev e' = Some (mk cor)" "listen_events e' AND flag_of ev \<noteq> 0" unfolding eq by blast
  have loop: "isLoopThread S ?r"
    using assms(2) by (simp add: watch_ok_def in_sync_def isLoopThread_def store_event_def)
  have "addListenEvents S p ev ?r = Inr r'"
    using r'(1) assms(4) unfolding eq by (simp add: on_event_def with_event_def)
  note fr = addListenEvents_frame [OF this loop]
  have "m_fd e' = m_fd e" using fr(3) r'(3) by (auto simp: store_event_def setCallBack_def)
  then show ?thesis using r' fr(1,2) by (auto simp: store_event_def)
qed

text \<open>An event that is watched this way leads to the coroutine.\<close>

lemma watched_resumes:
  assumes "watch_ok S V p r" and "heap r p = Some e" and "p \<noteq> 0" and "data_fd p \<noteq> wake_fd r"
    and "getCallBack ev e = Some f" and "listen_events e AND flag_of ev \<noteq> 0" and "ev = READ \<or> ev = WRITE"
  shows "m_fd e \<notin> refused V (kern r) \<Longrightarrow> reg V (kern r) (m_fd e) = Some \<lparr>events = listen_events e, data = p\<rparr>"
    and "\<exists>r'. handle_event n S \<lparr>events = flag_of ev, data = p\<rparr> r = Inr r' \<and> pending_tasks r' = pending_tasks r @ [Some f]"
proof -
  show "reg V (kern r) (m_fd e) = Some \<lparr>events = listen_events e, data = p\<rparr>" if "m_fd e \<notin> refused V (kern r)"
    using that assms(1,2,6) by (auto simp: watch_ok_def agrees_def)
  show "\<exists>r'. handle_event n S \<lparr>events = flag_of ev, data = p\<rparr> r = Inr r' \<and> pending_tasks r' = pending_tasks r @ [Some f]"
    using assms(2-5,7) by (auto simp: handle_event_def EPOLLIN_def EPOLLOUT_def Let_def)
qed

section \<open>Properties\<close>

text \<open>C10. No lost wakeup.  A coroutine of a reactor's own thread calls \<open>read_hook\<close> on a descriptor that the event container covers, whose event is not
  at the null address nor at one whose low half is the wakeup descriptor, and whose mask is what the kernel has.  The call does not fault.  Whether it returns or yields, an \<open>EPOLLIN\<close>
  event for the descriptor makes the reactor queue exactly the task that resumes this coroutine; and the kernel has the descriptor
  registered for reading with the address of its event, unless \<open>epoll_ctl\<close> has failed for the descriptor.\<close>

theorem read_hook_wakes:
  assumes "epoll_ctl_spec S V" and "io_spec S V" and "\<not> in_main st" and "hook_pre S V R fd p st"
    and "p \<noteq> 0" and "data_fd p \<noteq> wake_fd (hr st)"
  shows "\<exists>x st' r'. read_hook S mk_resume R fd cnt st = Inr (x, st') \<and>
    handle_event n S \<lparr>events = EPOLLIN, data = p\<rparr> (hr st') = Inr r' \<and>
    pending_tasks r' = pending_tasks (hr st) @ [Some (mk_resume (cur_cor st))] \<and>
    (fd \<in> refused V (kern (hr st')) \<or>
     (\<exists>ev. reg V (kern (hr st')) fd = Some ev \<and> events ev AND EPOLLIN \<noteq> 0 \<and> data ev = p))"
proof -
  from prepare_ok [OF assms(2,4)] obtain st1 e where
    1: "prepare S R fd st = Inr (p, st1)" "watch_ok S V p (hr st1)" "cur_cor st1 = cur_cor st"
      "wake_fd (hr st1) = wake_fd (hr st)" "pending_tasks (hr st1) = pending_tasks (hr st)"
      "heap (hr st1) p = Some e" "m_fd e = fd" by blast
  from toEpoll_watch [OF assms(1) 1(2) _ 1(6), of READ mk_resume "cur_cor st1"] obtain r e' where
    2: "toEpoll S mk_resume p (flag_of READ) (cur_cor st1) (hr st1) = Inr r" "watch_ok S V p r" "heap r p = Some e'"
      "m_fd e' = fd" "getCallBack READ e' = Some (mk_resume (cur_cor st))" "listen_events e' AND flag_of READ \<noteq> 0"
      "wake_fd r = wake_fd (hr st)" "pending_tasks r = pending_tasks (hr st)" using 1 by auto
  obtain x k where k: "sys_read S fd cnt (kern r) = (x, k)" by (cases "sys_read S fd cnt (kern r)") simp
  with assms(2) have "same_reg S V (kern r) k" unfolding io_spec_def by (metis snd_conv)
  with 2(2) have w: "watch_ok S V p (r\<lparr>kern := k\<rparr>)" by (simp add: watch_ok_kern)
  have h: "heap (r\<lparr>kern := k\<rparr>) p = Some e'" "data_fd p \<noteq> wake_fd (r\<lparr>kern := k\<rparr>)"
    using 2 assms(6) by simp_all
  note res = watched_resumes [OF w h(1) assms(5) h(2) 2(5,6)]
  have "hr (with_kern k (st1\<lparr>hr := r\<rparr>)) = r\<lparr>kern := k\<rparr>" by (simp add: with_kern_def)
  then have "\<exists>y st'. read_hook S mk_resume R fd cnt st = Inr (y, st') \<and> hr st' = r\<lparr>kern := k\<rparr>"
    using assms(3) 1(1) 2(1) k by (auto simp: read_hook_def Let_def)
  then obtain y st' where y: "read_hook S mk_resume R fd cnt st = Inr (y, st')" "hr st' = r\<lparr>kern := k\<rparr>" by blast
  then show ?thesis
    using res(1) res(2) [of n] 2(4,6,8) by (cases "fd \<in> refused V k") (force simp: y(2))+
qed

definition demo_hook :: "(nat, mini_kernel) hook_st" where
  "demo_hook =
     \<lparr>hr = demo_reactor\<lparr>heap := [10 \<mapsto> \<lparr>m_fd = 9, read_cb = None, write_cb = None, listen_events = 0, m_reactor = None\<rparr>],
                         fds := [4], kern := (kern demo_reactor)\<lparr>mk_reg := [(4, \<lparr>events = 1, data = 4\<rparr>)]\<rparr>\<rparr>,
      hc = \<lparr>fds_vec = [0..<10], made = map (\<lambda>i. new_FdEvent (int i)) [0..<10]\<rparr>, in_main = False, cur_cor = 3\<rparr>"

lemma demo_hook_pre: "hook_pre mini_sys mini_view 0 9 10 demo_hook"
  by (auto simp: hook_pre_def demo_hook_def demo_reactor_def addr_def watch_ok_def in_sync_def isLoopThread_def
      agrees_def store_event_def give_reactor_def mini_sys_def mini_view_def)

theorem read_hook_wakes_witness:
  "\<exists>x st' r'. read_hook mini_sys (\<lambda>c. c + 100) 0 9 16 demo_hook = Inr (x, st') \<and>
     handle_event 2 mini_sys \<lparr>events = EPOLLIN, data = 10\<rparr> (hr st') = Inr r' \<and> pending_tasks r' = [Some 1, Some 103]"
  using read_hook_wakes [OF mini_epoll_ctl_spec mini_io_spec _ demo_hook_pre, of "\<lambda>c. c + 100" 16 2]
  by (auto simp: demo_hook_def demo_reactor_def data_fd_def)

text \<open>
  A refused registration.  \<open>addEventInLoopThread\<close> only logs the failure, so the event keeps the mask it asked for and the hook goes on: when
  \<open>epoll_ctl\<close> fails for a descriptor that is not registered and there is nothing to read yet, the coroutine yields and the
  kernel has no entry that could wake it.
\<close>

lemma addListenEvents_refused:
  assumes "epoll_ctl_spec S V" and "addListenEvents S p ev r = Inr r'" and "in_sync S V r"
    and "heap r p = Some e" and "\<forall>oper x k. fst (sys_epoll_ctl S (inst V) oper (m_fd e) x k) \<noteq> 0"
  shows "reg V (kern r') = reg V (kern r)"
proof -
  have c: "reg V k = reg V k0" if "sys_epoll_ctl S (inst V) oper (m_fd e) x k0 = (rc, k)" for oper x k0 rc k
    using ctl_cases(3) [OF assms(1) that] spec [OF spec [OF spec [OF assms(5), of oper], of x], of k0] that by simp
  have "isLoopThread S r" "epfd r = inst V" using assms(3) by (simp_all add: in_sync_def)
  then show ?thesis
    using assms(2,4)
    by (auto simp: addListenEvents_def updateToReactor_def with_event_def store_event_def addEvent_def isLoopThread_def
        addEventInLoopThread_def guardE_def bindE_def Let_def dest: c split: option.splits if_splits prod.splits sum.splits)
qed

lemma read_hook_refused:
  assumes "epoll_ctl_spec S V" and "io_spec S V" and "\<not> in_main st" and "hook_pre S V R fd p st"
    and "reg V (kern (hr st)) fd = None" and "\<forall>oper x k. fst (sys_epoll_ctl S (inst V) oper fd x k) \<noteq> 0"
    and "\<forall>k. rt (fst (fst (sys_read S fd cnt k))) \<le> 0"
  shows "\<exists>st'. read_hook S mk_resume R fd cnt st = Inr (None, st') \<and> reg V (kern (hr st')) fd = None"
proof -
  from prepare_ok [OF assms(2,4)] obtain st1 e where
    1: "prepare S R fd st = Inr (p, st1)" "watch_ok S V p (hr st1)" "same_reg S V (kern (hr st)) (kern (hr st1))"
      "heap (hr st1) p = Some e" "m_fd e = fd" by blast
  let ?r = "store_event p (setCallBack READ (Some (mk_resume (cur_cor st1))) e) (hr st1)"
  from toEpoll_watch [OF assms(1) 1(2) _ 1(4), of READ mk_resume "cur_cor st1"] obtain r where
    2: "toEpoll S mk_resume p (flag_of READ) (cur_cor st1) (hr st1) = Inr r" by auto
  then have add: "addListenEvents S p READ ?r = Inr r"
    using 1(4) unfolding toEpoll_eq(1) by (simp add: on_event_def with_event_def)
  have s: "in_sync S V ?r" "heap ?r p = Some (setCallBack READ (Some (mk_resume (cur_cor st1))) e)" "kern ?r = kern (hr st1)"
    using 1(2) by (simp_all add: watch_ok_def in_sync_def isLoopThread_def store_event_def)
  have "reg V (kern r) = reg V (kern (hr st1))"
    using addListenEvents_refused [OF assms(1) add s(1,2)] assms(6) 1(5) s(3) by (simp add: setCallBack_def)
  then have "reg V (kern r) fd = None" using 1(3) assms(5) by (simp add: same_reg_def)
  moreover obtain x k where k: "sys_read S fd cnt (kern r) = (x, k)" by (cases "sys_read S fd cnt (kern r)") simp
  moreover have "same_reg S V (kern r) k" using assms(2) k unfolding io_spec_def by (metis snd_conv)
  moreover have "\<not> rt (fst x) > 0" using assms(7) k by (metis fst_conv not_less)
  ultimately show ?thesis
    using assms(3) 1(1) 2 by (auto simp: read_hook_def with_kern_def same_reg_def)
qed

text \<open>The result of a connection attempt.  After its yield \<open>connect_hook\<close> returns 0 exactly when the
  repeated \<open>connect\<close> reports success or an established connection; otherwise it returns -1, with
  \<open>ETIMEDOUT\<close> when the timeout ran and the error of \<open>connect\<close> when it did not.  In every case the
  descriptor is no longer watched for writing and the timeout event is cancelled.\<close>

theorem connect_hook_result:
  assumes "epoll_ctl_spec S V" and "watch_ok S V p (hr st)"
    and "\<forall>k. sys_connect S fd k = (x, f k)"
  shows "\<exists>y tm' st'. connect_hook_resumed S fd p is_timeout tm st = Inr (y, tm', st') \<and>
    (rt y = 0 \<longleftrightarrow> rt x = 0 \<or> (rt x < 0 \<and> errno x = EISCONN)) \<and>
    (rt y \<noteq> 0 \<longrightarrow> rt y = -1 \<and> errno y = (if is_timeout then ETIMEDOUT else errno x)) \<and>
    is_cancled (tev tm' 0) \<and>
    (\<exists>e. heap (hr st') p = Some e \<and> listen_events e AND EPOLLOUT = 0)"
proof -
  obtain e where e: "heap (hr st) p = Some e" "in_sync S V (hr st)" "agrees V p (hr st)"
    using assms(2) by (auto simp: watch_ok_def agrees_def split: option.splits)
  from listen_step_ok(2) [OF assms(1) e(2,3,1), of WRITE] obtain r where
    r: "delListenEvents S p WRITE (hr st) = Inr r"
      "heap r p = Some (e\<lparr>listen_events := listen_events e AND NOT (flag_of WRITE)\<rparr>)" unfolding listen_to_def by blast
  have "(z AND NOT EPOLLOUT) AND EPOLLOUT = 0" for z
    by (intro bit_word_eqI) (auto simp: bit_simps)
  then show ?thesis
    using r assms(3) by (auto simp: connect_hook_resumed_def delTimerEvent_def with_kern_def Let_def)
qed

theorem connect_hook_result_witness:
  "\<exists>y tm' st'. connect_hook_resumed mini_sys 9 64 True demo_timer (demo_hook\<lparr>hr := demo_reactor\<rparr>) = Inr (y, tm', st') \<and>
     rt y = -1 \<and> errno y = ETIMEDOUT \<and> is_cancled (tev tm' 0)"
proof -
  have w: "watch_ok mini_sys mini_view 64 (hr (demo_hook\<lparr>hr := demo_reactor\<rparr>))"
    by (auto simp: watch_ok_def in_sync_def isLoopThread_def demo_reactor_def mini_sys_def mini_view_def agrees_def)
  have "\<forall>k. sys_connect mini_sys 9 k = (\<lparr>rt = -1, errno = EINPROGRESS\<rparr>, k)" by (simp add: mini_sys_def)
  from connect_hook_result [OF mini_epoll_ctl_spec w this, of True demo_timer] show ?thesis
    by (auto simp: errno_defs)
qed

end
