(* ===== verification/Coroutine.thy ===== *)
theory Coroutine
  imports Prelude
begin

text \<open>
  \<open>common::Coroutine\<close> of \<^verbatim>\<open>src/common/coroutine/coroutine.h\<close> and \<^verbatim>\<open>src/common/coroutine/coroutine.cc\<close>, one thread's view.

  Coroutine objects are named by their position in the order of creation.  The code a thread
  executes is a list of actions: steps on an environment \<open>'s\<close> and the calls of this component.  The
  register context \<open>m_coctx\<close> is what matters of it: the actions that continue when the context is
  loaded (\<open>saved\<close>) and the stack pointer; \<open>coctx_swap\<close> stores what the processor is executing to the
  first context and loads the second.
\<close>

section \<open>State\<close>

datatype 's act =
    Run "'s \<Rightarrow> 's"           \<comment> \<open>work that calls none of the operations below\<close>
  | SetInCoFunc nat bool    \<comment> \<open>\<open>co->setIsInCoFunc(v)\<close> of \<open>CoFunction\<close>\<close>
  | CallBack nat            \<comment> \<open>\<open>co->m_call_back()\<close>\<close>
  | YieldA                  \<comment> \<open>\<open>Coroutine::Yield()\<close>\<close>
  | ResumeA "nat option"    \<comment> \<open>\<open>Coroutine::Resume(co)\<close>\<close>

record 's coroutine =
  m_cor_id :: int
  m_stack_size :: int
  m_stack_sp :: u64
  m_is_in_cofunc :: bool
  m_call_back :: "'s act list option"
  saved :: "'s act list option"
  rsp :: u64

record 's cothread =
  t_main_coroutine :: "nat option"
  t_cur_coroutine :: "nat option"
  t_coroutine_count :: int
  t_cur_coroutine_id :: int
  cors :: "'s coroutine list"
  code :: "'s act list"
  env :: 's

section \<open>Operations\<close>

definition getCoroutineIndex :: "'s cothread \<Rightarrow> int" where
  "getCoroutineIndex t = t_cur_coroutine_id t"

text \<open>\<open>CoFunction\<close>, entered with the coroutine in \<open>rdi\<close>, which is never null.\<close>

definition CoFunction :: "nat \<Rightarrow> 's act list" where
  "CoFunction co = [SetInCoFunc co True, CallBack co, SetInCoFunc co False, YieldA]"

text \<open>The private constructor, used for the main coroutine.\<close>

definition new_main :: "'s cothread \<Rightarrow> nat \<times> 's cothread" where
  "new_main t =
     (length (cors t),
      t\<lparr>cors := cors t @ [\<lparr>m_cor_id = t_cur_coroutine_id t, m_stack_size = 0, m_stack_sp = 0, m_is_in_cofunc = False,
                          m_call_back = None, saved = None, rsp = 0\<rparr>],
        t_cur_coroutine_id := t_cur_coroutine_id t + 1, t_coroutine_count := t_coroutine_count t + 1\<rparr>)"

definition ensure_main :: "'s cothread \<Rightarrow> 's cothread" where
  "ensure_main t =
     (case t_main_coroutine t of
        None \<Rightarrow> let (i, t1) = new_main t in t1\<lparr>t_main_coroutine := Some i\<rparr>
      | Some i \<Rightarrow> t)"

text \<open>The top of the stack, rounded down to a multiple of 16.\<close>

definition stack_top :: "u64 \<Rightarrow> int \<Rightarrow> u64" where
  "stack_top sp sz = (sp + word_of_int sz) AND word_of_int (-16)"

definition setCoCallBack :: "nat \<Rightarrow> 's act list \<Rightarrow> 's cothread \<Rightarrow> (bool \<times> 's cothread) res" where
  "setCoCallBack i cb t =
     (if t_main_coroutine t = Some i then Inr (False, t)
      else if m_is_in_cofunc (cors t ! i) then Inr (False, t)
      else
        let c = (cors t ! i)\<lparr>m_call_back := Some cb\<rparr> in
        bindE (guardE (m_stack_sp c \<noteq> 0) Assert_failed) (\<lambda>_.
          Inr (True, t\<lparr>cors := (cors t)[i := c\<lparr>saved := Some (CoFunction i),
                                              rsp := stack_top (m_stack_sp c) (m_stack_size c)\<rparr>]\<rparr>)))"

text \<open>The public constructors; \<open>sp\<close> is what \<open>malloc\<close> returns.\<close>

definition new_Coroutine :: "int \<Rightarrow> u64 \<Rightarrow> 's cothread \<Rightarrow> (nat \<times> 's cothread) res" where
  "new_Coroutine sz sp t =
     (let t = ensure_main t in
      bindE (guardE (sp \<noteq> 0) Assert_failed) (\<lambda>_.
        Inr (length (cors t),
          t\<lparr>cors := cors t @ [\<lparr>m_cor_id = t_cur_coroutine_id t, m_stack_size = sz, m_stack_sp = sp, m_is_in_cofunc = False,
                              m_call_back = None, saved = None, rsp = 0\<rparr>],
            t_cur_coroutine_id := t_cur_coroutine_id t + 1, t_coroutine_count := t_coroutine_count t + 1\<rparr>)))"

definition new_Coroutine_cb :: "int \<Rightarrow> 's act list \<Rightarrow> u64 \<Rightarrow> 's cothread \<Rightarrow> (nat \<times> 's cothread) res" where
  "new_Coroutine_cb sz cb sp t =
     bindE (new_Coroutine sz sp t) (\<lambda>(i, t).
     bindE (setCoCallBack i cb t) (\<lambda>(ok, t). Inr (i, t)))"

text \<open>The destructor frees the stack.\<close>

definition destroy_Coroutine :: "nat \<Rightarrow> 's cothread \<Rightarrow> 's cothread" where
  "destroy_Coroutine i t =
     t\<lparr>t_coroutine_count := t_coroutine_count t - 1,
       cors := (if m_stack_sp (cors t ! i) \<noteq> 0 then (cors t)[i := (cors t ! i)\<lparr>m_stack_sp := 0\<rparr>] else cors t)\<rparr>"

definition GetCurrentCoroutine :: "'s cothread \<Rightarrow> nat \<times> 's cothread" where
  "GetCurrentCoroutine t =
     (case t_cur_coroutine t of
        None \<Rightarrow> let (i, t1) = new_main t in
                (i, t1\<lparr>t_main_coroutine := Some i, t_cur_coroutine := Some i\<rparr>)
      | Some i \<Rightarrow> (i, t))"

definition IsMainCoroutine :: "'s cothread \<Rightarrow> bool" where
  "IsMainCoroutine t \<longleftrightarrow> t_main_coroutine t = None \<or> t_cur_coroutine t = t_main_coroutine t"

text \<open>Loading a context that was never filled jumps to address 0.\<close>

definition coctx_swap :: "nat \<Rightarrow> nat \<Rightarrow> 's cothread \<Rightarrow> 's cothread res" where
  "coctx_swap a b t =
     (let t1 = t\<lparr>cors := (cors t)[a := (cors t ! a)\<lparr>saved := Some (code t)\<rparr>]\<rparr> in
      case saved (cors t1 ! b) of None \<Rightarrow> Inl Null_deref | Some c \<Rightarrow> Inr (t1\<lparr>code := c\<rparr>))"

text \<open>
  \<open>Yield\<close> dereferences the current coroutine, which is null in a thread that never asked for it.
\<close>

definition Yield :: "'s cothread \<Rightarrow> 's cothread res" where
  "Yield t =
     (case t_main_coroutine t of None \<Rightarrow> Inr t
      | Some m \<Rightarrow>
          if t_cur_coroutine t = Some m then Inr t
          else case t_cur_coroutine t of None \<Rightarrow> Inl Null_deref
            | Some co \<Rightarrow> coctx_swap co m (t\<lparr>t_cur_coroutine := Some m\<rparr>))"

definition Resume :: "nat option \<Rightarrow> 's cothread \<Rightarrow> 's cothread res" where
  "Resume co t =
     (if t_cur_coroutine t \<noteq> t_main_coroutine t then Inr t
      else case t_main_coroutine t of None \<Rightarrow> Inr t
        | Some m \<Rightarrow>
            (case co of None \<Rightarrow> Inr t
             | Some i \<Rightarrow> coctx_swap m i (t\<lparr>t_cur_coroutine := Some i\<rparr>)))"

text \<open>
  The processor executes the next action.  Running off the end of a coroutine's code returns to
  an address that was never put on its stack; at the end of the thread's own code it stays there.
\<close>

definition exec_act :: "'s act \<Rightarrow> 's cothread \<Rightarrow> 's cothread res" where
  "exec_act a t =
     (case a of
        Run f \<Rightarrow> Inr (t\<lparr>env := f (env t)\<rparr>)
      | SetInCoFunc i v \<Rightarrow> Inr (t\<lparr>cors := (cors t)[i := (cors t ! i)\<lparr>m_is_in_cofunc := v\<rparr>]\<rparr>)
      | CallBack i \<Rightarrow> (case m_call_back (cors t ! i) of None \<Rightarrow> Inl Bad_function_call
                      | Some cb \<Rightarrow> Inr (t\<lparr>code := cb @ code t\<rparr>))
      | YieldA \<Rightarrow> Yield t
      | ResumeA co \<Rightarrow> Resume co t)"

primrec run_acts :: "nat \<Rightarrow> 's cothread \<Rightarrow> 's cothread res" where
  "run_acts 0 t = Inr t"
| "run_acts (Suc n) t =
     (case code t of
        [] \<Rightarrow> if IsMainCoroutine t then Inr t else Inl Bad_iterator
      | a # rest \<Rightarrow> bindE (exec_act a (t\<lparr>code := rest\<rparr>)) (run_acts n))"

section \<open>Lemmas\<close>

lemma run_acts_add: "run_acts (a + b) t = bindE (run_acts a t) (run_acts b)"
proof (induction a arbitrary: t)
  case (Suc a)
  have "run_acts b t = Inr t" if "code t = []" "IsMainCoroutine t"
    using that by (induction b) auto
  then show ?case using Suc by (auto simp: bindE_def split: list.splits sum.splits)
qed simp

lemma run_runs:
  "code t = map Run fs @ rest \<Longrightarrow> run_acts (length fs) t = Inr (t\<lparr>code := rest, env := fold (\<lambda>f. f) fs (env t)\<rparr>)"
  by (induction fs arbitrary: t) (auto simp: exec_act_def)

text \<open>The thread is executing its main coroutine \<open>m\<close>, and \<open>i\<close> is another coroutine.\<close>

definition at_main :: "nat \<Rightarrow> nat \<Rightarrow> 's cothread \<Rightarrow> bool" where
  "at_main m i t \<longleftrightarrow> t_main_coroutine t = Some m \<and> t_cur_coroutine t = Some m \<and> m \<noteq> i \<and>
     m < length (cors t) \<and> i < length (cors t)"

text \<open>What one \<open>Resume\<close> of a coroutine that does \<open>fs\<close> and then yields amounts to.\<close>

definition after_resume :: "nat \<Rightarrow> nat \<Rightarrow> ('s \<Rightarrow> 's) list \<Rightarrow> 's act list \<Rightarrow> 's act list \<Rightarrow> 's cothread \<Rightarrow> 's cothread" where
  "after_resume m i fs rest main_rest t =
     t\<lparr>cors := ((cors t)[m := (cors t ! m)\<lparr>saved := Some main_rest\<rparr>])
                [i := (cors t ! i)\<lparr>saved := Some rest\<rparr>],
       code := main_rest, env := fold (\<lambda>f. f) fs (env t)\<rparr>"

lemma resume_step:
  assumes "at_main m i t" and "saved (cors t ! i) = Some c" and "code t = ResumeA (Some i) # main_rest"
  shows "run_acts 1 t = Inr (t\<lparr>cors := (cors t)[m := (cors t ! m)\<lparr>saved := Some main_rest\<rparr>],
    code := c, t_cur_coroutine := Some i\<rparr>)"
  using assms by (simp add: at_main_def exec_act_def Resume_def coctx_swap_def)

lemma yield_step:
  assumes "t_main_coroutine t = Some m" and "t_cur_coroutine t = Some i" and "m \<noteq> i"
    and "saved (cors t ! m) = Some c" and "code t = YieldA # rest"
  shows "run_acts 1 t = Inr (t\<lparr>cors := (cors t)[i := (cors t ! i)\<lparr>saved := Some rest\<rparr>],
    code := c, t_cur_coroutine := Some m\<rparr>)"
  using assms by (simp add: exec_act_def Yield_def coctx_swap_def)

lemma resume_to_yield:
  assumes "at_main m i t" and "saved (cors t ! i) = Some (map Run fs @ YieldA # rest)"
    and "code t = ResumeA (Some i) # main_rest"
  shows "run_acts (length fs + 2) t = Inr (after_resume m i fs rest main_rest t)"
proof -
  let ?t1 = "t\<lparr>cors := (cors t)[m := (cors t ! m)\<lparr>saved := Some main_rest\<rparr>],
    code := map Run fs @ YieldA # rest, t_cur_coroutine := Some i\<rparr>"
  let ?t2 = "?t1\<lparr>code := YieldA # rest, env := fold (\<lambda>f. f) fs (env t)\<rparr>"
  have "run_acts (1 + (length fs + 1)) t = run_acts 1 ?t2"
    unfolding run_acts_add resume_step [OF assms] using run_runs [of ?t1 fs "YieldA # rest"] by simp
  also have "\<dots> = Inr (after_resume m i fs rest main_rest t)"
    by (subst yield_step [of _ m i main_rest rest])
      (use assms(1) in \<open>auto simp: at_main_def after_resume_def\<close>)
  finally show ?thesis by (simp add: add.commute)
qed

text \<open>The same with any code that leads to a \<open>Yield\<close>.\<close>

lemma resume_via:
  assumes "at_main m i t" and "saved (cors t ! i) = Some c" and "code t = ResumeA (Some i) # main_rest"
    and "run_acts n (t\<lparr>cors := (cors t)[m := (cors t ! m)\<lparr>saved := Some main_rest\<rparr>],
           code := c, t_cur_coroutine := Some i\<rparr>) = Inr u"
    and "code u = YieldA # rest" "t_main_coroutine u = Some m" "t_cur_coroutine u = Some i"
    and "saved (cors u ! m) = Some main_rest"
  shows "\<exists>k. run_acts k t = Inr (u\<lparr>cors := (cors u)[i := (cors u ! i)\<lparr>saved := Some rest\<rparr>],
    code := main_rest, t_cur_coroutine := Some m\<rparr>)"
proof -
  have "m \<noteq> i" using assms(1) by (simp add: at_main_def)
  have "run_acts (1 + (n + 1)) t = run_acts 1 u"
    unfolding run_acts_add resume_step [OF assms(1-3)] using assms(4) by simp
  also have "\<dots> = Inr (u\<lparr>cors := (cors u)[i := (cors u ! i)\<lparr>saved := Some rest\<rparr>],
    code := main_rest, t_cur_coroutine := Some m\<rparr>)"
    by (rule yield_step) (use assms \<open>m \<noteq> i\<close> in simp_all)
  finally show ?thesis by (rule exI)
qed

text \<open>A callback that yields between its segments, and the code left of it at a yield.\<close>

fun body :: "('s \<Rightarrow> 's) list list \<Rightarrow> 's act list" where
  "body [] = []"
| "body [fs] = map Run fs"
| "body (fs # gs # segs) = map Run fs @ YieldA # body (gs # segs)"

definition leave :: "nat \<Rightarrow> 's act list" where
  "leave i = [SetInCoFunc i False, YieldA]"

lemma run_enter:
  assumes "code u = CoFunction i" and "i < length (cors u)" and "m_call_back (cors u ! i) = Some cb"
  shows "run_acts 2 u = Inr (u\<lparr>cors := (cors u)[i := (cors u ! i)\<lparr>m_is_in_cofunc := True\<rparr>], code := cb @ leave i\<rparr>)"
  using assms by (simp add: numeral_2_eq_2 CoFunction_def exec_act_def leave_def)

lemma run_last:
  assumes "code u = map Run fs @ leave i"
  shows "run_acts (length fs + 1) u =
    Inr (u\<lparr>cors := (cors u)[i := (cors u ! i)\<lparr>m_is_in_cofunc := False\<rparr>], code := [YieldA],
           env := fold (\<lambda>f. f) fs (env u)\<rparr>)"
  unfolding run_acts_add using assms run_runs [of u fs "leave i"] by (simp add: leave_def exec_act_def)

definition all_done :: "nat \<Rightarrow> nat \<Rightarrow> 's act list \<Rightarrow> 's \<Rightarrow> 's cothread \<Rightarrow> bool" where
  "all_done m i rest e t \<longleftrightarrow> at_main m i t \<and> code t = rest \<and> env t = e \<and> \<not> m_is_in_cofunc (cors t ! i)"

lemma resumes_rest:
  assumes "at_main m i t" and "saved (cors t ! i) = Some (body segs @ leave i)" and "segs \<noteq> []"
    and "code t = replicate (length segs) (ResumeA (Some i)) @ rest"
  shows "\<exists>n t'. run_acts n t = Inr t' \<and> all_done m i rest (fold (\<lambda>f. f) (concat segs) (env t)) t'"
  using assms
proof (induction segs arbitrary: t rule: body.induct)
  case (2 fs)
  let ?u = "t\<lparr>cors := (cors t)[m := (cors t ! m)\<lparr>saved := Some rest\<rparr>],
           code := map Run fs @ leave i, t_cur_coroutine := Some i\<rparr>"
  have "run_acts (length fs + 1) ?u =
    Inr (?u\<lparr>cors := (cors ?u)[i := (cors ?u ! i)\<lparr>m_is_in_cofunc := False\<rparr>], code := [YieldA],
           env := fold (\<lambda>f. f) fs (env ?u)\<rparr>)"
    by (rule run_last) simp
  from resume_via [OF 2(1) _ _ this, of "[]"] 2 show ?case
    by (fastforce simp: at_main_def all_done_def)
next
  case (3 fs gs segs)
  let ?t = "after_resume m i fs (body (gs # segs) @ leave i) (replicate (length (gs # segs)) (ResumeA (Some i)) @ rest) t"
  have r: "run_acts (length fs + 2) t = Inr ?t"
    by (rule resume_to_yield) (use 3 in simp_all)
  have "\<exists>n t'. run_acts n ?t = Inr t' \<and> all_done m i rest (fold (\<lambda>f. f) (concat (gs # segs)) (env ?t)) t'"
    by (rule "3.IH") (use 3 in \<open>auto simp: after_resume_def at_main_def\<close>)
  then obtain n t' where "run_acts n ?t = Inr t'" "all_done m i rest (fold (\<lambda>f. f) (concat (gs # segs)) (env ?t)) t'"
    by blast
  with r have "run_acts ((length fs + 2) + n) t = Inr t' \<and>
      all_done m i rest (fold (\<lambda>f. f) (concat (fs # gs # segs)) (env t)) t'"
    unfolding run_acts_add by (simp add: after_resume_def)
  then show ?case by blast
qed simp

lemma resumes_from_start:
  assumes "at_main m i t" and "saved (cors t ! i) = Some (CoFunction i)"
    and "m_call_back (cors t ! i) = Some (body segs)" and "segs \<noteq> []"
    and "code t = replicate (length segs) (ResumeA (Some i)) @ rest"
  shows "\<exists>n t'. run_acts n t = Inr t' \<and> all_done m i rest (fold (\<lambda>f. f) (concat segs) (env t)) t'"
proof -
  obtain fs segs' where segs: "segs = fs # segs'" using assms(4) by (cases segs) auto
  let ?main = "replicate (length segs') (ResumeA (Some i)) @ rest"
  let ?u = "t\<lparr>cors := (cors t)[m := (cors t ! m)\<lparr>saved := Some ?main\<rparr>],
           code := CoFunction i, t_cur_coroutine := Some i\<rparr>"
  let ?v = "?u\<lparr>cors := (cors ?u)[i := (cors ?u ! i)\<lparr>m_is_in_cofunc := True\<rparr>], code := body segs @ leave i\<rparr>"
  have mi: "m \<noteq> i" "m < length (cors t)" "i < length (cors t)" "t_main_coroutine t = Some m"
    using assms(1) by (auto simp: at_main_def)
  have code: "code t = ResumeA (Some i) # ?main" using assms(5) segs by simp
  have enter: "run_acts 2 ?u = Inr ?v" by (rule run_enter) (use mi assms(3) in simp_all)
  show ?thesis
  proof (cases segs')
    case Nil
    have "code ?v = map Run fs @ leave i" using segs Nil by simp
    from run_last [OF this] have "run_acts (2 + (length fs + 1)) ?u =
        Inr (?v\<lparr>cors := (cors ?v)[i := (cors ?v ! i)\<lparr>m_is_in_cofunc := False\<rparr>], code := [YieldA],
               env := fold (\<lambda>f. f) fs (env ?v)\<rparr>)"
      by (simp only: run_acts_add [of 2] enter bindE_simps)
    from resume_via [OF assms(1,2) code this, of "[]"] mi segs Nil show ?thesis
      by (fastforce simp: at_main_def all_done_def)
  next
    case (Cons gs segs'')
    let ?rem = "body segs' @ leave i"
    have "run_acts (2 + length fs) ?u = Inr (?v\<lparr>code := YieldA # ?rem, env := fold (\<lambda>f. f) fs (env ?v)\<rparr>)"
      unfolding run_acts_add enter using run_runs [of ?v fs "YieldA # ?rem"] segs Cons by simp
    from resume_via [OF assms(1,2) code this, of ?rem] mi obtain n w where
      w: "run_acts n t = Inr w" "code w = ?main" "env w = fold (\<lambda>f. f) fs (env t)" "at_main m i w"
        "saved (cors w ! i) = Some ?rem"
      by (fastforce simp: at_main_def)
    from resumes_rest [OF w(4,5) _ w(2)] Cons obtain n' t' where
      "run_acts n' w = Inr t'" "all_done m i rest (fold (\<lambda>f. f) (concat segs') (env w)) t'" by auto
    then have "run_acts (n + n') t = Inr t' \<and> all_done m i rest (fold (\<lambda>f. f) (concat segs) (env t)) t'"
      unfolding run_acts_add using w segs by simp
    then show ?thesis by blast
  qed
qed

lemma setCoCallBack_ok:
  assumes "at_main m i t" and "\<not> m_is_in_cofunc (cors t ! i)" and "m_stack_sp (cors t ! i) \<noteq> 0"
  shows "\<exists>t1. setCoCallBack i cb t = Inr (True, t1) \<and> at_main m i t1 \<and> code t1 = code t \<and> env t1 = env t \<and>
    saved (cors t1 ! i) = Some (CoFunction i) \<and> m_call_back (cors t1 ! i) = Some cb"
  using assms by (auto simp: setCoCallBack_def at_main_def guardE_def Let_def)

lemma uint_and_minus_16:
  fixes x :: u64
  shows "uint (x AND word_of_int (-16)) = uint x - uint x mod 16"
proof -
  have "(word_of_int (-16) :: u64) = NOT (mask 4)" by (simp add: mask_eq_exp_minus_1 not_eq_complement)
  then have "x AND word_of_int (-16) = push_bit 4 (drop_bit 4 x)"
    by (simp add: bit_eq_iff bit_simps) (auto simp: bit_simps)
  moreover have "uint x div 16 * 16 = uint x - uint x mod 16" by (simp add: minus_mod_eq_div_mult)
  moreover have "uint x div 16 * 16 \<le> uint x" by (simp add: minus_mod_eq_div_mult [symmetric])
  moreover have "uint x < 2 ^ 64" using uint_lt2p [of x] by simp
  moreover have "0 \<le> uint x div 16 * 16" by (simp add: pos_imp_zdiv_nonneg_iff)
  ultimately show ?thesis
    by (simp add: push_bit_eq_mult uint_word_ariths uint_div drop_bit_eq_div mult.commute)
qed

section \<open>Properties\<close>

text \<open>C9. Life of a coroutine.  In a thread that is executing its main coroutine, giving another
  coroutine a callback that does its work in segments with a yield between them, and resuming it
  once per segment, runs exactly the segments in order, each \<open>Resume\<close> returning to the main coroutine
  right behind the call; at the end the coroutine is out of \<open>CoFunction\<close> again and can be given a new
  callback.\<close>

theorem coroutine_runs_segments:
  assumes "at_main m i t" and "\<not> m_is_in_cofunc (cors t ! i)" and "m_stack_sp (cors t ! i) \<noteq> 0"
    and "segs \<noteq> []" and "code t = replicate (length segs) (ResumeA (Some i)) @ rest"
  shows "\<exists>t1 n t'. setCoCallBack i (body segs) t = Inr (True, t1) \<and> run_acts n t1 = Inr t' \<and>
    t_cur_coroutine t' = Some m \<and> code t' = rest \<and> env t' = fold (\<lambda>f. f) (concat segs) (env t) \<and>
    \<not> m_is_in_cofunc (cors t' ! i)"
proof -
  from setCoCallBack_ok [OF assms(1-3), of "body segs"] obtain t1 where
    t1: "setCoCallBack i (body segs) t = Inr (True, t1)" "at_main m i t1" "code t1 = code t" "env t1 = env t"
      "saved (cors t1 ! i) = Some (CoFunction i)" "m_call_back (cors t1 ! i) = Some (body segs)" by blast
  from resumes_from_start [OF t1(2,5,6) assms(4)] t1(3) assms(5) obtain n t' where
    "run_acts n t1 = Inr t'" "all_done m i rest (fold (\<lambda>f. f) (concat segs) (env t1)) t'" by auto
  with t1 show ?thesis by (auto simp: all_done_def at_main_def)
qed

definition demo_thread :: "nat cothread" where
  "demo_thread =
     \<lparr>t_main_coroutine = None, t_cur_coroutine = None, t_coroutine_count = 0, t_cur_coroutine_id = 0,
      cors = [], code = [ResumeA (Some 1), ResumeA (Some 1)], env = 5\<rparr>"

theorem coroutine_runs_segments_witness:
  "\<exists>i t0 t1 n t'. new_Coroutine 64 4096 (snd (GetCurrentCoroutine demo_thread)) = Inr (i, t0) \<and>
     setCoCallBack i (body [[Suc], [\<lambda>x. x * 2]]) t0 = Inr (True, t1) \<and> run_acts n t1 = Inr t' \<and> env t' = 12"
proof -
  let ?c = "\<lparr>m_cor_id = 0, m_stack_size = 0, m_stack_sp = 0, m_is_in_cofunc = False, m_call_back = None,
     saved = None, rsp = 0\<rparr>"
  define t0 where "t0 = demo_thread\<lparr>t_main_coroutine := Some 0, t_cur_coroutine := Some 0, t_coroutine_count := 2,
     t_cur_coroutine_id := 2, cors := [?c, ?c\<lparr>m_cor_id := 1, m_stack_size := 64, m_stack_sp := 4096\<rparr>]\<rparr>"
  have new: "new_Coroutine 64 4096 (snd (GetCurrentCoroutine demo_thread)) = Inr (1, t0)"
    by (simp add: t0_def new_Coroutine_def GetCurrentCoroutine_def new_main_def ensure_main_def demo_thread_def
        guardE_def)
  have "at_main 0 1 t0" "\<not> m_is_in_cofunc (cors t0 ! 1)" "m_stack_sp (cors t0 ! 1) \<noteq> 0"
    "code t0 = replicate (length [[Suc], [\<lambda>x. x * 2]]) (ResumeA (Some 1)) @ []"
    by (simp_all add: t0_def at_main_def demo_thread_def)
  from coroutine_runs_segments [OF this(1-3) _ this(4)] new show ?thesis
    by (auto simp: t0_def demo_thread_def)
qed

text \<open>Making and destroying a coroutine balance in the count, but not in the ids, which are not used again.\<close>

lemma new_destroy_count:
  assumes "new_Coroutine sz sp t = Inr (i, t')" and "t_main_coroutine t \<noteq> None"
  shows "t_coroutine_count (destroy_Coroutine i t') = t_coroutine_count t"
    and "t_cur_coroutine_id (destroy_Coroutine i t') = t_cur_coroutine_id t + 1" and "m_stack_sp (cors (destroy_Coroutine i t') ! i) = 0"
  using assms by (auto simp: new_Coroutine_def ensure_main_def destroy_Coroutine_def Let_def bindE_Inr_iff)

text \<open>Resuming before the main coroutine is current.  Constructing a coroutine sets the thread's
  main coroutine but not its current one.  In a thread that has not called
  \<open>GetCurrentCoroutine\<close>, \<open>Resume\<close> of a coroutine made with a callback therefore refuses and changes
  nothing, so the callback does not run; this is the situation of \<open>TcpServer::start\<close>.\<close>

theorem resume_needs_current:
  assumes "t_cur_coroutine t = None" and "sp \<noteq> 0"
    and "\<forall>i. t_main_coroutine t = Some i \<longrightarrow> i < length (cors t)"
  shows "\<exists>i t1. new_Coroutine_cb sz cb sp t = Inr (i, t1) \<and> saved (cors t1 ! i) = Some (CoFunction i) \<and>
    Resume (Some i) t1 = Inr t1"
proof -
  let ?t = "ensure_main t"
  obtain m where m: "t_main_coroutine ?t = Some m" "m < length (cors ?t)" "t_cur_coroutine ?t = None"
    using assms(1,3) by (cases "t_main_coroutine t") (auto simp: ensure_main_def new_main_def)
  obtain t1 where t1: "new_Coroutine sz sp t = Inr (length (cors ?t), t1)" "t_main_coroutine t1 = Some m"
    "t_cur_coroutine t1 = None" "length (cors t1) = Suc (length (cors ?t))"
    "m_stack_sp (cors t1 ! length (cors ?t)) = sp" "\<not> m_is_in_cofunc (cors t1 ! length (cors ?t))"
    using assms(2) m by (auto simp: new_Coroutine_def guardE_def Let_def)
  then show ?thesis
    using assms(2) m(2)
    by (auto simp: new_Coroutine_cb_def setCoCallBack_def guardE_def Let_def Resume_def)
qed

theorem resume_needs_current_witness:
  "\<exists>i t1. new_Coroutine_cb 64 [Run Suc] 4096 demo_thread = Inr (i, t1) \<and> Resume (Some i) t1 = Inr t1"
  using resume_needs_current [of demo_thread 4096 64 "[Run Suc]"] by (auto simp: demo_thread_def)

text \<open>The stack of a new coroutine.  The stack pointer \<open>setCallBack\<close> installs is a multiple of 16,
  as the calling convention asks, and lies at most 15 bytes below the end of the stack.\<close>

theorem stack_top_aligned:
  "16 dvd uint (stack_top sp sz) \<and> uint (sp + word_of_int sz) - 15 \<le> uint (stack_top sp sz) \<and>
   uint (stack_top sp sz) \<le> uint (sp + word_of_int sz)"
proof -
  define x where "x = sp + (word_of_int sz :: u64)"
  have "uint (stack_top sp sz) = uint x - uint x mod 16"
    unfolding stack_top_def x_def by (rule uint_and_minus_16)
  moreover have "16 dvd uint x - uint x mod 16" by (simp add: minus_mod_eq_mult_div)
  moreover have "0 \<le> uint x mod 16" "uint x mod 16 < 16" by simp_all
  ultimately show ?thesis unfolding x_def [symmetric] by simp
qed

end
