(* ===== verification/Coroutine_Pool.thy ===== *)
theory Coroutine_Pool
  imports Coroutine
begin

text \<open>
  \<open>common::CoroutinePool\<close> of \<^verbatim>\<open>src/common/coroutine/coroutine_pool.h\<close> and \<^verbatim>\<open>src/common/coroutine/coroutine_pool.cc\<close>.  A slot is a pointer
  to a coroutine (\<open>None\<close> when null) and the mark that it has been handed out.  New coroutines get
  their stacks from \<open>alloc\<close>, the results of \<open>malloc\<close> in turn.
\<close>

section \<open>State and operations\<close>

record coroutine_pool =
  m_index :: int
  m_pool_size :: int
  m_co_stack_size :: int
  m_free_cors :: "(nat option \<times> bool) list"

text \<open>The loop of the constructor that fills the slots \<open>i, \<dots>, i + n - 1\<close>.\<close>

primrec fill_slots :: "nat \<Rightarrow> nat \<Rightarrow> int \<Rightarrow> (int \<Rightarrow> u64) \<Rightarrow> (nat option \<times> bool) list \<Rightarrow> 's cothread \<Rightarrow>
    ((nat option \<times> bool) list \<times> 's cothread) res" where
  "fill_slots 0 i sz alloc v t = Inr (v, t)"
| "fill_slots (Suc n) i sz alloc v t =
     bindE (new_Coroutine sz (alloc (t_coroutine_count t)) t) (\<lambda>(c, t).
     bindE (guardE (i < length v) Out_of_bounds) (\<lambda>_.
       fill_slots n (Suc i) sz alloc (v[i := (Some c, False)]) t))"

definition new_CoroutinePool :: "int \<Rightarrow> int \<Rightarrow> (int \<Rightarrow> u64) \<Rightarrow> 's cothread \<Rightarrow> (coroutine_pool \<times> 's cothread) res" where
  "new_CoroutinePool pool_size stack_size alloc t =
     (let ix = (if getCoroutineIndex t = 0 then 1 else getCoroutineIndex t) in
      bindE (guardE (0 \<le> pool_size + ix) Length_error) (\<lambda>_.
      bindE (fill_slots (nat pool_size) (nat ix) stack_size alloc (replicate (nat (pool_size + ix)) (None, False)) t)
        (\<lambda>(v, t). Inr (\<lparr>m_index = ix, m_pool_size = pool_size, m_co_stack_size = stack_size, m_free_cors = v\<rparr>, t))))"

text \<open>\<open>for (int i = m_index; i < m_pool_size; ++i)\<close>: the first slot that can be handed out.\<close>

primrec find_free :: "nat \<Rightarrow> nat \<Rightarrow> (nat option \<times> bool) list \<Rightarrow> 's cothread \<Rightarrow> (nat \<times> nat) option res" where
  "find_free 0 i v t = Inr None"
| "find_free (Suc n) i v t =
     bindE (guardE (i < length v) Out_of_bounds) (\<lambda>_.
     case v ! i of
       (None, _) \<Rightarrow> Inl Null_deref
     | (Some c, used) \<Rightarrow>
         if \<not> m_is_in_cofunc (cors t ! c) \<and> \<not> used then Inr (Some (i, c)) else find_free n (Suc i) v t)"

text \<open>
  The growth loop: every new coroutine is stored to slot \<open>i\<close>, counted from 0, and pushed to the
  end as well.
\<close>

primrec grow_slots :: "nat \<Rightarrow> nat \<Rightarrow> int \<Rightarrow> (int \<Rightarrow> u64) \<Rightarrow> (nat option \<times> bool) list \<Rightarrow> 's cothread \<Rightarrow>
    ((nat option \<times> bool) list \<times> 's cothread) res" where
  "grow_slots 0 i sz alloc v t = Inr (v, t)"
| "grow_slots (Suc n) i sz alloc v t =
     bindE (new_Coroutine sz (alloc (t_coroutine_count t)) t) (\<lambda>(c, t).
     bindE (guardE (i < length v) Out_of_bounds) (\<lambda>_.
       grow_slots n (Suc i) sz alloc (v[i := (Some c, False)] @ [(Some c, False)]) t))"

definition getCoroutineInstanse ::
  "(int \<Rightarrow> u64) \<Rightarrow> coroutine_pool \<Rightarrow> 's cothread \<Rightarrow> (nat option \<times> coroutine_pool \<times> 's cothread) res" where
  "getCoroutineInstanse alloc p t =
     bindE (find_free (nat (m_pool_size p - m_index p)) (nat (m_index p)) (m_free_cors p) t) (\<lambda>f.
     case f of
       Some (i, c) \<Rightarrow> Inr (Some c, p\<lparr>m_free_cors := (m_free_cors p)[i := (Some c, True)]\<rparr>, t)
     | None \<Rightarrow>
         bindE (scale_1_5 (m_pool_size p)) (\<lambda>newsize.
         bindE (grow_slots (nat (newsize - m_pool_size p)) 0 (m_co_stack_size p) alloc (m_free_cors p) t) (\<lambda>(v, t).
         let tmp = nat (m_pool_size p) in
         bindE (guardE (tmp < length v) Out_of_bounds) (\<lambda>_.
           Inr (fst (v ! tmp), p\<lparr>m_free_cors := v, m_pool_size := newsize\<rparr>, t)))))"

definition returnCoroutine :: "int \<Rightarrow> coroutine_pool \<Rightarrow> coroutine_pool res" where
  "returnCoroutine cor_id p =
     bindE (guardE (0 \<le> cor_id \<and> cor_id < int (length (m_free_cors p))) Out_of_bounds) (\<lambda>_.
       Inr (p\<lparr>m_free_cors := (m_free_cors p)[nat cor_id := (fst (m_free_cors p ! nat cor_id), False)]\<rparr>))"

text \<open>The thread's pool: 100 coroutines with stacks of 108 KiB.\<close>

definition GetCoroutinePool ::
  "(int \<Rightarrow> u64) \<Rightarrow> coroutine_pool option \<Rightarrow> 's cothread \<Rightarrow> (coroutine_pool \<times> 's cothread) res" where
  "GetCoroutinePool alloc g t =
     (case g of None \<Rightarrow> new_CoroutinePool 100 (1024 * 108) alloc t | Some p \<Rightarrow> Inr (p, t))"

section \<open>Lemmas\<close>

text \<open>
  The slots \<open>getCoroutineInstanse\<close> scans hold pairwise different coroutines; \<open>handed\<close> are those
  marked.
\<close>

definition pool_ok :: "coroutine_pool \<Rightarrow> bool" where
  "pool_ok p \<longleftrightarrow> 1 \<le> m_index p \<and> m_index p \<le> m_pool_size p \<and> m_pool_size p \<le> int (length (m_free_cors p)) \<and>
     (\<forall>i. m_index p \<le> int i \<and> int i < m_pool_size p \<longrightarrow> fst (m_free_cors p ! i) \<noteq> None) \<and>
     (\<forall>i j. m_index p \<le> int i \<and> int i < int j \<and> int j < m_pool_size p \<longrightarrow>
        fst (m_free_cors p ! i) \<noteq> fst (m_free_cors p ! j))"

definition busy :: "nat option \<times> bool \<Rightarrow> 's cothread \<Rightarrow> bool" where
  "busy s t \<longleftrightarrow> snd s \<or> (\<exists>c. fst s = Some c \<and> m_is_in_cofunc (cors t ! c))"

lemma find_free_ok:
  assumes "i + n \<le> length v" and "\<forall>j. i \<le> j \<and> j < i + n \<longrightarrow> fst (v ! j) \<noteq> None"
  shows "(\<exists>j c. find_free n i v t = Inr (Some (j, c)) \<and> i \<le> j \<and> j < i + n \<and> v ! j = (Some c, False) \<and>
            \<not> m_is_in_cofunc (cors t ! c) \<and> (\<forall>l. i \<le> l \<and> l < j \<longrightarrow> busy (v ! l) t)) \<or>
         (find_free n i v t = Inr None \<and> (\<forall>j. i \<le> j \<and> j < i + n \<longrightarrow> busy (v ! j) t))"
  using assms
proof (induction n arbitrary: i)
  case (Suc n)
  obtain c used where vi: "v ! i = (Some c, used)" using Suc.prems by (cases "v ! i") force
  have len: "i < length v" using Suc.prems(1) by simp
  show ?case
  proof (cases "\<not> m_is_in_cofunc (cors t ! c) \<and> \<not> used")
    case True
    then have "find_free (Suc n) i v t = Inr (Some (i, c))" using vi len by (simp add: guardE_def)
    then show ?thesis using True vi by auto
  next
    case False
    then have eq: "find_free (Suc n) i v t = find_free n (Suc i) v t" using vi len by (auto simp: guardE_def)
    have b: "busy (v ! i) t" using False vi by (auto simp: busy_def)
    have "Suc i + n \<le> length v" "\<forall>j. Suc i \<le> j \<and> j < Suc i + n \<longrightarrow> fst (v ! j) \<noteq> None"
      using Suc.prems by auto
    note IH = Suc.IH [OF this]
    have ext: "\<forall>l. i \<le> l \<and> l < j \<longrightarrow> busy (v ! l) t" if "\<forall>l. Suc i \<le> l \<and> l < j \<longrightarrow> busy (v ! l) t" for j
    proof (intro allI impI)
      fix l assume l: "i \<le> l \<and> l < j"
      then have "l = i \<or> Suc i \<le> l" by linarith
      with that b l show "busy (v ! l) t" by blast
    qed
    from IH show ?thesis
    proof (elim disjE exE conjE)
      fix j c
      assume "find_free n (Suc i) v t = Inr (Some (j, c))" "Suc i \<le> j" "j < Suc i + n" "v ! j = (Some c, False)"
        "\<not> m_is_in_cofunc (cors t ! c)" "\<forall>l. Suc i \<le> l \<and> l < j \<longrightarrow> busy (v ! l) t"
      then show ?thesis using eq ext [of j] by auto
    next
      assume "find_free n (Suc i) v t = Inr None" "\<forall>j. Suc i \<le> j \<and> j < Suc i + n \<longrightarrow> busy (v ! j) t"
      then show ?thesis using eq ext [of "Suc i + n"] by auto
    qed
  qed
qed auto

lemma find_free_at:
  assumes "i + n \<le> length v" and "\<forall>l. i \<le> l \<and> l < j \<longrightarrow> (\<exists>c. v ! l = (Some c, True))"
    and "i \<le> j" and "j < i + n" and "v ! j = (Some c, False)" and "\<not> m_is_in_cofunc (cors t ! c)"
  shows "find_free n i v t = Inr (Some (j, c))"
  using assms
proof (induction n arbitrary: i)
  case (Suc n)
  show ?case
  proof (cases "i = j")
    case True
    then show ?thesis using Suc.prems by (simp add: guardE_def)
  next
    case False
    then obtain c' where "v ! i = (Some c', True)" using Suc.prems(2,3) by auto
    with Suc.IH [of "Suc i"] Suc.prems False show ?thesis by (auto simp: guardE_def)
  qed
qed simp

lemma new_Coroutine_ok:
  assumes "sp \<noteq> 0"
  shows "\<exists>c t' new. new_Coroutine sz sp t = Inr (c, t') \<and> cors t' = cors t @ new"
  using assms by (cases "t_main_coroutine t") (auto simp: new_Coroutine_def ensure_main_def new_main_def guardE_def)

lemma grow_slots_ok:
  assumes "\<forall>x. alloc x \<noteq> 0"
  shows "i + n \<le> length v \<Longrightarrow>
    \<exists>v' t' new. grow_slots n i sz alloc v t = Inr (v', t') \<and> length v' = length v + n \<and>
      (\<forall>j. i + n \<le> j \<and> j < length v \<longrightarrow> v' ! j = v ! j) \<and>
      (\<forall>j<length v. fst (v ! j) \<noteq> None \<longrightarrow> fst (v' ! j) \<noteq> None) \<and> cors t' = cors t @ new"
proof (induction n arbitrary: i v t)
  case (Suc n)
  obtain c t1 new where c: "new_Coroutine sz (alloc (t_coroutine_count t)) t = Inr (c, t1)" "cors t1 = cors t @ new"
    using new_Coroutine_ok assms by blast
  let ?v = "v[i := (Some c, False)] @ [(Some c, False)]"
  have "Suc i + n \<le> length ?v" using Suc.prems by simp
  from Suc.IH [OF this, of t1] obtain v' t' new' where
    "grow_slots n (Suc i) sz alloc ?v t1 = Inr (v', t')" "length v' = length ?v + n"
    "\<forall>j. Suc i + n \<le> j \<and> j < length ?v \<longrightarrow> v' ! j = ?v ! j" "cors t' = cors t1 @ new'"
    and ne: "\<forall>j<length ?v. fst (?v ! j) \<noteq> None \<longrightarrow> fst (v' ! j) \<noteq> None" by blast
  moreover have "\<forall>j<length v. fst (v ! j) \<noteq> None \<longrightarrow> fst (v' ! j) \<noteq> None"
  proof (intro allI impI)
    fix j assume "j < length v" "fst (v ! j) \<noteq> None"
    moreover then have "fst (?v ! j) \<noteq> None" by (cases "j = i") (auto simp: nth_append)
    ultimately show "fst (v' ! j) \<noteq> None" using ne by simp
  qed
  ultimately show ?case using c Suc.prems by (auto simp: guardE_def nth_append)
qed auto

lemma pool_range:
  assumes "pool_ok p"
  shows "nat (m_index p) + nat (m_pool_size p - m_index p) = nat (m_pool_size p)"
    and "nat (m_pool_size p) \<le> length (m_free_cors p)"
    and "nat (m_index p) \<le> j \<and> j < nat (m_pool_size p) \<Longrightarrow> fst (m_free_cors p ! j) \<noteq> None"
proof -
  show "nat (m_index p) + nat (m_pool_size p - m_index p) = nat (m_pool_size p)"
    "nat (m_pool_size p) \<le> length (m_free_cors p)"
    using assms by (auto simp: pool_ok_def)
  assume "nat (m_index p) \<le> j \<and> j < nat (m_pool_size p)"
  then have "m_index p \<le> int j \<and> int j < m_pool_size p" by linarith
  then show "fst (m_free_cors p ! j) \<noteq> None" using assms unfolding pool_ok_def by blast
qed

text \<open>The slots scanned, all of them in use.\<close>

definition exhausted :: "coroutine_pool \<Rightarrow> 's cothread \<Rightarrow> bool" where
  "exhausted p t \<longleftrightarrow> (\<forall>j. nat (m_index p) \<le> j \<and> j < nat (m_pool_size p) \<longrightarrow> busy (m_free_cors p ! j) t)"

lemma find_free_exhausted:
  assumes "pool_ok p"
  shows "exhausted p t \<Longrightarrow>
      find_free (nat (m_pool_size p - m_index p)) (nat (m_index p)) (m_free_cors p) t = Inr None"
    and "\<not> exhausted p t \<Longrightarrow> \<exists>j c.
      find_free (nat (m_pool_size p - m_index p)) (nat (m_index p)) (m_free_cors p) t = Inr (Some (j, c)) \<and>
      nat (m_index p) \<le> j \<and> j < nat (m_pool_size p) \<and> m_free_cors p ! j = (Some c, False) \<and>
      \<not> m_is_in_cofunc (cors t ! c)"
proof -
  have "nat (m_index p) + nat (m_pool_size p - m_index p) \<le> length (m_free_cors p)"
    "\<forall>j. nat (m_index p) \<le> j \<and> j < nat (m_index p) + nat (m_pool_size p - m_index p) \<longrightarrow>
       fst (m_free_cors p ! j) \<noteq> None"
    using pool_range [OF assms] by auto
  note cases = find_free_ok [OF this, of t, unfolded pool_range(1) [OF assms]]
  show "exhausted p t \<Longrightarrow> find_free (nat (m_pool_size p - m_index p)) (nat (m_index p)) (m_free_cors p) t = Inr None"
    using cases by (fastforce simp: exhausted_def busy_def)
  show "\<not> exhausted p t \<Longrightarrow> \<exists>j c.
      find_free (nat (m_pool_size p - m_index p)) (nat (m_index p)) (m_free_cors p) t = Inr (Some (j, c)) \<and>
      nat (m_index p) \<le> j \<and> j < nat (m_pool_size p) \<and> m_free_cors p ! j = (Some c, False) \<and>
      \<not> m_is_in_cofunc (cors t ! c)"
    using cases by (auto simp: exhausted_def)
qed

section \<open>A pool in use\<close>

text \<open>
  What happens to a pool and its thread before the pool grows, \<open>H\<close> being the coroutines handed out and not returned: a coroutine is handed
  out, or one of them is returned by its number, or the thread runs, which may do anything to coroutines but change their numbers.
\<close>

inductive pool_use :: "(int \<Rightarrow> u64) \<Rightarrow> coroutine_pool \<times> 's cothread \<times> nat list \<Rightarrow> coroutine_pool \<times> 's cothread \<times> nat list \<Rightarrow> bool"
  for alloc where
  get: "\<not> exhausted p t \<Longrightarrow> getCoroutineInstanse alloc p t = Inr (Some c, p', t') \<Longrightarrow> pool_use alloc (p, t, H) (p', t', c # H)"
| return: "c \<in> set H \<Longrightarrow> returnCoroutine (m_cor_id (cors t ! c)) p = Inr p' \<Longrightarrow> pool_use alloc (p, t, H) (p', t, remove1 c H)"
| run: "length (cors t) \<le> length (cors t') \<Longrightarrow> \<forall>c<length (cors t). m_cor_id (cors t' ! c) = m_cor_id (cors t ! c) \<Longrightarrow>
    pool_use alloc (p, t, H) (p, t', H)"

text \<open>A slot holds the coroutine whose number is the slot's index, and is marked exactly when that coroutine is handed out.\<close>

definition slot_ok :: "nat list \<Rightarrow> 's cothread \<Rightarrow> nat \<Rightarrow> nat option \<times> bool \<Rightarrow> bool" where
  "slot_ok H t i s \<longleftrightarrow> (\<exists>c. s = (Some c, c \<in> set H) \<and> c < length (cors t) \<and> m_cor_id (cors t ! c) = int i)"

definition pool_inv :: "coroutine_pool \<times> 's cothread \<times> nat list \<Rightarrow> bool" where
  "pool_inv x \<longleftrightarrow> (case x of (p, t, H) \<Rightarrow>
     1 \<le> m_index p \<and> m_pool_size p \<le> int (length (m_free_cors p)) \<and> distinct H \<and>
     (\<forall>i. nat (m_index p) \<le> i \<and> i < length (m_free_cors p) \<longrightarrow> slot_ok H t i (m_free_cors p ! i)) \<and>
     (\<forall>c\<in>set H. \<exists>i. nat (m_index p) \<le> i \<and> i < nat (m_pool_size p) \<and> fst (m_free_cors p ! i) = Some c))"

text \<open>The thread has numbered its main coroutine, or no coroutine at all.\<close>

definition thread_ok :: "'s cothread \<Rightarrow> bool" where
  "thread_ok t \<longleftrightarrow> 0 \<le> t_cur_coroutine_id t \<and> (t_main_coroutine t = None \<longleftrightarrow> t_cur_coroutine_id t = 0)"

lemma fill_slots_ok:
  "fill_slots n i sz alloc v t = Inr (v', t') \<Longrightarrow> t_cur_coroutine_id (ensure_main t) = int i \<Longrightarrow>
   length v' = length v \<and> (\<exists>new. cors t' = cors t @ new) \<and> (\<forall>j. j < i \<longrightarrow> v' ! j = v ! j) \<and>
   (\<forall>j. i \<le> j \<and> j < i + n \<longrightarrow> slot_ok [] t' j (v' ! j))"
proof (induction n arbitrary: i v t)
  case (Suc n)
  let ?c = "length (cors (ensure_main t))"
  let ?k = "\<lparr>m_cor_id = int i, m_stack_size = sz, m_stack_sp = alloc (t_coroutine_count t), m_is_in_cofunc = False,
     m_call_back = None, saved = None, rsp = 0\<rparr>"
  obtain t1 where t1: "new_Coroutine sz (alloc (t_coroutine_count t)) t = Inr (?c, t1)" "cors t1 = cors (ensure_main t) @ [?k]"
      "t_cur_coroutine_id t1 = int (Suc i)" "t_main_coroutine t1 \<noteq> None"
    and f: "i < length v" "fill_slots n (Suc i) sz alloc (v[i := (Some ?c, False)]) t1 = Inr (v', t')"
    using Suc.prems by (auto simp: new_Coroutine_def bindE_Inr_iff guardE_def Let_def ensure_main_def new_main_def split: option.splits if_splits)
  have "ensure_main t1 = t1" using t1(4) by (auto simp: ensure_main_def)
  with Suc.IH [OF f(2)] t1(3) obtain new where
    ih: "length v' = length v" "cors t' = cors t1 @ new" "\<forall>j. j < Suc i \<longrightarrow> v' ! j = v[i := (Some ?c, False)] ! j"
      "\<forall>j. Suc i \<le> j \<and> j < Suc i + n \<longrightarrow> slot_ok [] t' j (v' ! j)" by auto
  have "slot_ok [] t' i (v' ! i)" using ih(2,3) f(1) t1(2) by (simp add: slot_ok_def nth_append)
  then have "\<forall>j. i \<le> j \<and> j < i + Suc n \<longrightarrow> slot_ok [] t' j (v' ! j)"
    using ih(4) by (metis Suc_leI add_Suc_shift le_neq_implies_less)
  moreover have "\<exists>new. cors t1 = cors t @ new" using t1(2) by (auto simp: ensure_main_def new_main_def split: option.splits)
  ultimately show ?case using ih by auto
qed auto

lemma new_pool_inv:
  assumes "new_CoroutinePool n sz alloc t = Inr (p, t')" and "thread_ok t"
  shows "pool_inv (p, t', [])"
proof -
  define ix where "ix = (if getCoroutineIndex t = 0 then 1 else getCoroutineIndex t)"
  have ix: "1 \<le> ix" using assms(2) by (simp add: ix_def thread_ok_def getCoroutineIndex_def)
  have id: "t_cur_coroutine_id (ensure_main t) = ix"
    using assms(2) by (auto simp: ix_def thread_ok_def getCoroutineIndex_def ensure_main_def new_main_def split: option.splits)
  obtain v where v: "0 \<le> n + ix" "fill_slots (nat n) (nat ix) sz alloc (replicate (nat (n + ix)) (None, False)) t = Inr (v, t')"
      "p = \<lparr>m_index = ix, m_pool_size = n, m_co_stack_size = sz, m_free_cors = v\<rparr>"
    using assms(1) by (auto simp: new_CoroutinePool_def ix_def [symmetric] bindE_Inr_iff guardE_def split: if_splits)
  have "length v = nat (n + ix)" "\<forall>j. nat ix \<le> j \<and> j < nat ix + nat n \<longrightarrow> slot_ok [] t' j (v ! j)"
    using fill_slots_ok [OF v(2)] id ix by simp_all
  then show ?thesis using v(1,3) ix by (auto simp: pool_inv_def)
qed

lemma pool_inv_ok:
  assumes "pool_inv (p, t, H)" and "\<not> exhausted p t"
  shows "pool_ok p"
proof -
  have inv: "1 \<le> m_index p" "m_pool_size p \<le> int (length (m_free_cors p))"
    "\<forall>i. nat (m_index p) \<le> i \<and> i < length (m_free_cors p) \<longrightarrow> slot_ok H t i (m_free_cors p ! i)"
    using assms(1) by (auto simp: pool_inv_def)
  have s: "slot_ok H t i (m_free_cors p ! i)" if "m_index p \<le> int i" "int i < m_pool_size p" for i
    using inv that by (simp add: nat_le_iff)
  have "m_index p \<le> m_pool_size p" using assms(2) unfolding exhausted_def by linarith
  moreover have "fst (m_free_cors p ! i) \<noteq> None" if "m_index p \<le> int i" "int i < m_pool_size p" for i
    using s [OF that] by (auto simp: slot_ok_def)
  moreover have "fst (m_free_cors p ! i) \<noteq> fst (m_free_cors p ! j)"
    if "m_index p \<le> int i" "int i < int j" "int j < m_pool_size p" for i j
    using s [of i] s [of j] that by (auto simp: slot_ok_def)
  ultimately show ?thesis using inv(1,2) by (simp add: pool_ok_def)
qed

lemma get_keeps_inv:
  assumes "pool_inv (p, t, H)" and "\<not> exhausted p t"
  shows "\<exists>c p'. getCoroutineInstanse alloc p t = Inr (Some c, p', t) \<and> c \<notin> set H \<and> \<not> m_is_in_cofunc (cors t ! c) \<and> pool_inv (p', t, c # H)"
proof -
  from find_free_exhausted(2) [OF pool_inv_ok [OF assms] assms(2)] obtain j c where
    f: "find_free (nat (m_pool_size p - m_index p)) (nat (m_index p)) (m_free_cors p) t = Inr (Some (j, c))"
      "nat (m_index p) \<le> j" "j < nat (m_pool_size p)" "m_free_cors p ! j = (Some c, False)"
      "\<not> m_is_in_cofunc (cors t ! c)" by blast
  let ?p = "p\<lparr>m_free_cors := (m_free_cors p)[j := (Some c, True)]\<rparr>"
  have inv: "1 \<le> m_index p" "m_pool_size p \<le> int (length (m_free_cors p))" "distinct H"
    "\<And>i. nat (m_index p) \<le> i \<Longrightarrow> i < length (m_free_cors p) \<Longrightarrow> slot_ok H t i (m_free_cors p ! i)"
    "\<forall>c\<in>set H. \<exists>i. nat (m_index p) \<le> i \<and> i < nat (m_pool_size p) \<and> fst (m_free_cors p ! i) = Some c"
    using assms(1) by (auto simp: pool_inv_def)
  have j: "j < length (m_free_cors p)" using f(3) inv(2) by linarith
  have c: "c \<notin> set H" "c < length (cors t)" "m_cor_id (cors t ! c) = int j"
    using inv(4) [OF f(2) j] f(4) by (auto simp: slot_ok_def)
  have "slot_ok (c # H) t i (m_free_cors ?p ! i)" if "nat (m_index p) \<le> i" "i < length (m_free_cors p)" for i
    using inv(4) [OF that] c j by (cases "i = j") (auto simp: slot_ok_def)
  moreover have "\<forall>d\<in>set (c # H). \<exists>i. nat (m_index p) \<le> i \<and> i < nat (m_pool_size p) \<and> fst (m_free_cors ?p ! i) = Some d"
  proof
    fix d assume "d \<in> set (c # H)"
    then obtain i where "nat (m_index p) \<le> i" "i < nat (m_pool_size p)" "fst (m_free_cors p ! i) = Some d"
      using inv(5) f(2-4) by fastforce
    then show "\<exists>i. nat (m_index p) \<le> i \<and> i < nat (m_pool_size p) \<and> fst (m_free_cors ?p ! i) = Some d"
      using f(4) j by (intro exI [of _ i]) (cases "i = j"; simp)
  qed
  ultimately have "pool_inv (?p, t, c # H)" using inv(1-3) c(1) by (simp add: pool_inv_def)
  then show ?thesis using f(1,5) c(1) by (intro exI [of _ c] exI [of _ ?p]) (simp add: getCoroutineInstanse_def)
qed

lemma return_keeps_inv:
  assumes "pool_inv (p, t, H)" and "c \<in> set H"
  shows "\<exists>p'. returnCoroutine (m_cor_id (cors t ! c)) p = Inr p' \<and> pool_inv (p', t, remove1 c H) \<and>
    (\<not> m_is_in_cofunc (cors t ! c) \<longrightarrow> \<not> exhausted p' t)"
proof -
  have inv: "1 \<le> m_index p" "m_pool_size p \<le> int (length (m_free_cors p))" "distinct H"
    "\<And>i. nat (m_index p) \<le> i \<Longrightarrow> i < length (m_free_cors p) \<Longrightarrow> slot_ok H t i (m_free_cors p ! i)"
    "\<forall>c\<in>set H. \<exists>i. nat (m_index p) \<le> i \<and> i < nat (m_pool_size p) \<and> fst (m_free_cors p ! i) = Some c"
    using assms(1) by (auto simp: pool_inv_def)
  obtain i where i: "nat (m_index p) \<le> i" "i < nat (m_pool_size p)" "fst (m_free_cors p ! i) = Some c" using inv(5) assms(2) by blast
  have len: "i < length (m_free_cors p)" using i(2) inv(2) by linarith
  have id: "m_cor_id (cors t ! c) = int i" "c < length (cors t)" using inv(4) [OF i(1) len] i(3) by (auto simp: slot_ok_def)
  let ?p = "p\<lparr>m_free_cors := (m_free_cors p)[i := (Some c, False)]\<rparr>"
  have ret: "returnCoroutine (m_cor_id (cors t ! c)) p = Inr ?p" using id(1) len i(3) by (simp add: returnCoroutine_def guardE_def)
  have "slot_ok (remove1 c H) t l (m_free_cors ?p ! l)" if "nat (m_index p) \<le> l" "l < length (m_free_cors p)" for l
    using inv(3) inv(4) [OF that] id len by (cases "l = i") (auto simp: slot_ok_def)
  moreover have "\<forall>d\<in>set (remove1 c H). \<exists>i. nat (m_index p) \<le> i \<and> i < nat (m_pool_size p) \<and> fst (m_free_cors ?p ! i) = Some d"
  proof
    fix d assume "d \<in> set (remove1 c H)"
    then have "d \<in> set H" by (metis notin_set_remove1)
    then obtain l where "nat (m_index p) \<le> l" "l < nat (m_pool_size p)" "fst (m_free_cors p ! l) = Some d" using inv(5) by blast
    then show "\<exists>i. nat (m_index p) \<le> i \<and> i < nat (m_pool_size p) \<and> fst (m_free_cors ?p ! i) = Some d"
      using i(3) len by (intro exI [of _ l]) (cases "l = i"; simp)
  qed
  ultimately have "pool_inv (?p, t, remove1 c H)" using inv(1-3) by (simp add: pool_inv_def distinct_remove1)
  moreover have "\<not> exhausted ?p t" if "\<not> m_is_in_cofunc (cors t ! c)"
    using i len that unfolding exhausted_def by (auto simp: busy_def intro!: exI [of _ i])
  ultimately show ?thesis using ret by auto
qed

lemma pool_use_inv:
  assumes "pool_use alloc x y" and "pool_inv x"
  shows "pool_inv y"
  using assms
proof cases
  case (get p t c p' t' H)
  with get_keeps_inv [of p t H alloc] assms(2) show ?thesis by auto
next
  case (return c H t p p')
  with return_keeps_inv [of p t H c] assms(2) show ?thesis by auto
next
  case (run t t' p H)
  then have "slot_ok H t i s \<Longrightarrow> slot_ok H t' i s" for i s by (auto simp: slot_ok_def)
  with run assms(2) show ?thesis by (auto simp: pool_inv_def)
qed

lemma pool_uses_inv: "(pool_use alloc)\<^sup>*\<^sup>* x y \<Longrightarrow> pool_inv x \<Longrightarrow> pool_inv y"
  by (induction rule: rtranclp_induct) (auto intro: pool_use_inv)

text \<open>Marking the slots below \<open>n\<close>, as handing all of them out does.\<close>

definition mark_below :: "nat \<Rightarrow> coroutine_pool \<Rightarrow> coroutine_pool" where
  "mark_below n p = p\<lparr>m_free_cors := map (\<lambda>(c, used). (c, True)) (take n (m_free_cors p)) @ drop n (m_free_cors p)\<rparr>"

section \<open>Properties\<close>


definition demo_pool :: coroutine_pool where
  "demo_pool = \<lparr>m_index = 1, m_pool_size = 2, m_co_stack_size = 64,
     m_free_cors = [(None, False), (Some 1, False), (Some 2, False)]\<rparr>"

definition demo_cothread :: "nat cothread" where
  "demo_cothread =
     (let c = \<lparr>m_cor_id = 0, m_stack_size = 64, m_stack_sp = 4096, m_is_in_cofunc = False, m_call_back = None,
               saved = None, rsp = 0\<rparr> in
      \<lparr>t_main_coroutine = Some 0, t_cur_coroutine = Some 0, t_coroutine_count = 3, t_cur_coroutine_id = 3,
       cors = [c, c\<lparr>m_cor_id := 1\<rparr>, c\<lparr>m_cor_id := 2\<rparr>], code = [], env = 0\<rparr>)"

lemma demo_pool_ok: "pool_ok demo_pool"
  by (auto simp: pool_ok_def demo_pool_def nth_Cons' numeral_2_eq_2)

definition new_cothread :: "nat cothread" where
  "new_cothread = \<lparr>t_main_coroutine = None, t_cur_coroutine = None, t_coroutine_count = 0, t_cur_coroutine_id = 0, cors = [], code = [], env = 0\<rparr>"


text \<open>A coroutine is handed out twice.  When every scanned slot is in use the pool grows and
  returns the coroutine of the slot at the old size, without marking it.  As soon as the slots
  before it are in use again, the next call hands out the same coroutine a second time, although
  its first owner has not returned it.\<close>

theorem growth_hands_out_twice:
  assumes "pool_ok p" and "exhausted p t" and "\<forall>x. alloc x \<noteq> 0"
    and "2 \<le> m_pool_size p" and "m_pool_size p < int (length (m_free_cors p))" and "m_pool_size p \<le> 1431655764"
    and "m_free_cors p ! nat (m_pool_size p) = (Some c, False)"
    and "\<not> m_is_in_cofunc (cors t ! c)" and "c < length (cors t)"
  shows "\<exists>p1 t1 p2. getCoroutineInstanse alloc p t = Inr (Some c, p1, t1) \<and>
    getCoroutineInstanse alloc (mark_below (nat (m_pool_size p)) p1) t1 = Inr (Some c, p2, t1)"
proof -
  let ?n = "nat (m_pool_size p)" let ?d = "nat (3 * m_pool_size p div 2 - m_pool_size p)"
  let ?i = "nat (m_index p)"
  have d: "?d \<le> ?n" "1 \<le> ?d" using assms(4) by linarith+
  have n: "?n < length (m_free_cors p)" "?i \<le> ?n" using assms(1,5) by (auto simp: pool_ok_def)
  have ix: "1 \<le> m_index p" "m_index p \<le> m_pool_size p" using assms(1) by (auto simp: pool_ok_def)
  have sc: "scale_1_5 (m_pool_size p) = Inr (3 * m_pool_size p div 2)"
    by (rule scale_1_5_ok) (use assms(4,6) in auto)
  have "0 + ?d \<le> length (m_free_cors p)" using d n by simp
  from grow_slots_ok [OF assms(3) this, of "m_co_stack_size p" t] obtain v t1 new where
    g: "grow_slots ?d 0 (m_co_stack_size p) alloc (m_free_cors p) t = Inr (v, t1)"
      "length v = length (m_free_cors p) + ?d" "v ! ?n = (Some c, False)"
      "\<forall>j<length (m_free_cors p). fst (m_free_cors p ! j) \<noteq> None \<longrightarrow> fst (v ! j) \<noteq> None"
      "cors t1 = cors t @ new"
    using d n assms(7) by auto
  let ?p1 = "p\<lparr>m_free_cors := v, m_pool_size := 3 * m_pool_size p div 2\<rparr>"
  let ?w = "m_free_cors (mark_below ?n ?p1)"
  have get1: "getCoroutineInstanse alloc p t = Inr (Some c, ?p1, t1)"
    using find_free_exhausted(1) [OF assms(1,2)] sc g n by (simp add: getCoroutineInstanse_def guardE_def)
  have marked: "\<forall>l. ?i \<le> l \<and> l < ?n \<longrightarrow> (\<exists>c. ?w ! l = (Some c, True))"
  proof (intro allI impI)
    fix l assume l: "?i \<le> l \<and> l < ?n"
    then have "fst (v ! l) \<noteq> None" using g(4) pool_range(3) [OF assms(1), of l] n by simp
    then obtain x b where "v ! l = (Some x, b)" by (cases "v ! l") auto
    then show "\<exists>c. ?w ! l = (Some c, True)" using l n g(2) by (simp add: mark_below_def nth_append)
  qed
  have "find_free (nat (3 * m_pool_size p div 2 - m_index p)) ?i ?w t1 = Inr (Some (?n, c))"
  proof (rule find_free_at [OF _ marked])
    have "length ?w = length v" using n g(2) by (simp add: mark_below_def)
    then show "?i + nat (3 * m_pool_size p div 2 - m_index p) \<le> length ?w"
      using g(2) n(1) ix assms(4) by linarith
    show "?i \<le> ?n" by (rule n)
    show "?n < ?i + nat (3 * m_pool_size p div 2 - m_index p)" using ix assms(4) by linarith
    show "?w ! ?n = (Some c, False)" using g(2,3) n by (simp add: mark_below_def nth_append)
    show "\<not> m_is_in_cofunc (cors t1 ! c)" using assms(8,9) g(5) by (simp add: nth_append)
  qed
  then have "\<exists>p2. getCoroutineInstanse alloc (mark_below ?n ?p1) t1 = Inr (Some c, p2, t1)"
    by (simp add: getCoroutineInstanse_def mark_below_def)
  with get1 show ?thesis by blast
qed

theorem growth_hands_out_twice_witness:
  "\<exists>p1 t1 p2. getCoroutineInstanse (\<lambda>_. 4096) (mark_below 2 demo_pool) demo_cothread = Inr (Some 2, p1, t1) \<and>
     getCoroutineInstanse (\<lambda>_. 4096) (mark_below 2 p1) t1 = Inr (Some 2, p2, t1)"
proof -
  have "pool_ok (mark_below 2 demo_pool)" "exhausted (mark_below 2 demo_pool) demo_cothread"
    by (auto simp: pool_ok_def exhausted_def mark_below_def demo_pool_def busy_def nth_Cons' numeral_2_eq_2)
  note twice = growth_hands_out_twice [OF this, of "\<lambda>_. 4096" 2]
  have sz: "m_pool_size (mark_below 2 demo_pool) = 2" by (simp add: mark_below_def demo_pool_def)
  show ?thesis
    by (rule twice [unfolded sz nat_numeral])
      (simp_all add: mark_below_def demo_pool_def demo_cothread_def Let_def)
qed

end
