(* ===== verification/Tcp_Connection.thy ===== *)
theory Tcp_Connection
  imports Coroutine_Hook Tcp_Buffer
begin

text \<open>
  \<open>net::TcpConnection\<close> of \<^verbatim>\<open>src/net/tcp_connection.h\<close> and \<^verbatim>\<open>src/net/tcp_connection.cc\<close>: the input and output loops over the two
  buffers, and the states of a connection.

  The connection's event is at address \<open>p\<close> of the thread's reactor.  \<open>input\<close> and \<open>output\<close> call \<open>read_hook\<close> and \<open>write_hook\<close>, which may yield; what
  the other code of the thread then does until the coroutine is resumed is a parameter, \<open>others\<close>.  It may change
  the hook state in any way, and of the connection what such code does change: its state (\<open>shutdownConnection\<close>, called by the time
  wheel) and whether its slot is alive.
\<close>

section \<open>State\<close>

datatype TcpConnectionState = NotConnected | Connected | HalfClosing | Closed

datatype ConnectionType = ServerConnection | ClientConnection

record 'cb conn =
  c_fd :: int
  state :: TcpConnectionState
  conn_type :: ConnectionType
  read_buffer :: tcp_buffer
  write_buffer :: tcp_buffer
  stopped :: bool
  has_slot :: bool            \<comment> \<open>\<open>weak_slot_\<close> can be locked\<close>
  rcb :: "'cb option"
  wcb :: "'cb option"

type_synonym conn_outer = "TcpConnectionState \<times> bool"

definition outer :: "'cb conn \<Rightarrow> conn_outer" where
  "outer c = (state c, has_slot c)"

definition set_outer :: "conn_outer \<Rightarrow> 'cb conn \<Rightarrow> 'cb conn" where
  "set_outer s c = c\<lparr>state := fst s, has_slot := snd s\<rparr>"

record ('t, 'k) co_env =
  e_sys :: "'k sys"
  e_resume :: "nat \<Rightarrow> 't"
  e_reactor :: nat
  others :: "conn_outer \<Rightarrow> ('t, 'k) hook_st \<Rightarrow> (conn_outer \<times> ('t, 'k) hook_st) res"

text \<open>The calls \<open>read_hook(fd, ..., cnt)\<close> and \<open>write_hook(fd, bs, ...)\<close> of a coroutine, over the yield.\<close>

definition co_read ::
  "('t, 'k) co_env \<Rightarrow> int \<Rightarrow> int \<Rightarrow> conn_outer \<Rightarrow> ('t, 'k) hook_st \<Rightarrow> ((int \<times> byte list) \<times> conn_outer \<times> ('t, 'k) hook_st) res" where
  "co_read E fd cnt s st =
     (let cnt = nat (cnt mod 2 ^ 64) in
      bindE (read_hook (e_sys E) (e_resume E) (e_reactor E) fd cnt st) (\<lambda>(x, st).
      case x of Some (y, bs) \<Rightarrow> Inr ((rt y, bs), s, st)
      | None \<Rightarrow> bindE (others E s st) (\<lambda>(s, st).
          let ((y, bs), st) = read_hook_resumed (e_sys E) fd cnt st in Inr ((rt y, bs), s, st))))"

definition co_write ::
  "('t, 'k) co_env \<Rightarrow> int \<Rightarrow> byte list \<Rightarrow> conn_outer \<Rightarrow> ('t, 'k) hook_st \<Rightarrow> (int \<times> conn_outer \<times> ('t, 'k) hook_st) res" where
  "co_write E fd bs s st =
     bindE (write_hook (e_sys E) (e_resume E) (e_reactor E) fd bs st) (\<lambda>(x, st).
     case x of Some y \<Rightarrow> Inr (rt y, s, st)
     | None \<Rightarrow> bindE (others E s st) (\<lambda>(s, st).
         let (y, st) = write_hook_resumed (e_sys E) fd bs st in Inr (rt y, s, st)))"

section \<open>Operations\<close>

definition new_conn :: "ConnectionType \<Rightarrow> int \<Rightarrow> int \<Rightarrow> 'cb conn res" where
  "new_conn ct fd buff_size =
     bindE (new_TcpBuffer buff_size) (\<lambda>w. bindE (new_TcpBuffer buff_size) (\<lambda>b.
       Inr \<lparr>c_fd = fd, state = (if ct = ServerConnection then Connected else NotConnected), conn_type = ct,
            read_buffer = b, write_buffer = w, stopped = False, has_slot = False, rcb = None, wcb = None\<rparr>))"

definition setUpClient :: "'cb conn \<Rightarrow> 'cb conn" where
  "setUpClient c = c\<lparr>state := Connected\<rparr>"

definition OnRead :: "'cb \<Rightarrow> 'cb conn \<Rightarrow> 'cb conn" where
  "OnRead f c = c\<lparr>rcb := Some f\<rparr>"

definition OnWrite :: "'cb \<Rightarrow> 'cb conn \<Rightarrow> 'cb conn" where
  "OnWrite f c = c\<lparr>wcb := Some f\<rparr>"

definition clearClient :: "'k sys \<Rightarrow> u64 \<Rightarrow> 'cb conn \<Rightarrow> ('t, 'k) reactor \<Rightarrow> ('cb conn \<times> ('t, 'k) reactor) res" where
  "clearClient S p c r =
     (if state c = Closed then Inr (c, r)
      else
        bindE (unregisterFromReactor S p r) (\<lambda>r.
        case heap r p of None \<Rightarrow> Inl Null_deref
        | Some e \<Rightarrow> Inr (c\<lparr>stopped := True, state := Closed\<rparr>, r\<lparr>kern := sys_close S (m_fd e) (kern r)\<rparr>)))"

definition shutdownConnection :: "'k sys \<Rightarrow> u64 \<Rightarrow> 'cb conn \<Rightarrow> ('t, 'k) reactor \<Rightarrow> ('cb conn \<times> ('t, 'k) reactor) res" where
  "shutdownConnection S p c r =
     (if state c = Closed \<or> state c = NotConnected then Inr (c, r)
      else case heap r p of None \<Rightarrow> Inl Null_deref
        | Some e \<Rightarrow> Inr (c\<lparr>state := HalfClosing\<rparr>, r\<lparr>kern := sys_shutdown S (m_fd e) (kern r)\<rparr>))"

text \<open>
  The loop of \<open>input\<close>; the result says whether it ended by closing the connection.  The bytes
  \<open>read_hook\<close> stores start at \<open>&buffer_[write_index]\<close>, which has to be an element of the vector.
\<close>

definition make_room :: "tcp_buffer \<Rightarrow> tcp_buffer res" where
  "make_room b =
     (if writeAble b = 0 then bindE (chk_int (2 * getSize b)) (\<lambda>sz. resizeBuffer sz b) else Inr b)"

definition on_reactor ::
  "(('t, 'k) reactor \<Rightarrow> ('a \<times> ('t, 'k) reactor) res) \<Rightarrow> ('t, 'k) hook_st \<Rightarrow> ('a \<times> ('t, 'k) hook_st) res" where
  "on_reactor f st = bindE (f (hr st)) (\<lambda>(x, r). Inr (x, st\<lparr>hr := r\<rparr>))"

primrec input_loop ::
  "nat \<Rightarrow> ('t, 'k) co_env \<Rightarrow> u64 \<Rightarrow> int \<Rightarrow> 'cb conn \<Rightarrow> ('t, 'k) hook_st \<Rightarrow> (bool \<times> 'cb conn \<times> ('t, 'k) hook_st) res" where
  "input_loop 0 E p cnt c st = Inl Out_of_fuel"
| "input_loop (Suc n) E p cnt c st =
     bindE (make_room (read_buffer c)) (\<lambda>b.
     bindE (guardE (0 \<le> write_index b \<and> write_index b < int (length (buffer b))) Out_of_bounds) (\<lambda>_.
     let read_count = writeAble b in
     bindE (co_read E (c_fd c) read_count (outer c) st) (\<lambda>((rv, bs), s, st).
     bindE (memcpy (buffer b) (write_index b) bs 0 (int (length bs))) (\<lambda>v.
     bindE (recycleWrite rv (b\<lparr>buffer := v\<rparr>)) (\<lambda>b.
     let c = (set_outer s c)\<lparr>read_buffer := b\<rparr> in
     bindE (chk_int (cnt + rv)) (\<lambda>cnt.
     if rv \<le> 0 then bindE (on_reactor (clearClient (e_sys E) p c) st) (\<lambda>(c, st). Inr (True, c, st))
     else if rv < read_count then Inr (False, c, st)
     else input_loop n E p cnt c st))))))"

text \<open>The first component of the result: the connection's slot of the time wheel is freshened.\<close>

definition tcp_input ::
  "nat \<Rightarrow> ('t, 'k) co_env \<Rightarrow> u64 \<Rightarrow> 'cb conn \<Rightarrow> ('t, 'k) hook_st \<Rightarrow> (bool \<times> 'cb conn \<times> ('t, 'k) hook_st) res" where
  "tcp_input n E p c st =
     (if state c = Closed \<or> state c = NotConnected then Inr (False, c, st)
      else bindE (input_loop n E p 0 c st) (\<lambda>(close_flag, c, st).
        if close_flag then Inr (False, c, st)
        else Inr (conn_type c = ServerConnection \<and> has_slot c, c, st)))"

primrec tcp_output ::
  "nat \<Rightarrow> ('t, 'k) co_env \<Rightarrow> u64 \<Rightarrow> 'cb conn \<Rightarrow> ('t, 'k) hook_st \<Rightarrow> ('cb conn \<times> ('t, 'k) hook_st) res" where
  "tcp_output 0 E p c st = Inl Out_of_fuel"
| "tcp_output (Suc n) E p c st =
     (if state c \<noteq> Connected then Inr (c, st)
      else if readAble (write_buffer c) = 0 then Inr (c, st)
      else
        let b = write_buffer c; total_size = readAble b in
        bindE (guardE (0 \<le> read_index b \<and> 0 \<le> total_size \<and> read_index b + total_size \<le> int (length (buffer b))) Out_of_bounds) (\<lambda>_.
        bindE (co_write E (c_fd c) (take (nat total_size) (drop (nat (read_index b)) (buffer b))) (outer c) st) (\<lambda>(rv, s, st).
        bindE (recycleRead rv b) (\<lambda>b.
        let c = (set_outer s c)\<lparr>write_buffer := b\<rparr> in
        if readAble b \<le> 0
        then on_reactor (\<lambda>r. bindE (delListenEvents (e_sys E) p WRITE r) (\<lambda>r. Inr (c, r))) st
        else tcp_output n E p c st))))"

text \<open>
  \<open>MainServerLoopCorFunc\<close>: \<open>call\<close> is what the user's callbacks do.  Calling an empty
  \<open>std::function\<close> throws.
\<close>

definition call_cb :: "('cb \<Rightarrow> 'cb conn \<Rightarrow> 'cb conn res) \<Rightarrow> 'cb option \<Rightarrow> 'cb conn \<Rightarrow> 'cb conn res" where
  "call_cb call f c = (case f of None \<Rightarrow> Inl Bad_function_call | Some g \<Rightarrow> call g c)"

primrec MainServerLoopCorFunc ::
  "nat \<Rightarrow> nat \<Rightarrow> ('t, 'k) co_env \<Rightarrow> ('cb \<Rightarrow> 'cb conn \<Rightarrow> 'cb conn res) \<Rightarrow> u64 \<Rightarrow>
   'cb conn \<Rightarrow> ('t, 'k) hook_st \<Rightarrow> ('cb conn \<times> ('t, 'k) hook_st) res" where
  "MainServerLoopCorFunc 0 n E call p c st = Inl Out_of_fuel"
| "MainServerLoopCorFunc (Suc m) n E call p c st =
     (if stopped c then Inr (c, st)
      else
        bindE (tcp_input n E p c st) (\<lambda>(fresh, c, st).
        bindE (call_cb call (rcb c) c) (\<lambda>c.
        bindE (call_cb call (wcb c) c) (\<lambda>c.
        bindE (tcp_output n E p c st) (\<lambda>(c, st).
          MainServerLoopCorFunc m n E call p c st)))))"

section \<open>A coroutine waiting for its socket\<close>

text \<open>The coroutine is not the main one, and the event of its descriptor, at \<open>p\<close>, has the mask that the kernel has.\<close>

definition watched :: "'k sys \<Rightarrow> 'k epoll_view \<Rightarrow> int \<Rightarrow> u64 \<Rightarrow> ('t, 'k) hook_st \<Rightarrow> bool" where
  "watched S V fd p st \<longleftrightarrow> \<not> in_main st \<and> 0 \<le> fd \<and> fd < int (length (fds_vec (hc st))) \<and> length (fds_vec (hc st)) \<le> 1431655764 \<and>
     p = addr (fds_vec (hc st) ! nat fd) \<and> watch_ok S V p (hr st) \<and> (\<exists>e. heap (hr st) p = Some e \<and> m_fd e = fd)"

text \<open>
  \<open>write\<close> after its manual page: a result above 0 is the number of bytes taken, a prefix of those given; otherwise nothing is taken.
  \<open>sent\<close> is what the socket has taken so far, and \<open>ready\<close> says that it takes at least one more byte.
\<close>

definition sock_spec :: "'k sys \<Rightarrow> 'k epoll_view \<Rightarrow> int \<Rightarrow> ('k \<Rightarrow> byte list) \<Rightarrow> ('k \<Rightarrow> bool) \<Rightarrow> bool" where
  "sock_spec S V fd sent ready \<longleftrightarrow>
     (\<forall>bs k. bs \<noteq> [] \<longrightarrow> (case sys_write S fd bs k of (x, k') \<Rightarrow>
        if rt x > 0 then rt x \<le> int (length bs) \<and> sent k' = sent k @ take (nat (rt x)) bs else \<not> ready k \<and> sent k' = sent k)) \<and>
     (\<forall>oper f e k. sent (snd (sys_epoll_ctl S (inst V) oper f e k)) = sent k) \<and>
     (\<forall>f k. sent (snd (sys_fcntl_get S f k)) = sent k) \<and> (\<forall>f x k. sent (sys_fcntl_set S f x k) = sent k)"

text \<open>While the coroutine waits nobody else uses its connection, and it is resumed when its socket is ready.\<close>

definition others_ok :: "('t, 'k) co_env \<Rightarrow> 'k epoll_view \<Rightarrow> int \<Rightarrow> u64 \<Rightarrow> ('k \<Rightarrow> byte list) \<Rightarrow> ('k \<Rightarrow> bool) \<Rightarrow> bool" where
  "others_ok E V fd p sent ready \<longleftrightarrow>
     (\<forall>s st. watched (e_sys E) V fd p st \<longrightarrow> (\<exists>st'. others E s st = Inr (s, st') \<and> watched (e_sys E) V fd p st' \<and>
        sent (kern (hr st')) = sent (kern (hr st)) \<and> ready (kern (hr st'))))"

lemma watched_hook_pre:
  assumes "watched S V fd p st"
  shows "hook_pre S V R fd p st"
proof -
  obtain e where e: "heap (hr st) p = Some e" "m_fd e = fd" "watch_ok S V p (hr st)" using assms by (auto simp: watched_def)
  then have "m_reactor e \<noteq> None" by (auto simp: watch_ok_def agrees_def)
  then have "store_event p (give_reactor R e) (hr st) = hr st"
    using e(1) by (simp add: give_reactor_def store_event_def fun_upd_idem)
  then show ?thesis using assms e by (simp add: hook_pre_def watched_def)
qed

lemma watched_kern: "same_reg S V (kern (hr st)) k \<Longrightarrow> watched S V fd p (with_kern k st) = watched S V fd p st"
  by (simp add: watched_def with_kern_def watch_ok_kern)

lemma setNonBlock_sent:
  assumes "sock_spec S V fd sent ready"
  shows "sent (setNonBlock S e k) = sent k"
proof -
  have g: "sent (snd (sys_fcntl_get S f k)) = sent k" and s: "sent (sys_fcntl_set S f x k) = sent k" for f x k
    using assms by (simp_all add: sock_spec_def)
  obtain flag k1 where k1: "sys_fcntl_get S (m_fd e) k = (flag, k1)" by force
  with g [of "m_fd e" k] have "sent k1 = sent k" by simp
  then show ?thesis using k1 by (simp add: setNonBlock_def g s)
qed

lemma prepare_kern:
  fixes st :: "('t, 'k) hook_st"
  shows "prepare S R fd st = Inr (p, st') \<Longrightarrow> \<exists>e :: 't fd_event. kern (hr st') = setNonBlock S e (kern (hr st))"
  by (auto simp: prepare_def bindE_Inr_iff event_of_def on_event_def with_event_def store_event_def Let_def split: option.splits)
    ((rule exI, rule refl)+)

lemma listen_sent:
  assumes "sock_spec S V fd sent ready" and "in_sync S V r"
  shows "addListenEvents S p ev r = Inr r' \<Longrightarrow> sent (kern r') = sent (kern r)"
    and "delListenEvents S p ev r = Inr r' \<Longrightarrow> sent (kern r') = sent (kern r)"
proof -
  have c: "sent k = sent k0" if "sys_epoll_ctl S (inst V) oper f x k0 = (rc, k)" for oper f x k0 rc k
    using assms(1) that unfolding sock_spec_def by (metis snd_conv)
  have l: "isLoopThread S r" "epfd r = inst V" using assms(2) by (simp_all add: in_sync_def)
  show "addListenEvents S p ev r = Inr r' \<Longrightarrow> sent (kern r') = sent (kern r)"
    using l by (auto simp: addListenEvents_def updateToReactor_def with_event_def store_event_def addEvent_def isLoopThread_def
        addEventInLoopThread_def guardE_def bindE_def Let_def dest: c split: option.splits if_splits prod.splits sum.splits)
  show "delListenEvents S p ev r = Inr r' \<Longrightarrow> sent (kern r') = sent (kern r)"
    using l by (auto simp: delListenEvents_def updateToReactor_def with_event_def store_event_def addEvent_def isLoopThread_def
        addEventInLoopThread_def guardE_def bindE_def Let_def dest: c split: option.splits if_splits prod.splits sum.splits)
qed

lemma registers_for_writing:
  assumes "epoll_ctl_spec S V" and "io_spec S V" and "sock_spec S V fd sent ready" and "watched S V fd p st"
  shows "\<exists>st1 r. prepare S R fd st = Inr (p, st1) \<and> toEpoll S mk p (flag_of WRITE) (cur_cor st1) (hr st1) = Inr r \<and>
    watched S V fd p (st1\<lparr>hr := r\<rparr>) \<and> sent (kern r) = sent (kern (hr st))"
proof -
  from prepare_ok [OF assms(2) watched_hook_pre [OF assms(4)]] obtain st1 e where
    1: "prepare S R fd st = Inr (p, st1)" "watch_ok S V p (hr st1)" "heap (hr st1) p = Some e" "m_fd e = fd"
      "hc st1 = hc st" "in_main st1 = in_main st" by blast
  from toEpoll_watch [OF assms(1) 1(2) _ 1(3), of WRITE mk "cur_cor st1"] obtain r e' where
    2: "toEpoll S mk p (flag_of WRITE) (cur_cor st1) (hr st1) = Inr r" "watch_ok S V p r" "heap r p = Some e'" "m_fd e' = fd"
    using 1(4) by auto
  have "watched S V fd p (st1\<lparr>hr := r\<rparr>)" using assms(4) 1(5,6) 2 by (simp add: watched_def)
  moreover have "sent (kern (hr st1)) = sent (kern (hr st))"
    using prepare_kern [OF 1(1)] by (auto simp: setNonBlock_sent [OF assms(3)])
  moreover have "sent (kern r) = sent (kern (hr st1))"
  proof -
    let ?r = "store_event p (setCallBack WRITE (Some (mk (cur_cor st1))) e) (hr st1)"
    have "addListenEvents S p WRITE ?r = Inr r"
      using 2(1) 1(3) unfolding toEpoll_eq(2) by (simp add: on_event_def with_event_def)
    moreover have "in_sync S V ?r" "kern ?r = kern (hr st1)"
      using 1(2) by (simp_all add: watch_ok_def in_sync_def isLoopThread_def store_event_def)
    ultimately show ?thesis using listen_sent(1) [OF assms(3)] by metis
  qed
  ultimately show ?thesis using 1(1) 2(1) by auto
qed

lemma co_write_ok:
  assumes "epoll_ctl_spec (e_sys E) V" and "io_spec (e_sys E) V" and "sock_spec (e_sys E) V fd sent ready"
    and "others_ok E V fd p sent ready" and "watched (e_sys E) V fd p st" and "bs \<noteq> []"
  shows "\<exists>m st'. co_write E fd bs s st = Inr (int m, s, st') \<and> 0 < m \<and> m \<le> length bs \<and>
    sent (kern (hr st')) = sent (kern (hr st)) @ take m bs \<and> watched (e_sys E) V fd p st'"
proof -
  let ?S = "e_sys E"
  have wr: "if rt x > 0 then rt x \<le> int (length bs) \<and> sent k' = sent k @ take (nat (rt x)) bs else \<not> ready k \<and> sent k' = sent k"
    if "sys_write ?S fd bs k = (x, k')" for x k k'
    using assms(3,6) that unfolding sock_spec_def by (metis (mono_tags, lifting) case_prod_conv)
  have same: "same_reg ?S V k k'" if "sys_write ?S fd bs k = (x, k')" for x k k'
    using assms(2) that unfolding io_spec_def by (metis snd_conv)
  obtain st1 r where 1: "prepare ?S (e_reactor E) fd st = Inr (p, st1)"
      "toEpoll ?S (e_resume E) p (flag_of WRITE) (cur_cor st1) (hr st1) = Inr r"
      "watched ?S V fd p (st1\<lparr>hr := r\<rparr>)" "sent (kern r) = sent (kern (hr st))"
    using registers_for_writing [OF assms(1-3,5)] by blast
  have m: "\<not> in_main st" using assms(5) by (simp add: watched_def)
  obtain x k where k: "sys_write ?S fd bs (kern r) = (x, k)" by (cases "sys_write ?S fd bs (kern r)")
  let ?st = "with_kern k (st1\<lparr>hr := r\<rparr>)"
  have w: "watched ?S V fd p ?st" using 1(3) same [OF k] by (simp add: watched_kern)
  have ks: "kern (hr ?st) = k" by (simp add: with_kern_def)
  show ?thesis
  proof (cases "rt x > 0")
    case True
    then have "co_write E fd bs s st = Inr (int (nat (rt x)), s, ?st)"
      using 1(1,2) m k by (simp add: co_write_def write_hook_def Let_def)
    then show ?thesis using True wr [OF k] w ks 1(4) by (intro exI [of _ "nat (rt x)"] exI [of _ ?st]) (simp add: nat_le_iff)
  next
    case False
    then have h: "write_hook ?S (e_resume E) (e_reactor E) fd bs st = Inr (None, ?st)"
      using 1(1,2) m k by (simp add: write_hook_def Let_def)
    obtain st2 where 2: "others E s ?st = Inr (s, st2)" "watched ?S V fd p st2" "sent (kern (hr st2)) = sent k" "ready (kern (hr st2))"
      using assms(4) w ks unfolding others_ok_def by metis
    obtain y k2 where k2: "sys_write ?S fd bs (kern (hr st2)) = (y, k2)" by (cases "sys_write ?S fd bs (kern (hr st2))")
    have y: "rt y > 0" "rt y \<le> int (length bs)" "sent k2 = sent k @ take (nat (rt y)) bs"
      using wr [OF k2] 2(3,4) by (auto split: if_splits)
    have "co_write E fd bs s st = Inr (int (nat (rt y)), s, with_kern k2 st2)"
      using h 2(1) k2 y(1) by (simp add: co_write_def write_hook_resumed_def)
    moreover have "watched ?S V fd p (with_kern k2 st2)" using 2(2) same [OF k2] by (simp add: watched_kern)
    ultimately show ?thesis
      using y wr [OF k] False 1(4) by (intro exI [of _ "nat (rt y)"] exI [of _ "with_kern k2 st2"]) (simp add: with_kern_def nat_le_iff)
  qed
qed

section \<open>Output\<close>

lemma contents_window:
  "buf_ok b \<Longrightarrow> take (nat (readAble b)) (drop (nat (read_index b)) (buffer b)) = contents b"
  by (simp add: contents_def readAble_def)

lemma set_outer_same: "set_outer (outer c) c = c"
  by (simp add: set_outer_def outer_def)

lemma output_step:
  assumes "buf_ok (write_buffer c)" and "state c = Connected" and "contents (write_buffer c) \<noteq> []"
    and "write_index (write_buffer c) < int (length (buffer (write_buffer c)))"
    and "co_write E (c_fd c) (contents (write_buffer c)) (outer c) st = Inr (int m, outer c, st1)"
    and "0 < m" and "m \<le> length (contents (write_buffer c))"
  shows "\<exists>b'. buf_ok b' \<and> contents b' = drop m (contents (write_buffer c)) \<and>
    write_index b' < int (length (buffer b')) \<and>
    tcp_output (Suc n) E p c st =
      (if contents b' = []
       then on_reactor (\<lambda>r. bindE (delListenEvents (e_sys E) p WRITE r) (\<lambda>r. Inr (c\<lparr>write_buffer := b'\<rparr>, r))) st1
       else tcp_output n E p (c\<lparr>write_buffer := b'\<rparr>) st1)"
proof -
  let ?b = "write_buffer c"
  note ok = buf_okD [OF assms(1)]
  have len: "length (contents ?b) = nat (readAble ?b)" using length_contents [OF assms(1)] by simp
  then have ra: "readAble ?b \<noteq> 0" "0 \<le> readAble ?b" "int m \<le> readAble ?b"
    using assms(3,7) ok by (auto simp: readAble_def)
  have lt: "read_index ?b + int m < int (length (buffer ?b))"
    using ra(3) assms(4) by (simp add: readAble_def)
  let ?b1 = "?b\<lparr>read_index := read_index ?b + int m\<rparr>"
  from advance_read_ok [OF assms(1), of "int m"] ra have
    b1: "buf_ok ?b1" "contents ?b1 = drop m (contents ?b)" by auto
  from adjustBuffer_ok [OF b1(1)] obtain b' where
    b': "adjustBuffer ?b1 = Inr b'" "buf_ok b'" "contents b' = drop m (contents ?b)"
      "write_index b' \<le> write_index ?b" "length (buffer b') = length (buffer ?b)" using b1(2) by auto
  have "in_int (read_index ?b + int m)" using lt ok by (simp add: in_int_def)
  then have rr: "recycleRead (int m) ?b = Inr b'"
    using lt b'(1) buf_ok_in_int(5) [OF assms(1)] by (simp add: recycleRead_def)
  have e: "readAble b' \<le> 0 \<longleftrightarrow> contents b' = []"
    by (simp flip: length_contents [OF b'(2)])
  have "read_index ?b + readAble ?b \<le> int (length (buffer ?b))" using ok by (simp add: readAble_def)
  then have "tcp_output (Suc n) E p c st =
      (if contents b' = []
       then on_reactor (\<lambda>r. bindE (delListenEvents (e_sys E) p WRITE r) (\<lambda>r. Inr (c\<lparr>write_buffer := b'\<rparr>, r))) st1
       else tcp_output n E p (c\<lparr>write_buffer := b'\<rparr>) st1)"
    using assms(2,5) ra(1,2) rr ok contents_window [OF assms(1)] e by (simp add: guardE_def Let_def set_outer_same)
  moreover have "write_index b' < int (length (buffer b'))" using b' assms(4) by simp
  ultimately show ?thesis using b'(2,3) by blast
qed

lemma stop_listening:
  assumes "epoll_ctl_spec S V" and "sock_spec S V fd sent ready" and "watched S V fd p st"
  shows "\<exists>st'. on_reactor (\<lambda>r. bindE (delListenEvents S p WRITE r) (\<lambda>r. Inr (c, r))) st = Inr (c, st') \<and>
    sent (kern (hr st')) = sent (kern (hr st))"
proof -
  obtain e where e: "heap (hr st) p = Some e" "in_sync S V (hr st)" "agrees V p (hr st)"
    using assms(3) by (auto simp: watched_def watch_ok_def)
  from listen_step_ok(2) [OF assms(1) e(2,3,1), of WRITE] obtain r where r: "delListenEvents S p WRITE (hr st) = Inr r" by blast
  then show ?thesis using listen_sent(2) [OF assms(2) e(2) r] by (auto simp: on_reactor_def)
qed

lemma output_all:
  assumes "epoll_ctl_spec (e_sys E) V" and "io_spec (e_sys E) V" and "sock_spec (e_sys E) V (c_fd c) sent ready"
    and "others_ok E V (c_fd c) p sent ready"
  shows "buf_ok (write_buffer c) \<Longrightarrow> state c = Connected \<Longrightarrow> watched (e_sys E) V (c_fd c) p st \<Longrightarrow>
    write_index (write_buffer c) < int (length (buffer (write_buffer c))) \<Longrightarrow>
    length (contents (write_buffer c)) < n \<Longrightarrow>
    \<exists>c' st'. tcp_output n E p c st = Inr (c', st') \<and> contents (write_buffer c') = [] \<and> buf_ok (write_buffer c') \<and>
      sent (kern (hr st')) = sent (kern (hr st)) @ contents (write_buffer c)"
  using assms(3,4)
proof (induction n arbitrary: c st)
  case (Suc n)
  show ?case
  proof (cases "contents (write_buffer c) = []")
    case True
    then have "readAble (write_buffer c) = 0"
      using length_contents [OF Suc.prems(1)] buf_okD [OF Suc.prems(1)] by (simp add: readAble_def)
    with True Suc.prems show ?thesis by simp
  next
    case False
    from co_write_ok [OF assms(1,2) Suc.prems(6,7,3) False] obtain m st1 where
      m: "co_write E (c_fd c) (contents (write_buffer c)) (outer c) st = Inr (int m, outer c, st1)" "0 < m"
        "m \<le> length (contents (write_buffer c))"
        "sent (kern (hr st1)) = sent (kern (hr st)) @ take m (contents (write_buffer c))" "watched (e_sys E) V (c_fd c) p st1" by blast
    from output_step [where n = n and p = p, OF Suc.prems(1,2) False Suc.prems(4) m(1-3)] obtain b' where
      b': "buf_ok b'" "contents b' = drop m (contents (write_buffer c))" "write_index b' < int (length (buffer b'))"
        "tcp_output (Suc n) E p c st =
          (if contents b' = []
           then on_reactor (\<lambda>r. bindE (delListenEvents (e_sys E) p WRITE r) (\<lambda>r. Inr (c\<lparr>write_buffer := b'\<rparr>, r))) st1
           else tcp_output n E p (c\<lparr>write_buffer := b'\<rparr>) st1)" by blast
    have all: "take m (contents (write_buffer c)) @ contents b' = contents (write_buffer c)"
      unfolding b'(2) by (rule append_take_drop_id)
    show ?thesis
    proof (cases "contents b' = []")
      case True
      from stop_listening [OF assms(1) Suc.prems(6) m(5), of "c\<lparr>write_buffer := b'\<rparr>"] obtain st' where
        "on_reactor (\<lambda>r. bindE (delListenEvents (e_sys E) p WRITE r) (\<lambda>r. Inr (c\<lparr>write_buffer := b'\<rparr>, r))) st1 =
           Inr (c\<lparr>write_buffer := b'\<rparr>, st')" "sent (kern (hr st')) = sent (kern (hr st1))" by blast
      with True b' m(4) all show ?thesis by auto
    next
      case False
      have "length (contents b') < n" using b'(2) m(2) Suc.prems(5) False by simp
      with Suc.IH [of "c\<lparr>write_buffer := b'\<rparr>" st1] b' Suc.prems m(5) obtain c' st' where
        "tcp_output n E p (c\<lparr>write_buffer := b'\<rparr>) st1 = Inr (c', st')" "contents (write_buffer c') = []"
        "buf_ok (write_buffer c')" "sent (kern (hr st')) = sent (kern (hr st1)) @ contents b'" by auto
      with False b'(4) m(4) all show ?thesis by auto
    qed
  qed
qed simp

text \<open>A buffer filled to its end: what was sent is not consumed.\<close>

lemma output_full_again:
  assumes "buf_ok (write_buffer c)" and "state c = Connected" and "contents (write_buffer c) \<noteq> []"
    and "write_index (write_buffer c) = int (length (buffer (write_buffer c)))"
    and "co_write E (c_fd c) (contents (write_buffer c)) (outer c) st = Inr (int (length (contents (write_buffer c))), outer c, st1)"
  shows "tcp_output (Suc n) E p c st = tcp_output n E p c st1"
proof -
  let ?b = "write_buffer c"
  note ok = buf_okD [OF assms(1)]
  have len: "int (length (contents ?b)) = readAble ?b" by (rule length_contents [OF assms(1)])
  have ra: "readAble ?b \<noteq> 0" "0 \<le> readAble ?b" "\<not> readAble ?b \<le> 0"
    using assms(3) len by (simp_all flip: len)
  have "in_int (read_index ?b + readAble ?b)" "int (length (buffer ?b)) \<le> read_index ?b + readAble ?b"
    using assms(4) buf_ok_in_int(2) [OF assms(1)] by (simp_all add: readAble_def)
  then have "recycleRead (readAble ?b) ?b = Inr ?b" using recycleRead_end [OF assms(1)] by blast
  moreover have "read_index ?b + readAble ?b \<le> int (length (buffer ?b))" using ok by (simp add: readAble_def)
  ultimately show ?thesis
    using assms(2,5) ra ok contents_window [OF assms(1)] by (simp add: guardE_def Let_def len set_outer_same)
qed

section \<open>Input\<close>

text \<open>
  The results of consecutive calls of \<open>read_hook\<close> with the same count: \<open>fulls\<close> in turn, leading from
  \<open>s\<close>, \<open>st\<close> to \<open>s'\<close>, \<open>st'\<close>.
\<close>

primrec co_reads ::
  "('t, 'k) co_env \<Rightarrow> int \<Rightarrow> int \<Rightarrow> byte list list \<Rightarrow> conn_outer \<Rightarrow> ('t, 'k) hook_st \<Rightarrow> conn_outer \<Rightarrow> ('t, 'k) hook_st \<Rightarrow> bool" where
  "co_reads E fd cnt [] s st s' st' \<longleftrightarrow> s' = s \<and> st' = st"
| "co_reads E fd cnt (x # xs) s st s' st' \<longleftrightarrow>
     (\<exists>s1 st1. co_read E fd cnt s st = Inr ((int (length x), x), s1, st1) \<and> co_reads E fd cnt xs s1 st1 s' st')"

lemma make_roomD:
  assumes "buf_ok b" and "make_room b = Inr b'"
  shows "buf_ok b'" and "contents b' = contents b"
proof -
  have "buf_ok b' \<and> contents b' = contents b"
  proof (cases "writeAble b = 0")
    case True
    then have sz: "in_int (2 * getSize b)" and r: "resizeBuffer (2 * getSize b) b = Inr b'"
      using assms(2) by (auto simp: make_room_def chk_int_def split: if_splits)
    have "0 \<le> 2 * getSize b" "2 * getSize b \<le> 2147483647" using sz getSize_eq [OF assms(1)] by (auto simp: in_int_def)
    from resizeBuffer_ok [OF assms(1) this] r have
      b': "buf_ok b'" "contents b' = take (nat (2 * getSize b)) (contents b)" by auto
    have "length (contents b) \<le> nat (2 * getSize b)"
      using getSize_eq [OF assms(1)] by (simp add: contents_def)
    then show ?thesis using b' by simp
  qed (use assms in \<open>simp add: make_room_def\<close>)
  then show "buf_ok b'" "contents b' = contents b" by simp_all
qed

lemma make_room_twice: "writeAble b \<noteq> 0 \<Longrightarrow> make_room b = Inr b"
  by (simp add: make_room_def)

lemma outer_read_buffer: "outer (c\<lparr>read_buffer := b\<rparr>) = outer c"
  "(set_outer s (c\<lparr>read_buffer := b\<rparr>))\<lparr>read_buffer := b'\<rparr> = (set_outer s c)\<lparr>read_buffer := b'\<rparr>"
  by (simp_all add: outer_def set_outer_def)

lemma set_outer_simps [simp]:
  "read_buffer (set_outer s c) = read_buffer c" "c_fd (set_outer s c) = c_fd c" "outer (set_outer s c) = s"
  "set_outer s' (set_outer s c) = set_outer s' c" "conn_type (set_outer s c) = conn_type c"
  "state (set_outer s c) = fst s" "has_slot (set_outer s c) = snd s" "fst (outer c) = state c" "rcb (set_outer s c) = rcb c"
  "set_outer s (c\<lparr>read_buffer := b\<rparr>) = (set_outer s c)\<lparr>read_buffer := b\<rparr>"
  by (simp_all add: set_outer_def outer_def)

text \<open>The first pass makes room; it is then as if the buffer had had it.\<close>

lemma input_makes_room:
  assumes "make_room (read_buffer c) = Inr b" and "writeAble b \<noteq> 0"
  shows "input_loop (Suc n) E p k c st = input_loop (Suc n) E p k (c\<lparr>read_buffer := b\<rparr>) st"
  using assms by (simp add: make_room_twice outer_read_buffer)

lemma place_ok:
  assumes "buf_ok b" and "int (length bs) \<le> int (length (buffer b)) - write_index b"
  shows "\<exists>v. memcpy (buffer b) (write_index b) bs 0 (int (length bs)) = Inr v \<and> length v = length (buffer b) \<and>
    buf_ok (b\<lparr>buffer := v\<rparr>) \<and> contents (b\<lparr>buffer := v\<rparr>) = contents b \<and>
    take (length bs) (free_area (b\<lparr>buffer := v\<rparr>)) = bs"
  using assms(1)
proof (cases rule: buf_okE)
  case (1 r w)
  let ?v = "take w (buffer b) @ bs @ drop (w + length bs) (buffer b)"
  have fits: "w + length bs \<le> length (buffer b)" using assms(2) 1 by simp
  then have cpy: "memcpy (buffer b) (int w) bs 0 (int (length bs)) = Inr ?v"
    by (simp add: memcpy_ok nat_add_distrib)
  have len: "length ?v = length (buffer b)" using fits by simp
  have dr: "drop r ?v = take (w - r) (drop r (buffer b)) @ bs @ drop (w + length bs) (buffer b)"
    using 1 by (simp add: drop_take)
  have lt: "length (take (w - r) (drop r (buffer b))) = w - r" using 1 by simp
  have con: "contents (b\<lparr>buffer := ?v\<rparr>) = contents b"
    using 1 dr lt by (simp add: contents_def nat_diff_distrib del: length_take)
  have fr: "take (length bs) (free_area (b\<lparr>buffer := ?v\<rparr>)) = bs"
    using 1 by (simp add: free_area_def)
  have "buf_ok (b\<lparr>buffer := ?v\<rparr>)" using assms(1) len by (simp add: buf_ok_def)
  with cpy len con fr show ?thesis using 1(2) by (intro exI [of _ ?v]) (simp only: simp_thms)
qed

text \<open>One pass of the loop with a read that fills the vector: the buffer's contents stay as they were.\<close>

lemma input_full_step:
  assumes "buf_ok (read_buffer c)" and "writeAble (read_buffer c) \<noteq> 0"
    and "co_read E (c_fd c) (writeAble (read_buffer c)) (outer c) st = Inr ((int (length x), x), s, st1)"
    and "int (length x) = writeAble (read_buffer c)" and "in_int (k + int (length x))"
  shows "\<exists>b'. input_loop (Suc n) E p k c st =
      input_loop n E p (k + int (length x)) ((set_outer s c)\<lparr>read_buffer := b'\<rparr>) st1 \<and> buf_ok b' \<and>
    contents b' = contents (read_buffer c) \<and> writeAble b' = writeAble (read_buffer c)"
proof -
  let ?b = "read_buffer c"
  note ok = buf_okD [OF assms(1)] and wa = writeAble_eq [OF assms(1)]
  have wi: "0 \<le> write_index ?b" "write_index ?b < int (length (buffer ?b))" using ok wa assms(2) by auto
  have fits: "int (length x) \<le> int (length (buffer ?b)) - write_index ?b" using wa assms(4) by simp
  from place_ok [OF assms(1) this] obtain v where
    v: "memcpy (buffer ?b) (write_index ?b) x 0 (int (length x)) = Inr v" "length v = length (buffer ?b)"
      "buf_ok (?b\<lparr>buffer := v\<rparr>)" "contents (?b\<lparr>buffer := v\<rparr>) = contents ?b" by blast
  have "recycleWrite (int (length x)) (?b\<lparr>buffer := v\<rparr>) = Inr (?b\<lparr>buffer := v\<rparr>)"
    by (rule recycleWrite_full [OF v(3)])
      (use v(2) wa assms(4) buf_ok_in_int(5) [OF assms(1)] in simp_all)
  moreover have "0 < int (length x)" using assms(4) wa wi(2) by simp
  moreover have "writeAble (?b\<lparr>buffer := v\<rparr>) = writeAble ?b" using writeAble_eq [OF v(3)] wa v(2) by simp
  ultimately show ?thesis
    using v assms(2-5) wi
    by (intro exI [of _ "?b\<lparr>buffer := v\<rparr>"]) (simp add: guardE_def Let_def make_room_twice chk_int_def)
qed

lemma input_short_step:
  assumes "buf_ok (read_buffer c)"
    and "co_read E (c_fd c) (writeAble (read_buffer c)) (outer c) st = Inr ((int (length x), x), s, st1)"
    and "0 < length x" and "int (length x) < writeAble (read_buffer c)" and "in_int (k + int (length x))"
  shows "\<exists>b'. input_loop (Suc n) E p k c st = Inr (False, (set_outer s c)\<lparr>read_buffer := b'\<rparr>, st1) \<and> buf_ok b' \<and>
    contents b' = contents (read_buffer c) @ x"
proof -
  let ?b = "read_buffer c"
  note ok = buf_okD [OF assms(1)] and wa = writeAble_eq [OF assms(1)]
  have wi: "0 \<le> write_index ?b" "write_index ?b < int (length (buffer ?b))" "writeAble ?b \<noteq> 0" using ok wa assms(4) by auto
  have fits: "int (length x) \<le> int (length (buffer ?b)) - write_index ?b" using wa assms(4) by simp
  from place_ok [OF assms(1) this] obtain v where
    v: "memcpy (buffer ?b) (write_index ?b) x 0 (int (length x)) = Inr v" "length v = length (buffer ?b)"
      "buf_ok (?b\<lparr>buffer := v\<rparr>)" "contents (?b\<lparr>buffer := v\<rparr>) = contents ?b"
      "take (length x) (free_area (?b\<lparr>buffer := v\<rparr>)) = x" by blast
  have "write_index ?b + int (length x) < int (length v)" using wa assms(4) v(2) by simp
  with recycleWrite_ok [OF v(3), of "int (length x)"] v(4,5) obtain b' where
    "recycleWrite (int (length x)) (?b\<lparr>buffer := v\<rparr>) = Inr b'" "buf_ok b'" "contents b' = contents ?b @ x"
    by auto
  with v assms(2-5) wi show ?thesis
    by (intro exI [of _ b']) (simp add: guardE_def Let_def make_room_twice chk_int_def)
qed

text \<open>A read of 0: the connection is cleared with the buffer's contents as they were.\<close>

lemma input_zero_step:
  assumes "buf_ok (read_buffer c)" and "writeAble (read_buffer c) \<noteq> 0"
    and "co_read E (c_fd c) (writeAble (read_buffer c)) (outer c) st = Inr ((0, []), s, st1)" and "in_int k"
  shows "\<exists>b'. input_loop (Suc n) E p k c st =
      bindE (on_reactor (clearClient (e_sys E) p ((set_outer s c)\<lparr>read_buffer := b'\<rparr>)) st1) (\<lambda>(c, st). Inr (True, c, st)) \<and>
    contents b' = contents (read_buffer c)"
proof -
  let ?b = "read_buffer c"
  note ok = buf_okD [OF assms(1)] and wa = writeAble_eq [OF assms(1)]
  have wi: "0 \<le> write_index ?b" "write_index ?b < int (length (buffer ?b))" using ok wa assms(2) by auto
  have cp: "memcpy (buffer ?b) (write_index ?b) [] 0 0 = Inr (buffer ?b)" using wi by (simp add: memcpy_def)
  obtain b' where "recycleWrite 0 ?b = Inr b'" "contents b' = contents ?b"
    using recycleWrite_ok [OF assms(1), of 0] wi by auto
  with assms(2-4) wi cp show ?thesis
    by (intro exI [of _ b']) (simp add: guardE_def Let_def make_room_twice chk_int_def)
qed

lemma input_fulls:
  "buf_ok (read_buffer c) \<Longrightarrow> writeAble (read_buffer c) = cnt \<Longrightarrow> 0 < cnt \<Longrightarrow>
   \<forall>y\<in>set fulls. int (length y) = cnt \<Longrightarrow> co_reads E (c_fd c) cnt fulls (outer c) st s' st' \<Longrightarrow>
   0 \<le> k \<Longrightarrow> k + int (length fulls) * cnt \<le> 2147483647 \<Longrightarrow>
   \<exists>b'. input_loop (length fulls + n) E p k c st =
       input_loop n E p (k + int (length fulls) * cnt) ((set_outer s' c)\<lparr>read_buffer := b'\<rparr>) st' \<and> buf_ok b' \<and>
     contents b' = contents (read_buffer c) \<and> writeAble b' = cnt"
proof (induction fulls arbitrary: st c k)
  case Nil
  then have "set_outer s' c = c" by (simp add: set_outer_same)
  then show ?case using Nil by (intro exI [of _ "read_buffer c"]) simp
next
  case (Cons y fulls)
  obtain s1 st1 where r: "co_read E (c_fd c) cnt (outer c) st = Inr ((int (length y), y), s1, st1)"
      "co_reads E (c_fd c) cnt fulls s1 st1 s' st'" "int (length y) = cnt" using Cons.prems by auto
  have k: "k + int (length (y # fulls)) * cnt = (k + cnt) + int (length fulls) * cnt" by (simp add: algebra_simps)
  have "0 \<le> int (length fulls) * cnt" using Cons.prems(3) by simp
  then have "k + cnt \<le> 2147483647" using Cons.prems(7) unfolding k by linarith
  then have "in_int (k + int (length y))" using Cons.prems(3,6) r(3) by (simp add: in_int_def)
  moreover have "writeAble (read_buffer c) \<noteq> 0" "int (length y) = writeAble (read_buffer c)"
      "co_read E (c_fd c) (writeAble (read_buffer c)) (outer c) st = Inr ((int (length y), y), s1, st1)"
    using Cons.prems(2,3) r by simp_all
  ultimately obtain b1 where
    b1: "input_loop (Suc (length fulls + n)) E p k c st =
        input_loop (length fulls + n) E p (k + cnt) ((set_outer s1 c)\<lparr>read_buffer := b1\<rparr>) st1"
      "buf_ok b1" "contents b1 = contents (read_buffer c)" "writeAble b1 = cnt"
    using input_full_step [where p = p and n = "length fulls + n", OF Cons.prems(1)] Cons.prems(2) r(3) by metis
  have "k + cnt + int (length fulls) * cnt \<le> 2147483647" "0 \<le> k + cnt" using Cons.prems(3,6,7) unfolding k by simp_all
  with Cons.IH [of "(set_outer s1 c)\<lparr>read_buffer := b1\<rparr>" st1 "k + cnt"] b1 Cons.prems(3,4) r(2) show ?case
    unfolding k by (simp add: outer_read_buffer)
qed

text \<open>All passes before the last one.\<close>

lemma input_to_last:
  assumes "buf_ok (read_buffer c)" and "make_room (read_buffer c) = Inr b" and "writeAble b = cnt" and "0 < cnt"
    and "\<forall>y\<in>set fulls. int (length y) = cnt" and "co_reads E (c_fd c) cnt fulls (outer c) st s1 st1"
    and "int (length fulls) * cnt \<le> 2147483647" and "length fulls < n"
  shows "\<exists>m b1. input_loop n E p 0 c st =
      input_loop (Suc m) E p (int (length fulls) * cnt) ((set_outer s1 c)\<lparr>read_buffer := b1\<rparr>) st1 \<and>
    buf_ok b1 \<and> contents b1 = contents (read_buffer c) \<and> writeAble b1 = cnt"
proof -
  obtain m where n: "n = length fulls + Suc m" using assms(8) less_imp_Suc_add by fastforce
  let ?c = "c\<lparr>read_buffer := b\<rparr>"
  have b: "buf_ok b" "contents b = contents (read_buffer c)" using make_roomD [OF assms(1,2)] by simp_all
  have "buf_ok (read_buffer ?c)" "writeAble (read_buffer ?c) = cnt" "co_reads E (c_fd ?c) cnt fulls (outer ?c) st s1 st1"
    "0 + int (length fulls) * cnt \<le> 2147483647" using b assms(3,6,7) by (simp_all add: outer_read_buffer)
  from input_fulls [OF this(1,2) assms(4,5) this(3) order_refl this(4), of "Suc m" p] obtain b1 where
    "input_loop n E p 0 ?c st = input_loop (Suc m) E p (int (length fulls) * cnt) ((set_outer s1 c)\<lparr>read_buffer := b1\<rparr>) st1"
      "buf_ok b1" "contents b1 = contents b" "writeAble b1 = cnt" unfolding n by (auto simp del: input_loop.simps)
  moreover have "input_loop n E p 0 c st = input_loop n E p 0 ?c st"
    using input_makes_room [OF assms(2), of "length fulls + m"] assms(3,4) unfolding n by (simp del: input_loop.simps)
  ultimately show ?thesis using b(2) by metis
qed

lemma clearClient_rcb: "clearClient S p c r = Inr (c', r') \<Longrightarrow> rcb c' = rcb c"
  by (auto simp: clearClient_def bindE_Inr_iff split: if_splits option.splits)

lemma input_loop_rcb: "input_loop n E p k c st = Inr (f, c', st') \<Longrightarrow> rcb c' = rcb c"
proof (induction n arbitrary: k c st)
  case (Suc n)
  from Suc.prems show ?case
    by (auto simp: bindE_Inr_iff Let_def on_reactor_def split: if_splits dest!: clearClient_rcb Suc.IH)
qed simp

lemma tcp_input_rcb: "tcp_input n E p c st = Inr (f, c', st') \<Longrightarrow> rcb c' = rcb c"
  by (auto simp: tcp_input_def bindE_Inr_iff split: if_splits dest!: input_loop_rcb)

section \<open>Closing\<close>

lemma clearClient_ok:
  assumes "epoll_ctl_spec S V" and "in_sync S V r" and "heap r p = Some e" and "m_fd e \<in> set (fds r)"
    and "m_fd e \<noteq> -1" and "m_reactor e \<noteq> None" and "state c \<noteq> Closed"
  shows "\<exists>r1. clearClient S p c r =
      Inr (c\<lparr>stopped := True, state := Closed\<rparr>, r1\<lparr>kern := sys_close S (m_fd e) (kern r1)\<rparr>) \<and>
    in_sync S V r1 \<and> applied V (m_fd e) None (kern r) (kern r1) \<and> m_fd e \<notin> set (fds r1) \<and>
    heap r1 p = Some (e\<lparr>listen_events := 0, read_cb := None, write_cb := None\<rparr>)"
proof -
  from delEventInLoopThread_ok [OF assms(1,2,4)] obtain r1 where
    r1: "delEventInLoopThread S (m_fd e) r = Inr r1" "in_sync S V r1" "applied V (m_fd e) None (kern r) (kern r1)"
      "fds r1 = remove1 (m_fd e) (fds r)" by blast
  let ?r = "store_event p (e\<lparr>listen_events := 0, read_cb := None, write_cb := None\<rparr>) r1"
  have "delEvent S (m_fd e) True r = Inr r1"
    using r1(1) assms(2,5) by (simp add: delEvent_def in_sync_def)
  then have u: "unregisterFromReactor S p r = Inr ?r"
    using assms(3,6) by (simp add: unregisterFromReactor_def with_event_def guardE_def)
  have "in_sync S V ?r" "applied V (m_fd e) None (kern r) (kern ?r)" "m_fd e \<notin> set (fds ?r)"
    using r1(2,3,4) assms(2) by (simp_all add: in_sync_def isLoopThread_def store_event_def)
  moreover have "clearClient S p c r =
      Inr (c\<lparr>stopped := True, state := Closed\<rparr>, ?r\<lparr>kern := sys_close S (m_fd e) (kern ?r)\<rparr>)"
    using u assms(7) by (simp add: clearClient_def store_event_def)
  moreover have "heap ?r p = Some (e\<lparr>listen_events := 0, read_cb := None, write_cb := None\<rparr>)" by (simp add: store_event_def)
  ultimately show ?thesis by (intro exI [of _ ?r] conjI)
qed

section \<open>Properties\<close>


definition demo_co :: "mini_kernel sys \<Rightarrow> (nat, mini_kernel) co_env" where
  "demo_co S = \<lparr>e_sys = S, e_resume = (\<lambda>c. c), e_reactor = 0, others = (\<lambda>s st. Inr (s, st))\<rparr>"

definition demo_cst :: "(nat, mini_kernel) hook_st" where
  "demo_cst = demo_hook\<lparr>hr := (hr demo_hook)\<lparr>
     heap := [10 \<mapsto> \<lparr>m_fd = 9, read_cb = None, write_cb = None, listen_events = 1, m_reactor = Some 0\<rparr>], fds := [4, 9],
     kern := (kern demo_reactor)\<lparr>mk_reg := [(4, \<lparr>events = 1, data = 4\<rparr>), (9, \<lparr>events = 1, data = 10\<rparr>)]\<rparr>\<rparr>\<rparr>"

definition demo_conn :: "nat conn" where
  "demo_conn = \<lparr>c_fd = 9, state = Connected, conn_type = ServerConnection,
     read_buffer = \<lparr>read_index = 0, write_index = 1, buffer = [1, 0, 0]\<rparr>,
     write_buffer = \<lparr>read_index = 0, write_index = 2, buffer = [5, 6, 0]\<rparr>,
     stopped = False, has_slot = True, rcb = None, wcb = None\<rparr>"

lemma demo_watched: "watched mini_sys mini_view 9 10 demo_cst"
  by (auto simp: watched_def demo_cst_def demo_hook_def demo_reactor_def addr_def watch_ok_def in_sync_def isLoopThread_def
      agrees_def mini_sys_def mini_view_def)

lemma mini_sock_spec: "sock_spec mini_sys mini_view fd mk_sent (\<lambda>_. True)"
  by (auto simp: sock_spec_def mini_sys_def mini_ctl_def Let_def split: ctl_op.splits option.splits)

lemma demo_e_sys: "e_sys (demo_co S) = S"
  by (simp add: demo_co_def)

lemma demo_specs:
  "epoll_ctl_spec (e_sys (demo_co mini_sys)) mini_view" "io_spec (e_sys (demo_co mini_sys)) mini_view"
  "sock_spec (e_sys (demo_co mini_sys)) mini_view 9 mk_sent (\<lambda>_. True)"
  "others_ok (demo_co mini_sys) mini_view 9 10 mk_sent (\<lambda>_. True)"
  "watched (e_sys (demo_co mini_sys)) mini_view 9 10 demo_cst"
  unfolding demo_e_sys by (rule mini_epoll_ctl_spec mini_io_spec mini_sock_spec demo_watched)+
    (simp add: others_ok_def demo_co_def, rule demo_watched)


text \<open>A write buffer filled to its end is sent forever.  When the unread bytes reach the end of the
  vector and the socket takes them all, \<open>recycleRead\<close> refuses to consume them and \<open>output\<close> sends them
  again: no number of passes is enough for it to return.\<close>

lemma write_hook_some:
  assumes "write_hook S mk R fd bs st = Inr (Some y, st')"
  shows "\<exists>k. y = fst (sys_write S fd bs k)"
proof (cases "in_main st")
  case True
  then show ?thesis using assms by (auto simp: write_hook_def case_prod_beta Let_def)
next
  case False
  then obtain p st1 r where "(let (x, k) = sys_write S fd bs (kern r); st = with_kern k (st1\<lparr>hr := r\<rparr>) in
      if rt x > 0 then Inr (Some x, st) else Inr (None, st)) = (Inr (Some y, st') :: (io_ret option \<times> _) res)"
    using assms by (auto simp: write_hook_def bindE_Inr_iff)
  then show ?thesis by (auto simp: case_prod_beta Let_def split: if_splits)
qed

lemma co_write_rt:
  assumes "co_write E fd bs s st = Inr (rv, s', st')"
  shows "\<exists>k. rv = rt (fst (sys_write (e_sys E) fd bs k))"
proof -
  obtain x st1 where h: "write_hook (e_sys E) (e_resume E) (e_reactor E) fd bs st = Inr (x, st1)"
    and r: "(case x of Some y \<Rightarrow> Inr (rt y, s, st1)
     | None \<Rightarrow> bindE (others E s st1) (\<lambda>(s, st). let (y, st) = write_hook_resumed (e_sys E) fd bs st in Inr (rt y, s, st))) = Inr (rv, s', st')"
    using assms by (auto simp: co_write_def bindE_Inr_iff)
  show ?thesis
  proof (cases x)
    case None
    then show ?thesis using r by (auto simp: bindE_Inr_iff write_hook_resumed_def case_prod_beta Let_def)
  qed (use r h write_hook_some in fastforce)
qed

theorem output_full_never_ends:
  assumes "epoll_ctl_spec (e_sys E) V" and "io_spec (e_sys E) V" and "sock_spec (e_sys E) V (c_fd c) sent ready"
    and "others_ok E V (c_fd c) p sent ready" and "watched (e_sys E) V (c_fd c) p st"
    and "buf_ok (write_buffer c)" and "state c = Connected" and "contents (write_buffer c) \<noteq> []"
    and "write_index (write_buffer c) = int (length (buffer (write_buffer c)))"
    and "\<forall>k. rt (fst (sys_write (e_sys E) (c_fd c) (contents (write_buffer c)) k)) = int (length (contents (write_buffer c)))"
  shows "tcp_output n E p c st = Inl Out_of_fuel"
  using assms(5)
proof (induction n arbitrary: st)
  case (Suc n)
  from co_write_ok [where s = "outer c", OF assms(1-4) Suc.prems assms(8)] obtain m st1 where
    m: "co_write E (c_fd c) (contents (write_buffer c)) (outer c) st = Inr (int m, outer c, st1)" "watched (e_sys E) V (c_fd c) p st1"
    by blast
  moreover have "int m = int (length (contents (write_buffer c)))" using co_write_rt [OF m(1)] assms(10) by auto
  ultimately show ?case
    using output_full_again [where E = E and st = st and n = n and p = p, OF assms(6-9)] Suc.IH [OF m(2)] by simp
qed simp

theorem output_full_never_ends_witness:
  "tcp_output 5 (demo_co mini_sys) 10
     (demo_conn\<lparr>write_buffer := \<lparr>read_index = 0, write_index = 3, buffer = [5, 6, 7]\<rparr>\<rparr>) demo_cst = Inl Out_of_fuel"
proof -
  let ?c = "demo_conn\<lparr>write_buffer := \<lparr>read_index = 0, write_index = 3, buffer = [5, 6, 7]\<rparr>\<rparr>"
  have c: "c_fd ?c = 9" "buf_ok (write_buffer ?c)" "state ?c = Connected" "contents (write_buffer ?c) \<noteq> []"
    "write_index (write_buffer ?c) = int (length (buffer (write_buffer ?c)))"
    by (simp_all add: demo_conn_def buf_ok_def contents_def)
  have "\<forall>k. rt (fst (sys_write (e_sys (demo_co mini_sys)) (c_fd ?c) (contents (write_buffer ?c)) k)) = int (length (contents (write_buffer ?c)))"
    by (simp add: demo_e_sys mini_sys_def)
  from output_full_never_ends [OF demo_specs [folded c(1)] c(2-5) this] show ?thesis .
qed

text \<open>A failed write.  \<open>output\<close> only logs it and passes the -1 to \<open>recycleRead\<close>: with the read index at 0 the next pass reads before the vector.\<close>

theorem output_failed_write:
  assumes "buf_ok (write_buffer c)" and "state c = Connected" and "contents (write_buffer c) \<noteq> []" and "read_index (write_buffer c) = 0"
    and "co_write E (c_fd c) (contents (write_buffer c)) (outer c) st = Inr (-1, outer c, st1)"
  shows "tcp_output (Suc (Suc n)) E p c st = Inl Out_of_bounds"
proof -
  let ?b = "write_buffer c"
  note ok = buf_okD [OF assms(1)]
  have len: "int (length (contents ?b)) = readAble ?b" by (rule length_contents [OF assms(1)])
  have ra: "readAble ?b \<noteq> 0" "0 < readAble ?b" using assms(3) len by (simp_all flip: len)
  have "\<not> cast_int (int (length (buffer ?b))) \<le> -1" "\<not> cast_int (int (length (buffer ?b) div 3)) < -1"
    using buf_ok_in_int(5) [OF assms(1)] ok cast_third [of "length (buffer ?b)"] by simp_all
  then have rr: "recycleRead (-1) ?b = Inr (?b\<lparr>read_index := -1\<rparr>)"
    using assms(4) by (simp add: recycleRead_def adjustBuffer_def chk_int_def in_int_def)
  have "readAble ?b \<le> int (length (buffer ?b))" using ok by (simp add: readAble_def)
  then show ?thesis
    using assms(2,4,5) ra rr contents_window [OF assms(1)]
    by (simp add: guardE_def Let_def set_outer_same readAble_def)
qed

definition pipe_sys :: "mini_kernel sys" where
  "pipe_sys = mini_sys\<lparr>sys_write := (\<lambda>fd bs k. (\<lparr>rt = -1, errno = 32\<rparr>, k))\<rparr>"

theorem output_failed_write_witness:
  "tcp_output 2 (demo_co pipe_sys) 10 demo_conn (demo_cst\<lparr>in_main := True\<rparr>) = Inl Out_of_bounds"
proof -
  have c: "buf_ok (write_buffer demo_conn)" "state demo_conn = Connected" "contents (write_buffer demo_conn) \<noteq> []"
    "read_index (write_buffer demo_conn) = 0"
    by (simp_all add: demo_conn_def buf_ok_def contents_def)
  have "co_write (demo_co pipe_sys) (c_fd demo_conn) (contents (write_buffer demo_conn)) (outer demo_conn) (demo_cst\<lparr>in_main := True\<rparr>) =
      Inr (-1, outer demo_conn, demo_cst\<lparr>in_main := True\<rparr>)"
    by (simp add: co_write_def write_hook_def demo_co_def pipe_sys_def with_kern_def)
  from output_failed_write [OF c this, of 0 10] show ?thesis unfolding numeral_2_eq_2 .
qed

text \<open>Input.  When the socket gives some reads that each fill
  the room in the buffer, followed by one that does not, \<open>input\<close> returns with the connection open, and the unread
  contents have grown by the bytes of the last read only: the reads that filled the buffer are lost,
  because \<open>recycleWrite\<close> refuses them and each read overwrites the one before.  With no such reads the
  bytes read are exactly what is added.\<close>

theorem input_keeps_last_read:
  assumes "state c = Connected \<or> state c = HalfClosing" and "buf_ok (read_buffer c)"
    and "make_room (read_buffer c) = Inr b" and "writeAble b = cnt" and "0 < cnt" and "\<forall>y\<in>set fulls. int (length y) = cnt"
    and "co_reads E (c_fd c) cnt fulls (outer c) st s1 st1" and "co_read E (c_fd c) cnt s1 st1 = Inr ((int (length x), x), s2, st2)"
    and "x \<noteq> []" and "int (length x) < cnt" and "(int (length fulls) + 1) * cnt \<le> 2147483647" and "length fulls < n"
  shows "\<exists>b'. tcp_input n E p c st =
      Inr (conn_type c = ServerConnection \<and> snd s2, (set_outer s2 c)\<lparr>read_buffer := b'\<rparr>, st2) \<and>
    buf_ok b' \<and> contents b' = contents (read_buffer c) @ x"
proof -
  have k: "int (length fulls) * cnt + cnt \<le> 2147483647" using assms(11) by (simp add: algebra_simps)
  then have k': "int (length fulls) * cnt \<le> 2147483647" using assms(5) by linarith
  from input_to_last [OF assms(2-7) k' assms(12)] obtain m b1 where
    b1: "input_loop n E p 0 c st = input_loop (Suc m) E p (int (length fulls) * cnt) ((set_outer s1 c)\<lparr>read_buffer := b1\<rparr>) st1"
      "buf_ok b1" "contents b1 = contents (read_buffer c)" "writeAble b1 = cnt" by blast
  let ?c = "(set_outer s1 c)\<lparr>read_buffer := b1\<rparr>"
  have "0 \<le> int (length fulls) * cnt" using assms(5) by simp
  then have "in_int (int (length fulls) * cnt + int (length x))" using k assms(10) unfolding in_int_def by linarith
  moreover have "buf_ok (read_buffer ?c)" "co_read E (c_fd ?c) (writeAble (read_buffer ?c)) (outer ?c) st1 = Inr ((int (length x), x), s2, st2)"
    "0 < length x" "int (length x) < writeAble (read_buffer ?c)"
    using b1 assms(8-10) by (simp_all add: outer_read_buffer)
  ultimately obtain b' where
    b': "input_loop (Suc m) E p (int (length fulls) * cnt) ?c st1 = Inr (False, (set_outer s2 c)\<lparr>read_buffer := b'\<rparr>, st2)"
      "buf_ok b'" "contents b' = contents (read_buffer c) @ x"
    using input_short_step [of ?c E st1 x s2 st2 "int (length fulls) * cnt" m p] b1(3) by (auto simp del: input_loop.simps)
  then show ?thesis using assms(1) b1(1) by (intro exI [of _ b']) (auto simp: tcp_input_def simp del: input_loop.simps)
qed

text \<open>A socket that first fills the room and then has one byte.\<close>

definition fill_sys :: "mini_kernel sys" where
  "fill_sys = mini_sys\<lparr>sys_read := (\<lambda>fd n k. if mk_counter k then ((\<lparr>rt = int n, errno = 0\<rparr>, replicate n 8), k\<lparr>mk_counter := False\<rparr>)
     else ((\<lparr>rt = 1, errno = 0\<rparr>, [7]), k))\<rparr>"

theorem input_keeps_last_read_witness:
  "\<exists>b' st'. tcp_input 2 (demo_co fill_sys) 10 demo_conn
      (with_kern ((kern demo_reactor)\<lparr>mk_counter := True\<rparr>) (demo_cst\<lparr>in_main := True\<rparr>)) =
      Inr (True, demo_conn\<lparr>read_buffer := b'\<rparr>, st') \<and> contents b' = [1, 7]"
proof -
  let ?E = "demo_co fill_sys" let ?st = "with_kern ((kern demo_reactor)\<lparr>mk_counter := True\<rparr>) (demo_cst\<lparr>in_main := True\<rparr>)"
  let ?st1 = "with_kern ((kern demo_reactor)\<lparr>mk_counter := False\<rparr>) (demo_cst\<lparr>in_main := True\<rparr>)"
  have r: "co_reads ?E (c_fd demo_conn) 2 [[8, 8]] (outer demo_conn) ?st (outer demo_conn) ?st1"
    by (simp add: co_read_def read_hook_def demo_co_def fill_sys_def with_kern_def numeral_2_eq_2)
  have x: "co_read ?E (c_fd demo_conn) 2 (outer demo_conn) ?st1 = Inr ((int (length [7]), [7]), outer demo_conn, ?st1)"
    by (simp add: co_read_def read_hook_def demo_co_def fill_sys_def with_kern_def)
  have room: "make_room (read_buffer demo_conn) = Inr (read_buffer demo_conn)" "writeAble (read_buffer demo_conn) = 2"
    by (simp_all add: make_room_def demo_conn_def writeAble_def cast_int_def)
  from input_keeps_last_read [where p = 10 and n = 2, OF _ _ room _ _ r x] show ?thesis
    by (auto simp: demo_conn_def buf_ok_def contents_def set_outer_def outer_def)
qed


definition eof_sys :: "mini_kernel sys" where
  "eof_sys = mini_sys\<lparr>sys_read := (\<lambda>fd n k. ((\<lparr>rt = 0, errno = 0\<rparr>, []), k))\<rparr>"

lemma eof_epoll_ctl_spec: "epoll_ctl_spec eof_sys mini_view"
  using mini_epoll_ctl_spec by (simp add: epoll_ctl_spec_def eof_sys_def)


text \<open>The server loop without callbacks.  A connection made by \<open>IOThread::addClient\<close> has no read
  callback, since the calls that would set one are commented out.  Its loop calls the empty
  \<open>std::function\<close> as soon as the first \<open>input\<close> returns.\<close>

theorem server_loop_needs_callback:
  assumes "new_conn ServerConnection fd 128 = Inr c" and "tcp_input n E p c st = Inr (fresh, c', st')"
  shows "MainServerLoopCorFunc (Suc m) n E call p c st = Inl Bad_function_call"
proof -
  have "rcb c = None" "\<not> stopped c" using assms(1) by (auto simp: new_conn_def bindE_Inr_iff)
  moreover have "rcb c' = rcb c" by (rule tcp_input_rcb [OF assms(2)])
  ultimately show ?thesis using assms(2) by (simp add: call_cb_def)
qed

theorem server_loop_needs_callback_witness:
  "\<exists>c. new_conn ServerConnection 9 128 = Inr c \<and>
     MainServerLoopCorFunc 1 1 (demo_co fill_sys) (\<lambda>f c. Inr c) 10 (c :: nat conn) (demo_cst\<lparr>in_main := True\<rparr>) =
       Inl Bad_function_call"
proof -
  let ?st = "demo_cst\<lparr>in_main := True\<rparr>"
  have sz: "0 \<le> (128::int)" "(128::int) \<le> 2147483647" by simp_all
  obtain b where b: "new_TcpBuffer 128 = Inr b" "buf_ok b" "contents b = []" "write_index b = 0"
    "length (buffer b) = 128"
    using new_TcpBuffer_ok [OF sz] by (auto simp: new_TcpBuffer_def vec_resize_def)
  let ?c = "\<lparr>c_fd = 9, state = Connected, conn_type = ServerConnection, read_buffer = b, write_buffer = b,
     stopped = False, has_slot = False, rcb = None, wcb = None\<rparr> :: nat conn"
  have c: "new_conn ServerConnection 9 128 = Inr ?c" using b(1) by (simp add: new_conn_def)
  have room: "writeAble b = 128" "make_room b = Inr b" using b writeAble_eq [OF b(2)] by (simp_all add: make_room_def)
  have x: "co_read (demo_co fill_sys) (c_fd ?c) 128 (outer ?c) ?st = Inr ((int (length [7]), [7]), outer ?c, ?st)"
    by (simp add: co_read_def read_hook_def demo_co_def fill_sys_def with_kern_def demo_cst_def demo_reactor_def)
  have "\<exists>b'. tcp_input 1 (demo_co fill_sys) 10 ?c ?st =
      Inr (conn_type ?c = ServerConnection \<and> snd (outer ?c), (set_outer (outer ?c) ?c)\<lparr>read_buffer := b'\<rparr>, ?st) \<and> buf_ok b' \<and>
      contents b' = contents (read_buffer ?c) @ [7]"
    by (rule input_keeps_last_read [where fulls = "[]" and b = b and cnt = 128]) (use b(2) room x in simp_all)
  then obtain fresh c' st' where "tcp_input 1 (demo_co fill_sys) 10 ?c ?st = Inr (fresh, c', st')" by blast
  from server_loop_needs_callback [OF c this, of 0 "\<lambda>f c. Inr c"] c show ?thesis by auto
qed

end
