(* ===== verification/Time_Wheel.thy ===== *)
theory Time_Wheel
  imports Prelude
begin

text \<open>
  \<open>net::TcpTimeWheel\<close> and \<open>net::AbstractSlot\<close> of \<^verbatim>\<open>src/net/tcp_conn_timer.h\<close> and \<^verbatim>\<open>src/net/tcp_conn_timer.cc\<close>.

  The wheel is a queue of buckets, each a vector of shared pointers to slots; a slot is named by a
  number.  The buckets hold the only owning pointers: a connection keeps a weak pointer to its
  slot.  Popping a bucket therefore destroys the slots that occur in no remaining bucket, and the
  destructor of a slot shuts its connection down; \<open>loopFunc\<close> returns the slots destroyed, in order.
\<close>

section \<open>Operations\<close>

type_synonym wheel = "nat list list"

definition new_TimeWheel :: "int \<Rightarrow> wheel" where
  "new_TimeWheel bucket_count = replicate (nat bucket_count) []"

definition loopFunc :: "wheel \<Rightarrow> (nat list \<times> wheel) res" where
  "loopFunc w =
     (case w of [] \<Rightarrow> Inl Empty_queue
      | b # rest \<Rightarrow> Inr (filter (\<lambda>s. \<forall>c\<in>set rest. s \<notin> set c) (remdups b), rest @ [[]]))"

definition fresh :: "nat \<Rightarrow> wheel \<Rightarrow> wheel res" where
  "fresh s w = (if w = [] then Inl Empty_queue else Inr (butlast w @ [last w @ [s]]))"

section \<open>Runs\<close>

datatype wheel_op = Tick | Fresh nat

text \<open>The slots destroyed during a sequence of calls, in order.\<close>

primrec run_wheel :: "wheel_op list \<Rightarrow> wheel \<Rightarrow> (nat list \<times> wheel) res" where
  "run_wheel [] w = Inr ([], w)"
| "run_wheel (x # xs) w =
     (case x of
        Tick \<Rightarrow> bindE (loopFunc w) (\<lambda>(ds, w). bindE (run_wheel xs w) (\<lambda>(ds', w). Inr (ds @ ds', w)))
      | Fresh s \<Rightarrow> bindE (fresh s w) (run_wheel xs))"

definition ticks :: "wheel_op list \<Rightarrow> nat" where
  "ticks ops = length (filter (\<lambda>x. x = Tick) ops)"

lemma ticks_simps [simp]:
  "ticks [] = 0" "ticks (Tick # ops) = Suc (ticks ops)" "ticks (Fresh s # ops) = ticks ops"
  by (simp_all add: ticks_def)

text \<open>The newest bucket that holds \<open>s\<close> has \<open>k\<close> buckets behind it and \<open>m\<close> before it.\<close>

definition newest_at :: "nat \<Rightarrow> nat \<Rightarrow> nat \<Rightarrow> wheel \<Rightarrow> bool" where
  "newest_at s m k w \<longleftrightarrow> (\<exists>xs b ys. w = xs @ b # ys \<and> s \<in> set b \<and> length xs = m \<and> length ys = k \<and>
     (\<forall>c\<in>set ys. s \<notin> set c))"

definition absent :: "nat \<Rightarrow> wheel \<Rightarrow> bool" where
  "absent s w \<longleftrightarrow> w \<noteq> [] \<and> (\<forall>c\<in>set w. s \<notin> set c)"

lemma fresh_newest: "w \<noteq> [] \<Longrightarrow> \<exists>w'. fresh s w = Inr w' \<and> newest_at s (length w - 1) 0 w' \<and> length w' = length w"
  by (auto simp: fresh_def newest_at_def)

lemma fresh_other:
  assumes "newest_at s m k w" and "t \<noteq> s"
  shows "\<exists>w'. fresh t w = Inr w' \<and> newest_at s m k w'"
proof -
  from assms(1) obtain xs b ys where w: "w = xs @ b # ys" "s \<in> set b" "length xs = m" "length ys = k"
    "\<forall>c\<in>set ys. s \<notin> set c" by (auto simp: newest_at_def)
  show ?thesis
  proof (cases ys rule: rev_cases)
    case Nil
    with w show ?thesis unfolding newest_at_def fresh_def
      by (intro exI [of _ "xs @ [b @ [t]]"] conjI exI [of _ xs] exI [of _ "b @ [t]"] exI [of _ "[]"]) auto
  next
    case (snoc zs z)
    with w assms(2) show ?thesis unfolding newest_at_def fresh_def
      by (intro exI [of _ "xs @ b # zs @ [z @ [t]]"] conjI exI [of _ xs] exI [of _ b] exI [of _ "zs @ [z @ [t]]"])
        (auto simp: butlast_append)
  qed
qed

lemma tick_ages:
  assumes "newest_at s (Suc m) k w"
  shows "\<exists>ds w'. loopFunc w = Inr (ds, w') \<and> s \<notin> set ds \<and> newest_at s m (Suc k) w'"
proof -
  from assms obtain x xs b ys where w: "w = x # xs @ b # ys" "s \<in> set b" "length xs = m" "length ys = k"
    "\<forall>c\<in>set ys. s \<notin> set c" by (auto simp: newest_at_def length_Suc_conv)
  then have "newest_at s m (Suc k) (xs @ b # ys @ [[]])"
    unfolding newest_at_def by (intro exI [of _ xs] exI [of _ b] exI [of _ "ys @ [[]]"]) auto
  with w show ?thesis by (auto simp: loopFunc_def)
qed

lemma count_list_distinct: "distinct xs \<Longrightarrow> x \<in> set xs \<Longrightarrow> count_list xs x = 1"
  by (induction xs) (auto simp: count_list_0_iff)

lemma tick_destroys:
  assumes "newest_at s 0 k w"
  shows "\<exists>ds w'. loopFunc w = Inr (ds, w') \<and> count_list ds s = 1 \<and> absent s w'"
proof -
  from assms obtain b ys where w: "w = b # ys" "s \<in> set b" "\<forall>c\<in>set ys. s \<notin> set c"
    by (auto simp: newest_at_def)
  let ?ds = "filter (\<lambda>s. \<forall>c\<in>set ys. s \<notin> set c) (remdups b)"
  have "distinct ?ds" "s \<in> set ?ds" using w by auto
  then have "count_list ?ds s = 1" by (rule count_list_distinct)
  moreover have "absent s (ys @ [[]])" using w(3) by (auto simp: absent_def)
  ultimately show ?thesis using w(1) by (auto simp: loopFunc_def)
qed

lemma absent_stays:
  assumes "absent s w" and "Fresh s \<notin> set ops"
  shows "\<exists>ds w'. run_wheel ops w = Inr (ds, w') \<and> s \<notin> set ds"
  using assms
proof (induction ops arbitrary: w)
  case (Cons x ops)
  show ?case
  proof (cases x)
    case Tick
    from Cons.prems obtain b rest where w: "w = b # rest" by (auto simp: absent_def neq_Nil_conv)
    then have "absent s (rest @ [[]])" using Cons.prems by (auto simp: absent_def)
    with Cons.IH [of "rest @ [[]]"] Cons.prems w Tick show ?thesis
      by (auto simp: loopFunc_def absent_def)
  next
    case (Fresh t)
    then have "t \<noteq> s" using Cons.prems(2) by auto
    then have "absent s (butlast w @ [last w @ [t]])"
      using Cons.prems(1) by (auto simp: absent_def dest: in_set_butlastD)
    with Cons.IH [of "butlast w @ [last w @ [t]]"] Cons.prems Fresh show ?thesis
      by (auto simp: fresh_def absent_def)
  qed
qed auto

lemma newest_run:
  assumes "newest_at s m k w" and "Fresh s \<notin> set ops"
  shows "\<exists>ds w'. run_wheel ops w = Inr (ds, w') \<and> count_list ds s = (if m < ticks ops then 1 else 0)"
  using assms
proof (induction ops arbitrary: w m k)
  case (Cons x ops)
  show ?case
  proof (cases x)
    case (Fresh t)
    then have "t \<noteq> s" using Cons.prems(2) by auto
    with fresh_other [OF Cons.prems(1)] obtain w1 where "fresh t w = Inr w1" "newest_at s m k w1" by blast
    with Cons.IH [of m k w1] Cons.prems(2) Fresh show ?thesis by auto
  next
    case Tick
    show ?thesis
    proof (cases m)
      case 0
      with tick_destroys [of s k w] Cons.prems obtain ds w1 where
        1: "loopFunc w = Inr (ds, w1)" "count_list ds s = 1" "absent s w1" by auto
      with absent_stays [OF 1(3), of ops] Cons.prems(2) Tick 0 show ?thesis by (auto simp: count_list_0_iff)
    next
      case (Suc m')
      with tick_ages [of s m' k w] Cons.prems obtain ds w1 where
        1: "loopFunc w = Inr (ds, w1)" "s \<notin> set ds" "newest_at s m' (Suc k) w1" by auto
      with Cons.IH [OF 1(3)] Cons.prems(2) Tick Suc show ?thesis by (auto simp: count_list_0_iff)
    qed
  qed
qed auto

section \<open>Properties\<close>

text \<open>C32. Idle connections.  In a wheel of \<open>n\<close> buckets, a slot that is freshened and then not again is
  destroyed, and so its connection shut down, exactly when \<open>n\<close> further ticks have happened, once, however
  many other slots are freshened in between; with fewer ticks it is not.  No call faults.\<close>

theorem time_wheel_expiry:
  assumes "w \<noteq> []" and "Fresh s \<notin> set ops"
  shows "\<exists>ds w'. run_wheel (Fresh s # ops) w = Inr (ds, w') \<and>
    count_list ds s = (if length w \<le> ticks ops then 1 else 0)"
proof -
  from fresh_newest [OF assms(1)] obtain w1 where
    w1: "fresh s w = Inr w1" "newest_at s (length w - 1) 0 w1" by blast
  have "length w - 1 < ticks ops \<longleftrightarrow> length w \<le> ticks ops" using assms(1) by (cases w) auto
  with newest_run [OF w1(2) assms(2)] w1(1) show ?thesis by auto
qed

theorem time_wheel_expiry_witness:
  "\<exists>ds w'. run_wheel [Fresh 5, Tick, Fresh 6, Tick] (new_TimeWheel 2) = Inr (ds, w') \<and> count_list ds 5 = 1"
  using time_wheel_expiry [of "new_TimeWheel 2" 5 "[Tick, Fresh 6, Tick]"]
  by (simp add: new_TimeWheel_def numeral_2_eq_2)

end
