(* ===== verification/Io_Thread.thy ===== *)
theory Io_Thread
  imports Coroutine_Hook Coroutine_Pool Tcp_Connection Time_Wheel
begin

text \<open>
  \<open>net::IOThread\<close>, \<open>net::IOThreadPool\<close>, \<open>net::TcpAcceptor\<close>, \<open>net::TcpServer\<close> and \<open>net::TcpClient\<close> of \<^verbatim>\<open>src/net/io_thread.cc\<close>,
  \<^verbatim>\<open>src/net/tcp_server.cc\<close> and \<^verbatim>\<open>src/net/tcp_client.cc\<close>.

  The state of an I/O thread is its table of connections with everything a connection's constructor
  and destructor reach: the time wheel and the connection of each slot, the event container and
  reactor, the thread's coroutines and their pool.  A connection is owned by the table only.
\<close>

section \<open>IOThread\<close>

record ('cb, 't, 'k, 's) io_thread =
  clients :: "int \<rightharpoonup> 'cb conn option"       \<comment> \<open>\<open>None\<close> inside: a null \<open>shared_ptr\<close>\<close>
  conn_cor :: "int \<rightharpoonup> nat"                  \<comment> \<open>\<open>loop_coroutine_\<close> of each connection\<close>
  time_wheel :: wheel
  slot_fd :: "int list"                     \<comment> \<open>the connection of every slot made so far\<close>
  hst :: "('t, 'k) hook_st"
  cpool :: coroutine_pool
  cth :: "'s cothread"

text \<open>What the code around a thread provides.\<close>

record ('t, 'k, 's) io_env =
  os :: "'k sys"
  malloc :: "int \<Rightarrow> u64"
  mk_res :: "nat \<Rightarrow> 't"                \<comment> \<open>the task that resumes a coroutine\<close>
  server_loop :: "int \<Rightarrow> 's act list"  \<comment> \<open>the closure \<open>[this] { MainServerLoopCorFunc(); }\<close>\<close>
  this_rea :: nat

text \<open>The constructor of a server connection.\<close>

definition new_server_conn ::
  "('t, 'k, 's) io_env \<Rightarrow> int \<Rightarrow> ('cb, 't, 'k, 's) io_thread \<Rightarrow> ('cb conn \<times> nat \<times> ('cb, 't, 'k, 's) io_thread) res" where
  "new_server_conn E fd io =
     bindE (event_of fd (hst io)) (\<lambda>(p, h).
     bindE (on_event p (\<lambda>e. e\<lparr>m_reactor := Some (this_rea E)\<rparr>) (hr h)) (\<lambda>r.
     bindE (new_conn ServerConnection fd 128) (\<lambda>c.
     bindE (getCoroutineInstanse (malloc E) (cpool io) (cth io)) (\<lambda>(cor, pool, t).
     case cor of None \<Rightarrow> Inl Null_deref
     | Some i \<Rightarrow>
         bindE (setCoCallBack i (server_loop E fd) t) (\<lambda>(ok, t).
           Inr (c, i, io\<lparr>hst := h\<lparr>hr := addCoroutine (os E) (mk_res E) i True r\<rparr>, cpool := pool, cth := t\<rparr>))))))"

text \<open>\<open>registerToTimeWheel\<close>: a new slot for the connection in the newest bucket.\<close>

definition registerToTimeWheel ::
  "int \<Rightarrow> 'cb conn \<Rightarrow> ('cb, 't, 'k, 's) io_thread \<Rightarrow> ('cb conn \<times> ('cb, 't, 'k, 's) io_thread) res" where
  "registerToTimeWheel fd c io =
     bindE (fresh (length (slot_fd io)) (time_wheel io)) (\<lambda>w.
       Inr (c\<lparr>has_slot := True\<rparr>, io\<lparr>time_wheel := w, slot_fd := slot_fd io @ [fd]\<rparr>))"

text \<open>The destructor of a server connection gives its coroutine back.\<close>

definition destroy_conn :: "int \<Rightarrow> ('cb, 't, 'k, 's) io_thread \<Rightarrow> ('cb, 't, 'k, 's) io_thread res" where
  "destroy_conn fd io =
     (case conn_cor io fd of None \<Rightarrow> Inl Null_deref
      | Some i \<Rightarrow> bindE (returnCoroutine (m_cor_id (cors (cth io) ! i)) (cpool io)) (\<lambda>p. Inr (io\<lparr>cpool := p\<rparr>)))"

definition addClient ::
  "('t, 'k, 's) io_env \<Rightarrow> int \<Rightarrow> ('cb, 't, 'k, 's) io_thread \<Rightarrow> (bool \<times> ('cb, 't, 'k, 's) io_thread) res" where
  "addClient E fd io =
     (let add = (\<lambda>io.
        bindE (new_server_conn E fd io) (\<lambda>(c, i, io).
        bindE (registerToTimeWheel fd c io) (\<lambda>(c, io).
          Inr (True, io\<lparr>clients := (clients io)(fd \<mapsto> Some c), conn_cor := (conn_cor io)(fd \<mapsto> i)\<rparr>)))) in
      case clients io fd of
        Some (Some c) \<Rightarrow>
          if state c \<noteq> Closed then Inr (False, io)
          else bindE (destroy_conn fd (io\<lparr>clients := (clients io)(fd \<mapsto> None)\<rparr>)) add
      | Some None \<Rightarrow> add io
      | None \<Rightarrow> add io)"

text \<open>The body of the loop of \<open>MainLoopTimerFunc\<close> for one entry, and the loop over the descriptors.\<close>

definition reap_one :: "int \<Rightarrow> ('cb, 't, 'k, 's) io_thread \<Rightarrow> ('cb, 't, 'k, 's) io_thread res" where
  "reap_one fd io =
     (case clients io fd of
        Some (Some c) \<Rightarrow> if state c = Closed then destroy_conn fd (io\<lparr>clients := (clients io)(fd \<mapsto> None)\<rparr>) else Inr io
      | _ \<Rightarrow> Inr io)"

definition MainLoopTimerFunc :: "int list \<Rightarrow> ('cb, 't, 'k, 's) io_thread \<Rightarrow> ('cb, 't, 'k, 's) io_thread res" where
  "MainLoopTimerFunc keys io = foldE reap_one keys io"

section \<open>IOThreadPool\<close>

record 'th io_pool =
  size_p :: int
  index_p :: int
  io_threads :: "'th list"

definition new_IOThreadPool :: "'th list \<Rightarrow> 'th io_pool" where
  "new_IOThreadPool ts = \<lparr>size_p = int (length ts), index_p = -1, io_threads = ts\<rparr>"

definition getIOThread :: "'th io_pool \<Rightarrow> (nat \<times> 'th io_pool) res" where
  "getIOThread p =
     (let p = (if index_p p = size_p p \<or> index_p p = -1 then p\<lparr>index_p := 0\<rparr> else p) in
      if 0 \<le> index_p p \<and> index_p p < int (length (io_threads p))
      then Inr (nat (index_p p), p\<lparr>index_p := index_p p + 1\<rparr>)
      else Inl Out_of_bounds)"

section \<open>TcpAcceptor and TcpServer\<close>

datatype family = AF_INET | AF_UNIX | AF_other int

text \<open>\<open>init\<close>: the results of \<open>socket\<close>, \<open>bind\<close> and \<open>listen\<close> decide; a failed \<open>setsockopt\<close> is logged.\<close>

definition acceptor_init :: "int \<Rightarrow> int \<Rightarrow> int \<Rightarrow> int res" where
  "acceptor_init sock bind_rt listen_rt =
     bindE (guardE (sock \<noteq> -1) Assert_failed) (\<lambda>_.
     bindE (guardE (bind_rt = 0) Assert_failed) (\<lambda>_.
     bindE (guardE (listen_rt = 0) Assert_failed) (\<lambda>_. Inr sock)))"

text \<open>\<open>toAccept\<close> after \<open>accept_hook\<close> returned \<open>fd\<close>; the second component is what it closes.\<close>

definition toAccept :: "family \<Rightarrow> int \<Rightarrow> int \<times> int list" where
  "toAccept fam fd =
     (if fd = -1 then (-1, [])
      else case fam of AF_INET \<Rightarrow> (fd, []) | AF_UNIX \<Rightarrow> (fd, []) | AF_other _ \<Rightarrow> (-1, [fd]))"

record ('t, 'k) tcp_server =
  io_pool_s :: "('t, 'k) reactor io_pool"
  tcp_counts :: int

text \<open>
  One pass of the loop of \<open>MainAcceptCorFunc\<close>, for an accepted descriptor or -1; \<open>mk_add\<close> makes the
  task \<open>[this, io_thread, fd]() { io_thread->addClient(this, fd); }\<close>.  With -1 the coroutine yields.
\<close>

definition accept_pass :: "'k sys \<Rightarrow> (int \<Rightarrow> 't) \<Rightarrow> int \<Rightarrow> ('t, 'k) tcp_server \<Rightarrow> ('t, 'k) tcp_server res" where
  "accept_pass S mk_add fd sv =
     (if fd = -1 then Inr sv
      else bindE (getIOThread (io_pool_s sv)) (\<lambda>(i, p).
        let ts = io_threads p; r = addTask S (Some (mk_add fd)) True (ts ! i) in
        Inr (sv\<lparr>io_pool_s := p\<lparr>io_threads := ts[i := r]\<rparr>, tcp_counts := tcp_counts sv + 1\<rparr>)))"

section \<open>TcpClient\<close>

datatype NetError = NET_NOERROR | NET_CONN_FAILED

text \<open>The connection attempts of \<open>sendAndRecv\<close>; \<open>cn\<close> is \<open>connect_hook\<close>, over any state.\<close>

primrec connect_loop :: "nat \<Rightarrow> ('e \<Rightarrow> int \<times> 'e) \<Rightarrow> 'cb conn \<Rightarrow> 'e \<Rightarrow> 'cb conn \<times> 'e" where
  "connect_loop 0 cn c e = (c, e)"
| "connect_loop (Suc n) cn c e =
     (let (rv, e) = cn e in if rv = 0 then (setUpClient c, e) else connect_loop n cn c e)"

definition sendAndRecv ::
  "int \<Rightarrow> (('t, 'k) hook_st \<Rightarrow> int \<times> ('t, 'k) hook_st) \<Rightarrow> nat \<Rightarrow> ('t, 'k) co_env \<Rightarrow> u64 \<Rightarrow>
   'cb conn \<Rightarrow> ('t, 'k) hook_st \<Rightarrow> (NetError \<times> 'cb conn \<times> ('t, 'k) hook_st) res" where
  "sendAndRecv max_retry cn n E p c st =
     (let (c, st) = (if state c \<noteq> Connected then connect_loop (nat max_retry) cn c st else (c, st)) in
      if state c \<noteq> Connected then Inr (NET_CONN_FAILED, c, st)
      else
        bindE (tcp_output n E p (setUpClient c) st) (\<lambda>(c, st).
        bindE (tcp_input n E p c st) (\<lambda>(fresh, c, st). Inr (NET_NOERROR, c, st))))"

section \<open>Lemmas\<close>

definition pool_at :: "nat \<Rightarrow> 'th io_pool \<Rightarrow> bool" where
  "pool_at k p \<longleftrightarrow> io_threads p \<noteq> [] \<and> size_p p = int (length (io_threads p)) \<and>
     (index_p p = int (k mod length (io_threads p)) \<or>
      (k mod length (io_threads p) = 0 \<and> (index_p p = -1 \<or> index_p p = size_p p)))"

lemma getIOThread_at:
  assumes "pool_at k p"
  shows "\<exists>p'. getIOThread p = Inr (k mod length (io_threads p), p') \<and> pool_at (Suc k) p' \<and> io_threads p' = io_threads p"
proof -
  let ?n = "length (io_threads p)"
  have "0 < ?n" using assms by (simp add: pool_at_def)
  then obtain j where j: "k mod ?n = j" "j < ?n" using mod_less_divisor by blast
  have suc: "Suc k mod ?n = (if Suc j = ?n then 0 else Suc j)" unfolding j(1) [symmetric] by (rule mod_Suc)
  show ?thesis
    using assms j(2) suc unfolding pool_at_def j(1)
    by (auto simp: getIOThread_def Let_def split: if_splits)
qed

lemma accept_pass_ok:
  assumes "pool_at k (io_pool_s sv)" and "fd \<noteq> -1"
  shows "\<exists>sv'. accept_pass S mk_add fd sv = Inr sv' \<and> pool_at (Suc k) (io_pool_s sv') \<and>
    tcp_counts sv' = tcp_counts sv + 1 \<and> length (io_threads (io_pool_s sv')) = length (io_threads (io_pool_s sv)) \<and>
    (\<forall>j<length (io_threads (io_pool_s sv)). pending_tasks (io_threads (io_pool_s sv') ! j) =
       pending_tasks (io_threads (io_pool_s sv) ! j) @
       (if j = k mod length (io_threads (io_pool_s sv)) then [Some (mk_add fd)] else []))"
proof -
  from getIOThread_at [OF assms(1)] obtain p' where
    p': "getIOThread (io_pool_s sv) = Inr (k mod length (io_threads (io_pool_s sv)), p')" "pool_at (Suc k) p'"
      "io_threads p' = io_threads (io_pool_s sv)" by blast
  then show ?thesis
    using assms(2) by (auto simp: accept_pass_def addTask_def pool_at_def Let_def nth_list_update)
qed

text \<open>The descriptors of a sequence that go to thread \<open>j\<close> of \<open>n\<close>, the first one being number \<open>k\<close>.\<close>

primrec share :: "nat \<Rightarrow> nat \<Rightarrow> nat \<Rightarrow> int list \<Rightarrow> int list" where
  "share n j k [] = []"
| "share n j k (fd # rest) = (if k mod n = j then [fd] else []) @ share n j (Suc k) rest"

lemma accept_passes:
  assumes "pool_at k (io_pool_s sv)" and "-1 \<notin> set xs"
  shows "\<exists>sv'. foldE (accept_pass S mk_add) xs sv = Inr sv' \<and> tcp_counts sv' = tcp_counts sv + int (length xs) \<and>
    (\<forall>j<length (io_threads (io_pool_s sv)). pending_tasks (io_threads (io_pool_s sv') ! j) =
       pending_tasks (io_threads (io_pool_s sv) ! j) @
       map (\<lambda>fd. Some (mk_add fd)) (share (length (io_threads (io_pool_s sv))) j k xs))"
  using assms
proof (induction xs arbitrary: k sv)
  case (Cons fd xs)
  from accept_pass_ok [OF Cons.prems(1), of fd S mk_add] Cons.prems(2) obtain sv1 where
    1: "accept_pass S mk_add fd sv = Inr sv1" "pool_at (Suc k) (io_pool_s sv1)" "tcp_counts sv1 = tcp_counts sv + 1"
      "length (io_threads (io_pool_s sv1)) = length (io_threads (io_pool_s sv))"
      "\<forall>j<length (io_threads (io_pool_s sv)). pending_tasks (io_threads (io_pool_s sv1) ! j) =
         pending_tasks (io_threads (io_pool_s sv) ! j) @
         (if j = k mod length (io_threads (io_pool_s sv)) then [Some (mk_add fd)] else [])" by auto
  from Cons.IH [OF 1(2)] Cons.prems(2) 1 show ?case by auto
qed simp

lemma connect_loop_connected:
  "state c \<noteq> Connected \<Longrightarrow>
   state (fst (connect_loop n cn c e)) = Connected \<longleftrightarrow> (\<exists>i<n. fst (cn (((snd \<circ> cn) ^^ i) e)) = 0)"
proof (induction n arbitrary: e)
  case (Suc n)
  show ?case
  proof (cases "fst (cn e) = 0")
    case True
    then have "\<exists>i<Suc n. fst (cn (((snd \<circ> cn) ^^ i) e)) = 0" by (intro exI [of _ 0]) simp
    with True show ?thesis by (auto simp: Let_def case_prod_beta setUpClient_def)
  next
    case False
    have "(\<exists>i<Suc n. fst (cn (((snd \<circ> cn) ^^ i) e)) = 0) \<longleftrightarrow>
        (\<exists>i<n. fst (cn (((snd \<circ> cn) ^^ i) (snd (cn e)))) = 0)"
      using False unfolding Ex_less_Suc2 by (simp add: funpow_swap1)
    with False Suc show ?thesis by (simp add: Let_def case_prod_beta comp_def)
  qed
qed simp

section \<open>Properties\<close>

text \<open>Distribution of connections.  A server with at least one I/O thread hands the accepted
  connections out in turn: after any sequence of accepted descriptors, thread \<open>j\<close> of \<open>n\<close> has been queued
  an \<open>addClient\<close> task for exactly the descriptors number \<open>j\<close>, \<open>j + n\<close>, \<open>j + 2n\<close> and so on, in order, and
  the connection counter is the number of descriptors.\<close>

theorem accept_round_robin:
  assumes "ts \<noteq> []" and "-1 \<notin> set xs"
  shows "\<exists>sv'. foldE (accept_pass S mk_add) xs \<lparr>io_pool_s = new_IOThreadPool ts, tcp_counts = 0\<rparr> = Inr sv' \<and>
    tcp_counts sv' = int (length xs) \<and>
    (\<forall>j<length ts. pending_tasks (io_threads (io_pool_s sv') ! j) =
       pending_tasks (ts ! j) @ map (\<lambda>fd. Some (mk_add fd)) (share (length ts) j 0 xs))"
proof -
  have "pool_at 0 (io_pool_s \<lparr>io_pool_s = new_IOThreadPool ts, tcp_counts = 0\<rparr>)"
    using assms(1) by (simp add: pool_at_def new_IOThreadPool_def)
  from accept_passes [OF this assms(2), of S mk_add] show ?thesis
    by (simp add: new_IOThreadPool_def)
qed

theorem accept_round_robin_witness:
  "\<exists>sv'. foldE (accept_pass mini_sys nat) [7, 8, 9] \<lparr>io_pool_s = new_IOThreadPool [demo_reactor, demo_reactor], tcp_counts = 0\<rparr> =
       Inr sv' \<and> pending_tasks (io_threads (io_pool_s sv') ! 0) = [Some 1, Some 7, Some 9]"
  using accept_round_robin [of "[demo_reactor, demo_reactor]" "[7, 8, 9]" mini_sys nat]
  by (auto simp: demo_reactor_def)

text \<open>New clients.  A descriptor whose connection exists and is not closed is refused and nothing
  changes.  A descriptor without a connection gets one, provided it has an event, a coroutine is free and
  the wheel has a bucket: the connection is \<open>Connected\<close> with empty buffers, its slot is in the newest bucket
  of the time wheel, its coroutine is set to the server loop and queued for resumption, and every other
  connection is as before.\<close>

theorem addClient_adds:
  assumes "clients io fd = None \<or> clients io fd = Some None"
    and "event_of fd (hst io) = Inr (p, h)" and "heap (hr h) p = Some e" and "pending_tasks (hr h) = ts"
    and "getCoroutineInstanse (malloc E) (cpool io) (cth io) = Inr (Some i, pool, t)"
    and "setCoCallBack i (server_loop E fd) t = Inr (ok, t')"
    and "time_wheel io \<noteq> []"
  shows "\<exists>io' c. addClient E fd io = Inr (True, io') \<and> clients io' = (clients io)(fd \<mapsto> Some c) \<and>
    state c = Connected \<and> contents (read_buffer c) = [] \<and> contents (write_buffer c) = [] \<and> has_slot c \<and>
    slot_fd io' ! length (slot_fd io) = fd \<and> newest_at (length (slot_fd io)) (length (time_wheel io) - 1) 0 (time_wheel io') \<and>
    conn_cor io' fd = Some i \<and> pending_tasks (hr (hst io')) = ts @ [Some (mk_res E i)] \<and>
    addClient E fd io' = Inr (False, io')"
proof -
  have sz: "0 \<le> (128::int)" "(128::int) \<le> 2147483647" by simp_all
  obtain b where b: "new_TcpBuffer 128 = Inr b" "contents b = []"
    using new_TcpBuffer_ok [OF sz] by auto
  let ?c = "\<lparr>c_fd = fd, state = Connected, conn_type = ServerConnection, read_buffer = b, write_buffer = b,
     stopped = False, has_slot = False, rcb = None, wcb = None\<rparr> :: 'a conn"
  have c: "new_conn ServerConnection fd 128 = Inr ?c" using b(1) by (simp add: new_conn_def)
  obtain w where w: "fresh (length (slot_fd io)) (time_wheel io) = Inr w"
    "newest_at (length (slot_fd io)) (length (time_wheel io) - 1) 0 w"
    using fresh_newest [OF assms(7)] by blast
  have on: "on_event p (\<lambda>e. e\<lparr>m_reactor := Some (this_rea E)\<rparr>) (hr h) =
      Inr (store_event p (e\<lparr>m_reactor := Some (this_rea E)\<rparr>) (hr h))"
    using assms(3) by (simp add: on_event_def with_event_def)
  let ?io = "io\<lparr>hst := h\<lparr>hr := addCoroutine (os E) (mk_res E) i True
       (store_event p (e\<lparr>m_reactor := Some (this_rea E)\<rparr>) (hr h))\<rparr>, cpool := pool, cth := t',
       time_wheel := w, slot_fd := slot_fd io @ [fd]\<rparr>"
  let ?d = "?c\<lparr>has_slot := True\<rparr>"
  have ns: "new_server_conn E fd io = Inr (?c, i, io\<lparr>hst := hst ?io, cpool := pool, cth := t'\<rparr>)"
    using assms(2,5,6) on c by (simp add: new_server_conn_def)
  have "addClient E fd io = Inr (True, ?io\<lparr>clients := (clients io)(fd \<mapsto> Some ?d), conn_cor := (conn_cor io)(fd \<mapsto> i)\<rparr>)"
    using assms(1) ns w(1) by (auto simp: addClient_def registerToTimeWheel_def Let_def)
  moreover have "pending_tasks (hr (hst ?io)) = ts @ [Some (mk_res E i)]"
    using assms(4) by (simp add: addCoroutine_def addTask_def store_event_def)
  ultimately show ?thesis
    using b(2) w(2)
    by (intro exI [of _ "?io\<lparr>clients := (clients io)(fd \<mapsto> Some ?d), conn_cor := (conn_cor io)(fd \<mapsto> i)\<rparr>"] exI [of _ ?d])
      (simp add: addClient_def)
qed

definition demo_io :: "(nat, nat, mini_kernel, nat) io_thread" where
  "demo_io = \<lparr>clients = Map.empty, conn_cor = Map.empty, time_wheel = new_TimeWheel 2, slot_fd = [], hst = demo_hook,
     cpool = demo_pool, cth = demo_cothread\<rparr>"

definition demo_env :: "(nat, mini_kernel, nat) io_env" where
  "demo_env = \<lparr>os = mini_sys, malloc = (\<lambda>_. 4096), mk_res = (\<lambda>i. i), server_loop = (\<lambda>fd. []), this_rea = 0\<rparr>"

theorem addClient_adds_witness:
  "\<exists>io' c. addClient demo_env 9 demo_io = Inr (True, io') \<and> clients io' 9 = Some (Some c) \<and> state c = Connected \<and>
     addClient demo_env 9 io' = Inr (False, io')"
proof -
  have nth: "[0::nat..<10] ! nat 9 = 9" by simp
  have "cast_int 10 = 10" by (simp add: cast_int_small)
  then have ev: "event_of 9 (hst demo_io) = Inr (10, demo_hook)"
    by (simp add: event_of_def demo_io_def demo_hook_def getFdEvent_def getFdEvent_rest_def addr_def nth del: upt_rec_numeral)
  have g: "getCoroutineInstanse (malloc demo_env) (cpool demo_io) (cth demo_io) =
      Inr (Some 1, demo_pool\<lparr>m_free_cors := [(None, False), (Some 1, True), (Some 2, False)]\<rparr>, demo_cothread)"
    by (simp add: demo_env_def demo_io_def demo_pool_def demo_cothread_def getCoroutineInstanse_def guardE_def Let_def)
  have "\<exists>t'. setCoCallBack 1 (server_loop demo_env 9) demo_cothread = Inr (True, t')"
    by (simp add: setCoCallBack_def demo_env_def demo_cothread_def guardE_def Let_def)
  then obtain t' where t': "setCoCallBack 1 (server_loop demo_env 9) demo_cothread = Inr (True, t')" ..
  have h: "heap (hr demo_hook) 10 = Some \<lparr>m_fd = 9, read_cb = None, write_cb = None, listen_events = 0, m_reactor = None\<rparr>"
    by (simp add: demo_hook_def)
  from addClient_adds [OF _ ev h refl g t'] show ?thesis
    by (auto simp: demo_io_def new_TimeWheel_def)
qed

text \<open>Connecting.  \<open>sendAndRecv\<close> reports a failed connection exactly when the connection was not yet
  connected and none of the first \<open>max_retry\<close> attempts succeeds; the attempts stop at the first success.\<close>

theorem sendAndRecv_fails_iff:
  assumes "sendAndRecv max_retry cn n E p c r = Inr (err, c', r')"
  shows "err = NET_CONN_FAILED \<longleftrightarrow>
    state c \<noteq> Connected \<and> (\<forall>i<nat max_retry. fst (cn (((snd \<circ> cn) ^^ i) r)) \<noteq> 0)"
proof (cases "state c = Connected")
  case True
  then show ?thesis using assms by (auto simp: sendAndRecv_def bindE_Inr_iff)
next
  case False
  let ?p = "connect_loop (nat max_retry) cn c r"
  have "err = NET_CONN_FAILED \<longleftrightarrow> state (fst ?p) \<noteq> Connected"
    using assms False by (cases ?p) (auto simp: sendAndRecv_def bindE_Inr_iff split: if_splits)
  then show ?thesis using connect_loop_connected [OF False, of "nat max_retry" cn r] False by blast
qed

theorem sendAndRecv_fails_iff_witness:
  "sendAndRecv 3 (\<lambda>r. (-1, r)) 1 (demo_co mini_sys) 10 (demo_conn\<lparr>state := NotConnected\<rparr>) demo_cst =
     Inr (NET_CONN_FAILED, demo_conn\<lparr>state := NotConnected\<rparr>, demo_cst)"
proof -
  have "sendAndRecv 3 (\<lambda>r. (-1, r)) 1 (demo_co mini_sys) 10 (demo_conn\<lparr>state := NotConnected\<rparr>) demo_cst =
     Inr (NET_CONN_FAILED, demo_conn\<lparr>state := NotConnected\<rparr>, demo_cst)"
    by (simp add: sendAndRecv_def numeral_3_eq_3 nat_eq_iff)
  with sendAndRecv_fails_iff [OF this] show ?thesis by simp
qed

end
