(* ===== verification/Io_Loop.thy ===== *)
theory Io_Loop
  imports Reactor
begin

text \<open>
  The event loop while another thread uses it: \<open>Reactor::loop\<close> of \<^verbatim>\<open>src/net/reactor.cc\<close> in steps, and the life of an
  \<open>IOThread\<close> object of \<^verbatim>\<open>src/net/io_thread.cc\<close>.

  \<open>Reactor\<close> has the loop as one function.  Here it is cut where other threads may come in between: the assignments to the flags, the
  test of \<open>stop_flag_\<close>, each round of the task loop, \<open>pending_tasks_.clear()\<close> (which the code does without the mutex), and the rest of
  the pass.  Without other threads the steps compute what the function computes (\<open>main_steps_loop\<close>).  The other thread is the owner of the
  \<open>IOThread\<close>: it posts tasks to the reactor and runs the destructor.
\<close>

section \<open>Steps\<close>

datatype loop_pc = At_init | At_setup | At_enter | At_unstop | At_test | At_task nat | At_clear | At_poll | At_end

datatype owner_pc = Owns | Joining | Destroyed

text \<open>\<open>the_reactor\<close> (\<open>reactor_\<close> in the code) has no value until \<open>main\<close> stores it.  \<open>ran\<close> and \<open>pushed\<close> are history: the tasks called, the tasks put into the queue.\<close>

record ('t, 'k) io_run =
  the_reactor :: "('t, 'k) reactor option"
  pc :: loop_pc
  owner :: owner_pc
  ran :: "'t list"
  pushed :: "'t option list"

type_synonym ('t, 'k) exec_fun = "'t \<Rightarrow> ('t, 'k) reactor \<Rightarrow> ('t, 'k) reactor res"

text \<open>A pass of the loop after \<open>clear()\<close>.\<close>

definition loop_poll :: "nat \<Rightarrow> 'k sys \<Rightarrow> ('t, 'k) reactor \<Rightarrow> ('t, 'k) reactor res" where
  "loop_poll n S r =
     (let ((rv, re_events), k) = sys_epoll_wait S (epfd r) 10 10000 (kern r); r = r\<lparr>kern := k\<rparr> in
      if rv < 0 then Inr r
      else bindE (foldE (handle_event n S) (take (nat rv) re_events) r) (apply_pending S))"

lemma loop_body_split:
  "loop_body n S exec r = bindE (run_tasks n exec 0 r) (\<lambda>r. loop_poll n S (r\<lparr>pending_tasks := []\<rparr>))"
  by (simp add: loop_body_def loop_poll_def Let_def)

definition grow :: "('t, 'k) reactor \<Rightarrow> ('t, 'k) reactor \<Rightarrow> 't option list" where
  "grow r r' = drop (length (pending_tasks r)) (pending_tasks r')"

text \<open>
  What \<open>IOThread::main\<close> does before \<open>loop\<close>: it makes the reactor, stores it in \<open>reactor_\<close>, where the owner can see it, and then sets up
  the timers.
\<close>

type_synonym ('t, 'k) io_start = "('t, 'k) reactor res \<times> (('t, 'k) reactor \<Rightarrow> ('t, 'k) reactor res)"

definition main_step ::
  "nat \<Rightarrow> 'k sys \<Rightarrow> ('t, 'k) exec_fun \<Rightarrow> ('t, 'k) io_start \<Rightarrow> ('t, 'k) io_run \<Rightarrow> ('t, 'k) io_run res" where
  "main_step n S exec init s =
     (if pc s = At_init then bindE (fst init) (\<lambda>r. Inr (s\<lparr>the_reactor := Some r, pc := At_setup\<rparr>))
      else case the_reactor s of None \<Rightarrow> Inl Null_deref
      | Some r \<Rightarrow> (case pc s of
          At_init \<Rightarrow> Inr s
        | At_setup \<Rightarrow> bindE (snd init r) (\<lambda>r'. Inr (s\<lparr>the_reactor := Some r', pc := At_enter, pushed := pushed s @ grow r r'\<rparr>))
        | At_enter \<Rightarrow> bindE (guardE (isLoopThread S r) Assert_failed) (\<lambda>_.
            Inr (if looping r then s\<lparr>pc := At_end\<rparr> else s\<lparr>the_reactor := Some (r\<lparr>looping := True\<rparr>), pc := At_unstop\<rparr>))
        | At_unstop \<Rightarrow> Inr (s\<lparr>the_reactor := Some (r\<lparr>stop_flag := False\<rparr>), pc := At_test\<rparr>)
        | At_test \<Rightarrow> Inr (if stop_flag r then s\<lparr>the_reactor := Some (r\<lparr>looping := False\<rparr>), pc := At_end\<rparr> else s\<lparr>pc := At_task 0\<rparr>)
        | At_task i \<Rightarrow>
            if i < length (pending_tasks r)
            then (case pending_tasks r ! i of None \<Rightarrow> Inl Bad_function_call
                  | Some t \<Rightarrow> bindE (exec t r) (\<lambda>r'.
                      Inr (s\<lparr>the_reactor := Some r', pc := At_task (Suc i), ran := ran s @ [t], pushed := pushed s @ grow r r'\<rparr>)))
            else Inr (s\<lparr>pc := At_clear\<rparr>)
        | At_clear \<Rightarrow> Inr (s\<lparr>the_reactor := Some (r\<lparr>pending_tasks := []\<rparr>), pc := At_poll\<rparr>)
        | At_poll \<Rightarrow> bindE (loop_poll n S r) (\<lambda>r'. Inr (s\<lparr>the_reactor := Some r', pc := At_test, pushed := pushed s @ grow r r'\<rparr>))
        | At_end \<Rightarrow> Inr s))"

text \<open>The owner: \<open>getReactor()->addTask(...)\<close>; the destructor up to \<open>pthread_join\<close>; and from its return, which waits for \<open>main\<close> to return.\<close>

definition owner_post :: "'k sys \<Rightarrow> 't \<Rightarrow> ('t, 'k) io_run \<Rightarrow> ('t, 'k) io_run res" where
  "owner_post S t s =
     (case the_reactor s of None \<Rightarrow> Inl Null_deref
      | Some r \<Rightarrow> Inr (s\<lparr>the_reactor := Some (addTask S (Some t) True r), pushed := pushed s @ [Some t]\<rparr>))"

definition owner_stop :: "'k sys \<Rightarrow> ('t, 'k) io_run \<Rightarrow> ('t, 'k) io_run res" where
  "owner_stop S s =
     (case the_reactor s of None \<Rightarrow> Inl Null_deref | Some r \<Rightarrow> Inr (s\<lparr>the_reactor := Some (stop S r), owner := Joining\<rparr>))"

definition owner_join :: "('t, 'k) io_run \<Rightarrow> ('t, 'k) io_run option" where
  "owner_join s = (if pc s = At_end then Some (s\<lparr>the_reactor := None, owner := Destroyed\<rparr>) else None)"

text \<open>With \<open>gap\<close> false, no task arrives between the last test of the task loop and \<open>clear()\<close>.\<close>

inductive io_step ::
  "nat \<Rightarrow> 'k sys \<Rightarrow> ('t, 'k) exec_fun \<Rightarrow> ('t, 'k) io_start \<Rightarrow> bool \<Rightarrow> ('t, 'k) io_run \<Rightarrow> ('t, 'k) io_run \<Rightarrow> bool"
  for n S exec init gap where
  main: "main_step n S exec init s = Inr s' \<Longrightarrow> owner s \<noteq> Destroyed \<Longrightarrow> io_step n S exec init gap s s'"
| post: "owner s = Owns \<Longrightarrow> gap \<or> pc s \<noteq> At_clear \<Longrightarrow> owner_post S t s = Inr s' \<Longrightarrow> io_step n S exec init gap s s'"
| stop: "owner s = Owns \<Longrightarrow> owner_stop S s = Inr s' \<Longrightarrow> io_step n S exec init gap s s'"
| join: "owner s = Joining \<Longrightarrow> owner_join s = Some s' \<Longrightarrow> io_step n S exec init gap s s'"

inductive_cases io_stepE: "io_step n S exec init gap s s'"

definition new_IOThread :: "('t, 'k) io_run" where
  "new_IOThread = \<lparr>the_reactor = None, pc = At_init, owner = Owns, ran = [], pushed = []\<rparr>"

section \<open>What a pass leaves alone\<close>

text \<open>The flags stay (\<open>init_timer_\<close> is never set by any code) and the task queue only grows.\<close>

definition extends :: "('t, 'k) reactor \<Rightarrow> ('t, 'k) reactor \<Rightarrow> bool" where
  "extends r r' \<longleftrightarrow> stop_flag r' = stop_flag r \<and> looping r' = looping r \<and> init_timer r' = init_timer r \<and>
     pending_tasks r' = pending_tasks r @ grow r r'"

lemma extendsI:
  "stop_flag r' = stop_flag r \<Longrightarrow> looping r' = looping r \<Longrightarrow> init_timer r' = init_timer r \<Longrightarrow> pending_tasks r' = pending_tasks r @ new \<Longrightarrow> extends r r'"
  by (simp add: extends_def grow_def)

lemma extends_refl: "extends r r"
  by (simp add: extends_def grow_def)

lemma extends_trans: "extends r r' \<Longrightarrow> extends r' r'' \<Longrightarrow> extends r r''"
  by (rule extendsI [where new = "grow r r' @ grow r' r''"]) (simp_all add: extends_def)

lemma foldE_extends: "foldE f xs r = Inr r' \<Longrightarrow> (\<And>x r r'. f x r = Inr r' \<Longrightarrow> extends r r') \<Longrightarrow> extends r r'"
proof (induction xs arbitrary: r)
  case Nil
  then show ?case by (simp add: extends_refl)
next
  case (Cons x xs)
  then obtain r1 where "f x r = Inr r1" "foldE f xs r1 = Inr r'" by (auto simp: bindE_Inr_iff)
  with Cons show ?case using extends_trans by blast
qed

lemma addEventInLoopThread_extends: "addEventInLoopThread S fd ev r = Inr r' \<Longrightarrow> extends r r'"
  by (rule extendsI [where new = "[]"])
    (auto simp: addEventInLoopThread_def bindE_Inr_iff Let_def case_prod_beta split: if_splits)

lemma delEventInLoopThread_extends: "delEventInLoopThread S fd r = Inr r' \<Longrightarrow> extends r r'"
  by (rule extendsI [where new = "[]"]) (auto simp: delEventInLoopThread_def bindE_Inr_iff Let_def case_prod_beta)

lemma handle_event_extends:
  assumes "handle_event n S ev r = Inr r'"
  shows "extends r r'"
proof (cases "data_fd (data ev) = wake_fd r \<and> events ev AND flag_of READ \<noteq> 0")
  case True
  then show ?thesis using assms by (auto simp: handle_event_def bindE_Inr_iff intro: extendsI)
next
  case False
  show ?thesis
  proof (cases "data ev = 0")
    case True
    then show ?thesis using assms False by (auto simp: handle_event_def extends_refl)
  next
    case data: False
    then obtain e where e: "heap r (data ev) = Some e"
      using assms False by (auto simp: handle_event_def split: option.splits)
    show ?thesis
      using assms False data e delEventInLoopThread_extends
      by (auto simp: handle_event_def Let_def extends_refl intro: extendsI split: if_splits)
  qed
qed

lemma apply_pending_extends: "apply_pending S r = Inr r' \<Longrightarrow> extends r r'"
proof -
  assume "apply_pending S r = Inr r'"
  then obtain r1 where r1: "foldE (\<lambda>(fd, ev). addEventInLoopThread S fd ev) (pending_add_fds r)
      (r\<lparr>pending_add_fds := [], pending_del_fds := []\<rparr>) = Inr r1" "foldE (delEventInLoopThread S) (pending_del_fds r) r1 = Inr r'"
    by (auto simp: apply_pending_def bindE_Inr_iff)
  have "extends r (r\<lparr>pending_add_fds := [], pending_del_fds := []\<rparr>)" by (rule extendsI) simp_all
  moreover have "extends (r\<lparr>pending_add_fds := [], pending_del_fds := []\<rparr>) r1"
    using r1(1) by (rule foldE_extends) (auto intro: addEventInLoopThread_extends)
  moreover have "extends r1 r'"
    using r1(2) delEventInLoopThread_extends by (rule foldE_extends)
  ultimately show ?thesis using extends_trans by blast
qed

lemma loop_poll_extends:
  assumes "loop_poll n S r = Inr r'"
  shows "extends r r'"
proof -
  obtain rv evs k where w: "sys_epoll_wait S (epfd r) 10 10000 (kern r) = ((rv, evs), k)" by (metis surj_pair)
  have k: "extends r (r\<lparr>kern := k\<rparr>)" by (rule extendsI) simp_all
  show ?thesis
  proof (cases "rv < 0")
    case True
    then show ?thesis using assms w k by (simp add: loop_poll_def)
  next
    case False
    then obtain r1 where r1: "foldE (handle_event n S) (take (nat rv) evs) (r\<lparr>kern := k\<rparr>) = Inr r1" "apply_pending S r1 = Inr r'"
      using assms w by (auto simp: loop_poll_def bindE_Inr_iff)
    have "extends (r\<lparr>kern := k\<rparr>) r1" using r1(1) handle_event_extends by (rule foldE_extends)
    with k apply_pending_extends [OF r1(2)] extends_trans show ?thesis by blast
  qed
qed

text \<open>Tasks that neither start nor stop the loop, and only add to the queue.\<close>

definition calm :: "('t, 'k) exec_fun \<Rightarrow> bool" where
  "calm exec \<longleftrightarrow> (\<forall>t r r'. exec t r = Inr r' \<longrightarrow> extends r r')"

text \<open>The new reactor is idle, and setting it up leaves it so.\<close>

definition proper_start :: "('t, 'k) io_start \<Rightarrow> bool" where
  "proper_start init \<longleftrightarrow> (\<forall>r. fst init = Inr r \<longrightarrow> pending_tasks r = [] \<and> \<not> looping r) \<and> (\<forall>r r'. snd init r = Inr r' \<longrightarrow> extends r r')"

lemma addTask_extends [simp]:
  "pending_tasks (addTask S t w r) = pending_tasks r @ [t]" "stop_flag (addTask S t w r) = stop_flag r" "looping (addTask S t w r) = looping r"
  by (simp_all add: addTask_def wakeup_def Let_def)

lemma stop_frame [simp]:
  "pending_tasks (stop S r) = pending_tasks r" "looping (stop S r) = looping r"
  "stop_flag (stop S r) \<longleftrightarrow> stop_flag r \<or> looping r"
  by (auto simp: stop_def wakeup_def)

section \<open>Accounting for tasks\<close>

text \<open>The tasks that the loop will still come to.\<close>

definition waiting :: "('t, 'k) io_run \<Rightarrow> 't option list" where
  "waiting s =
     (case the_reactor s of None \<Rightarrow> []
      | Some r \<Rightarrow> (case pc s of At_task i \<Rightarrow> drop i (pending_tasks r) | At_clear \<Rightarrow> [] | _ \<Rightarrow> pending_tasks r))"

definition pos_ok :: "('t, 'k) io_run \<Rightarrow> bool" where
  "pos_ok s \<longleftrightarrow> (pc s = At_init \<longrightarrow> the_reactor s = None) \<and> (\<forall>i r. pc s = At_task i \<and> the_reactor s = Some r \<longrightarrow> i \<le> length (pending_tasks r))"

text \<open>A step puts some tasks \<open>g\<close> into the queue; called and waiting together grow by exactly them.\<close>

definition account :: "('t, 'k) io_run \<Rightarrow> ('t, 'k) io_run \<Rightarrow> bool" where
  "account s s' \<longleftrightarrow> (\<exists>g. pushed s' = pushed s @ g \<and> map Some (ran s') @ waiting s' = map Some (ran s) @ waiting s @ g)"

lemma account_same: "pushed s' = pushed s \<Longrightarrow> ran s' = ran s \<Longrightarrow> waiting s' = waiting s \<Longrightarrow> account s s'"
  by (simp add: account_def)

lemma account_grow:
  "pushed s' = pushed s @ g \<Longrightarrow> map Some (ran s') @ waiting s' = map Some (ran s) @ waiting s @ g \<Longrightarrow> account s s'"
  by (auto simp: account_def)

lemma quiet_step:
  assumes "s' = s\<lparr>the_reactor := Some r', pc := p\<rparr>" and "the_reactor s = Some r" and "pending_tasks r' = pending_tasks r"
    and "pc s \<in> {At_enter, At_unstop, At_test, At_end}" and "p \<in> {At_unstop, At_test, At_end, At_task 0}"
  shows "pos_ok s' \<and> account s s'"
  using assms by (auto simp: pos_ok_def waiting_def intro!: account_same)

lemma main_step_account:
  assumes "main_step n S exec init s = Inr s'" and "calm exec" and "proper_start init" and "pos_ok s"
  shows "pos_ok s' \<and> account s s'"
proof (cases "pc s = At_init")
  case True
  then obtain r where r: "fst init = Inr r" "s' = s\<lparr>the_reactor := Some r, pc := At_setup\<rparr>"
    using assms(1) by (auto simp: main_step_def bindE_Inr_iff)
  then show ?thesis
    using assms(3,4) True by (auto simp: proper_start_def pos_ok_def waiting_def intro!: account_same)
next
  case False
  then obtain r where r: "the_reactor s = Some r" using assms(1) by (auto simp: main_step_def split: option.splits)
  show ?thesis
  proof (cases "pc s")
    case (At_task i)
    show ?thesis
    proof (cases "i < length (pending_tasks r)")
      case True
      then obtain t r' where t: "pending_tasks r ! i = Some t" "exec t r = Inr r'"
          "s' = s\<lparr>the_reactor := Some r', pc := At_task (Suc i), ran := ran s @ [t], pushed := pushed s @ grow r r'\<rparr>"
        using assms(1) At_task r by (auto simp: main_step_def bindE_Inr_iff split: option.splits)
      have ext: "pending_tasks r' = pending_tasks r @ grow r r'" using assms(2) t(2) by (auto simp: calm_def extends_def)
      have "drop i (pending_tasks r) = Some t # drop (Suc i) (pending_tasks r)"
        using True t(1) by (simp add: Cons_nth_drop_Suc [symmetric])
      then have "account s s'"
        using t(3) ext True At_task r by (intro account_grow [where g = "grow r r'"]) (simp_all add: waiting_def)
      then show ?thesis using t(3) ext True by (simp add: pos_ok_def)
    next
      case False
      then have "s' = s\<lparr>pc := At_clear\<rparr>" using assms(1) At_task r by (simp add: main_step_def)
      then show ?thesis using False At_task r by (auto simp: pos_ok_def waiting_def intro: account_same)
    qed
  next
    case At_poll
    then obtain r' where r': "loop_poll n S r = Inr r'" "s' = s\<lparr>the_reactor := Some r', pc := At_test, pushed := pushed s @ grow r r'\<rparr>"
      using assms(1) r by (auto simp: main_step_def bindE_Inr_iff)
    have "pending_tasks r' = pending_tasks r @ grow r r'" using loop_poll_extends [OF r'(1)] by (simp add: extends_def)
    then have "account s s'" using r' r At_poll by (intro account_grow [where g = "grow r r'"]) (simp_all add: waiting_def)
    then show ?thesis using r' by (simp add: pos_ok_def)
  next
    case At_setup
    then obtain r' where r': "snd init r = Inr r'" "s' = s\<lparr>the_reactor := Some r', pc := At_enter, pushed := pushed s @ grow r r'\<rparr>"
      using assms(1) r by (auto simp: main_step_def bindE_Inr_iff)
    have "pending_tasks r' = pending_tasks r @ grow r r'" using assms(3) r'(1) by (simp add: proper_start_def extends_def)
    then have "account s s'" using r' r At_setup by (intro account_grow [where g = "grow r r'"]) (simp_all add: waiting_def)
    then show ?thesis using r' by (simp add: pos_ok_def)
  next
    case At_clear
    then have "s' = s\<lparr>the_reactor := Some (r\<lparr>pending_tasks := []\<rparr>), pc := At_poll\<rparr>"
      using assms(1) r by (simp add: main_step_def)
    then show ?thesis using At_clear r by (auto simp: pos_ok_def waiting_def intro: account_same)
  next
    case At_enter
    then have "s' = s\<lparr>the_reactor := Some r, pc := At_end\<rparr> \<or> s' = s\<lparr>the_reactor := Some (r\<lparr>looping := True\<rparr>), pc := At_unstop\<rparr>"
      using assms(1) r by (auto simp: main_step_def bindE_Inr_iff)
    then show ?thesis using quiet_step [OF _ r] At_enter by auto
  next
    case At_unstop
    then have "s' = s\<lparr>the_reactor := Some (r\<lparr>stop_flag := False\<rparr>), pc := At_test\<rparr>"
      using assms(1) r by (simp add: main_step_def)
    then show ?thesis using quiet_step [OF _ r] At_unstop by simp
  next
    case At_test
    then have "s' = s\<lparr>the_reactor := Some (r\<lparr>looping := False\<rparr>), pc := At_end\<rparr> \<or> s' = s\<lparr>the_reactor := Some r, pc := At_task 0\<rparr>"
      using assms(1) r by (auto simp: main_step_def)
    then show ?thesis using quiet_step [OF _ r] At_test by auto
  next
    case At_end
    then have "s' = s" using assms(1) r by (simp add: main_step_def)
    then show ?thesis using assms(4) by (simp add: account_same)
  qed (use False in simp)
qed

lemma owner_post_account:
  assumes "owner_post S t s = Inr s'" and "pos_ok s" and "pc s \<noteq> At_clear"
  shows "pos_ok s' \<and> account s s'"
proof -
  obtain r where r: "the_reactor s = Some r" "s' = s\<lparr>the_reactor := Some (addTask S (Some t) True r), pushed := pushed s @ [Some t]\<rparr>"
    using assms(1) by (auto simp: owner_post_def split: option.splits)
  have "waiting s' = waiting s @ [Some t]"
    using r assms(2,3) by (cases "pc s") (auto simp: waiting_def pos_ok_def)
  then have "account s s'" using r by (intro account_grow [where g = "[Some t]"]) simp_all
  then show ?thesis using r assms(2) by (auto simp: pos_ok_def)
qed

lemma owner_stop_account: "owner_stop S s = Inr s' \<Longrightarrow> pos_ok s \<Longrightarrow> pos_ok s' \<and> account s s'"
  by (auto simp: owner_stop_def pos_ok_def waiting_def intro!: account_same split: option.splits loop_pc.splits)

lemma io_step_account:
  assumes "io_step n S exec init False s s'" and "calm exec" and "proper_start init" and "pos_ok s"
    and "owner s' \<noteq> Destroyed"
  shows "pos_ok s' \<and> account s s'"
  using assms(1)
proof (rule io_stepE)
  assume "main_step n S exec init s = Inr s'"
  then show ?thesis by (rule main_step_account [OF _ assms(2-4)])
next
  fix t assume p: "owner_post S t s = Inr s'" and "False \<or> pc s \<noteq> At_clear"
  then have "pc s \<noteq> At_clear" by simp
  with p assms(4) show ?thesis by (rule owner_post_account)
next
  assume "owner_stop S s = Inr s'"
  then show ?thesis using assms(4) by (rule owner_stop_account)
next
  assume "owner_join s = Some s'"
  then show ?thesis using assms(5) by (auto simp: owner_join_def split: if_splits)
qed

lemma io_steps_account:
  assumes "(io_step n S exec init False)\<^sup>*\<^sup>* new_IOThread s" and "calm exec" and "proper_start init"
  shows "owner s = Destroyed \<or> pos_ok s \<and> pushed s = map Some (ran s) @ waiting s"
  using assms(1)
proof (induction rule: rtranclp_induct)
  case base
  show ?case by (simp add: new_IOThread_def pos_ok_def waiting_def)
next
  case (step s s')
  show ?case
  proof (cases "owner s = Destroyed")
    case True
    with step.hyps(2) have False by (rule_tac io_stepE [OF step.hyps(2)]) simp_all
    then show ?thesis ..
  next
    case False
    with step io_step_account [OF step.hyps(2) assms(2,3)] show ?thesis by (auto simp: account_def)
  qed
qed

section \<open>The steps and the function\<close>

primrec main_steps ::
  "nat \<Rightarrow> nat \<Rightarrow> 'k sys \<Rightarrow> ('t, 'k) exec_fun \<Rightarrow> ('t, 'k) io_start \<Rightarrow> ('t, 'k) io_run \<Rightarrow> ('t, 'k) io_run res" where
  "main_steps 0 n S exec init s = Inr s"
| "main_steps (Suc k) n S exec init s = bindE (main_step n S exec init s) (main_steps k n S exec init)"

lemma main_steps_add: "main_steps (j + k) n S exec init s = bindE (main_steps j n S exec init s) (main_steps k n S exec init)"
proof (induction j arbitrary: s)
  case (Suc j)
  then show ?case by (cases "main_step n S exec init s") simp_all
qed simp

text \<open>\<open>s\<close> gets to position \<open>p\<close> with reactor \<open>r\<close> by steps of the thread alone.\<close>

definition gets_to ::
  "nat \<Rightarrow> 'k sys \<Rightarrow> ('t, 'k) exec_fun \<Rightarrow> ('t, 'k) io_start \<Rightarrow> ('t, 'k) io_run \<Rightarrow> loop_pc \<Rightarrow> ('t, 'k) reactor \<Rightarrow> bool" where
  "gets_to n S exec init s p r \<longleftrightarrow>
     (\<exists>k s'. main_steps k n S exec init s = Inr s' \<and> pc s' = p \<and> the_reactor s' = Some r \<and> owner s' = owner s)"

lemma gets_to_here: "pc s = p \<Longrightarrow> the_reactor s = Some r \<Longrightarrow> gets_to n S exec init s p r"
  unfolding gets_to_def by (intro exI [of _ 0]) simp

lemma gets_to_step:
  assumes "main_step n S exec init s = Inr s'" and "owner s' = owner s" and "gets_to n S exec init s' p r"
  shows "gets_to n S exec init s p r"
proof -
  obtain k s2 where "main_steps k n S exec init s' = Inr s2" "pc s2 = p" "the_reactor s2 = Some r" "owner s2 = owner s'"
    using assms(3) by (auto simp: gets_to_def)
  then show ?thesis unfolding gets_to_def using assms(1,2) by (intro exI [of _ "Suc k"]) simp
qed

lemma gets_to_trans:
  assumes "gets_to n S exec init s p r"
    and "\<And>s'. pc s' = p \<Longrightarrow> the_reactor s' = Some r \<Longrightarrow> gets_to n S exec init s' p' r'"
  shows "gets_to n S exec init s p' r'"
proof -
  obtain k s1 where 1: "main_steps k n S exec init s = Inr s1" "pc s1 = p" "the_reactor s1 = Some r" "owner s1 = owner s"
    using assms(1) by (auto simp: gets_to_def)
  obtain k' s2 where 2: "main_steps k' n S exec init s1 = Inr s2" "pc s2 = p'" "the_reactor s2 = Some r'" "owner s2 = owner s1"
    using assms(2) [OF 1(2,3)] by (auto simp: gets_to_def)
  show ?thesis unfolding gets_to_def using 1 2 by (intro exI [of _ "k + k'"]) (simp add: main_steps_add)
qed

text \<open>The rest of the pass the loop is in.\<close>

definition rest_of_pass ::
  "nat \<Rightarrow> 'k sys \<Rightarrow> ('t, 'k) exec_fun \<Rightarrow> loop_pc \<Rightarrow> ('t, 'k) reactor \<Rightarrow> ('t, 'k) reactor res" where
  "rest_of_pass n S exec p r =
     (case p of
        At_task i \<Rightarrow> bindE (run_tasks n exec i r) (\<lambda>r. loop_poll n S (r\<lparr>pending_tasks := []\<rparr>))
      | At_clear \<Rightarrow> loop_poll n S (r\<lparr>pending_tasks := []\<rparr>)
      | At_poll \<Rightarrow> loop_poll n S r
      | _ \<Rightarrow> Inr r)"

lemma tasks_get_to:
  "run_tasks m exec i r = Inr r' \<Longrightarrow> pc s = At_task i \<Longrightarrow> the_reactor s = Some r \<Longrightarrow> gets_to n S exec init s At_clear r'"
proof (induction m exec i r arbitrary: s rule: run_tasks.induct)
  case (1 m exec i r)
  show ?case
  proof (cases "i < length (pending_tasks r)")
    case True
    with 1(2) obtain m' t r1 where t: "m = Suc m'" "pending_tasks r ! i = Some t" "exec t r = Inr r1" "run_tasks m' exec (Suc i) r1 = Inr r'"
      by (subst (asm) run_tasks.simps) (auto simp: bindE_Inr_iff split: nat.splits option.splits)
    let ?s = "s\<lparr>the_reactor := Some r1, pc := At_task (Suc i), ran := ran s @ [t], pushed := pushed s @ grow r r1\<rparr>"
    have "main_step n S exec init s = Inr ?s" using 1(3,4) True t by (simp add: main_step_def)
    moreover have "gets_to n S exec init ?s At_clear r'"
      using 1(1) [OF True t(1,2)] t(3,4) by simp
    ultimately show ?thesis by (rule_tac gets_to_step [of _ _ _ _ _ ?s]) simp_all
  next
    case False
    with 1(2) have "r' = r" by (subst (asm) run_tasks.simps) simp
    then show ?thesis
      by (rule_tac gets_to_step [of _ _ _ _ _ "s\<lparr>pc := At_clear\<rparr>"])
        (use 1(3,4) False in \<open>simp_all add: main_step_def gets_to_here\<close>)
  qed
qed

lemma poll_gets_to:
  "loop_poll n S r = Inr r' \<Longrightarrow> pc s = At_poll \<Longrightarrow> the_reactor s = Some r \<Longrightarrow> gets_to n S exec init s At_test r'"
  by (rule gets_to_step [of _ _ _ _ _ "s\<lparr>the_reactor := Some r', pc := At_test, pushed := pushed s @ grow r r'\<rparr>"])
    (simp_all add: main_step_def gets_to_here)

lemma clear_gets_to:
  "loop_poll n S (r\<lparr>pending_tasks := []\<rparr>) = Inr r' \<Longrightarrow> pc s = At_clear \<Longrightarrow> the_reactor s = Some r \<Longrightarrow> gets_to n S exec init s At_test r'"
  by (rule gets_to_step [of _ _ _ _ _ "s\<lparr>the_reactor := Some (r\<lparr>pending_tasks := []\<rparr>), pc := At_poll\<rparr>"])
    (simp_all add: main_step_def poll_gets_to)

lemma pass_gets_to:
  assumes "rest_of_pass n S exec (pc s) r = Inr r'" and "the_reactor s = Some r" and "pc s \<in> {At_test, At_clear, At_poll} \<union> range At_task"
  shows "gets_to n S exec init s At_test r'"
  using assms(3)
proof (elim UnE insertE rangeE emptyE)
  fix i assume pc: "pc s = At_task i"
  then obtain r1 where r1: "run_tasks n exec i r = Inr r1" "loop_poll n S (r1\<lparr>pending_tasks := []\<rparr>) = Inr r'"
    using assms(1) by (auto simp: rest_of_pass_def bindE_Inr_iff)
  show ?thesis
    by (rule gets_to_trans [OF tasks_get_to [OF r1(1) pc assms(2)]]) (rule clear_gets_to [OF r1(2)])
qed (use assms(1,2) in \<open>simp_all add: rest_of_pass_def gets_to_here poll_gets_to clear_gets_to\<close>)

lemma while_gets_to:
  "loop_while m n S exec r = Inr r' \<Longrightarrow> pc s = At_test \<Longrightarrow> the_reactor s = Some r \<Longrightarrow> gets_to n S exec init s At_end r'"
proof (induction m n S exec r arbitrary: s rule: loop_while.induct)
  case (1 m n S exec r)
  show ?case
  proof (cases "stop_flag r")
    case True
    with 1(2) have "r' = r\<lparr>looping := False\<rparr>" by (subst (asm) loop_while.simps) simp
    then show ?thesis
      by (rule_tac gets_to_step [of _ _ _ _ _ "s\<lparr>the_reactor := Some r', pc := At_end\<rparr>"])
        (use 1(3,4) True in \<open>simp_all add: main_step_def gets_to_here\<close>)
  next
    case False
    with 1(2) obtain m' r1 where m: "m = Suc m'" "loop_body n S exec r = Inr r1" "loop_while m' n S exec r1 = Inr r'"
      by (subst (asm) loop_while.simps) (auto simp: bindE_Inr_iff split: nat.splits)
    let ?s = "s\<lparr>pc := At_task 0\<rparr>"
    have "rest_of_pass n S exec (At_task 0) r = Inr r1" using m(2) by (simp add: rest_of_pass_def loop_body_split)
    then have pass: "gets_to n S exec init ?s At_test r1" using pass_gets_to [of n S exec ?s r r1] 1(4) by simp
    have "gets_to n S exec init ?s At_end r'"
      by (rule gets_to_trans [OF pass]) (rule 1(1) [OF False m(1,2,3)])
    then show ?thesis
      by (rule gets_to_step [rotated 2]) (use 1(3,4) False in \<open>simp_all add: main_step_def\<close>)
  qed
qed

lemma main_steps_loop:
  assumes "loop m n S exec r = Inr r'" and "\<not> looping r" and "pc s = At_enter" and "the_reactor s = Some r"
  shows "gets_to n S exec init s At_end r'"
proof -
  have th: "isLoopThread S r" and w: "loop_while m n S exec (r\<lparr>looping := True, stop_flag := False\<rparr>) = Inr r'"
    using assms(1,2) by (auto simp: loop_def bindE_Inr_iff guardE_def split: if_splits)
  let ?s1 = "s\<lparr>the_reactor := Some (r\<lparr>looping := True\<rparr>), pc := At_unstop\<rparr>"
  let ?s2 = "s\<lparr>the_reactor := Some (r\<lparr>looping := True, stop_flag := False\<rparr>), pc := At_test\<rparr>"
  have "gets_to n S exec init ?s2 At_end r'" by (rule while_gets_to [OF w]) simp_all
  then have "gets_to n S exec init ?s1 At_end r'"
    by (rule gets_to_step [rotated 2]) (simp_all add: main_step_def)
  then show ?thesis
    by (rule gets_to_step [rotated 2]) (use assms th in \<open>simp_all add: main_step_def guardE_def\<close>)
qed

section \<open>The flags\<close>

definition in_loop :: "loop_pc \<Rightarrow> bool" where
  "in_loop p \<longleftrightarrow> p \<in> {At_test, At_clear, At_poll} \<union> range At_task"

lemma in_loop_simps [simp]:
  "in_loop At_test" "in_loop At_clear" "in_loop At_poll" "in_loop (At_task i)"
  "\<not> in_loop At_init" "\<not> in_loop At_setup" "\<not> in_loop At_enter" "\<not> in_loop At_unstop" "\<not> in_loop At_end"
  by (auto simp: in_loop_def)

text \<open>While the owner has not called \<open>stop\<close>: not looping before the loop, looping and not stopped in it.\<close>

definition owned_ok :: "('t, 'k) io_run \<Rightarrow> bool" where
  "owned_ok s \<longleftrightarrow> owner s = Owns \<longrightarrow>
     (case the_reactor s of None \<Rightarrow> pc s = At_init
      | Some r \<Rightarrow> pc s \<in> {At_setup, At_enter} \<and> \<not> looping r \<or> pc s = At_unstop \<and> looping r \<or> in_loop (pc s) \<and> looping r \<and> \<not> stop_flag r)"

text \<open>The destructor waits for a loop that nobody will stop.\<close>

definition doomed :: "('t, 'k) io_run \<Rightarrow> bool" where
  "doomed s \<longleftrightarrow> owner s = Joining \<and> (\<exists>r. the_reactor s = Some r \<and>
     (pc s \<in> {At_setup, At_enter} \<and> \<not> looping r \<or> pc s = At_unstop \<or> in_loop (pc s) \<and> \<not> stop_flag r))"

text \<open>What a step of the thread does to the flags.\<close>

lemma main_step_flags:
  assumes "main_step n S exec init s = Inr s'" and "calm exec" and "proper_start init" and "the_reactor s = Some r" and "pc s \<noteq> At_init"
  obtains r' where "the_reactor s' = Some r'" "owner s' = owner s"
    "pc s = At_setup \<and> \<not> looping r \<Longrightarrow> pc s' = At_enter \<and> \<not> looping r'"
    "pc s = At_enter \<and> \<not> looping r \<Longrightarrow> pc s' = At_unstop \<and> looping r'"
    "pc s = At_unstop \<Longrightarrow> pc s' = At_test \<and> \<not> stop_flag r' \<and> looping r' = looping r"
    "in_loop (pc s) \<and> \<not> stop_flag r \<Longrightarrow> in_loop (pc s') \<and> \<not> stop_flag r' \<and> looping r' = looping r"
proof (cases "pc s")
  case (At_task i)
  show ?thesis
  proof (cases "i < length (pending_tasks r)")
    case True
    then obtain t r1 where t: "exec t r = Inr r1" "s' = s\<lparr>the_reactor := Some r1, pc := At_task (Suc i), ran := ran s @ [t], pushed := pushed s @ grow r r1\<rparr>"
      using assms(1,4) At_task by (auto simp: main_step_def bindE_Inr_iff split: option.splits)
    have "extends r r1" using assms(2) t(1) by (simp add: calm_def)
    then show ?thesis using t(2) At_task by (intro that [of r1]) (simp_all add: extends_def)
  next
    case False
    then have "s' = s\<lparr>pc := At_clear\<rparr>" using assms(1,4) At_task by (simp add: main_step_def)
    then show ?thesis using assms(4) At_task by (intro that [of r]) simp_all
  qed
next
  case At_poll
  then obtain r1 where r1: "loop_poll n S r = Inr r1" "s' = s\<lparr>the_reactor := Some r1, pc := At_test, pushed := pushed s @ grow r r1\<rparr>"
    using assms(1,4) by (auto simp: main_step_def bindE_Inr_iff)
  then show ?thesis using loop_poll_extends [OF r1(1)] At_poll by (intro that [of r1]) (simp_all add: extends_def)
next
  case At_setup
  then obtain r1 where r1: "snd init r = Inr r1" "s' = s\<lparr>the_reactor := Some r1, pc := At_enter, pushed := pushed s @ grow r r1\<rparr>"
    using assms(1,4) by (auto simp: main_step_def bindE_Inr_iff)
  then have "extends r r1" using assms(3) by (simp add: proper_start_def)
  then show ?thesis using r1(2) At_setup by (intro that [of r1]) (simp_all add: extends_def)
next
  case At_enter
  then have "s' = (if looping r then s\<lparr>pc := At_end\<rparr> else s\<lparr>the_reactor := Some (r\<lparr>looping := True\<rparr>), pc := At_unstop\<rparr>)"
    using assms(1,4) by (auto simp: main_step_def bindE_Inr_iff)
  then show ?thesis using assms(4) At_enter by (cases "looping r") (auto intro: that)
next
  case At_test
  then have "s' = (if stop_flag r then s\<lparr>the_reactor := Some (r\<lparr>looping := False\<rparr>), pc := At_end\<rparr> else s\<lparr>pc := At_task 0\<rparr>)"
    using assms(1,4) by (auto simp: main_step_def)
  then show ?thesis using assms(4) At_test by (cases "stop_flag r") (auto intro: that)
next
  case At_unstop
  then have "s' = s\<lparr>the_reactor := Some (r\<lparr>stop_flag := False\<rparr>), pc := At_test\<rparr>" using assms(1,4) by (simp add: main_step_def)
  then show ?thesis using At_unstop by (intro that [of "r\<lparr>stop_flag := False\<rparr>"]) simp_all
next
  case At_clear
  then have "s' = s\<lparr>the_reactor := Some (r\<lparr>pending_tasks := []\<rparr>), pc := At_poll\<rparr>" using assms(1,4) by (simp add: main_step_def)
  then show ?thesis using At_clear by (intro that [of "r\<lparr>pending_tasks := []\<rparr>"]) simp_all
next
  case At_end
  then have "s' = s" using assms(1,4) by (simp add: main_step_def)
  then show ?thesis using At_end assms(4) by (intro that [of r]) simp_all
qed (use assms(5) in simp)

lemma run_tasks_extends: "run_tasks m exec i r = Inr r' \<Longrightarrow> calm exec \<Longrightarrow> extends r r'"
proof (induction m exec i r rule: run_tasks.induct)
  case (1 m exec i r)
  show ?case
  proof (cases "i < length (pending_tasks r)")
    case True
    with 1(2) obtain m' t r1 where t: "m = Suc m'" "pending_tasks r ! i = Some t" "exec t r = Inr r1" "run_tasks m' exec (Suc i) r1 = Inr r'"
      by (subst (asm) run_tasks.simps) (auto simp: bindE_Inr_iff split: nat.splits option.splits)
    have "extends r r1" using 1(3) t(3) by (simp add: calm_def)
    with 1(1) [OF True t(1-4) 1(3)] show ?thesis by (rule_tac extends_trans)
  next
    case False
    with 1(2) have "r' = r" by (subst (asm) run_tasks.simps) simp
    then show ?thesis by (simp add: extends_refl)
  qed
qed

lemma rest_of_pass_flag:
  assumes "calm exec" and "rest_of_pass n S exec p r = Inr r'"
  shows "stop_flag r' = stop_flag r"
proof -
  have poll: "stop_flag r' = stop_flag r1" if "loop_poll n S r1 = Inr r'" for r1
    using loop_poll_extends [OF that] by (simp add: extends_def)
  show ?thesis
  proof (cases p)
    case (At_task i)
    with assms(2) obtain r1 where r1: "run_tasks n exec i r = Inr r1" "loop_poll n S (r1\<lparr>pending_tasks := []\<rparr>) = Inr r'"
      by (auto simp: rest_of_pass_def bindE_Inr_iff)
    then show ?thesis using run_tasks_extends [OF r1(1) assms(1)] poll [OF r1(2)] by (simp add: extends_def)
  qed (use assms(2) poll in \<open>auto simp: rest_of_pass_def\<close>)
qed

lemma owned_ok_step:
  assumes "io_step n S exec init gap s s'" and "owned_ok s" and "calm exec" and "proper_start init"
  shows "owned_ok s'"
  using assms(1)
proof (rule io_stepE)
  assume step: "main_step n S exec init s = Inr s'"
  show ?thesis
  proof (cases "pc s = At_init")
    case True
    then obtain r where "fst init = Inr r" "s' = s\<lparr>the_reactor := Some r, pc := At_setup\<rparr>"
      using step by (auto simp: main_step_def bindE_Inr_iff)
    then show ?thesis using assms(4) by (simp add: owned_ok_def proper_start_def)
  next
    case False
    then obtain r where r: "the_reactor s = Some r" using step by (auto simp: main_step_def split: option.splits)
    from main_step_flags [OF step assms(3,4) r False] obtain r' where "the_reactor s' = Some r'" "owner s' = owner s"
      "pc s = At_setup \<and> \<not> looping r \<Longrightarrow> pc s' = At_enter \<and> \<not> looping r'"
    "pc s = At_enter \<and> \<not> looping r \<Longrightarrow> pc s' = At_unstop \<and> looping r'"
      "pc s = At_unstop \<Longrightarrow> pc s' = At_test \<and> \<not> stop_flag r' \<and> looping r' = looping r"
      "in_loop (pc s) \<and> \<not> stop_flag r \<Longrightarrow> in_loop (pc s') \<and> \<not> stop_flag r' \<and> looping r' = looping r" by metis
    then show ?thesis using assms(2) r by (auto simp: owned_ok_def)
  qed
next
  fix t assume "owner_post S t s = Inr s'"
  then show ?thesis using assms(2) by (auto simp: owner_post_def owned_ok_def split: option.splits)
next
  assume "owner_stop S s = Inr s'"
  then show ?thesis by (auto simp: owner_stop_def owned_ok_def split: option.splits)
next
  assume "owner_join s = Some s'"
  then show ?thesis by (auto simp: owner_join_def owned_ok_def split: if_splits)
qed

lemma owned_ok_reachable:
  assumes "(io_step n S exec init gap)\<^sup>*\<^sup>* new_IOThread s" and "calm exec" and "proper_start init"
  shows "owned_ok s"
  using assms(1)
proof (induction rule: rtranclp_induct)
  case base
  show ?case by (simp add: owned_ok_def new_IOThread_def)
next
  case (step s s')
  show ?case using step.hyps(2) step.IH assms(2,3) by (rule owned_ok_step)
qed

lemma doomed_step:
  assumes "io_step n S exec init gap s s'" and "doomed s" and "calm exec" and "proper_start init"
  shows "doomed s'"
  using assms(1)
proof (rule io_stepE)
  assume step: "main_step n S exec init s = Inr s'"
  have init: "pc s \<noteq> At_init" using assms(2) by (auto simp: doomed_def)
  obtain r where r: "the_reactor s = Some r" using assms(2) by (auto simp: doomed_def)
  from main_step_flags [OF step assms(3,4) r init] obtain r' where "the_reactor s' = Some r'" "owner s' = owner s"
    "pc s = At_setup \<and> \<not> looping r \<Longrightarrow> pc s' = At_enter \<and> \<not> looping r'"
    "pc s = At_enter \<and> \<not> looping r \<Longrightarrow> pc s' = At_unstop \<and> looping r'"
    "pc s = At_unstop \<Longrightarrow> pc s' = At_test \<and> \<not> stop_flag r' \<and> looping r' = looping r"
    "in_loop (pc s) \<and> \<not> stop_flag r \<Longrightarrow> in_loop (pc s') \<and> \<not> stop_flag r' \<and> looping r' = looping r" by metis
  then show ?thesis using assms(2) r by (auto simp: doomed_def)
next
  assume "owner_join s = Some s'"
  then show ?thesis using assms(2) by (auto simp: doomed_def owner_join_def split: if_splits)
qed (use assms(2) in \<open>simp_all add: doomed_def\<close>)

lemma doomed_forever:
  assumes "(io_step n S exec init gap)\<^sup>*\<^sup>* s s'" and "doomed s" and "calm exec" and "proper_start init"
  shows "doomed s'"
  using assms(1)
proof (induction rule: rtranclp_induct)
  case (step s1 s2)
  show ?case using step.hyps(2) step.IH assms(3,4) by (rule doomed_step)
qed (rule assms(2))

text \<open>The balance of queued against called and waiting tasks never gets better.\<close>

lemma account_lengths: "account s s' \<Longrightarrow> length (pushed s') + (length (ran s) + length (waiting s)) = length (pushed s) + (length (ran s') + length (waiting s'))"
proof -
  assume "account s s'"
  then obtain g where g: "pushed s' = pushed s @ g" "map Some (ran s') @ waiting s' = map Some (ran s) @ waiting s @ g"
    by (auto simp: account_def)
  from arg_cong [OF g(2), of length] g(1) show ?thesis by simp
qed

lemma main_step_init: "main_step n S exec init s = Inr s' \<Longrightarrow> pc s \<noteq> At_init \<Longrightarrow> pc s' \<noteq> At_init"
  by (auto simp: main_step_def bindE_Inr_iff split: option.splits loop_pc.splits if_splits)

lemma lost_step:
  assumes "io_step n S exec init True s s'" and "calm exec" and "proper_start init" and "owner s' \<noteq> Destroyed"
    and "owner s \<noteq> Destroyed \<Longrightarrow> pos_ok s \<and> pc s \<noteq> At_init \<and> length (ran s) + length (waiting s) < length (pushed s)"
  shows "pos_ok s' \<and> pc s' \<noteq> At_init \<and> length (ran s') + length (waiting s') < length (pushed s')"
  using assms(1)
proof (rule io_stepE)
  assume step: "main_step n S exec init s = Inr s'" and "owner s \<noteq> Destroyed"
  then have s: "pos_ok s" "pc s \<noteq> At_init" "length (ran s) + length (waiting s) < length (pushed s)" using assms(5) by simp_all
  from main_step_account [OF step assms(2,3) s(1)] main_step_init [OF step s(2)] show ?thesis
    using s(3) account_lengths [of s s'] by auto
next
  fix t assume post: "owner_post S t s = Inr s'" and "owner s = Owns"
  then have s: "pos_ok s" "pc s \<noteq> At_init" "length (ran s) + length (waiting s) < length (pushed s)" using assms(5) by simp_all
  obtain r where r: "the_reactor s = Some r" "s' = s\<lparr>the_reactor := Some (addTask S (Some t) True r), pushed := pushed s @ [Some t]\<rparr>"
    using post by (auto simp: owner_post_def split: option.splits)
  show ?thesis
  proof (cases "pc s = At_clear")
    case True
    then show ?thesis using r s by (simp add: waiting_def pos_ok_def)
  next
    case False
    then show ?thesis using owner_post_account [OF post s(1)] account_lengths [of s s'] s r(2) by auto
  qed
next
  assume st: "owner_stop S s = Inr s'" and "owner s = Owns"
  then have s: "pos_ok s" "pc s \<noteq> At_init" "length (ran s) + length (waiting s) < length (pushed s)" using assms(5) by simp_all
  have "pc s' = pc s" using st by (auto simp: owner_stop_def split: option.splits)
  then show ?thesis using owner_stop_account [OF st s(1)] account_lengths [of s s'] s by auto
next
  assume "owner_join s = Some s'"
  then show ?thesis using assms(4) by (auto simp: owner_join_def split: if_splits)
qed

lemma main_step_owner: "main_step n S exec init s = Inr s' \<Longrightarrow> owner s' = owner s"
  by (auto simp: main_step_def bindE_Inr_iff split: option.splits loop_pc.splits if_splits)

lemma main_steps_reach:
  "main_steps k n S exec init s = Inr s' \<Longrightarrow> owner s \<noteq> Destroyed \<Longrightarrow> (io_step n S exec init gap)\<^sup>*\<^sup>* s s'"
proof (induction k arbitrary: s)
  case (Suc k)
  then obtain s1 where s1: "main_step n S exec init s = Inr s1" "main_steps k n S exec init s1 = Inr s'" by (auto simp: bindE_Inr_iff)
  have "io_step n S exec init gap s s1" using s1(1) Suc.prems(2) by (rule io_step.main)
  moreover have "(io_step n S exec init gap)\<^sup>*\<^sup>* s1 s'" using Suc.IH [OF s1(2)] Suc.prems(2) main_step_owner [OF s1(1)] by simp
  ultimately show ?case by (rule converse_rtranclp_into_rtranclp)
qed simp

section \<open>Properties\<close>

text \<open>C34. Tasks given to an I/O thread.  When tasks only add to the queue and leave the loop running, then at any moment in the life of an I/O
  thread, whatever its owner and the thread itself have queued, in this order, is what has been called followed by what the loop will
  still come to: each task is called at most once, none is skipped, and in order.  The one exception the code leaves is excluded: no
  task arrives between the last test of the task loop and the unprotected \<open>pending_tasks_.clear()\<close>.
\<close>

theorem io_tasks_run_in_order:
  assumes "(io_step n S exec init False)\<^sup>*\<^sup>* new_IOThread s" and "calm exec" and "proper_start init"
    and "owner s \<noteq> Destroyed"
  shows "pushed s = map Some (ran s) @ waiting s"
  using io_steps_account [OF assms(1-3)] assms(4) by blast

text \<open>A thread whose tasks do nothing, on an idle reactor.\<close>

definition idle_reactor :: "(nat, mini_kernel) reactor" where
  "idle_reactor = demo_reactor\<lparr>looping := False, pending_tasks := []\<rparr>"

definition skip_exec :: "(nat, mini_kernel) exec_fun" where
  "skip_exec t r = Inr r"

lemma skip_calm: "calm skip_exec"
  by (simp add: calm_def skip_exec_def extends_refl)

definition idle_start :: "(nat, mini_kernel) io_start" where
  "idle_start = (Inr idle_reactor, Inr)"

lemma idle_start_proper: "proper_start idle_start"
  by (simp add: proper_start_def idle_start_def idle_reactor_def extends_refl)

definition demo_run :: "loop_pc \<Rightarrow> nat list \<Rightarrow> nat list \<Rightarrow> (nat, mini_kernel) io_run" where
  "demo_run p done queue =
     \<lparr>the_reactor = Some (idle_reactor\<lparr>looping := True, stop_flag := False, pending_tasks := map Some queue\<rparr>), pc = p, owner = Owns,
      ran = done, pushed = map Some (done @ queue)\<rparr>"

lemma demo_started: "(io_step 2 mini_sys skip_exec idle_start gap)\<^sup>*\<^sup>* new_IOThread (demo_run At_test [] [])"
proof (rule main_steps_reach)
  show "main_steps 4 2 mini_sys skip_exec idle_start new_IOThread = Inr (demo_run At_test [] [])"
    by (simp add: eval_nat_numeral main_step_def new_IOThread_def demo_run_def idle_start_def idle_reactor_def demo_reactor_def
        isLoopThread_def mini_sys_def grow_def)
qed (simp add: new_IOThread_def)

theorem io_tasks_run_in_order_witness:
  "\<exists>s. (io_step 2 mini_sys skip_exec idle_start False)\<^sup>*\<^sup>* new_IOThread s \<and> ran s = [5] \<and> pushed s = [Some 5] \<and>
    pushed s = map Some (ran s) @ waiting s"
proof -
  let ?step = "io_step 2 mini_sys skip_exec idle_start False"
  obtain s1 where s1: "owner_post mini_sys 5 (demo_run At_test [] []) = Inr s1" by (simp add: owner_post_def demo_run_def)
  have "?step (demo_run At_test [] []) s1" by (rule io_step.post [OF _ _ s1]) (simp_all add: demo_run_def)
  then have r1: "?step\<^sup>*\<^sup>* new_IOThread s1" by (rule rtranclp.rtrancl_into_rtrancl [OF demo_started])
  obtain s2 where s2: "main_steps 2 2 mini_sys skip_exec idle_start s1 = Inr s2" "ran s2 = [5]" "pushed s2 = [Some 5]" "owner s2 = Owns"
    using s1 by (auto simp: numeral_2_eq_2 main_step_def owner_post_def demo_run_def skip_exec_def grow_def)
  have "owner s1 \<noteq> Destroyed" using s1 by (auto simp: owner_post_def demo_run_def)
  from main_steps_reach [OF s2(1) this] r1 have r2: "?step\<^sup>*\<^sup>* new_IOThread s2" by (rule_tac rtranclp_trans)
  have "pushed s2 = map Some (ran s2) @ waiting s2"
    by (rule io_tasks_run_in_order [OF r2 skip_calm idle_start_proper]) (simp add: s2)
  with r2 s2 show ?thesis by blast
qed

text \<open>C35. Destroying an I/O thread.  The owner calls the destructor while the thread is at some point after it has stored \<open>reactor_\<close>.  When the
  thread has not yet passed the assignments at the head of \<open>Reactor::loop\<close>, \<open>stop()\<close> is without effect and the destructor waits forever, in
  every continuation; otherwise, if the pass the loop is in returns, the loop ends after it and the destructor returns.
\<close>

theorem io_thread_destructor:
  assumes "(io_step n S exec init gap)\<^sup>*\<^sup>* new_IOThread s" and "calm exec" and "proper_start init"
    and "owner s = Owns" and "the_reactor s = Some r" and "owner_stop S s = Inr s1"
  shows "(pc s \<in> {At_setup, At_enter, At_unstop} \<longrightarrow> (\<forall>s2. (io_step n S exec init gap)\<^sup>*\<^sup>* s1 s2 \<longrightarrow> owner s2 = Joining)) \<and>
    (pc s \<notin> {At_setup, At_enter, At_unstop} \<and> (\<exists>r'. rest_of_pass n S exec (pc s) (stop S r) = Inr r') \<longrightarrow>
       (\<exists>k s2 s3. main_steps k n S exec init s1 = Inr s2 \<and> owner s2 = Joining \<and> owner_join s2 = Some s3 \<and> owner s3 = Destroyed))"
proof (intro conjI impI allI)
  have ok: "owned_ok s" using owned_ok_reachable [OF assms(1-3)] .
  have s1: "s1 = s\<lparr>the_reactor := Some (stop S r), owner := Joining\<rparr>" using assms(5,6) by (simp add: owner_stop_def)
  fix s2 assume pc: "pc s \<in> {At_setup, At_enter, At_unstop}" and run: "(io_step n S exec init gap)\<^sup>*\<^sup>* s1 s2"
  have "doomed s1" using pc ok assms(4,5) s1 by (auto simp: doomed_def owned_ok_def)
  then have "doomed s2" using doomed_forever [OF run] assms(2,3) by blast
  then show "owner s2 = Joining" by (simp add: doomed_def)
next
  have ok: "owned_ok s" using owned_ok_reachable [OF assms(1-3)] .
  have s1: "s1 = s\<lparr>the_reactor := Some (stop S r), owner := Joining\<rparr>" using assms(5,6) by (simp add: owner_stop_def)
  assume pc: "pc s \<notin> {At_setup, At_enter, At_unstop} \<and> (\<exists>r'. rest_of_pass n S exec (pc s) (stop S r) = Inr r')"
  then obtain r' where pass: "rest_of_pass n S exec (pc s1) (stop S r) = Inr r'" using s1 by auto
  have loop: "in_loop (pc s1)" and "looping r" using ok pc assms(4,5) s1 by (auto simp: owned_ok_def)
  then have r': "rest_of_pass n S exec (pc s1) (stop S r) = Inr r'" "stop_flag r'"
    using pass rest_of_pass_flag [OF assms(2) pass] by simp_all
  have test: "gets_to n S exec init s1 At_test r'"
    using pass_gets_to [OF r'(1)] s1 loop by (simp add: in_loop_def)
  have "gets_to n S exec init s1 At_end (r'\<lparr>looping := False\<rparr>)"
  proof (rule gets_to_trans [OF test])
    fix s' :: "('a, 'b) io_run" assume "pc s' = At_test" "the_reactor s' = Some r'"
    then show "gets_to n S exec init s' At_end (r'\<lparr>looping := False\<rparr>)"
      using r'(2) by (rule_tac gets_to_step [of _ _ _ _ _ "s'\<lparr>the_reactor := Some (r'\<lparr>looping := False\<rparr>), pc := At_end\<rparr>"])
        (simp_all add: main_step_def gets_to_here)
  qed
  then obtain k s2 where "main_steps k n S exec init s1 = Inr s2" "pc s2 = At_end" "owner s2 = Joining"
    using s1 by (auto simp: gets_to_def)
  then show "\<exists>k s2 s3. main_steps k n S exec init s1 = Inr s2 \<and> owner s2 = Joining \<and> owner_join s2 = Some s3 \<and> owner s3 = Destroyed"
    by (auto simp: owner_join_def)
qed

theorem io_thread_destructor_witness:
  "\<exists>s1 k s2 s3. owner_stop mini_sys (demo_run At_poll [] []) = Inr s1 \<and>
    main_steps k 2 mini_sys skip_exec idle_start s1 = Inr s2 \<and> owner_join s2 = Some s3 \<and> owner s3 = Destroyed"
proof -
  have "main_steps 3 2 mini_sys skip_exec idle_start (demo_run At_test [] []) = Inr (demo_run At_poll [] [])"
    by (simp add: numeral_3_eq_3 main_step_def demo_run_def)
  then have "(io_step 2 mini_sys skip_exec idle_start True)\<^sup>*\<^sup>* (demo_run At_test [] []) (demo_run At_poll [] [])"
    by (rule main_steps_reach) (simp add: demo_run_def)
  with demo_started have run: "(io_step 2 mini_sys skip_exec idle_start True)\<^sup>*\<^sup>* new_IOThread (demo_run At_poll [] [])"
    by (rule rtranclp_trans)
  let ?r = "idle_reactor\<lparr>looping := True, stop_flag := False, pending_tasks := []\<rparr>"
  have st: "owner_stop mini_sys (demo_run At_poll [] []) =
      Inr ((demo_run At_poll [] [])\<lparr>the_reactor := Some (stop mini_sys ?r), owner := Joining\<rparr>)"
    by (simp add: owner_stop_def demo_run_def)
  have "\<exists>r'. rest_of_pass 2 mini_sys skip_exec (pc (demo_run At_poll [] [])) (stop mini_sys ?r) = Inr r'"
    by (simp add: rest_of_pass_def demo_run_def loop_poll_def mini_sys_def stop_def wakeup_def apply_pending_def idle_reactor_def demo_reactor_def)
  with io_thread_destructor [OF run skip_calm idle_start_proper _ _ st, of ?r] st show ?thesis
    by (auto simp: demo_run_def idle_reactor_def)
qed

text \<open>The lost task.  Nothing keeps a task from arriving after the last test of the task loop and before \<open>clear()\<close>: it is then dropped.  At
  every later moment the tasks called and those the loop will still come to are fewer than those queued; an \<open>addClient\<close> lost in this
  way leaves an accepted connection without a handler.
\<close>

theorem task_lost_before_clear:
  assumes "pc s = At_clear" and "the_reactor s = Some r" and "owner s = Owns" and "length (ran s) + length (waiting s) \<le> length (pushed s)"
    and "calm exec" and "proper_start init"
  shows "\<exists>s1 s2. owner_post S t s = Inr s1 \<and> main_step n S exec init s1 = Inr s2 \<and> io_step n S exec init True s s1 \<and>
    (\<forall>s3. (io_step n S exec init True)\<^sup>*\<^sup>* s2 s3 \<and> owner s3 \<noteq> Destroyed \<longrightarrow> length (ran s3) + length (waiting s3) < length (pushed s3))"
proof -
  let ?s1 = "s\<lparr>the_reactor := Some (addTask S (Some t) True r), pushed := pushed s @ [Some t]\<rparr>"
  let ?s2 = "?s1\<lparr>the_reactor := Some ((addTask S (Some t) True r)\<lparr>pending_tasks := []\<rparr>), pc := At_poll\<rparr>"
  have post: "owner_post S t s = Inr ?s1" using assms(2) by (simp add: owner_post_def)
  have clear: "main_step n S exec init ?s1 = Inr ?s2" using assms(1) by (simp add: main_step_def)
  have step: "io_step n S exec init True s ?s1" using assms(3) post by (auto intro: io_step.post)
  have short: "owner s3 \<noteq> Destroyed \<longrightarrow> pos_ok s3 \<and> pc s3 \<noteq> At_init \<and> length (ran s3) + length (waiting s3) < length (pushed s3)"
    if "(io_step n S exec init True)\<^sup>*\<^sup>* ?s2 s3" for s3
    using that
  proof (induction rule: rtranclp_induct)
    case base
    have "waiting s = []" using assms(1,2) by (simp add: waiting_def)
    then show ?case using assms(4) by (simp add: waiting_def pos_ok_def)
  next
    case (step u v)
    show ?case by (rule impI, rule lost_step [OF step.hyps(2) assms(5,6)]) (use step.IH in auto)
  qed
  with post clear step show ?thesis by blast
qed

theorem task_lost_before_clear_witness:
  "\<exists>s1 s2. owner_post mini_sys 7 (demo_run At_clear [] []) = Inr s1 \<and>
    main_step 2 mini_sys skip_exec idle_start s1 = Inr s2 \<and> length (ran s2) + length (waiting s2) < length (pushed s2)"
proof -
  from task_lost_before_clear [OF _ _ _ _ skip_calm idle_start_proper, of "demo_run At_clear [] []"
      "idle_reactor\<lparr>looping := True, stop_flag := False, pending_tasks := []\<rparr>" mini_sys 7 2]
  obtain s1 s2 where s: "owner_post mini_sys 7 (demo_run At_clear [] []) = Inr s1" "main_step 2 mini_sys skip_exec idle_start s1 = Inr s2"
    "\<forall>s3. (io_step 2 mini_sys skip_exec idle_start True)\<^sup>*\<^sup>* s2 s3 \<and> owner s3 \<noteq> Destroyed \<longrightarrow> length (ran s3) + length (waiting s3) < length (pushed s3)"
    by (auto simp: demo_run_def waiting_def)
  have "owner s2 \<noteq> Destroyed" using s(1) main_step_owner [OF s(2)] by (auto simp: owner_post_def demo_run_def)
  with s show ?thesis by blast
qed

end
