(* ===== verification/Tcp_Server.thy ===== *)
theory Tcp_Server
  imports Io_Thread Io_Loop
begin

text \<open>
  Starting and ending: \<open>IOThread::main\<close> of \<^verbatim>\<open>src/net/io_thread.cc\<close>, \<open>TcpTimeWheel::TcpTimeWheel\<close> of \<^verbatim>\<open>src/net/tcp_conn_timer.cc\<close>,
  \<open>TcpServer\<close> and \<open>TcpAcceptor\<close> of \<^verbatim>\<open>src/net/tcp_server.cc\<close>, \<open>TcpClient\<close> of \<^verbatim>\<open>src/net/tcp_client.cc\<close>.

  The addresses of the timers' events and the closures are parameters, as in \<open>Coroutine_Hook\<close>.
\<close>

section \<open>IOThread::main\<close>

text \<open>A repeated event every \<open>ms\<close> milliseconds on the timer that \<open>getTimer()\<close> returns; the event is made first.\<close>

definition add_periodic :: "'k sys \<Rightarrow> nat \<Rightarrow> 't \<Rightarrow> u64 \<Rightarrow> int \<Rightarrow> 't \<Rightarrow> ('t, 'k) reactor \<Rightarrow> ('t, 'k) timer res" where
  "add_periodic S this_reactor on_timer q ms f r =
     (let (e, k) = new_TimerEvent S ms True (Some f) (kern r) in
      bindE (getTimer S this_reactor on_timer q None (r\<lparr>kern := k\<rparr>)) (\<lambda>tm.
        Inr (addTimerEvent S 0 True (tm\<lparr>tev := (tev tm)(0 := e)\<rparr>))))"

definition new_TcpTimeWheel ::
  "'k sys \<Rightarrow> nat \<Rightarrow> 't \<Rightarrow> u64 \<Rightarrow> int \<Rightarrow> int \<Rightarrow> 't \<Rightarrow> ('t, 'k) reactor \<Rightarrow> (wheel \<times> ('t, 'k) timer) res" where
  "new_TcpTimeWheel S this_reactor on_timer q bucket_count inteval tick r =
     bindE (chk_int (inteval * 1000)) (\<lambda>ms.
     bindE (add_periodic S this_reactor on_timer q ms tick r) (\<lambda>tm. Inr (new_TimeWheel bucket_count, tm)))"

text \<open>Its destructor asks for the timer again and cancels the event, which lives on the timer \<open>tm\<close> made by the constructor.\<close>

definition destroy_TcpTimeWheel ::
  "'k sys \<Rightarrow> nat \<Rightarrow> 't \<Rightarrow> u64 \<Rightarrow> ('t, 'k) timer \<Rightarrow> ('t, 'k) reactor \<Rightarrow> (('t, 'k) timer \<times> ('t, 'k) reactor) res" where
  "destroy_TcpTimeWheel S this_reactor on_timer q tm r =
     bindE (getTimer S this_reactor on_timer q None r) (\<lambda>tm2. Inr (delTimerEvent 0 tm, rea tm2))"

text \<open>What \<open>main\<close> hands over: the timer of \<open>MainLoopTimerFunc\<close>, the wheel with its timer, the thread's coroutines.\<close>

record ('t, 'k, 's) io_setup =
  loop_timer :: "('t, 'k) timer"
  wheel_of :: wheel
  wheel_timer :: "('t, 'k) timer"
  cor_thread :: "'s cothread"

text \<open>The closures and addresses of one thread.\<close>

record 't io_names =
  this_io :: nat
  on_timers :: "nat \<Rightarrow> 't"     \<comment> \<open>\<open>Timer::onTimer\<close> of the first and the second timer\<close>
  timer_at :: "nat \<Rightarrow> u64"
  do_loop_timer :: 't           \<comment> \<open>\<open>MainLoopTimerFunc\<close>\<close>
  do_tick :: 't                 \<comment> \<open>\<open>TcpTimeWheel::loopFunc\<close>\<close>

definition IOThread_main_setup ::
  "'k sys \<Rightarrow> 't io_names \<Rightarrow> 's cothread \<Rightarrow> ('t, 'k) reactor \<Rightarrow> (('t, 'k, 's) io_setup \<times> ('t, 'k) reactor) res" where
  "IOThread_main_setup S N t r =
     bindE (add_periodic S (this_io N) (on_timers N 0) (timer_at N 0) 10000 (do_loop_timer N) r) (\<lambda>tm1.
     bindE (new_TcpTimeWheel S (this_io N) (on_timers N 1) (timer_at N 1) 2 10 (do_tick N) (rea tm1)) (\<lambda>(w, tm2).
     let (cur, t) = GetCurrentCoroutine t in
       Inr (\<lparr>loop_timer = tm1, wheel_of = w, wheel_timer = tm2, cor_thread = t\<rparr>, rea tm2)))"

definition IOThread_main ::
  "'k sys \<Rightarrow> 't io_names \<Rightarrow> 's cothread \<Rightarrow> bool \<Rightarrow> u32 \<Rightarrow> 'k \<Rightarrow> ('t, 'k) io_start" where
  "IOThread_main S N t have junk k =
     (bindE (guardE (\<not> have) Assert_failed) (\<lambda>_. new_Reactor S have junk k),
      \<lambda>r. bindE (IOThread_main_setup S N t r) (\<lambda>(x, r). Inr r))"

section \<open>TcpAcceptor and TcpServer\<close>

text \<open>The destructor; \<open>m_fd\<close> has no initial value, so an acceptor whose \<open>init\<close> did not run has any \<open>fd\<close> here.\<close>

definition destroy_TcpAcceptor :: "'k sys \<Rightarrow> int \<Rightarrow> ('t, 'k) hook_st \<Rightarrow> ('t, 'k) hook_st res" where
  "destroy_TcpAcceptor S fd h =
     bindE (event_of fd h) (\<lambda>(p, h).
     bindE (unregisterFromReactor S p (hr h)) (\<lambda>r.
       Inr (h\<lparr>hr := (if fd \<noteq> -1 then r\<lparr>kern := sys_close S fd (kern r)\<rparr> else r)\<rparr>)))"

text \<open>\<open>Reactor::GetReactor()\<close>: the thread's reactor, made when there is none.\<close>

definition GetReactor :: "'k sys \<Rightarrow> ('t, 'k) reactor option \<Rightarrow> u32 \<Rightarrow> 'k \<Rightarrow> ('t, 'k) reactor res" where
  "GetReactor S cur junk k = (case cur of Some r \<Rightarrow> Inr r | None \<Rightarrow> new_Reactor S False junk k)"

text \<open>The server's constructor: \<open>pool_size\<close> threads are started, which have no reactor yet.\<close>

definition new_TcpServer ::
  "'k sys \<Rightarrow> int \<Rightarrow> ('t, 'k) reactor option \<Rightarrow> u32 \<Rightarrow> 'k \<Rightarrow> (('t, 'k) io_run io_pool \<times> ('t, 'k) reactor) res" where
  "new_TcpServer S pool_size cur junk k =
     bindE (guardE (0 \<le> pool_size) Length_error) (\<lambda>_.
     bindE (GetReactor S cur junk k) (\<lambda>r. Inr (new_IOThreadPool (replicate (nat pool_size) new_IOThread), r)))"

text \<open>\<open>start\<close> up to the call of the main reactor's loop; \<open>cb\<close> is \<open>MainAcceptCorFunc\<close>.  The result is the accept coroutine.\<close>

definition start_accept ::
  "(int \<Rightarrow> u64) \<Rightarrow> 's act list \<Rightarrow> coroutine_pool option \<Rightarrow> 's cothread \<Rightarrow> (nat \<times> coroutine_pool \<times> 's cothread) res" where
  "start_accept alloc cb g t =
     bindE (GetCoroutinePool alloc g t) (\<lambda>(p, t).
     bindE (getCoroutineInstanse alloc p t) (\<lambda>(cor, p, t).
     case cor of None \<Rightarrow> Inl Null_deref
     | Some i \<Rightarrow>
         bindE (setCoCallBack i cb t) (\<lambda>(ok, t).
         bindE (Resume (Some i) t) (\<lambda>t. Inr (i, p, t)))))"

text \<open>The destructor; \<open>cor\<close> is null when \<open>start\<close> was not called.\<close>

definition destroy_TcpServer :: "nat option \<Rightarrow> 's cothread \<Rightarrow> coroutine_pool \<Rightarrow> coroutine_pool res" where
  "destroy_TcpServer cor t p =
     (case cor of None \<Rightarrow> Inl Null_deref | Some i \<Rightarrow> returnCoroutine (m_cor_id (cors t ! i)) p)"

definition server_AddCoroutine :: "'k sys \<Rightarrow> (nat \<Rightarrow> 't) \<Rightarrow> nat \<Rightarrow> ('t, 'k) reactor \<Rightarrow> ('t, 'k) reactor" where
  "server_AddCoroutine S mk_resume cor main_reactor = addCoroutine S mk_resume cor True main_reactor"

text \<open>
  The loop of \<open>MainAcceptCorFunc\<close> once more, over threads that may not have a reactor yet: \<open>io_thread->getReactor()->addTask(cb)\<close> for
  an accepted descriptor.
\<close>

definition hand_over ::
  "'k sys \<Rightarrow> (int \<Rightarrow> 't) \<Rightarrow> int \<Rightarrow> ('t, 'k) io_run io_pool \<Rightarrow> ('t, 'k) io_run io_pool res" where
  "hand_over S mk_add fd p =
     bindE (getIOThread p) (\<lambda>(i, p).
     bindE (owner_post S (mk_add fd) (io_threads p ! i)) (\<lambda>th. Inr (p\<lparr>io_threads := (io_threads p)[i := th]\<rparr>)))"

section \<open>TcpClient\<close>

record ('cb, 't, 'k) tcp_client =
  cli_fd :: int
  cli_stop :: bool
  cli_hst :: "('t, 'k) hook_st"
  connection :: "'cb conn option"

text \<open>The client constructor of \<open>TcpConnection\<close>.\<close>

definition new_client_conn :: "nat \<Rightarrow> int \<Rightarrow> ('t, 'k) hook_st \<Rightarrow> ('cb conn \<times> ('t, 'k) hook_st) res" where
  "new_client_conn this_reactor fd h =
     bindE (event_of fd h) (\<lambda>(p, h).
     bindE (on_event p (\<lambda>e. e\<lparr>m_reactor := Some this_reactor\<rparr>) (hr h)) (\<lambda>r.
     bindE (new_conn ClientConnection fd 128) (\<lambda>c. Inr (c, h\<lparr>hr := r\<rparr>))))"

text \<open>\<open>sock\<close> is what \<open>socket\<close> returned; the state \<open>h\<close> holds the thread's reactor.\<close>

definition new_TcpClient :: "nat \<Rightarrow> int \<Rightarrow> ('t, 'k) hook_st \<Rightarrow> ('cb, 't, 'k) tcp_client res" where
  "new_TcpClient this_reactor sock h =
     bindE (new_client_conn this_reactor sock h) (\<lambda>(c, h).
       Inr \<lparr>cli_fd = sock, cli_stop = False, cli_hst = h, connection = Some c\<rparr>)"

definition getConnection :: "nat \<Rightarrow> ('cb, 't, 'k) tcp_client \<Rightarrow> ('cb conn \<times> ('cb, 't, 'k) tcp_client) res" where
  "getConnection this_reactor cl =
     (case connection cl of Some c \<Rightarrow> Inr (c, cl)
      | None \<Rightarrow> bindE (new_client_conn this_reactor (cli_fd cl) (cli_hst cl)) (\<lambda>(c, h).
          Inr (c, cl\<lparr>cli_hst := h, connection := Some c\<rparr>)))"

definition client_stop :: "'k sys \<Rightarrow> ('cb, 't, 'k) tcp_client \<Rightarrow> ('cb, 't, 'k) tcp_client" where
  "client_stop S cl =
     (if \<not> cli_stop cl
      then cl\<lparr>cli_stop := True, cli_hst := (cli_hst cl)\<lparr>hr := stop S (hr (cli_hst cl))\<rparr>\<rparr> else cl)"

definition destroy_TcpClient :: "'k sys \<Rightarrow> ('cb, 't, 'k) tcp_client \<Rightarrow> ('t, 'k) hook_st" where
  "destroy_TcpClient S cl = (if cli_fd cl > 0 then with_kern (sys_close S (cli_fd cl) (kern (hr (cli_hst cl)))) (cli_hst cl) else cli_hst cl)"

section \<open>Setting up a timer\<close>

text \<open>
  Reading the clock, making and arming a timer descriptor leave the interest list and the thread alone.  \<open>timerfd_create\<close> may fail and return -1;
  a descriptor it returns is new, so it is not in the list.
\<close>

definition timer_calls_spec :: "'k sys \<Rightarrow> 'k epoll_view \<Rightarrow> bool" where
  "timer_calls_spec S V \<longleftrightarrow>
     (\<forall>k. same_reg S V k (snd (sys_gettimeofday S k))) \<and> (\<forall>fd t k. same_reg S V k (snd (sys_timerfd_settime S fd t k))) \<and>
     (\<forall>k. same_reg S V k (snd (sys_timerfd_create S k))) \<and>
     (\<forall>k. fst (sys_timerfd_create S k) \<noteq> -1 \<longrightarrow> reg V k (fst (sys_timerfd_create S k)) = None)"

definition timer_watched ::
  "'k epoll_view \<Rightarrow> u64 \<Rightarrow> 't \<Rightarrow> ('t, 'k) timer \<Rightarrow> ('t, 'k) reactor \<Rightarrow> bool" where
  "timer_watched V q on_timer tm r \<longleftrightarrow>
     reg V (kern r) (t_fd tm) = Some \<lparr>events = EPOLLIN, data = q\<rparr> \<and> (\<exists>e. heap r q = Some e \<and> m_fd e = t_fd tm \<and> read_cb e = Some on_timer)"

text \<open>The timer has a descriptor, and no call of \<open>epoll_ctl\<close> for it failed.\<close>

definition timer_made :: "'k epoll_view \<Rightarrow> ('t, 'k) timer \<Rightarrow> ('t, 'k) reactor \<Rightarrow> bool" where
  "timer_made V tm r \<longleftrightarrow> t_fd tm \<noteq> -1 \<and> t_fd tm \<notin> refused V (kern r)"

text \<open>What making the timer does to the kernel: nothing without a descriptor, else a new descriptor is added or refused.\<close>

definition timer_effect :: "'k epoll_view \<Rightarrow> u64 \<Rightarrow> ('t, 'k) timer \<Rightarrow> 'k \<Rightarrow> 'k \<Rightarrow> bool" where
  "timer_effect V q tm k k' \<longleftrightarrow>
     (if t_fd tm = -1 then reg V k' = reg V k \<and> refused V k' = refused V k
      else reg V k (t_fd tm) = None \<and> applied V (t_fd tm) (Some \<lparr>events = EPOLLIN, data = q\<rparr>) k k')"

definition periodic :: "int \<Rightarrow> 't \<Rightarrow> ('t, 'k) timer \<Rightarrow> bool" where
  "periodic ms f tm \<longleftrightarrow> (\<exists>a. pending_events tm = [(a, 0)] \<and>
     tev tm 0 = \<lparr>arrive_time = a, interval = ms, is_repeated = True, is_cancled = False, task = Some f\<rparr>)"

lemma in_sync_kern: "same_reg S V (kern r) k \<Longrightarrow> in_sync S V (r\<lparr>kern := k\<rparr>) = in_sync S V r"
  by (simp add: in_sync_def isLoopThread_def same_reg_def)

lemma same_reg_refl: "same_reg S V k k"
  by (simp add: same_reg_def)

lemma getNowMs_reg: "timer_calls_spec S V \<Longrightarrow> same_reg S V k (snd (getNowMs S k))"
  by (simp add: getNowMs_def timer_calls_spec_def Let_def case_prod_beta)

lemma resetArriveTime_rea:
  assumes "timer_calls_spec S V"
  obtains k where "rea (resetArriveTime S st) = (rea st)\<lparr>kern := k\<rparr>" "same_reg S V (kern (rea st)) k"
proof (cases "pending_events st")
  case Nil
  then show ?thesis using that [of "kern (rea st)"] by (simp add: resetArriveTime_def same_reg_refl)
next
  case (Cons x xs)
  obtain a i where x: "x = (a, i)" by fastforce
  obtain now k where k: "getNowMs S (kern (rea st)) = (now, k)" by fastforce
  then have r: "same_reg S V (kern (rea st)) k" using getNowMs_reg [OF assms, of "kern (rea st)"] by simp
  have "same_reg S V k (snd (sys_timerfd_settime S (t_fd st) t k))" for t
    using assms unfolding timer_calls_spec_def by blast
  then have set: "same_reg S V (kern (rea st)) (snd (sys_timerfd_settime S (t_fd st) t k))" for t
    using same_reg_trans [OF r] by blast
  show ?thesis
  proof (cases "a < now")
    case True
    then show ?thesis using that [OF _ r] Cons x k by (simp add: resetArriveTime_def set_kern_def)
  next
    case False
    then show ?thesis
      using that [OF _ set [of "((a - now) div 1000, (a - now) mod 1000 * 1000000)"]] Cons x k
      by (simp add: resetArriveTime_def set_kern_def Let_def)
  qed
qed

lemma EPOLLIN_bits: "(0 :: u32) AND flag_of READ = 0" "(0 :: u32) OR flag_of READ = EPOLLIN"
  by simp_all

lemma new_Timer_ok:
  assumes "epoll_ctl_spec S V" and "timer_calls_spec S V" and "in_sync S V r"
  obtains tm where "new_Timer S (Some this) on_timer q r = Inr tm" "in_sync S V (rea tm)" "pending_events tm = []"
    "timer_effect V q tm (kern r) (kern (rea tm))"
    "heap (rea tm) = (heap r)(q \<mapsto> \<lparr>m_fd = t_fd tm, read_cb = Some on_timer, write_cb = None, listen_events = EPOLLIN, m_reactor = Some this\<rparr>)"
proof -
  obtain fd k where c: "sys_timerfd_create S (kern r) = (fd, k)" by fastforce
  have fd: "fd \<noteq> -1 \<Longrightarrow> reg V (kern r) fd = None" "same_reg S V (kern r) k"
    using assms(2) c unfolding timer_calls_spec_def by (metis fst_conv snd_conv)+
  let ?e = "\<lparr>m_fd = fd, read_cb = Some on_timer, write_cb = None, listen_events = 0, m_reactor = Some this\<rparr>"
  let ?r = "store_event q ?e (r\<lparr>kern := k\<rparr>)" let ?r1 = "store_event q (?e\<lparr>listen_events := EPOLLIN\<rparr>) ?r"
  have sync: "in_sync S V ?r"
    using assms(3) in_sync_kern [OF fd(2)] by (simp add: store_event_def in_sync_def isLoopThread_def)
  have heap: "heap ?r q = Some ?e" by (simp add: store_event_def)
  have "\<exists>r'. updateToReactor S q ?r1 = Inr r' \<and> in_sync S V r' \<and> heap r' = (heap ?r)(q \<mapsto> ?e\<lparr>listen_events := EPOLLIN\<rparr>) \<and>
      (if fd = -1 then kern r' = k else applied V fd (Some \<lparr>events = EPOLLIN, data = q\<rparr>) k (kern r'))"
  proof (cases "fd = -1")
    case True
    then have "updateToReactor S q ?r1 = Inr ?r1"
      by (simp add: updateToReactor_def with_event_def store_event_def guardE_def addEvent_def)
    moreover have "in_sync S V ?r1" using sync by (simp add: store_event_def in_sync_def isLoopThread_def)
    ultimately show ?thesis using True by (intro exI [of _ ?r1]) (simp add: store_event_def)
  next
    case False
    then show ?thesis
      using update_ok [OF assms(1) sync heap, of "?e\<lparr>listen_events := EPOLLIN\<rparr>"] by (auto simp: store_event_def)
  qed
  then obtain r' where
    r': "updateToReactor S q ?r1 = Inr r'" "in_sync S V r'" "heap r' = (heap ?r)(q \<mapsto> ?e\<lparr>listen_events := EPOLLIN\<rparr>)"
      "if fd = -1 then kern r' = k else applied V fd (Some \<lparr>events = EPOLLIN, data = q\<rparr>) k (kern r')" by blast
  have "addListenEvents S q READ ?r = Inr r'"
    using r'(1) heap by (simp add: addListenEvents_def with_event_def EPOLLIN_bits)
  then have new: "new_Timer S (Some this) on_timer q r =
      Inr \<lparr>t_fd = fd, pending_events = [],
        tev = (\<lambda>_. \<lparr>arrive_time = 0, interval = 0, is_repeated = False, is_cancled = False, task = None\<rparr>), rea = r'\<rparr>"
    using c by (simp add: new_Timer_def new_FdEvent_in_def new_FdEvent_def)
  show ?thesis
    by (rule that [OF new])
      (use r' fd in \<open>simp_all add: store_event_def same_reg_def timer_effect_def applied_def split: if_splits\<close>)
qed

lemma add_periodic_ok:
  assumes "epoll_ctl_spec S V" and "timer_calls_spec S V" and "in_sync S V r" and "\<not> init_timer r"
  obtains tm where "add_periodic S this on_timer q ms f r = Inr tm" "in_sync S V (rea tm)" "periodic ms f tm"
    "timer_effect V q tm (kern r) (kern (rea tm))"
    "\<exists>e. heap (rea tm) = (heap r)(q \<mapsto> e) \<and> m_fd e = t_fd tm \<and> read_cb e = Some on_timer"
proof -
  obtain now k where k: "getNowMs S (kern r) = (now, k)" by fastforce
  then have reg: "same_reg S V (kern r) k" using getNowMs_reg [OF assms(2), of "kern r"] by simp
  let ?e = "\<lparr>arrive_time = now + ms, interval = ms, is_repeated = True, is_cancled = False, task = Some f\<rparr>"
  have "in_sync S V (r\<lparr>kern := k\<rparr>)" using assms(3) in_sync_kern [OF reg] by simp
  from new_Timer_ok [OF assms(1,2) this, of this on_timer q] obtain tm where
    tm: "new_Timer S (Some this) on_timer q (r\<lparr>kern := k\<rparr>) = Inr tm" "in_sync S V (rea tm)" "pending_events tm = []"
      "timer_effect V q tm k (kern (rea tm))"
      "heap (rea tm) = (heap r)(q \<mapsto> \<lparr>m_fd = t_fd tm, read_cb = Some on_timer, write_cb = None, listen_events = EPOLLIN, m_reactor = Some this\<rparr>)"
    by auto
  let ?tm1 = "tm\<lparr>rea := (rea tm)\<lparr>timer_fd := t_fd tm\<rparr>, tev := (tev tm)(0 := ?e), pending_events := [(now + ms, 0)]\<rparr>"
  let ?tm = "resetArriveTime S ?tm1"
  have add: "add_periodic S this on_timer q ms f r = Inr ?tm"
    using tm(1,3) k assms(4) by (simp add: add_periodic_def new_TimerEvent_def getTimer_def addTimerEvent_def Let_def)
  obtain k' where k': "rea ?tm = (rea tm)\<lparr>timer_fd := t_fd tm, kern := k'\<rparr>" "same_reg S V (kern (rea tm)) k'"
    using resetArriveTime_rea [OF assms(2), of ?tm1] by auto
  have "in_sync S V ((rea tm)\<lparr>timer_fd := t_fd tm\<rparr>)" using tm(2) by (simp add: in_sync_def isLoopThread_def)
  with k' have sync: "in_sync S V (rea ?tm)" using in_sync_kern [of S V "(rea tm)\<lparr>timer_fd := t_fd tm\<rparr>" k'] by simp
  have "timer_effect V q ?tm (kern r) (kern (rea ?tm))"
    using tm(4) k' reg by (cases "t_fd tm = -1") (simp_all add: timer_effect_def applied_def same_reg_def)
  moreover have "periodic ms f ?tm" by (simp add: periodic_def)
  moreover have "\<exists>e. heap (rea ?tm) = (heap r)(q \<mapsto> e) \<and> m_fd e = t_fd ?tm \<and> read_cb e = Some on_timer"
    by (rule exI [of _ "\<lparr>m_fd = t_fd tm, read_cb = Some on_timer, write_cb = None, listen_events = EPOLLIN, m_reactor = Some this\<rparr>"])
      (use tm(5) k'(1) in simp)
  ultimately show ?thesis using that [OF add sync] by blast
qed

lemma timer_effectD:
  assumes "timer_effect V q tm k k'"
  shows "refused V k \<subseteq> refused V k'"
    and "t_fd tm \<noteq> -1 \<Longrightarrow> t_fd tm \<notin> refused V k' \<Longrightarrow> reg V k' (t_fd tm) = Some \<lparr>events = EPOLLIN, data = q\<rparr>"
    and "reg V k fd \<noteq> None \<Longrightarrow> reg V k' fd = reg V k fd" and "reg V k fd \<noteq> None \<Longrightarrow> fd \<noteq> -1 \<Longrightarrow> t_fd tm \<noteq> fd"
  using assms by (auto simp: timer_effect_def applied_def split: if_splits)

text \<open>Whatever the kernel does, the setup leaves the flags and the task queue alone.\<close>

lemma extends_kern: "extends r (r\<lparr>kern := k\<rparr>)" "extends r (store_event p e r)" "extends r (r\<lparr>timer_fd := fd\<rparr>)"
  by (rule extendsI; simp add: store_event_def)+

lemma addEvent_extends:
  assumes "addEvent S fd ev w r = Inr r'"
  shows "extends r r'"
proof (cases "fd = -1 \<or> \<not> isLoopThread S r")
  case True
  with assms show ?thesis by (intro extendsI [where new = "[]"]) (auto simp: addEvent_def wakeup_def Let_def split: if_splits)
next
  case False
  with assms show ?thesis using addEventInLoopThread_extends by (auto simp: addEvent_def)
qed

lemma addListenEvents_extends:
  assumes "addListenEvents S p ev r = Inr r'"
  shows "extends r r'"
proof -
  obtain e where e: "heap r p = Some e" using assms by (auto simp: addListenEvents_def with_event_def split: option.splits)
  show ?thesis
  proof (cases "listen_events e AND flag_of ev \<noteq> 0")
    case True
    with assms e show ?thesis by (simp add: addListenEvents_def with_event_def extends_refl)
  next
    case False
    let ?r = "store_event p (e\<lparr>listen_events := listen_events e OR flag_of ev\<rparr>) r"
    have "\<exists>fd ev. addEvent S fd ev True ?r = Inr r'"
      using assms e False by (auto simp: addListenEvents_def with_event_def updateToReactor_def bindE_Inr_iff store_event_def)
    with addEvent_extends extends_kern(2) extends_trans show ?thesis by blast
  qed
qed

lemma new_Timer_extends: "new_Timer S R on_timer q r = Inr tm \<Longrightarrow> extends r (rea tm)"
proof -
  assume "new_Timer S R on_timer q r = Inr tm"
  then obtain e k r' where "addListenEvents S q READ (store_event q e (r\<lparr>kern := k\<rparr>)) = Inr r'" "rea tm = r'"
    by (auto simp: new_Timer_def bindE_Inr_iff Let_def case_prod_beta)
  with addListenEvents_extends extends_kern extends_trans show ?thesis by metis
qed

lemma resetArriveTime_extends: "extends (rea st) (rea (resetArriveTime S st))"
  by (rule extendsI [where new = "[]"])
    (simp_all add: resetArriveTime_def set_kern_def Let_def split: list.splits prod.splits)

lemma add_periodic_extends:
  assumes "add_periodic S R on_timer q ms f r = Inr tm"
  shows "extends r (rea tm)"
proof -
  obtain e k where e: "new_TimerEvent S ms True (Some f) (kern r) = (e, k)" by fastforce
  then obtain tm1 where tm1: "new_Timer S (Some R) on_timer q (r\<lparr>kern := k\<rparr>) = Inr tm1"
    and tm: "tm = addTimerEvent S 0 True (tm1\<lparr>rea := (rea tm1)\<lparr>timer_fd := t_fd tm1\<rparr>, tev := (tev tm1)(0 := e)\<rparr>)"
    using assms by (auto simp: add_periodic_def getTimer_def bindE_Inr_iff split: if_splits)
  have "extends r ((rea tm1)\<lparr>timer_fd := t_fd tm1\<rparr>)"
    using new_Timer_extends [OF tm1] extends_kern extends_trans by metis
  moreover have "extends ((rea tm1)\<lparr>timer_fd := t_fd tm1\<rparr>) (rea tm)"
    unfolding tm addTimerEvent_def Let_def
    using resetArriveTime_extends [of "tm1\<lparr>rea := (rea tm1)\<lparr>timer_fd := t_fd tm1\<rparr>, tev := (tev tm1)(0 := e),
      pending_events := mm_emplace (arrive_time e) 0 (pending_events tm1)\<rparr>" S]
    by (simp add: extends_refl)
  ultimately show ?thesis by (rule extends_trans)
qed

lemma setup_extends: "IOThread_main_setup S N t r = Inr (x, r') \<Longrightarrow> extends r r'"
proof -
  assume "IOThread_main_setup S N t r = Inr (x, r')"
  then obtain tm1 w tm2 where "add_periodic S (this_io N) (on_timers N 0) (timer_at N 0) 10000 (do_loop_timer N) r = Inr tm1"
      "new_TcpTimeWheel S (this_io N) (on_timers N 1) (timer_at N 1) 2 10 (do_tick N) (rea tm1) = Inr (w, tm2)" "r' = rea tm2"
    by (auto simp: IOThread_main_setup_def bindE_Inr_iff Let_def case_prod_beta)
  then have "extends r (rea tm1)" "extends (rea tm1) r'"
    using add_periodic_extends by (fastforce simp: new_TcpTimeWheel_def bindE_Inr_iff)+
  then show ?thesis by (rule extends_trans)
qed

lemma new_Reactor_idle:
  "new_Reactor S have junk k = Inr r \<Longrightarrow> pending_tasks r = [] \<and> \<not> looping r \<and> \<not> init_timer r \<and> heap r = Map.empty"
  by (auto simp: new_Reactor_def bindE_Inr_iff addWakeupFd_def Let_def case_prod_beta)

lemma IOThread_main_proper: "proper_start (IOThread_main S N t have junk k)"
  unfolding proper_start_def IOThread_main_def
  by (auto simp: bindE_Inr_iff dest: new_Reactor_idle setup_extends)

section \<open>Starting the accept coroutine\<close>

lemma new_Coroutine_frame:
  "new_Coroutine sz sp t = Inr (i, t') \<Longrightarrow>
   t_cur_coroutine t' = t_cur_coroutine t \<and> code t' = code t \<and> (t_main_coroutine t \<noteq> None \<longrightarrow> t_main_coroutine t' = t_main_coroutine t)"
  by (auto simp: new_Coroutine_def ensure_main_def new_main_def bindE_Inr_iff Let_def split: option.splits)

lemma fill_slots_frame:
  "fill_slots n i sz alloc v t = Inr (v', t') \<Longrightarrow>
   t_cur_coroutine t' = t_cur_coroutine t \<and> code t' = code t \<and> (t_main_coroutine t \<noteq> None \<longrightarrow> t_main_coroutine t' = t_main_coroutine t)"
proof (induction n arbitrary: i v t)
  case (Suc n)
  then obtain c t1 where "new_Coroutine sz (alloc (t_coroutine_count t)) t = Inr (c, t1)"
    "fill_slots n (Suc i) sz alloc (v[i := (Some c, False)]) t1 = Inr (v', t')"
    by (auto simp: bindE_Inr_iff)
  with Suc.IH new_Coroutine_frame show ?case by metis
qed simp

lemma grow_slots_frame:
  "grow_slots n i sz alloc v t = Inr (v', t') \<Longrightarrow>
   t_cur_coroutine t' = t_cur_coroutine t \<and> code t' = code t \<and> (t_main_coroutine t \<noteq> None \<longrightarrow> t_main_coroutine t' = t_main_coroutine t)"
proof (induction n arbitrary: i v t)
  case (Suc n)
  then obtain c t1 where "new_Coroutine sz (alloc (t_coroutine_count t)) t = Inr (c, t1)"
    "grow_slots n (Suc i) sz alloc (v[i := (Some c, False)] @ [(Some c, False)]) t1 = Inr (v', t')"
    by (auto simp: bindE_Inr_iff)
  with Suc.IH new_Coroutine_frame show ?case by metis
qed simp

lemma GetCoroutinePool_frame:
  "GetCoroutinePool alloc g t = Inr (p, t') \<Longrightarrow>
   t_cur_coroutine t' = t_cur_coroutine t \<and> code t' = code t \<and> (t_main_coroutine t \<noteq> None \<longrightarrow> t_main_coroutine t' = t_main_coroutine t)"
  by (auto simp: GetCoroutinePool_def new_CoroutinePool_def bindE_Inr_iff Let_def dest: fill_slots_frame split: option.splits)

lemma getCoroutineInstanse_frame:
  "getCoroutineInstanse alloc p t = Inr (c, p', t') \<Longrightarrow>
   t_cur_coroutine t' = t_cur_coroutine t \<and> code t' = code t \<and> (t_main_coroutine t \<noteq> None \<longrightarrow> t_main_coroutine t' = t_main_coroutine t)"
  by (auto simp: getCoroutineInstanse_def bindE_Inr_iff Let_def dest: grow_slots_frame split: option.splits)

lemma setCoCallBack_frame:
  "setCoCallBack i cb t = Inr (ok, t') \<Longrightarrow>
   t_cur_coroutine t' = t_cur_coroutine t \<and> code t' = code t \<and> t_main_coroutine t' = t_main_coroutine t \<and>
   (ok \<longrightarrow> i < length (cors t) \<longrightarrow> saved (cors t' ! i) = Some (CoFunction i))"
  by (auto simp: setCoCallBack_def bindE_Inr_iff Let_def split: if_splits)

section \<open>Handing connections over\<close>

lemma hand_over_ok:
  assumes "pool_at k p" and "\<forall>th\<in>set (io_threads p). the_reactor th \<noteq> None"
  shows "\<exists>p'. hand_over S mk_add fd p = Inr p' \<and> pool_at (Suc k) p' \<and> length (io_threads p') = length (io_threads p) \<and>
    (\<forall>th\<in>set (io_threads p'). the_reactor th \<noteq> None) \<and>
    (\<forall>j<length (io_threads p). pushed (io_threads p' ! j) =
       pushed (io_threads p ! j) @ (if j = k mod length (io_threads p) then [Some (mk_add fd)] else []))"
proof -
  let ?i = "k mod length (io_threads p)"
  obtain p1 where p1: "getIOThread p = Inr (?i, p1)" "pool_at (Suc k) p1" "io_threads p1 = io_threads p"
    using getIOThread_at [OF assms(1)] by blast
  have i: "?i < length (io_threads p)" using assms(1) by (simp add: pool_at_def)
  then obtain r where r: "the_reactor (io_threads p ! ?i) = Some r" using assms(2) nth_mem by fastforce
  let ?th = "(io_threads p ! ?i)\<lparr>the_reactor := Some (addTask S (Some (mk_add fd)) True r), pushed := pushed (io_threads p ! ?i) @ [Some (mk_add fd)]\<rparr>"
  have "hand_over S mk_add fd p = Inr (p1\<lparr>io_threads := (io_threads p)[?i := ?th]\<rparr>)"
    using p1 r by (simp add: hand_over_def owner_post_def)
  moreover have "\<forall>th\<in>set ((io_threads p)[?i := ?th]). the_reactor th \<noteq> None"
    using assms(2) set_update_subset_insert [of "io_threads p" ?i ?th] by auto
  ultimately show ?thesis
    using p1(2,3) i by (auto simp: pool_at_def nth_list_update)
qed

lemma hand_overs_ok:
  assumes "pool_at k p" and "\<forall>th\<in>set (io_threads p). the_reactor th \<noteq> None"
  shows "\<exists>p'. foldE (hand_over S mk_add) xs p = Inr p' \<and> length (io_threads p') = length (io_threads p) \<and>
    (\<forall>j<length (io_threads p). pushed (io_threads p' ! j) =
       pushed (io_threads p ! j) @ map (\<lambda>fd. Some (mk_add fd)) (share (length (io_threads p)) j k xs))"
  using assms
proof (induction xs arbitrary: k p)
  case (Cons fd xs)
  obtain p1 where p1: "hand_over S mk_add fd p = Inr p1" "pool_at (Suc k) p1" "length (io_threads p1) = length (io_threads p)"
    "\<forall>th\<in>set (io_threads p1). the_reactor th \<noteq> None"
    "\<forall>j<length (io_threads p). pushed (io_threads p1 ! j) =
       pushed (io_threads p ! j) @ (if j = k mod length (io_threads p) then [Some (mk_add fd)] else [])"
    using hand_over_ok [OF Cons.prems, of S mk_add fd] by blast
  from Cons.IH [OF p1(2,4)] p1 show ?case by auto
qed simp

section \<open>Properties\<close>

text \<open>C36. An I/O thread that has set itself up.  Whatever calls of the kernel fail, \<open>IOThread::main\<close> gets to its loop, with the tasks queued meanwhile kept
  and a reactor that lists only descriptors the kernel watches; it has two timers, each with one repeated event, one that calls
  \<open>MainLoopTimerFunc\<close> every ten seconds and one that turns a time wheel of two empty buckets every ten seconds; and it can resume coroutines, as its current
  coroutine is its main one.  A timer for which \<open>timerfd_create\<close> returned a descriptor and no \<open>epoll_ctl\<close> failed has its descriptor watched for reading with that
  timer's \<open>onTimer\<close> as callback; when both are so, the two descriptors differ (\<open>getTimer()\<close> makes a new timer each time).
\<close>

theorem io_thread_main_ready:
  assumes "epoll_ctl_spec S V" and "timer_calls_spec S V" and "in_sync S V r" and "\<not> init_timer r"
    and "timer_at N 0 \<noteq> timer_at N 1" and "t_cur_coroutine t = None"
  shows "\<exists>x r'. IOThread_main_setup S N t r = Inr (x, r') \<and> in_sync S V r' \<and> pending_tasks r' = pending_tasks r @ grow r r' \<and>
    periodic 10000 (do_loop_timer N) (loop_timer x) \<and> periodic 10000 (do_tick N) (wheel_timer x) \<and> wheel_of x = [[], []] \<and>
    t_cur_coroutine (cor_thread x) \<noteq> None \<and> t_cur_coroutine (cor_thread x) = t_main_coroutine (cor_thread x) \<and>
    (timer_made V (loop_timer x) r' \<longrightarrow> timer_watched V (timer_at N 0) (on_timers N 0) (loop_timer x) r') \<and>
    (timer_made V (wheel_timer x) r' \<longrightarrow> timer_watched V (timer_at N 1) (on_timers N 1) (wheel_timer x) r') \<and>
    (timer_made V (loop_timer x) r' \<and> timer_made V (wheel_timer x) r' \<longrightarrow> t_fd (loop_timer x) \<noteq> t_fd (wheel_timer x))"
proof -
  obtain tm1 where tm1: "add_periodic S (this_io N) (on_timers N 0) (timer_at N 0) 10000 (do_loop_timer N) r = Inr tm1"
      "in_sync S V (rea tm1)" "periodic 10000 (do_loop_timer N) tm1" "timer_effect V (timer_at N 0) tm1 (kern r) (kern (rea tm1))"
      "\<exists>e. heap (rea tm1) = (heap r)(timer_at N 0 \<mapsto> e) \<and> m_fd e = t_fd tm1 \<and> read_cb e = Some (on_timers N 0)"
    using add_periodic_ok [OF assms(1-4)] by metis
  have "\<not> init_timer (rea tm1)" using add_periodic_extends [OF tm1(1)] assms(4) by (simp add: extends_def)
  from add_periodic_ok [OF assms(1,2) tm1(2) this] obtain tm2 where
    tm2: "add_periodic S (this_io N) (on_timers N 1) (timer_at N 1) 10000 (do_tick N) (rea tm1) = Inr tm2"
      "in_sync S V (rea tm2)" "periodic 10000 (do_tick N) tm2" "timer_effect V (timer_at N 1) tm2 (kern (rea tm1)) (kern (rea tm2))"
      "\<exists>e. heap (rea tm2) = (heap (rea tm1))(timer_at N 1 \<mapsto> e) \<and> m_fd e = t_fd tm2 \<and> read_cb e = Some (on_timers N 1)" by metis
  have 1: "timer_watched V (timer_at N 0) (on_timers N 0) tm1 (rea tm2) \<and> (t_fd tm2 \<noteq> -1 \<longrightarrow> t_fd tm1 \<noteq> t_fd tm2)"
    if m: "timer_made V tm1 (rea tm2)"
  proof -
    have "t_fd tm1 \<notin> refused V (kern (rea tm1))" using m timer_effectD(1) [OF tm2(4)] by (auto simp: timer_made_def)
    then have r: "reg V (kern (rea tm1)) (t_fd tm1) = Some \<lparr>events = EPOLLIN, data = timer_at N 0\<rparr>"
      using timer_effectD(2) [OF tm1(4)] m by (simp add: timer_made_def)
    then have "reg V (kern (rea tm2)) (t_fd tm1) = reg V (kern (rea tm1)) (t_fd tm1)" "t_fd tm1 \<noteq> t_fd tm2"
      using timer_effectD(3,4) [OF tm2(4), of "t_fd tm1"] m by (auto simp: timer_made_def)
    moreover have "heap (rea tm2) (timer_at N 0) = heap (rea tm1) (timer_at N 0)" using tm2(5) assms(5) by auto
    ultimately show ?thesis using r tm1(5) by (auto simp: timer_watched_def)
  qed
  have 2: "timer_watched V (timer_at N 1) (on_timers N 1) tm2 (rea tm2)" if "timer_made V tm2 (rea tm2)"
    using timer_effectD(2) [OF tm2(4)] that tm2(5) by (auto simp: timer_made_def timer_watched_def)
  have ready: "IOThread_main_setup S N t r =
      Inr (\<lparr>loop_timer = tm1, wheel_of = [[], []], wheel_timer = tm2, cor_thread = snd (GetCurrentCoroutine t)\<rparr>, rea tm2)"
    using tm1(1) tm2(1)
    by (simp add: IOThread_main_setup_def new_TcpTimeWheel_def chk_int_def in_int_def new_TimeWheel_def numeral_2_eq_2 case_prod_beta)
  moreover have "pending_tasks (rea tm2) = pending_tasks r @ grow r (rea tm2)"
    using setup_extends [OF ready] by (simp add: extends_def)
  ultimately show ?thesis
    using tm1(3) tm2(2,3) 1 2 assms(6) by (auto simp: GetCurrentCoroutine_def case_prod_beta timer_made_def)
qed

text \<open>A kernel whose timer descriptors are new.\<close>

definition fresh_sys :: "mini_kernel sys" where
  "fresh_sys = mini_sys\<lparr>sys_timerfd_create := (\<lambda>k. (1 + sum_list (map (\<lambda>p. \<bar>fst p\<bar>) (mk_reg k)), k))\<rparr>"

lemma fresh_calls_spec: "timer_calls_spec fresh_sys mini_view"
proof -
  have pos: "0 \<le> sum_list (map (\<lambda>p. \<bar>fst p\<bar>) xs)" and le: "map_of xs fd \<noteq> None \<Longrightarrow> \<bar>fd\<bar> \<le> sum_list (map (\<lambda>p. \<bar>fst p\<bar>) xs)"
    for xs :: "(int \<times> epoll_event) list" and fd
    by (induction xs) (auto split: if_splits)
  have "map_of xs (1 + sum_list (map (\<lambda>p. \<bar>fst p\<bar>) xs)) = None" for xs :: "(int \<times> epoll_event) list"
    using le [of xs "1 + sum_list (map (\<lambda>p. \<bar>fst p\<bar>) xs)"] pos [of xs] by (cases "map_of xs (1 + sum_list (map (\<lambda>p. \<bar>fst p\<bar>) xs))") auto
  then show ?thesis by (simp add: timer_calls_spec_def fresh_sys_def mini_sys_def mini_view_def same_reg_def)
qed

lemma fresh_ctl_spec: "epoll_ctl_spec fresh_sys mini_view"
  using mini_epoll_ctl_spec by (simp add: epoll_ctl_spec_def fresh_sys_def)

definition demo_names :: "nat io_names" where
  "demo_names = \<lparr>this_io = 0, on_timers = (\<lambda>i. 20 + i), timer_at = (\<lambda>i. if i = 0 then 512 else 1024), do_loop_timer = 30, do_tick = 31\<rparr>"

theorem io_thread_main_ready_witness:
  "\<exists>x r'. IOThread_main_setup fresh_sys demo_names (demo_cothread\<lparr>t_cur_coroutine := None\<rparr>) demo_reactor = Inr (x, r') \<and>
    wheel_of x = [[], []] \<and> periodic 10000 31 (wheel_timer x)"
proof -
  have "in_sync fresh_sys mini_view demo_reactor"
    by (auto simp: in_sync_def isLoopThread_def demo_reactor_def fresh_sys_def mini_sys_def mini_view_def)
  from io_thread_main_ready [OF fresh_ctl_spec fresh_calls_spec this, of demo_names "demo_cothread\<lparr>t_cur_coroutine := None\<rparr>"]
  show ?thesis by (auto simp: demo_names_def demo_reactor_def)
qed



text \<open>
  Handing connections over.  When every I/O thread has stored its reactor, the accepted descriptors are queued with the threads in turn, in
  order; a descriptor that arrives before the thread whose turn it is has stored its reactor makes the server follow an uninitialised
  pointer.
\<close>

lemma hand_over_round_robin:
  assumes "ts \<noteq> []" and "\<forall>th\<in>set ts. the_reactor th \<noteq> None"
  shows "\<exists>p'. foldE (hand_over S mk_add) xs (new_IOThreadPool ts) = Inr p' \<and>
    (\<forall>j<length ts. pushed (io_threads p' ! j) = pushed (ts ! j) @ map (\<lambda>fd. Some (mk_add fd)) (share (length ts) j 0 xs))"
proof -
  have "pool_at 0 (new_IOThreadPool ts)" using assms(1) by (simp add: pool_at_def new_IOThreadPool_def)
  from hand_overs_ok [OF this, of S mk_add xs] assms(2) show ?thesis by (auto simp: new_IOThreadPool_def)
qed

lemma hand_over_too_early:
  assumes "new_TcpServer S pool_size cur junk k = Inr (p, r)" and "0 < pool_size"
  shows "hand_over S mk_add fd p = Inl Null_deref"
proof -
  have p: "p = new_IOThreadPool (replicate (nat pool_size) new_IOThread)" using assms(1) by (auto simp: new_TcpServer_def bindE_Inr_iff)
  then have "pool_at 0 p" using assms(2) by (simp add: pool_at_def new_IOThreadPool_def)
  from getIOThread_at [OF this] obtain p' where p': "getIOThread p = Inr (0, p')" "io_threads p' = io_threads p" by auto
  have "the_reactor (io_threads p ! 0) = None" using p assms(2) by (simp add: new_IOThreadPool_def new_IOThread_def)
  then show ?thesis using p' by (simp add: hand_over_def owner_post_def)
qed

text \<open>
  Stopping a client before its reactor loops sets the client's flag only; once the flag is set, no later call reaches the reactor.
\<close>

lemma client_stop_too_early:
  assumes "\<not> cli_stop cl" and "\<not> looping (hr (cli_hst cl))"
  shows "cli_hst (client_stop S cl) = cli_hst cl"
    and "client_stop S ((client_stop S cl)\<lparr>cli_hst := h\<rparr>) = (client_stop S cl)\<lparr>cli_hst := h\<rparr>"
  using assms by (simp_all add: client_stop_def stop_def)

lemma client_stop_running:
  "\<not> cli_stop cl \<Longrightarrow> looping (hr (cli_hst cl)) \<Longrightarrow> stop_flag (hr (cli_hst (client_stop S cl)))"
  by (simp add: client_stop_def)

text \<open>A client has a fresh, unconnected connection on its socket, and \<open>getConnection\<close> keeps returning it.\<close>

lemma new_TcpClient_connection:
  assumes "new_TcpClient R sock h = Inr cl"
  obtains c where "connection cl = Some c" "state c = NotConnected" "contents (read_buffer c) = []" "contents (write_buffer c) = []"
    "getConnection R cl = Inr (c, cl)"
proof -
  have sz: "0 \<le> (128::int)" "(128::int) \<le> 2147483647" by simp_all
  obtain b where b: "new_TcpBuffer 128 = Inr b" "contents b = []" using new_TcpBuffer_ok [OF sz] by auto
  obtain c h' where c: "new_conn ClientConnection sock 128 = Inr c" "connection cl = Some c"
    using assms by (auto simp: new_TcpClient_def new_client_conn_def bindE_Inr_iff)
  have "state c = NotConnected" "read_buffer c = b" "write_buffer c = b"
    using c(1) b(1) by (auto simp: new_conn_def)
  then show ?thesis using that [of c] c(2) b(2) by (simp add: getConnection_def)
qed

end
