(* ===== verification/Mutex.thy ===== *)
theory Mutex
  imports Prelude "HOL-Library.Multiset"
begin

text \<open>
  The lock wrappers of \<^verbatim>\<open>src/net/mutex.h\<close>: \<open>Mutex\<close>, \<open>RWMutex\<close> and the scoped locks \<open>ScopedLockImpl\<close>, \<open>ReadScopedLockImpl\<close> and
  \<open>WriteScopedLockImpl\<close>.

  A thread is a number.  The calls of the pthread library are a parameter, a record of functions over a lock state of any type: a call that has to wait has no result
  yet (\<open>None\<close>), otherwise it returns its code and the new state.  What POSIX says of them is the predicate \<open>rwlock_spec\<close>.
\<close>

section \<open>The pthread library\<close>

record 'm mutex_calls =
  call_lock :: "nat \<Rightarrow> 'm \<Rightarrow> (int \<times> 'm) option"
  call_unlock :: "nat \<Rightarrow> 'm \<Rightarrow> int \<times> 'm"

record 'l rwlock_calls =
  call_rdlock :: "nat \<Rightarrow> 'l \<Rightarrow> (int \<times> 'l) option"
  call_wrlock :: "nat \<Rightarrow> 'l \<Rightarrow> (int \<times> 'l) option"
  call_rwunlock :: "nat \<Rightarrow> 'l \<Rightarrow> int \<times> 'l"

section \<open>The wrappers\<close>

text \<open>The codes are not looked at.\<close>

definition Mutex_lock :: "'m mutex_calls \<Rightarrow> nat \<Rightarrow> 'm \<Rightarrow> 'm option" where
  "Mutex_lock P t m = map_option snd (call_lock P t m)"

definition Mutex_unlock :: "'m mutex_calls \<Rightarrow> nat \<Rightarrow> 'm \<Rightarrow> 'm" where
  "Mutex_unlock P t m = snd (call_unlock P t m)"

definition RWMutex_rdlock :: "'l rwlock_calls \<Rightarrow> nat \<Rightarrow> 'l \<Rightarrow> 'l option" where
  "RWMutex_rdlock P t l = map_option snd (call_rdlock P t l)"

definition RWMutex_wrlock :: "'l rwlock_calls \<Rightarrow> nat \<Rightarrow> 'l \<Rightarrow> 'l option" where
  "RWMutex_wrlock P t l = map_option snd (call_wrlock P t l)"

definition RWMutex_unlock :: "'l rwlock_calls \<Rightarrow> nat \<Rightarrow> 'l \<Rightarrow> 'l" where
  "RWMutex_unlock P t l = snd (call_rwunlock P t l)"

text \<open>
  A scoped lock is the mutex it refers to and \<open>m_locked\<close>.  The three templates differ in the call that acquires, \<open>acq\<close>.
\<close>

definition new_guard :: "(nat \<Rightarrow> 'm \<Rightarrow> 'm option) \<Rightarrow> nat \<Rightarrow> 'm \<Rightarrow> ('m \<times> bool) option" where
  "new_guard acq t m = map_option (\<lambda>m. (m, True)) (acq t m)"

definition guard_lock :: "(nat \<Rightarrow> 'm \<Rightarrow> 'm option) \<Rightarrow> nat \<Rightarrow> 'm \<times> bool \<Rightarrow> ('m \<times> bool) option" where
  "guard_lock acq t = (\<lambda>(m, locked). if \<not> locked then map_option (\<lambda>m. (m, True)) (acq t m) else Some (m, locked))"

definition guard_unlock :: "(nat \<Rightarrow> 'm \<Rightarrow> 'm) \<Rightarrow> nat \<Rightarrow> 'm \<times> bool \<Rightarrow> 'm \<times> bool" where
  "guard_unlock rel t = (\<lambda>(m, locked). if locked then (rel t m, False) else (m, locked))"

definition destroy_guard :: "(nat \<Rightarrow> 'm \<Rightarrow> 'm) \<Rightarrow> nat \<Rightarrow> 'm \<times> bool \<Rightarrow> 'm" where
  "destroy_guard rel t g = fst (guard_unlock rel t g)"

text \<open>The three templates, as \<open>Mutex::Lock\<close>, \<open>RWMutex::ReadLock\<close> and \<open>RWMutex::WriteLock\<close> use them.\<close>

definition Lock_new :: "'m mutex_calls \<Rightarrow> nat \<Rightarrow> 'm \<Rightarrow> ('m \<times> bool) option" where
  "Lock_new P = new_guard (Mutex_lock P)"

definition Lock_lock :: "'m mutex_calls \<Rightarrow> nat \<Rightarrow> 'm \<times> bool \<Rightarrow> ('m \<times> bool) option" where
  "Lock_lock P = guard_lock (Mutex_lock P)"

definition Lock_unlock :: "'m mutex_calls \<Rightarrow> nat \<Rightarrow> 'm \<times> bool \<Rightarrow> 'm \<times> bool" where
  "Lock_unlock P = guard_unlock (Mutex_unlock P)"

definition Lock_destroy :: "'m mutex_calls \<Rightarrow> nat \<Rightarrow> 'm \<times> bool \<Rightarrow> 'm" where
  "Lock_destroy P = destroy_guard (Mutex_unlock P)"

definition ReadLock_new :: "'l rwlock_calls \<Rightarrow> nat \<Rightarrow> 'l \<Rightarrow> ('l \<times> bool) option" where
  "ReadLock_new P = new_guard (RWMutex_rdlock P)"

definition ReadLock_lock :: "'l rwlock_calls \<Rightarrow> nat \<Rightarrow> 'l \<times> bool \<Rightarrow> ('l \<times> bool) option" where
  "ReadLock_lock P = guard_lock (RWMutex_rdlock P)"

definition ReadLock_unlock :: "'l rwlock_calls \<Rightarrow> nat \<Rightarrow> 'l \<times> bool \<Rightarrow> 'l \<times> bool" where
  "ReadLock_unlock P = guard_unlock (RWMutex_unlock P)"

definition ReadLock_destroy :: "'l rwlock_calls \<Rightarrow> nat \<Rightarrow> 'l \<times> bool \<Rightarrow> 'l" where
  "ReadLock_destroy P = destroy_guard (RWMutex_unlock P)"

definition WriteLock_new :: "'l rwlock_calls \<Rightarrow> nat \<Rightarrow> 'l \<Rightarrow> ('l \<times> bool) option" where
  "WriteLock_new P = new_guard (RWMutex_wrlock P)"

definition WriteLock_lock :: "'l rwlock_calls \<Rightarrow> nat \<Rightarrow> 'l \<times> bool \<Rightarrow> ('l \<times> bool) option" where
  "WriteLock_lock P = guard_lock (RWMutex_wrlock P)"

definition WriteLock_unlock :: "'l rwlock_calls \<Rightarrow> nat \<Rightarrow> 'l \<times> bool \<Rightarrow> 'l \<times> bool" where
  "WriteLock_unlock P = guard_unlock (RWMutex_unlock P)"

definition WriteLock_destroy :: "'l rwlock_calls \<Rightarrow> nat \<Rightarrow> 'l \<times> bool \<Rightarrow> 'l" where
  "WriteLock_destroy P = destroy_guard (RWMutex_unlock P)"

lemmas template_defs = Lock_new_def Lock_lock_def Lock_unlock_def Lock_destroy_def
  ReadLock_new_def ReadLock_lock_def ReadLock_unlock_def ReadLock_destroy_def
  WriteLock_new_def WriteLock_lock_def WriteLock_unlock_def WriteLock_destroy_def

section \<open>What POSIX says of reader-writer locks\<close>

text \<open>
  The holders of a lock: the thread with the write lock and those with read locks, each as often as it holds one.  A call that returns 0 has acquired; it
  may do so only when that keeps readers and the writer apart.  Any call may fail (\<open>EAGAIN\<close>, \<open>EDEADLK\<close>, \<open>\<dots>\<close>), and then changes nothing.  Releasing is defined for a
  holder only.
\<close>

record 'l rw_view =
  rw_writer :: "'l \<Rightarrow> nat option"
  rw_readers :: "'l \<Rightarrow> nat multiset"

definition same_holders :: "'l rw_view \<Rightarrow> 'l \<Rightarrow> 'l \<Rightarrow> bool" where
  "same_holders V l l' \<longleftrightarrow> rw_writer V l' = rw_writer V l \<and> rw_readers V l' = rw_readers V l"

definition rwlock_spec :: "'l rwlock_calls \<Rightarrow> 'l rw_view \<Rightarrow> bool" where
  "rwlock_spec P V \<longleftrightarrow>
     (\<forall>t l rc l'. call_rdlock P t l = Some (rc, l') \<longrightarrow>
        (if rc = 0 then rw_writer V l = None \<and> rw_writer V l' = None \<and> rw_readers V l' = add_mset t (rw_readers V l)
         else same_holders V l l')) \<and>
     (\<forall>t l rc l'. call_wrlock P t l = Some (rc, l') \<longrightarrow>
        (if rc = 0 then rw_writer V l = None \<and> rw_readers V l = {#} \<and> rw_writer V l' = Some t \<and> rw_readers V l' = {#}
         else same_holders V l l')) \<and>
     (\<forall>t l rc l'. call_rwunlock P t l = (rc, l') \<longrightarrow>
        (rw_writer V l = Some t \<longrightarrow> rw_writer V l' = None \<and> rw_readers V l' = rw_readers V l) \<and>
        (rw_writer V l = None \<and> t \<in># rw_readers V l \<longrightarrow> rw_writer V l' = None \<and> rw_readers V l' = rw_readers V l - {#t#}))"

definition rw_idle :: "'l rw_view \<Rightarrow> nat \<Rightarrow> 'l \<Rightarrow> bool" where
  "rw_idle V t l \<longleftrightarrow> rw_writer V l \<noteq> Some t \<and> t \<notin># rw_readers V l"

section \<open>Many guards on one reader-writer lock\<close>

text \<open>
  The scoped locks of all threads on one \<open>RWMutex\<close>: what a guard is, and the steps that construct, lock, unlock and destroy one.
  A thread does not acquire the lock while it holds it, and acquiring does not fail.
\<close>

record rw_guard =
  g_thread :: nat
  g_write :: bool
  m_locked :: bool

type_synonym 'l rw_system = "'l \<times> (nat \<Rightarrow> rw_guard option)"

definition rw_acq :: "'l rwlock_calls \<Rightarrow> bool \<Rightarrow> nat \<Rightarrow> 'l \<Rightarrow> 'l option" where
  "rw_acq P w = (if w then RWMutex_wrlock P else RWMutex_rdlock P)"

definition acquires :: "'l rwlock_calls \<Rightarrow> bool \<Rightarrow> nat \<Rightarrow> 'l \<Rightarrow> bool" where
  "acquires P w t l \<longleftrightarrow> map_option fst ((if w then call_wrlock P else call_rdlock P) t l) = Some 0"

text \<open>A guard with \<open>g_write\<close> is a \<open>WriteLock\<close>, one without a \<open>ReadLock\<close>.\<close>

definition rw_new :: "'l rwlock_calls \<Rightarrow> bool \<Rightarrow> nat \<Rightarrow> 'l \<Rightarrow> ('l \<times> bool) option" where
  "rw_new P w = (if w then WriteLock_new P else ReadLock_new P)"

definition rw_lock :: "'l rwlock_calls \<Rightarrow> rw_guard \<Rightarrow> 'l \<Rightarrow> ('l \<times> bool) option" where
  "rw_lock P g l = (if g_write g then WriteLock_lock P else ReadLock_lock P) (g_thread g) (l, m_locked g)"

definition rw_unlock :: "'l rwlock_calls \<Rightarrow> rw_guard \<Rightarrow> 'l \<Rightarrow> 'l \<times> bool" where
  "rw_unlock P g l = (if g_write g then WriteLock_unlock P else ReadLock_unlock P) (g_thread g) (l, m_locked g)"

definition rw_destroy :: "'l rwlock_calls \<Rightarrow> rw_guard \<Rightarrow> 'l \<Rightarrow> 'l" where
  "rw_destroy P g l = (if g_write g then WriteLock_destroy P else ReadLock_destroy P) (g_thread g) (l, m_locked g)"

lemma rw_eqs:
  "rw_new P w = new_guard (rw_acq P w)" "rw_lock P g l = guard_lock (rw_acq P (g_write g)) (g_thread g) (l, m_locked g)"
  "rw_unlock P g l = guard_unlock (RWMutex_unlock P) (g_thread g) (l, m_locked g)"
  "rw_destroy P g l = destroy_guard (RWMutex_unlock P) (g_thread g) (l, m_locked g)"
  by (simp_all add: rw_new_def rw_lock_def rw_unlock_def rw_destroy_def rw_acq_def template_defs)

inductive rw_step :: "'l rwlock_calls \<Rightarrow> 'l rw_view \<Rightarrow> 'l rw_system \<Rightarrow> 'l rw_system \<Rightarrow> bool" for P V where
  new: "G i = None \<Longrightarrow> rw_idle V t l \<Longrightarrow> acquires P w t l \<Longrightarrow> rw_new P w t l = Some (l', k) \<Longrightarrow>
    rw_step P V (l, G) (l', G(i \<mapsto> \<lparr>g_thread = t, g_write = w, m_locked = k\<rparr>))"
| lock: "G i = Some g \<Longrightarrow> m_locked g \<or> rw_idle V (g_thread g) l \<and> acquires P (g_write g) (g_thread g) l \<Longrightarrow>
    rw_lock P g l = Some (l', k) \<Longrightarrow> rw_step P V (l, G) (l', G(i \<mapsto> g\<lparr>m_locked := k\<rparr>))"
| unlock: "G i = Some g \<Longrightarrow> rw_unlock P g l = (l', k) \<Longrightarrow>
    rw_step P V (l, G) (l', G(i \<mapsto> g\<lparr>m_locked := k\<rparr>))"
| destroy: "G i = Some g \<Longrightarrow> rw_step P V (l, G) (rw_destroy P g l, G(i := None))"

inductive_cases rw_stepE: "rw_step P V (l, G) s"

text \<open>The guards that hold the lock, and the invariant: they are exactly the holders the lock itself records.\<close>

definition holding :: "(nat \<Rightarrow> rw_guard option) \<Rightarrow> nat \<Rightarrow> nat \<Rightarrow> bool \<Rightarrow> bool" where
  "holding G i t w \<longleftrightarrow> G i = Some \<lparr>g_thread = t, g_write = w, m_locked = True\<rparr>"

definition rw_inv :: "'l rw_view \<Rightarrow> 'l rw_system \<Rightarrow> bool" where
  "rw_inv V = (\<lambda>(l, G). (\<forall>t. count (rw_readers V l) t \<le> 1) \<and> (rw_writer V l \<noteq> None \<longrightarrow> rw_readers V l = {#}) \<and>
     (\<forall>t. rw_writer V l = Some t \<longleftrightarrow> (\<exists>i. holding G i t True)) \<and> (\<forall>t. t \<in># rw_readers V l \<longleftrightarrow> (\<exists>i. holding G i t False)) \<and>
     (\<forall>i j t w w'. holding G i t w \<longrightarrow> holding G j t w' \<longrightarrow> i = j))"

lemma holding_upd [simp]:
  "holding (G(i \<mapsto> g)) j t w \<longleftrightarrow> (if j = i then g = \<lparr>g_thread = t, g_write = w, m_locked = True\<rparr> else holding G j t w)"
  "holding (G(i := None)) j t w \<longleftrightarrow> j \<noteq> i \<and> holding G j t w"
  by (auto simp: holding_def)

lemma rw_invD:
  assumes "rw_inv V (l, G)"
  shows "count (rw_readers V l) v \<le> 1" and "rw_writer V l = Some u \<Longrightarrow> rw_readers V l = {#}"
    and "rw_writer V l = Some t \<longleftrightarrow> (\<exists>i. holding G i t True)" and "t \<in># rw_readers V l \<longleftrightarrow> (\<exists>i. holding G i t False)"
    and "holding G i t w \<Longrightarrow> holding G j t w' \<Longrightarrow> i = j"
  using assms by (simp_all add: rw_inv_def) blast

lemma rw_invI:
  assumes "\<And>t. count (rw_readers V l) t \<le> 1" and "rw_writer V l = None \<or> rw_readers V l = {#}"
    and "\<And>t. rw_writer V l = Some t \<longleftrightarrow> (\<exists>i. holding G i t True)" and "\<And>t. t \<in># rw_readers V l \<longleftrightarrow> (\<exists>i. holding G i t False)"
    and "\<And>i j t w w'. holding G i t w \<Longrightarrow> holding G j t w' \<Longrightarrow> i = j"
  shows "rw_inv V (l, G)"
  unfolding rw_inv_def prod.case using assms(2) by (intro conjI allI impI assms(1,3-)) auto

lemma rw_inv_idle:
  assumes "rw_inv V (l, G)"
  shows "rw_idle V t l \<longleftrightarrow> (\<forall>i w. \<not> holding G i t w)"
  unfolding rw_idle_def rw_invD(3,4) [OF assms] by (metis (full_types))

lemma rw_inv_free:
  assumes "rw_inv V (l, G)"
  shows "rw_writer V l = None \<longleftrightarrow> (\<forall>i t. \<not> holding G i t True)" and "rw_readers V l = {#} \<longleftrightarrow> (\<forall>i t. \<not> holding G i t False)"
  using rw_invD(3,4) [OF assms] by (metis option.exhaust option.distinct(1), metis set_mset_eq_empty_iff ex_in_conv)

lemma acquiresD:
  assumes "rwlock_spec P V" and "acquires P w t l" and "rw_acq P w t l = Some l'"
  shows "rw_writer V l = None"
    and "w \<Longrightarrow> rw_readers V l = {#} \<and> rw_writer V l' = Some t \<and> rw_readers V l' = {#}"
    and "\<not> w \<Longrightarrow> rw_writer V l' = None \<and> rw_readers V l' = add_mset t (rw_readers V l)"
proof -
  have c: "(if w then call_wrlock P else call_rdlock P) t l = Some (0, l')"
    using assms(2,3) by (auto simp: acquires_def rw_acq_def RWMutex_rdlock_def RWMutex_wrlock_def split: if_splits)
  show "rw_writer V l = None" using assms(1) c by (cases w) (fastforce simp: rwlock_spec_def)+
  show "w \<Longrightarrow> rw_readers V l = {#} \<and> rw_writer V l' = Some t \<and> rw_readers V l' = {#}"
    using assms(1) c by (fastforce simp: rwlock_spec_def)
  show "\<not> w \<Longrightarrow> rw_writer V l' = None \<and> rw_readers V l' = add_mset t (rw_readers V l)"
    using assms(1) c by (fastforce simp: rwlock_spec_def)
qed

lemma releaseD:
  assumes "rwlock_spec P V"
  shows "rw_writer V l = Some t \<Longrightarrow> rw_writer V (RWMutex_unlock P t l) = None \<and> rw_readers V (RWMutex_unlock P t l) = rw_readers V l"
    and "rw_writer V l = None \<Longrightarrow> t \<in># rw_readers V l \<Longrightarrow>
      rw_writer V (RWMutex_unlock P t l) = None \<and> rw_readers V (RWMutex_unlock P t l) = rw_readers V l - {#t#}"
  using assms by (auto simp: rwlock_spec_def RWMutex_unlock_def) (metis prod.collapse)+

text \<open>A guard of an idle thread takes the lock.\<close>

lemma rw_inv_acquire:
  assumes "rwlock_spec P V" and "rw_inv V (l, G)" and "rw_idle V t l" and "acquires P w t l" and "rw_acq P w t l = Some l'"
    and "\<And>t w. \<not> holding G i t w"
  shows "rw_inv V (l', G(i \<mapsto> \<lparr>g_thread = t, g_write = w, m_locked = True\<rparr>))"
proof (cases w)
  case True
  note l' = acquiresD(1) [OF assms(1,4,5)] acquiresD(2) [OF assms(1,4,5) True]
  then have "\<not> holding G j u v" for j u v
    using rw_inv_free [OF assms(2)] by (cases v) auto
  then show ?thesis using l' True by (intro rw_invI) (auto split: if_splits)
next
  case False
  note l' = acquiresD(1) [OF assms(1,4,5)] acquiresD(3) [OF assms(1,4,5) False]
  have idle: "\<not> holding G j t v" for j v
    using assms(3) rw_inv_idle [OF assms(2)] by blast
  have no_writer: "\<not> holding G j u True" for j u
    using l'(1) rw_inv_free(1) [OF assms(2)] by blast
  let ?G = "G(i \<mapsto> \<lparr>g_thread = t, g_write = w, m_locked = True\<rparr>)"
  have upd: "holding ?G j u False \<longleftrightarrow> j = i \<and> u = t \<or> holding G j u False" for j u
    using False assms(6) by auto
  show ?thesis
  proof (rule rw_invI)
    show "u \<in># rw_readers V l' \<longleftrightarrow> (\<exists>j. holding ?G j u False)" for u
      unfolding upd using l' rw_invD(4) [OF assms(2), of u] by auto
    show "count (rw_readers V l') u \<le> 1" for u
      using l'(2) assms(3) rw_invD(1) [OF assms(2), of u] by (auto simp: rw_idle_def not_in_iff)
  qed (use l' False idle no_writer assms(6) rw_invD(5) [OF assms(2)] in \<open>auto split: if_splits\<close>)
qed

text \<open>A guard that holds the lock gives it back; what becomes of the guard does not matter as long as it no longer holds it.\<close>

lemma rw_inv_release:
  assumes "rwlock_spec P V" and "rw_inv V (l, G)" and "holding G i t w" and "\<And>j u v. holding G' j u v \<longleftrightarrow> j \<noteq> i \<and> holding G j u v"
  shows "rw_inv V (RWMutex_unlock P t l, G')"
proof -
  note inv = rw_invD [OF assms(2)]
  have only: "holding G i u v \<longleftrightarrow> u = t \<and> v = w" for u v
    using assms(3) by (auto simp: holding_def)
  have own: "holding G j t v \<Longrightarrow> j = i" for j v
    using inv(5) assms(3) by blast
  show ?thesis
  proof (cases w)
    case True
    then have l: "rw_writer V l = Some t" using assms(3) by (auto simp: inv(3))
    then have r: "rw_readers V l = {#}" by (rule inv(2))
    have "\<not> holding G' j u v" for j u v
    proof (cases v)
      case True
      then show ?thesis using inv(3) [of u] l own [of j] assms(4) [of j u v] by auto
    next
      case False
      then show ?thesis using rw_inv_free(2) [OF assms(2)] r assms(4) by auto
    qed
    then show ?thesis using releaseD(1) [OF assms(1) l] r by (intro rw_invI) auto
  next
    case False
    then have t: "t \<in># rw_readers V l" using assms(3) by (auto simp: inv(4))
    then have l: "rw_writer V l = None" using inv(2) by (cases "rw_writer V l") auto
    note l' = releaseD(2) [OF assms(1) l t]
    show ?thesis
    proof (rule rw_invI)
      show "u \<in># rw_readers V (RWMutex_unlock P t l) \<longleftrightarrow> (\<exists>j. holding G' j u False)" for u
      proof (cases "u = t")
        case True
        have "t \<notin># rw_readers V l - {#t#}" using inv(1) [of t] by (simp add: not_in_iff)
        then show ?thesis unfolding assms(4) using l' True own by auto
      next
        case False
        then have "j \<noteq> i" if "holding G j u False" for j using that only by blast
        moreover have "u \<in># rw_readers V l - {#t#} \<longleftrightarrow> u \<in># rw_readers V l" using False by (simp add: in_diff_count count_greater_zero_iff)
        ultimately show ?thesis unfolding assms(4) using l' inv(4) [of u] by auto
      qed
      show "count (rw_readers V (RWMutex_unlock P t l)) u \<le> 1" for u
        using l' inv(1) [of u] by (auto intro: diff_le_self [THEN order_trans])
    qed (use l l' inv(5) rw_inv_free(1) [OF assms(2)] assms(4) in auto)
  qed
qed

lemma rw_inv_same:
  assumes "rw_inv V (l, G)" and "\<And>j u v. holding G' j u v \<longleftrightarrow> holding G j u v"
  shows "rw_inv V (l, G')"
proof -
  have "holding G' = holding G" using assms(2) by (intro ext) blast
  with assms(1) show ?thesis by (simp add: rw_inv_def)
qed

lemma guard_eta: "m_locked g \<Longrightarrow> holding G i (g_thread g) (g_write g) \<longleftrightarrow> G i = Some g"
  by (cases g) (auto simp: holding_def)

lemma rw_step_inv:
  assumes "rwlock_spec P V" and "rw_step P V (l, G) (l', G')" and "rw_inv V (l, G)"
  shows "rw_inv V (l', G')"
  using assms(2)
proof (rule rw_stepE)
  fix i t w m k assume G: "G i = None" and idle: "rw_idle V t l" "acquires P w t l" and n: "rw_new P w t l = Some (m, k)"
    and s: "(l', G') = (m, G(i \<mapsto> \<lparr>g_thread = t, g_write = w, m_locked = k\<rparr>))"
  have "rw_acq P w t l = Some m" "k" using n by (auto simp: rw_eqs new_guard_def)
  moreover have "\<not> holding G i u v" for u v using G by (simp add: holding_def)
  ultimately show ?thesis using rw_inv_acquire [OF assms(1,3) idle] s by simp
next
  fix i g m k assume G: "G i = Some g" and idle: "m_locked g \<or> rw_idle V (g_thread g) l \<and> acquires P (g_write g) (g_thread g) l"
    and n: "rw_lock P g l = Some (m, k)" and s: "(l', G') = (m, G(i \<mapsto> g\<lparr>m_locked := k\<rparr>))"
  show ?thesis
  proof (cases "m_locked g")
    case True
    with n have "m = l" "g\<lparr>m_locked := k\<rparr> = g" by (auto simp: rw_eqs guard_lock_def)
    with s G assms(3) show ?thesis by (simp add: fun_upd_idem)
  next
    case False
    then have "rw_acq P (g_write g) (g_thread g) l = Some m" "k" "rw_idle V (g_thread g) l" "acquires P (g_write g) (g_thread g) l"
      using n idle by (auto simp: rw_eqs guard_lock_def)
    moreover have "\<not> holding G i u v" for u v using G False by (auto simp: holding_def)
    ultimately have "rw_inv V (m, G(i \<mapsto> \<lparr>g_thread = g_thread g, g_write = g_write g, m_locked = True\<rparr>))"
      using rw_inv_acquire [OF assms(1,3)] by blast
    with s \<open>k\<close> show ?thesis by (cases g) simp
  qed
next
  fix i g m k assume G: "G i = Some g" and n: "rw_unlock P g l = (m, k)"
    and s: "(l', G') = (m, G(i \<mapsto> g\<lparr>m_locked := k\<rparr>))"
  show ?thesis
  proof (cases "m_locked g")
    case True
    with n have "m = RWMutex_unlock P (g_thread g) l" "\<not> k" by (auto simp: rw_eqs guard_unlock_def)
    moreover have "holding (G(i \<mapsto> g\<lparr>m_locked := False\<rparr>)) j u v \<longleftrightarrow> j \<noteq> i \<and> holding G j u v" for j u v
      by (cases g) simp
    ultimately show ?thesis
      using s True G rw_inv_release [OF assms(1,3), of i "g_thread g" "g_write g" G'] by (simp add: guard_eta)
  next
    case False
    with n have "m = l" "g\<lparr>m_locked := k\<rparr> = g" by (auto simp: rw_eqs guard_unlock_def)
    with s G assms(3) show ?thesis by (simp add: fun_upd_idem)
  qed
next
  fix i g assume G: "G i = Some g" and s: "(l', G') = (rw_destroy P g l, G(i := None))"
  show ?thesis
  proof (cases "m_locked g")
    case True
    with s G rw_inv_release [OF assms(1,3), of i "g_thread g" "g_write g" G'] show ?thesis
      by (simp add: rw_eqs guard_eta destroy_guard_def guard_unlock_def)
  next
    case False
    then have "\<not> holding G i u v" for u v using G by (auto simp: holding_def)
    then have "holding G' j u v \<longleftrightarrow> holding G j u v" for j u v using s by auto
    with rw_inv_same [OF assms(3)] show ?thesis using s False by (simp add: rw_eqs destroy_guard_def guard_unlock_def)
  qed
qed

text \<open>A lock nobody holds, and no guards.\<close>

definition rw_free :: "'l rw_view \<Rightarrow> 'l \<Rightarrow> bool" where
  "rw_free V l \<longleftrightarrow> rw_writer V l = None \<and> rw_readers V l = {#}"

lemma rw_reachable_inv:
  assumes "rwlock_spec P V" and "rw_free V l0" and "(rw_step P V)\<^sup>*\<^sup>* (l0, \<lambda>_. None) s"
  shows "rw_inv V s"
  using assms(3)
proof (induction rule: rtranclp_induct)
  case base
  show ?case using assms(2) by (simp add: rw_free_def rw_inv_def holding_def)
next
  case (step s s')
  then show ?case using rw_step_inv [OF assms(1)] by (cases s; cases s') blast
qed


text \<open>A lock that follows the specification: it refuses a thread that holds the write lock, and more than two readers.\<close>

definition small_calls :: "(nat option \<times> nat multiset) rwlock_calls" where
  "small_calls =
     \<lparr>call_rdlock = (\<lambda>t (w, R). if w = Some t then Some (35, (w, R)) else if w \<noteq> None then None
        else if 2 \<le> size R then Some (11, (w, R)) else Some (0, (w, add_mset t R))),
      call_wrlock = (\<lambda>t (w, R). if w = Some t then Some (35, (w, R)) else if w \<noteq> None \<or> R \<noteq> {#} then None else Some (0, (Some t, R))),
      call_rwunlock = (\<lambda>t (w, R). (0, if w = Some t then (None, R) else (w, R - {#t#})))\<rparr>"

definition small_view :: "(nat option \<times> nat multiset) rw_view" where
  "small_view = \<lparr>rw_writer = fst, rw_readers = snd\<rparr>"

lemma small_rwlock_spec: "rwlock_spec small_calls small_view"
  by (auto simp: rwlock_spec_def small_calls_def small_view_def same_holders_def split: if_splits)


text \<open>
  The return codes are ignored: when the library refuses a \<open>ReadLock\<close> that a thread constructs while it holds a \<open>WriteLock\<close> (\<open>EDEADLK\<close>), the inner lock believes it is
  locked, and its destructor gives up the write lock of the outer one, which still believes it holds it.
\<close>

lemma nested_read_guard_drops_write_lock:
  assumes "rwlock_spec P V" and "rw_writer V l = Some t" and "call_rdlock P t l = Some (rc, l')" and "rc \<noteq> 0"
  shows "ReadLock_new P t l = Some (l', True)" and "rw_writer V (ReadLock_destroy P t (l', True)) = None"
proof -
  show "ReadLock_new P t l = Some (l', True)" using assms(3) by (simp add: template_defs new_guard_def RWMutex_rdlock_def)
  have "rw_writer V l' = Some t" using assms by (fastforce simp: rwlock_spec_def same_holders_def)
  then show "rw_writer V (ReadLock_destroy P t (l', True)) = None"
    using releaseD(1) [OF assms(1)] by (simp add: template_defs destroy_guard_def guard_unlock_def)
qed

end
