(* ===== verification/Alloc.thy ===== *)
theory Alloc
  imports Prelude
begin

text \<open>
  The block allocator \<open>net2::bucket\<close> of \<^verbatim>\<open>src/net2/alloc.cc\<close>.

  \<open>find_contiguous_blocks\<close>, \<open>set_blocks_in_use\<close> and \<open>set_blocks_free\<close> are declared in \<^verbatim>\<open>alloc.hpp\<close> and defined nowhere: they are
  parameters, and \<open>ledger_spec\<close> is what the comments on their declarations promise.  Sizes are \<open>std::size_t\<close>, so 64-bit words;
  an address is a natural number.
\<close>

section \<open>Operations\<close>

record 'l ledger_ops =
  find_contiguous_blocks :: "'l \<Rightarrow> u64 \<Rightarrow> u64"
  set_blocks_in_use :: "u64 \<Rightarrow> u64 \<Rightarrow> 'l \<Rightarrow> 'l"
  set_blocks_free :: "u64 \<Rightarrow> u64 \<Rightarrow> 'l \<Rightarrow> 'l"

record 'l bucket =
  BlockSize :: u64
  BlockCount :: u64
  m_data :: nat
  m_ledger :: 'l

definition data_size :: "u64 \<Rightarrow> u64 \<Rightarrow> u64" where
  "data_size block_size block_count = block_size * block_count"

definition ledger_size :: "u64 \<Rightarrow> u64" where
  "ledger_size block_count = 1 + (block_count - 1) div 8"

text \<open>\<open>data\<close> and \<open>ledger\<close> are what the two calls of \<open>malloc\<close> return, the ledger cleared.\<close>

definition new_bucket :: "u64 \<Rightarrow> u64 \<Rightarrow> nat option \<Rightarrow> 'l option \<Rightarrow> 'l bucket res" where
  "new_bucket block_size block_count data ledger =
     (case data of None \<Rightarrow> Inl Assert_failed
      | Some d \<Rightarrow> (case ledger of None \<Rightarrow> Inl Assert_failed
         | Some l \<Rightarrow> Inr \<lparr>BlockSize = block_size, BlockCount = block_count, m_data = d, m_ledger = l\<rparr>))"

definition blocks_needed :: "'l bucket \<Rightarrow> u64 \<Rightarrow> u64 res" where
  "blocks_needed b bytes = bindE (guardE (BlockSize b \<noteq> 0) Div_by_zero) (\<lambda>_. Inr (1 + (bytes - 1) div BlockSize b))"

definition allocate :: "'l ledger_ops \<Rightarrow> u64 \<Rightarrow> 'l bucket \<Rightarrow> (nat option \<times> 'l bucket) res" where
  "allocate L bytes b =
     bindE (blocks_needed b bytes) (\<lambda>n.
     let index = find_contiguous_blocks L (m_ledger b) n in
     if index = BlockCount b then Inr (None, b)
     else Inr (Some (m_data b + unat (index * BlockSize b)), b\<lparr>m_ledger := set_blocks_in_use L index n (m_ledger b)\<rparr>))"

definition deallocate :: "'l ledger_ops \<Rightarrow> nat \<Rightarrow> u64 \<Rightarrow> 'l bucket \<Rightarrow> 'l bucket res" where
  "deallocate L ptr bytes b =
     bindE (blocks_needed b bytes) (\<lambda>n.
     let dist = of_nat (ptr - m_data b); index = dist div BlockSize b in
     Inr (b\<lparr>m_ledger := set_blocks_free L index n (m_ledger b)\<rparr>))"

section \<open>The ledger\<close>

abbreviation block_range :: "u64 \<Rightarrow> u64 \<Rightarrow> nat set" where
  "block_range i n \<equiv> {unat i..<unat i + unat n}"

definition ledger_spec :: "'l ledger_ops \<Rightarrow> u64 \<Rightarrow> ('l \<Rightarrow> nat set) \<Rightarrow> bool" where
  "ledger_spec L count used \<longleftrightarrow>
     (\<forall>l n. let i = find_contiguous_blocks L l n in
        i = count \<or> unat i < unat count \<and> unat i + unat n \<le> unat count \<and> block_range i n \<inter> used l = {}) \<and>
     (\<forall>i n l. unat i + unat n \<le> unat count \<longrightarrow>
        used (set_blocks_in_use L i n l) = used l \<union> block_range i n \<and> used (set_blocks_free L i n l) = used l - block_range i n)"

section \<open>Allocations do not overlap\<close>

text \<open>A client that frees only what it holds, with the size it asked for; the list holds the live allocations.\<close>

inductive bucket_step :: "'l ledger_ops \<Rightarrow> 'l bucket \<times> (nat \<times> u64) list \<Rightarrow> 'l bucket \<times> (nat \<times> u64) list \<Rightarrow> bool"
  for L where
  alloc: "allocate L bytes b = Inr (Some p, b') \<Longrightarrow> 0 < bytes \<Longrightarrow> bucket_step L (b, live) (b', (p, bytes) # live)"
| alloc_null: "allocate L bytes b = Inr (None, b') \<Longrightarrow> bucket_step L (b, live) (b', live)"
| free: "deallocate L p bytes b = Inr b' \<Longrightarrow> (p, bytes) \<in> set live \<Longrightarrow> bucket_step L (b, live) (b', remove1 (p, bytes) live)"

inductive_cases bucket_stepE: "bucket_step L (b, live) t"

text \<open>The blocks of a live allocation.\<close>

definition blocks_of :: "'l bucket \<Rightarrow> nat \<times> u64 \<Rightarrow> nat set" where
  "blocks_of b a =
     (let i = (fst a - m_data b) div unat (BlockSize b) in {i..<i + (1 + (unat (snd a) - 1) div unat (BlockSize b))})"

definition same_bucket :: "'l bucket \<Rightarrow> 'l bucket \<Rightarrow> bool" where
  "same_bucket b b' \<longleftrightarrow> BlockSize b' = BlockSize b \<and> BlockCount b' = BlockCount b \<and> m_data b' = m_data b"

definition bucket_inv :: "('l \<Rightarrow> nat set) \<Rightarrow> 'l bucket \<Rightarrow> (nat \<times> u64) list \<Rightarrow> bool" where
  "bucket_inv used b live \<longleftrightarrow>
     (\<forall>a\<in>set live. 0 < snd a \<and> m_data b \<le> fst a \<and> unat (BlockSize b) dvd fst a - m_data b \<and>
        blocks_of b a \<subseteq> {..<unat (BlockCount b)}) \<and>
     pairwise (\<lambda>a a'. blocks_of b a \<inter> blocks_of b a' = {}) (set live) \<and> distinct live \<and>
     used (m_ledger b) = (\<Union>a\<in>set live. blocks_of b a)"

definition sizes_ok :: "'l bucket \<Rightarrow> bool" where
  "sizes_ok b \<longleftrightarrow> 0 < unat (BlockSize b) \<and> unat (BlockSize b) * unat (BlockCount b) < 2 ^ 64"

lemma unat_one_plus: "1 + unat (x :: u64) < 2 ^ 64 \<Longrightarrow> unat (1 + x) = 1 + unat x"
  by (simp add: unat_word_ariths)

lemma blocks_needed_eq:
  assumes "sizes_ok b" and "0 < bytes"
  obtains n where "blocks_needed b bytes = Inr n" and "unat n = 1 + (unat bytes - 1) div unat (BlockSize b)"
proof
  have nz: "BlockSize b \<noteq> 0"
    using assms(1) by (auto simp: sizes_ok_def)
  then show "blocks_needed b bytes = Inr (1 + (bytes - 1) div BlockSize b)"
    by (simp add: blocks_needed_def guardE_def)
  have pos: "0 < unat bytes" using assms(2) by (simp add: unat_gt_0 word_neq_0_conv)
  then have minus: "unat (bytes - 1) = unat bytes - 1"
    using assms(2) by (simp add: unat_minus_one word_neq_0_conv)
  have "(unat bytes - 1) div unat (BlockSize b) \<le> unat bytes - 1" by simp
  also have "\<dots> < 2 ^ 64 - 1"
    using pos unsigned_less [of bytes, where ?'a = nat] by simp
  finally have small: "1 + unat ((bytes - 1) div BlockSize b) < 2 ^ 64"
    by (simp add: unat_div minus)
  from unat_one_plus [OF small] show "unat (1 + (bytes - 1) div BlockSize b) = 1 + (unat bytes - 1) div unat (BlockSize b)"
    by (simp only: unat_div minus)
qed

lemma block_address:
  assumes "sizes_ok b" and "unat i < unat (BlockCount b)"
  shows "unat (i * BlockSize b) = unat i * unat (BlockSize b)"
    and "unat (of_nat (unat i * unat (BlockSize b)) div BlockSize b) = unat i"
proof -
  have "unat i * unat (BlockSize b) \<le> unat (BlockCount b) * unat (BlockSize b)"
    using assms(2) by (intro mult_right_mono) auto
  also have "\<dots> < 2 ^ 64"
    using assms(1) by (simp add: sizes_ok_def mult.commute)
  finally have lt: "unat i * unat (BlockSize b) < 2 ^ 64" .
  then show eq: "unat (i * BlockSize b) = unat i * unat (BlockSize b)"
    by (simp add: unat_word_ariths)
  have "of_nat (unat i * unat (BlockSize b)) = i * BlockSize b"
    by simp
  then show "unat (of_nat (unat i * unat (BlockSize b)) div BlockSize b) = unat i"
    using eq assms(1) by (simp add: unat_div sizes_ok_def)
qed

lemma allocate_ok:
  assumes "ledger_spec L (BlockCount b) used" and "sizes_ok b" and "allocate L bytes b = Inr (Some p, b')" and "0 < bytes"
  shows "same_bucket b b'" and "m_data b \<le> p" and "unat (BlockSize b) dvd p - m_data b"
    and "blocks_of b (p, bytes) \<subseteq> {..<unat (BlockCount b)}" and "blocks_of b (p, bytes) \<inter> used (m_ledger b) = {}"
    and "used (m_ledger b') = used (m_ledger b) \<union> blocks_of b (p, bytes)"
proof -
  obtain n where n: "blocks_needed b bytes = Inr n" "unat n = 1 + (unat bytes - 1) div unat (BlockSize b)"
    using blocks_needed_eq [OF assms(2,4)] by blast
  define i where "i = find_contiguous_blocks L (m_ledger b) n"
  have eqs: "i \<noteq> BlockCount b" "p = m_data b + unat (i * BlockSize b)"
      "b' = b\<lparr>m_ledger := set_blocks_in_use L i n (m_ledger b)\<rparr>"
    using assms(3) n(1) by (auto simp: allocate_def i_def Let_def split: if_splits)
  have found: "unat i < unat (BlockCount b)" "unat i + unat n \<le> unat (BlockCount b)" "block_range i n \<inter> used (m_ledger b) = {}"
    using assms(1) eqs(1) unfolding ledger_spec_def i_def by (auto simp: Let_def)
  have addr: "p - m_data b = unat i * unat (BlockSize b)"
    using eqs(2) block_address(1) [OF assms(2) found(1)] by simp
  then have blocks: "blocks_of b (p, bytes) = block_range i n"
    using assms(2) n(2) by (simp add: blocks_of_def sizes_ok_def Let_def)
  show "same_bucket b b'" "m_data b \<le> p" "unat (BlockSize b) dvd p - m_data b"
    using eqs addr by (simp_all add: same_bucket_def)
  show "blocks_of b (p, bytes) \<subseteq> {..<unat (BlockCount b)}" "blocks_of b (p, bytes) \<inter> used (m_ledger b) = {}"
    using found blocks by auto
  show "used (m_ledger b') = used (m_ledger b) \<union> blocks_of b (p, bytes)"
    using assms(1) eqs(3) blocks found(2) by (simp add: ledger_spec_def)
qed

lemma blocks_of_nonempty: "blocks_of b a \<noteq> {}"
  by (simp add: blocks_of_def Let_def)

lemma deallocate_ok:
  assumes "ledger_spec L (BlockCount b) used" and "sizes_ok b" and "bucket_inv used b live" and "(p, bytes) \<in> set live"
    and "deallocate L p bytes b = Inr b'"
  shows "same_bucket b b'" and "used (m_ledger b') = used (m_ledger b) - blocks_of b (p, bytes)"
proof -
  have a: "0 < bytes" "m_data b \<le> p" "unat (BlockSize b) dvd p - m_data b" "blocks_of b (p, bytes) \<subseteq> {..<unat (BlockCount b)}"
    using assms(3,4) by (auto simp: bucket_inv_def)
  obtain n where n: "blocks_needed b bytes = Inr n" "unat n = 1 + (unat bytes - 1) div unat (BlockSize b)"
    using blocks_needed_eq [OF assms(2) a(1)] by blast
  let ?k = "(p - m_data b) div unat (BlockSize b)"
  have dist: "p - m_data b = ?k * unat (BlockSize b)"
    using a(3) by simp
  have k: "?k < unat (BlockCount b)"
    using subsetD [OF a(4), of ?k] by (simp add: blocks_of_def Let_def)
  then have "?k < 2 ^ 64"
    using unsigned_less [of "BlockCount b", where ?'a = nat] by simp
  then have uk: "unat (of_nat ?k :: u64) = ?k"
    by (simp add: unsigned_of_nat take_bit_nat_eq_self)
  define idx where "idx = (of_nat (p - m_data b) :: u64) div BlockSize b"
  have idx: "unat idx = ?k"
    using block_address(2) [OF assms(2), of "of_nat ?k"] k uk dist by (simp add: idx_def)
  have b': "b' = b\<lparr>m_ledger := set_blocks_free L idx n (m_ledger b)\<rparr>"
    using assms(5) n(1) by (simp add: deallocate_def idx_def Let_def)
  then show "same_bucket b b'" by (simp add: same_bucket_def)
  have range: "block_range idx n = blocks_of b (p, bytes)"
    using idx n(2) by (simp add: blocks_of_def Let_def)
  have "unat idx + unat n - 1 \<in> block_range idx n"
    using n(2) by simp
  then have "unat idx + unat n \<le> unat (BlockCount b)"
    using a(4) n(2) unfolding range by force
  with range show "used (m_ledger b') = used (m_ledger b) - blocks_of b (p, bytes)"
    using assms(1) b' by (simp add: ledger_spec_def)
qed

lemma same_bucket_simps:
  assumes "same_bucket b b'"
  shows "blocks_of b' = blocks_of b" "sizes_ok b' = sizes_ok b" "BlockCount b' = BlockCount b" "m_data b' = m_data b" "BlockSize b' = BlockSize b"
  using assms by (auto simp: same_bucket_def blocks_of_def sizes_ok_def fun_eq_iff Let_def)

lemma bucket_step_inv:
  assumes "bucket_step L (b, live) (b', live')" and "ledger_spec L (BlockCount b) used" and "sizes_ok b" and "bucket_inv used b live"
  shows "same_bucket b b' \<and> bucket_inv used b' live'"
  using assms(1)
proof (rule bucket_stepE)
  fix bytes p t assume t: "(b', live') = (t, (p, bytes) # live)" and al: "allocate L bytes b = Inr (Some p, t)" "0 < bytes"
  note ok = allocate_ok [OF assms(2,3) al]
  have "(p, bytes) \<notin> set live"
    using ok(5) assms(4) blocks_of_nonempty [of b "(p, bytes)"] by (auto simp: bucket_inv_def)
  moreover have "pairwise (\<lambda>a a'. blocks_of b a \<inter> blocks_of b a' = {}) (insert (p, bytes) (set live))"
    using ok(5) assms(4) by (auto simp: bucket_inv_def pairwise_insert)
  ultimately show ?thesis
    using ok t al(2) assms(4) by (auto simp: bucket_inv_def same_bucket_simps [OF ok(1)])
next
  fix bytes t assume "(b', live') = (t, live)" and "allocate L bytes b = Inr (None, t)"
  then show ?thesis
    using assms(4) by (auto simp: allocate_def bindE_def Let_def same_bucket_def split: sum.splits if_splits)
next
  fix p bytes t assume t: "(b', live') = (t, remove1 (p, bytes) live)" and d: "deallocate L p bytes b = Inr t" "(p, bytes) \<in> set live"
  note ok = deallocate_ok [OF assms(2-4) d(2,1)]
  have live: "set (remove1 (p, bytes) live) = set live - {(p, bytes)}" "distinct (remove1 (p, bytes) live)"
    using assms(4) by (simp_all add: bucket_inv_def)
  have disj: "blocks_of b a \<inter> blocks_of b (p, bytes) = {}" if "a \<in> set live" "a \<noteq> (p, bytes)" for a
    using assms(4) that d(2) by (auto simp: bucket_inv_def pairwise_def)
  have "(\<Union>a\<in>set live. blocks_of b a) - blocks_of b (p, bytes) = (\<Union>a\<in>set live - {(p, bytes)}. blocks_of b a)"
    using disj by fastforce
  then show ?thesis
    using assms(4) ok live t unfolding bucket_inv_def
    by (auto simp: same_bucket_simps [OF ok(1)] intro: pairwise_subset)
qed

lemma bucket_reachable_inv:
  assumes "(bucket_step L)\<^sup>*\<^sup>* (b0, []) (b, live)" and "ledger_spec L (BlockCount b0) used" and "sizes_ok b0"
    and "used (m_ledger b0) = {}"
  shows "same_bucket b0 b \<and> bucket_inv used b live"
  using assms(1)
proof (induction rule: rtranclp_induct2)
  case refl
  then show ?case using assms(4) by (simp add: bucket_inv_def same_bucket_def)
next
  case (step b live b' live')
  then have "same_bucket b0 b" and inv: "bucket_inv used b live" by simp_all
  then have "ledger_spec L (BlockCount b) used" "sizes_ok b"
    using assms(2,3) same_bucket_simps(2,3) [of b0 b] by simp_all
  from bucket_step_inv [OF step.hyps(2) this inv] \<open>same_bucket b0 b\<close> show ?case
    by (simp add: same_bucket_def)
qed

text \<open>The bytes of an allocation lie within its blocks.\<close>

lemma bytes_in_blocks:
  assumes "sizes_ok b" and "0 < bytes" and "m_data b \<le> p" and "unat (BlockSize b) dvd p - m_data b"
    and "x \<in> {p..<p + unat bytes}"
  shows "(x - m_data b) div unat (BlockSize b) \<in> blocks_of b (p, bytes)"
proof -
  let ?s = "unat (BlockSize b)"
  obtain k where k: "p - m_data b = ?s * k"
    using assms(4) by (elim dvdE)
  have s: "0 < ?s" and pos: "0 < unat bytes"
    using assms(1,2) by (auto simp: sizes_ok_def unat_gt_0)
  define d where "d = x - p"
  have d: "x - m_data b = ?s * k + d" "d \<le> unat bytes - 1"
    using assms(3,5) k by (auto simp: d_def)
  have "(x - m_data b) div ?s = k + d div ?s"
    using s by (simp add: d(1))
  moreover have "d div ?s \<le> (unat bytes - 1) div ?s"
    using d(2) by (rule div_le_mono)
  ultimately show ?thesis
    using s by (simp add: blocks_of_def k Let_def)
qed

text \<open>C39. The allocator hands out disjoint memory.  When the ledger does what its comments promise, the total size is representable and the
  client frees only what it holds, then after any sequence of calls every live allocation lies within the bucket's memory, and no
  two live allocations share a byte.
\<close>

theorem allocations_disjoint:
  assumes "(bucket_step L)\<^sup>*\<^sup>* (b0, []) (b, live)" and "ledger_spec L (BlockCount b0) used" and "sizes_ok b0"
    and "used (m_ledger b0) = {}" and "(p, bytes) \<in> set live"
  shows "m_data b0 \<le> p \<and> p + unat bytes \<le> m_data b0 + unat (data_size (BlockSize b0) (BlockCount b0)) \<and>
    (\<forall>q n. (q, n) \<in> set live \<and> (q, n) \<noteq> (p, bytes) \<longrightarrow> {p..<p + unat bytes} \<inter> {q..<q + unat n} = {})"
proof -
  have same: "same_bucket b0 b" and inv: "bucket_inv used b live"
    using bucket_reachable_inv [OF assms(1-4)] by simp_all
  note eqs = same_bucket_simps [OF same]
  have sz: "sizes_ok b" using assms(3) eqs by simp
  have a: "0 < n" "m_data b \<le> q" "unat (BlockSize b) dvd q - m_data b" "blocks_of b (q, n) \<subseteq> {..<unat (BlockCount b)}"
    if "(q, n) \<in> set live" for q n
    using inv that by (auto simp: bucket_inv_def)
  have size: "unat (data_size (BlockSize b0) (BlockCount b0)) = unat (BlockSize b) * unat (BlockCount b)"
    using assms(3) eqs by (simp add: data_size_def sizes_ok_def unat_word_ariths)
  note in_blocks = bytes_in_blocks [OF sz]
  have "p + unat bytes - 1 \<in> {p..<p + unat bytes}"
    using a(1) [OF assms(5)] by (simp add: word_less_nat_alt)
  then have "(p + unat bytes - 1 - m_data b) div unat (BlockSize b) < unat (BlockCount b)"
    using in_blocks [OF a(1-3) [OF assms(5)]] a(4) [OF assms(5)] by blast
  then have "p + unat bytes - 1 - m_data b < unat (BlockSize b) * unat (BlockCount b)"
    using sz by (simp add: sizes_ok_def div_less_iff_less_mult mult.commute)
  then have "p + unat bytes \<le> m_data b + unat (BlockSize b) * unat (BlockCount b)"
    using a(2) [OF assms(5)] by linarith
  moreover have "{p..<p + unat bytes} \<inter> {q..<q + unat n} = {}" if "(q, n) \<in> set live" "(q, n) \<noteq> (p, bytes)" for q n
  proof -
    have "blocks_of b (p, bytes) \<inter> blocks_of b (q, n) = {}"
      using inv that assms(5) unfolding bucket_inv_def pairwise_def by metis
    then show ?thesis
      using in_blocks [OF a(1-3) [OF assms(5)]] in_blocks [OF a(1-3) [OF that(1)]] by blast
  qed
  ultimately show ?thesis
    using a(2) [OF assms(5)] unfolding size eqs(4) [symmetric] by blast
qed

text \<open>A ledger as a predicate on block numbers, searched from its start.\<close>

definition first_fit :: "u64 \<Rightarrow> (nat \<Rightarrow> bool) ledger_ops" where
  "first_fit count =
     \<lparr>find_contiguous_blocks = (\<lambda>l n.
        case filter (\<lambda>i. i + unat n \<le> unat count \<and> list_all (\<lambda>j. \<not> l j) [i..<i + unat n]) [0..<unat count] of
          [] \<Rightarrow> count | i # _ \<Rightarrow> of_nat i),
      set_blocks_in_use = (\<lambda>i n l j. l j \<or> j \<in> block_range i n),
      set_blocks_free = (\<lambda>i n l j. l j \<and> j \<notin> block_range i n)\<rparr>"

lemma first_fit_spec: "ledger_spec (first_fit count) count Collect"
proof -
  let ?fits = "\<lambda>l n i. i + unat n \<le> unat count \<and> list_all (\<lambda>j. \<not> l j) [i..<i + unat n]"
  have "let i = find_contiguous_blocks (first_fit count) l n in
      i = count \<or> unat i < unat count \<and> unat i + unat n \<le> unat count \<and> block_range i n \<inter> {j. l j} = {}" for l n
  proof (cases "filter (?fits l n) [0..<unat count]")
    case Nil
    then show ?thesis by (simp add: first_fit_def Let_def)
  next
    case (Cons i rest)
    then have "i \<in> set (filter (?fits l n) [0..<unat count])" by simp
    then have i: "i < unat count" "i + unat n \<le> unat count" "\<forall>j\<in>{i..<i + unat n}. \<not> l j"
      by (auto simp: list_all_iff)
    moreover have "unat (of_nat i :: u64) = i"
      using i(1) unsigned_less [of count, where ?'a = nat] by (simp add: unsigned_of_nat take_bit_nat_eq_self)
    ultimately show ?thesis using Cons by (auto simp: first_fit_def Let_def)
  qed
  then show ?thesis
    unfolding ledger_spec_def by (auto simp: first_fit_def)
qed

definition demo_bucket :: "(nat \<Rightarrow> bool) bucket" where
  "demo_bucket = \<lparr>BlockSize = 16, BlockCount = 4, m_data = 4096, m_ledger = (\<lambda>_. False)\<rparr>"

theorem allocations_disjoint_witness:
  "allocate (first_fit 4) 20 demo_bucket = Inr (Some 4096, demo_bucket\<lparr>m_ledger := \<lambda>j. j < 2\<rparr>) \<and>
   4096 + unat (20 :: u64) \<le> m_data demo_bucket + unat (data_size 16 4)"
proof -
  have al: "allocate (first_fit 4) 20 demo_bucket = Inr (Some 4096, demo_bucket\<lparr>m_ledger := \<lambda>j. j < 2\<rparr>)"
    by (simp add: allocate_def blocks_needed_def guardE_def demo_bucket_def first_fit_def upt_rec fun_eq_iff)
  then have "bucket_step (first_fit 4) (demo_bucket, []) (demo_bucket\<lparr>m_ledger := \<lambda>j. j < 2\<rparr>, [(4096, 20)])"
    by (rule bucket_step.alloc) simp
  then have run: "(bucket_step (first_fit 4))\<^sup>*\<^sup>* (demo_bucket, []) (demo_bucket\<lparr>m_ledger := \<lambda>j. j < 2\<rparr>, [(4096, 20)])"
    by (rule r_into_rtranclp)
  have "ledger_spec (first_fit 4) (BlockCount demo_bucket) Collect" "sizes_ok demo_bucket" "Collect (m_ledger demo_bucket) = {}"
    using first_fit_spec [of 4] by (simp_all add: demo_bucket_def sizes_ok_def)
  from allocations_disjoint [where used = Collect, OF run this, of 4096 20] al show ?thesis
    by (simp add: demo_bucket_def)
qed

text \<open>
  A ledger of one bit per block with room for the blocks; a request of no bytes asks for the most blocks there are, or, with blocks of
  one byte, for none.
\<close>

lemma ledger_size_enough: "0 < n \<Longrightarrow> unat n \<le> 8 * unat (ledger_size n)"
proof -
  assume "0 < n"
  then have minus: "unat (n - 1) = unat n - 1" and pos: "0 < unat n"
    by (simp_all add: unat_minus_one word_neq_0_conv unat_gt_0)
  have div8: "unat ((n - 1) div 8) = (unat n - 1) div 8"
    by (simp only: unat_div minus unat_numeral) simp
  have "1 + unat ((n - 1) div 8) < 2 ^ 64"
    using unsigned_less [of n, where ?'a = nat] pos unfolding div8 by simp
  then have "unat (ledger_size n) = 1 + (unat n - 1) div 8"
    unfolding ledger_size_def div8 [symmetric] by (rule unat_one_plus)
  then show ?thesis by simp
qed

lemma allocate_nothing: "BlockSize b \<noteq> 0 \<Longrightarrow> blocks_needed b 0 = Inr (1 + (- 1) div BlockSize b)"
  by (simp add: blocks_needed_def guardE_def)

end
