(* ===== verification/Itoa.thy ===== *)
theory Itoa
  imports Prelude
begin

text \<open>
  \<open>common::itoa\<close> and \<open>common::ptrtoa\<close> of \<^verbatim>\<open>src/common/string.hpp\<close>.

  The template is instantiated by the width \<open>w\<close> of \<open>T\<close> in bits (8, 16, 32 or 64) and by whether \<open>T\<close> is
  signed, which shows in the range of the value only.  Characters go to \<open>buf\<close> one after the other
  and the part written is reversed at the end, so the model keeps the list of characters written
  and checks that the terminating zero still lies within \<open>maxlen\<close>.
\<close>

section \<open>Operations\<close>

text \<open>\<open>static_cast<uiT>((sizeof(T) <= 4) ? 0xcccccccd : 0xcccccccccccccccd)\<close>\<close>

definition itoa_base :: "nat \<Rightarrow> nat" where
  "itoa_base w = (if w \<le> 32 then 3435973837 else 14757395258967641293) mod 2 ^ w"

text \<open>The width of \<open>make_umi_t<uiT>\<close>.\<close>

definition umi_width :: "nat \<Rightarrow> nat" where
  "umi_width w = (if w \<le> 32 then 64 else 128)"

definition digit_char :: "nat \<Rightarrow> char" where
  "digit_char d = ''9876543210123456789'' ! (9 + d)"

definition hex_char :: "nat \<Rightarrow> char" where
  "hex_char d = ''0123456789abcdef'' ! d"

text \<open>
  The digit loop: \<open>v\<close> is the rest of the value, \<open>i\<close> the number of characters written.  It stops after
  \<open>maxlen - 1\<close> characters.
\<close>

function itoa_loop :: "nat \<Rightarrow> nat \<Rightarrow> nat \<Rightarrow> nat \<Rightarrow> string \<Rightarrow> string" where
  "itoa_loop w maxlen i v out =
     (if v \<noteq> 0 \<and> i < maxlen \<and> 1 < maxlen - i
      then let q = ((v * itoa_base w) mod 2 ^ umi_width w) div 2 ^ (w + 3) in
        itoa_loop w maxlen (Suc i) q (out @ [digit_char (v - q * 10)])
      else out)"
  by pat_completeness auto
termination by (relation "measure (\<lambda>(w, maxlen, i, v, out). maxlen - i)") auto

declare itoa_loop.simps [simp del]

text \<open>
  \<open>uiT v = value > 0 ? value : -value\<close>: the negation is done in \<open>int\<close> for the types narrower than it,
  and overflows for the smallest value of the others.
\<close>

definition itoa_abs :: "nat \<Rightarrow> int \<Rightarrow> nat res" where
  "itoa_abs w x =
     (if x > 0 then Inr (nat x)
      else if 32 \<le> w \<and> x = - (2 ^ (w - 1)) then Inl Int_overflow
      else Inr (nat (- x)))"

definition itoa :: "nat \<Rightarrow> nat \<Rightarrow> int \<Rightarrow> string res" where
  "itoa w maxlen x =
     bindE (itoa_abs w x) (\<lambda>v.
     let out = itoa_loop w maxlen 0 v [];
         out = (if x < 0 \<and> maxlen - length out > 2 then out @ ''-'' else out) in
     if length out < maxlen then Inr (rev out) else Inl Out_of_bounds)"

function ptrtoa_loop :: "nat \<Rightarrow> nat \<Rightarrow> u64 \<Rightarrow> string \<Rightarrow> string" where
  "ptrtoa_loop maxlen i v out =
     (if v \<noteq> 0 \<and> i < maxlen \<and> 1 < maxlen - i
      then let q = drop_bit 4 v in
        ptrtoa_loop maxlen (Suc i) q (out @ [hex_char (unat (v - push_bit 4 q))])
      else out)"
  by pat_completeness auto
termination by (relation "measure (\<lambda>(maxlen, i, v, out). maxlen - i)") auto

declare ptrtoa_loop.simps [simp del]

definition ptrtoa :: "nat \<Rightarrow> u64 \<Rightarrow> string res" where
  "ptrtoa maxlen v =
     (let out = ptrtoa_loop maxlen 0 v [] in
      if length out < maxlen then Inr (rev out) else Inl Out_of_bounds)"

section \<open>Reference\<close>

text \<open>The digits of a number in a base, least significant first, and the number they stand for.\<close>

function rev_digits :: "nat \<Rightarrow> nat \<Rightarrow> nat list" where
  "rev_digits b n = (if n = 0 \<or> b < 2 then [] else n mod b # rev_digits b (n div b))"
  by pat_completeness auto
termination by (relation "measure snd") auto

declare rev_digits.simps [simp del]

lemma rev_digits_0 [simp]: "rev_digits b 0 = []"
  by (simp add: rev_digits.simps)

lemma rev_digits_pos: "0 < n \<Longrightarrow> 2 \<le> b \<Longrightarrow> rev_digits b n = n mod b # rev_digits b (n div b)"
  by (subst rev_digits.simps) simp

primrec of_rev_digits :: "nat \<Rightarrow> nat list \<Rightarrow> nat" where
  "of_rev_digits b [] = 0"
| "of_rev_digits b (d # ds) = d + b * of_rev_digits b ds"

lemma of_rev_digits_inverse: "2 \<le> b \<Longrightarrow> of_rev_digits b (rev_digits b n) = n"
proof (induction b n rule: rev_digits.induct)
  case (1 b n)
  then show ?case by (cases "n = 0") (auto simp: rev_digits_pos)
qed

text \<open>What a reader of the text makes of it.\<close>

definition digit_val :: "char \<Rightarrow> nat" where
  "digit_val c = of_char c - 48"

definition read_nat :: "string \<Rightarrow> nat" where
  "read_nat s = foldl (\<lambda>a c. 10 * a + digit_val c) 0 s"

definition read_int :: "string \<Rightarrow> int" where
  "read_int s = (if s \<noteq> [] \<and> hd s = CHR ''-'' then - int (read_nat (tl s)) else int (read_nat s))"

section \<open>Lemmas\<close>

text \<open>
  Division by ten as a multiplication and a shift.  For the four widths the constant times ten
  exceeds a power of two by two.
\<close>

lemma magic_div:
  fixes v m w :: nat
  assumes "10 * m = 2 ^ (w + 3) + 2" and "v < 2 ^ w" and "8 \<le> w"
  shows "v * m div 2 ^ (w + 3) = v div 10"
proof -
  define a b P where "a = v div 10" and "b = v mod 10" and "P = (2::nat) ^ w"
  have v: "v = 10 * a + b" "b < 10" by (simp_all add: a_def b_def)
  have P3: "2 ^ (w + 3) = 8 * P" by (simp add: P_def power_add)
  have "(2::nat) ^ 8 \<le> P" unfolding P_def by (rule power_increasing) (use assms(3) in auto)
  then have P: "256 \<le> P" by simp
  have m: "10 * m = 8 * P + 2" using assms(1) by (simp add: P3)
  have "v * m = a * (10 * m) + b * m" by (simp add: v(1) algebra_simps)
  then have eq: "v * m = (2 * a + b * m) + 8 * P * a" unfolding m by (simp add: algebra_simps)
  have "10 * a \<le> v" by (simp add: v(1))
  moreover have "v < P" using assms(2) by (simp add: P_def)
  moreover obtain x where x: "b * m = x" by simp
  moreover have "10 * x \<le> 9 * (8 * P + 2)"
  proof -
    have "10 * x = b * (10 * m)" by (simp add: x [symmetric])
    also have "\<dots> \<le> 9 * (8 * P + 2)" unfolding m by (rule mult_le_mono1) (use v(2) in simp)
    finally show ?thesis .
  qed
  ultimately have "10 * (2 * a + x) < 10 * (8 * P)" using P by (simp add: algebra_simps)
  then have small: "2 * a + b * m < 8 * P" unfolding x by simp
  have "v * m div (8 * P) = a"
    unfolding eq using small P by (simp add: div_mult_self4)
  then show ?thesis by (simp add: P3 a_def)
qed

definition int_width :: "nat \<Rightarrow> bool" where
  "int_width w \<longleftrightarrow> w = 8 \<or> w = 16 \<or> w = 32 \<or> w = 64"

lemma itoa_step_div:
  assumes "int_width w" and "v < 2 ^ w"
  shows "((v * itoa_base w) mod 2 ^ umi_width w) div 2 ^ (w + 3) = v div 10"
proof -
  have m: "10 * itoa_base w = 2 ^ (w + 3) + 2"
    using assms(1) by (auto simp: int_width_def itoa_base_def)
  have b: "itoa_base w < 2 ^ w" by (simp add: itoa_base_def)
  have "v * itoa_base w < 2 ^ w * 2 ^ w"
    using assms(2) b by (intro mult_strict_mono) auto
  also have "\<dots> \<le> 2 ^ umi_width w"
    using assms(1) by (auto simp: int_width_def umi_width_def)
  finally have "(v * itoa_base w) mod 2 ^ umi_width w = v * itoa_base w" by simp
  moreover have "8 \<le> w" using assms(1) by (auto simp: int_width_def)
  ultimately show ?thesis using magic_div [OF m assms(2)] by simp
qed

lemma itoa_loop_eq:
  assumes "int_width w"
  shows "v < 2 ^ w \<Longrightarrow> i < maxlen \<Longrightarrow>
    itoa_loop w maxlen i v out = out @ map digit_char (take (maxlen - i - 1) (rev_digits 10 v))"
proof (induction "maxlen - i" arbitrary: i v out)
  case (Suc k)
  show ?case
  proof (cases "v = 0 \<or> maxlen - i = 1")
    case True
    then show ?thesis using Suc.prems by (auto simp: itoa_loop.simps [of w maxlen i])
  next
    case False
    with Suc.prems have c: "v \<noteq> 0" "1 < maxlen - i" "Suc i < maxlen" by auto
    have q: "((v * itoa_base w) mod 2 ^ umi_width w) div 2 ^ (w + 3) = v div 10"
      by (rule itoa_step_div [OF assms Suc.prems(1)])
    have "itoa_loop w maxlen i v out =
        itoa_loop w maxlen (Suc i) (v div 10) (out @ [digit_char (v - v div 10 * 10)])"
      using c Suc.prems by (subst itoa_loop.simps) (simp add: q Let_def)
    also have "v - v div 10 * 10 = v mod 10" by (simp add: minus_div_mult_eq_mod)
    also have "itoa_loop w maxlen (Suc i) (v div 10) (out @ [digit_char (v mod 10)]) =
        (out @ [digit_char (v mod 10)]) @ map digit_char (take (maxlen - Suc i - 1) (rev_digits 10 (v div 10)))"
      by (rule Suc.hyps(1)) (use Suc.hyps(2) Suc.prems c in auto)
    also have "\<dots> = out @ map digit_char (take (maxlen - i - 1) (rev_digits 10 v))"
    proof -
      obtain k where k: "maxlen - i - 1 = Suc k" "maxlen - Suc i - 1 = k" using c by (intro that [of "maxlen - i - 2"]) auto
      have d: "rev_digits 10 v = v mod 10 # rev_digits 10 (v div 10)" using c by (simp add: rev_digits_pos)
      show ?thesis unfolding d k by simp
    qed
    finally show ?thesis .
  qed
qed simp

lemma digit_val_char: "d < 10 \<Longrightarrow> digit_val (digit_char d) = d"
  by (auto simp: digit_val_def digit_char_def less_Suc_eq numeral_eq_Suc)

lemma digit_not_minus: "d < 10 \<Longrightarrow> digit_char d \<noteq> CHR ''-''"
  by (auto simp: digit_char_def less_Suc_eq numeral_eq_Suc)

lemma rev_digits_less: "2 \<le> b \<Longrightarrow> d \<in> set (rev_digits b n) \<Longrightarrow> d < b"
proof (induction b n rule: rev_digits.induct)
  case (1 b n)
  then show ?case by (cases "n = 0") (auto simp: rev_digits_pos)
qed

lemma read_nat_snoc: "read_nat (s @ [c]) = 10 * read_nat s + digit_val c"
  by (simp add: read_nat_def)

lemma read_nat_digits: "\<forall>d\<in>set ds. d < 10 \<Longrightarrow> read_nat (rev (map digit_char ds)) = of_rev_digits 10 ds"
  by (induction ds) (simp_all add: read_nat_snoc digit_val_char read_nat_def)

definition dec :: "nat \<Rightarrow> string" where
  "dec n = rev (map digit_char (rev_digits 10 n))"

lemma read_nat_dec: "read_nat (dec n) = n"
  using rev_digits_less [of 10 _ n] by (simp add: dec_def read_nat_digits of_rev_digits_inverse)

lemma dec_no_minus: "c \<in> set (dec n) \<Longrightarrow> c \<noteq> CHR ''-''"
  using rev_digits_less [of 10 _ n] digit_not_minus by (auto simp: dec_def)

lemma read_int_dec: "read_int (dec n) = int n" "read_int (CHR ''-'' # dec n) = - int n"
proof -
  have "\<not> (dec n \<noteq> [] \<and> hd (dec n) = CHR ''-'')"
    using dec_no_minus [OF hd_in_set] by blast
  then show "read_int (dec n) = int n" "read_int (CHR ''-'' # dec n) = - int n"
    by (auto simp: read_int_def read_nat_dec)
qed

lemma itoa_eq:
  assumes "int_width w" and "- (2 ^ (w - 1)) \<le> x" and "x < 2 ^ w" and "w < 32 \<or> x \<noteq> - (2 ^ (w - 1))"
    and "length (dec (nat \<bar>x\<bar>)) < maxlen"
  shows "itoa w maxlen x =
    Inr (if x < 0 \<and> length (dec (nat \<bar>x\<bar>)) + 2 < maxlen then CHR ''-'' # dec (nat \<bar>x\<bar>) else dec (nat \<bar>x\<bar>))"
proof -
  let ?v = "nat \<bar>x\<bar>" let ?ds = "rev_digits 10 ?v"
  have abs: "itoa_abs w x = Inr ?v" using assms(4) by (auto simp: itoa_abs_def)
  have "(2::int) ^ (w - 1) < 2 ^ w" using assms(1) by (intro power_strict_increasing) (auto simp: int_width_def)
  then have "\<bar>x\<bar> < 2 ^ w" using assms(2,3) by linarith
  then have "?v < 2 ^ w" by (simp add: nat_less_iff)
  moreover have "0 < maxlen" "length ?ds < maxlen" using assms(5) by (simp_all add: dec_def)
  ultimately have out: "itoa_loop w maxlen 0 ?v [] = map digit_char ?ds"
    using itoa_loop_eq [OF assms(1), of ?v 0 maxlen "[]"] by simp
  have "maxlen - length ?ds > 2 \<longleftrightarrow> length ?ds + 2 < maxlen" by linarith
  then show ?thesis
    using abs out \<open>length ?ds < maxlen\<close> by (auto simp: itoa_def Let_def dec_def)
qed

section \<open>Properties\<close>

text \<open>C20. Integers as text.  For every integer type of 8 to 64 bits, \<open>itoa\<close> of a value other than 0, and
  other than the smallest value of the types of 32 and 64 bits, writes the shortest decimal
  representation, which reads back as the value, whenever the buffer has room for the digits, the
  sign and the terminator (one more byte than needed for negative values): the multiplication by
  \<open>0x\<dots>cccd\<close> and the shift are exact divisions by ten.\<close>

theorem itoa_reads_back:
  assumes "int_width w" and "- (2 ^ (w - 1)) \<le> x" and "x < 2 ^ w" and "w < 32 \<or> x \<noteq> - (2 ^ (w - 1))"
    and "length (dec (nat \<bar>x\<bar>)) + (if x < 0 then 2 else 0) < maxlen"
  shows "\<exists>s. itoa w maxlen x = Inr s \<and> read_int s = x \<and> length s < maxlen \<and>
    s = (if x < 0 then [CHR ''-''] else []) @ dec (nat \<bar>x\<bar>)"
proof -
  have "length (dec (nat \<bar>x\<bar>)) < maxlen" using assms(5) by (simp split: if_splits)
  from itoa_eq [OF assms(1-4) this] assms(5) show ?thesis
    by (auto simp: read_int_dec split: if_splits)
qed

theorem itoa_reads_back_witness:
  "\<exists>s. itoa 16 10 (-12345) = Inr s \<and> read_int s = -12345"
proof -
  have "length (dec 12345) = 5" by (simp add: dec_def rev_digits_pos)
  with itoa_reads_back [of 16 "-12345" 10] show ?thesis by (auto simp: int_width_def)
qed

text \<open>What \<open>itoa\<close> leaves out.  Zero is written as the empty string, whatever the buffer; and a negative
  number loses its sign when the buffer is exactly large enough for the digits, the sign and the
  terminator, so that it reads back as its absolute value.\<close>

theorem itoa_zero_and_sign:
  assumes "int_width w"
  shows "(0 < maxlen \<longrightarrow> itoa w maxlen 0 = Inr []) \<and>
    (- (2 ^ (w - 1)) < x \<and> x < 0 \<longrightarrow>
       (\<exists>s. itoa w (length (dec (nat \<bar>x\<bar>)) + 2) x = Inr s \<and> read_int s = - x))"
proof (intro conjI impI)
  assume "0 < maxlen"
  then show "itoa w maxlen 0 = Inr []"
    by (simp add: itoa_def itoa_abs_def itoa_loop.simps)
next
  assume x: "- (2 ^ (w - 1)) < x \<and> x < 0"
  have "(0::int) < 2 ^ w" by simp
  with x have "x < 2 ^ w" by linarith
  with x itoa_eq [OF assms, of x "length (dec (nat \<bar>x\<bar>)) + 2"]
  show "\<exists>s. itoa w (length (dec (nat \<bar>x\<bar>)) + 2) x = Inr s \<and> read_int s = - x"
    by (auto simp: read_int_dec)
qed

theorem itoa_zero_and_sign_witness:
  "itoa 32 12 0 = Inr [] \<and> (\<exists>s. itoa 32 3 (-5) = Inr s \<and> read_int s = 5)"
proof -
  have "length (dec 5) = 1" by (simp add: dec_def rev_digits_pos)
  with itoa_zero_and_sign [of 32 12 "-5"] show ?thesis by (simp add: int_width_def numeral_3_eq_3)
qed

end
