(* ===== verification/Grisu.thy ===== *)
theory Grisu
  imports Itoa
begin

text \<open>
  \<open>common::dtoa_grisu2\<close> and its helpers of \<^verbatim>\<open>src/common/string.hpp\<close>.

  A \<open>double\<close> is its 64 bits.  \<open>uint64_t\<close> values are words, so that every sum, product and shift wraps as
  in C++.  A buffer is a list of characters of fixed length, written in place; a write outside it is
  a fault.  The loops that the code does not bound take fuel.
\<close>

section \<open>DiyFp\<close>

record DiyFp =
  df :: u64
  de :: int

definition kDpExponentMask :: u64 where "kDpExponentMask = 9218868437227405312"
definition kDpSignificandMask :: u64 where "kDpSignificandMask = 4503599627370495"
definition kDpHiddenBit :: u64 where "kDpHiddenBit = 4503599627370496"

definition DiyFp_of_double :: "u64 \<Rightarrow> DiyFp" where
  "DiyFp_of_double bits =
     (let biased_e = uint (drop_bit 52 (bits AND kDpExponentMask)); significand = bits AND kDpSignificandMask in
      if biased_e \<noteq> 0 then \<lparr>df = significand + kDpHiddenBit, de = biased_e - 1075\<rparr>
      else \<lparr>df = significand, de = - 1075 + 1\<rparr>)"

definition diy_minus :: "DiyFp \<Rightarrow> DiyFp \<Rightarrow> DiyFp res" where
  "diy_minus x y =
     bindE (guardE (de x = de y) Assert_failed) (\<lambda>_.
     bindE (guardE (df y \<le> df x) Assert_failed) (\<lambda>_. Inr \<lparr>df = df x - df y, de = de x\<rparr>))"

definition diy_times :: "DiyFp \<Rightarrow> DiyFp \<Rightarrow> DiyFp" where
  "diy_times x y =
     (let M32 = 4294967295;
          a = drop_bit 32 (df x); b = df x AND M32;
          c = drop_bit 32 (df y); d = df y AND M32;
          ac = a * c; bc = b * c; ad = a * d; bd = b * d;
          tmp = drop_bit 32 bd + (ad AND M32) + (bc AND M32);
          tmp = tmp + push_bit 31 1 in
      \<lparr>df = ac + drop_bit 32 ad + drop_bit 32 bc + drop_bit 32 tmp, de = de x + de y + 64\<rparr>)"

text \<open>\<open>__builtin_clzll\<close>, undefined for 0.\<close>

definition clz64 :: "u64 \<Rightarrow> nat" where
  "clz64 f = length (takeWhile (\<lambda>i. \<not> bit f i) (rev [0..<64]))"

definition Normalize :: "DiyFp \<Rightarrow> DiyFp" where
  "Normalize x = (let s = clz64 (df x) in \<lparr>df = push_bit s (df x), de = de x - int s\<rparr>)"

primrec normalize_loop :: "nat \<Rightarrow> DiyFp \<Rightarrow> DiyFp res" where
  "normalize_loop 0 x = Inl Out_of_fuel"
| "normalize_loop (Suc n) x =
     (if df x AND push_bit 1 kDpHiddenBit \<noteq> 0 then Inr x
      else normalize_loop n (x\<lparr>df := push_bit 1 (df x), de := de x - 1\<rparr>))"

definition NormalizeBoundary :: "DiyFp \<Rightarrow> DiyFp res" where
  "NormalizeBoundary x =
     bindE (normalize_loop 64 x) (\<lambda>r. Inr (r\<lparr>df := push_bit 10 (df r), de := de r - 10\<rparr>))"

text \<open>The results are \<open>minus\<close> and \<open>plus\<close>; the shift count is not negative for a \<open>double\<close>.\<close>

definition NormalizedBoundaries :: "DiyFp \<Rightarrow> (DiyFp \<times> DiyFp) res" where
  "NormalizedBoundaries x =
     bindE (NormalizeBoundary \<lparr>df = push_bit 1 (df x) + 1, de = de x - 1\<rparr>) (\<lambda>pl.
     let mi = (if df x = kDpHiddenBit then \<lparr>df = push_bit 2 (df x) - 1, de = de x - 2\<rparr>
               else \<lparr>df = push_bit 1 (df x) - 1, de = de x - 1\<rparr>) in
     Inr (\<lparr>df = push_bit (nat (de mi - de pl)) (df mi), de = de pl\<rparr>, pl))"

section \<open>Cached powers of ten\<close>

definition kCachedPowers_F :: "u64 list" where
  "kCachedPowers_F = [
      18054884314459144840, 13451937075301367670, 10022474136428063862, 14934650266808366570,
      11127181549972568877, 16580792590934885855, 12353653155963782858, 18408377700990114895,
      13715310171984221708, 10218702384817765436, 15227053142812498563, 11345038669416679861,
      16905424996341287883, 12595523146049147757, 9384396036005875287, 13983839803942852151,
      10418772551374772303, 15525180923007089351, 11567161174868858868, 17236413322193710309,
      12842128665889583758, 9568131466127621947, 14257626930069360058, 10622759856335341974,
      15829145694278690180, 11793632577567316726, 17573882009934360870, 13093562431584567480,
      9755464219737475723, 14536774485912137811, 10830740992659433045, 16139061738043178685,
      12024538023802026127, 17917957937422433684, 13349918974505688015, 9946464728195732843,
      14821387422376473014, 11042794154864902060, 16455045573212060422, 12259964326927110867,
      18268770466636286478, 13611294676837538539, 10141204801825835212, 15111572745182864684,
      11258999068426240000, 16777216000000000000, 12500000000000000000, 9313225746154785156,
      13877787807814456755, 10339757656912845936, 15407439555097886824, 11479437019748901445,
      17105694144590052135, 12744735289059618216, 9495567745759798747, 14149498560666738074,
      10542197943230523224, 15709099088952724970, 11704190886730495818, 17440603504673385349,
      12994262207056124023, 9681479787123295682, 14426529090290212157, 10748601772107342003,
      16016664761464807395, 11933345169920330789, 17782069995880619868, 13248674568444952270,
      9871031767461413346, 14708983551653345445, 10959046745042015199, 16330252207878254650,
      12166986024289022870, 18130221999122236476, 13508068024458167312, 10064294952495520794,
      14996968138956309548, 11173611982879273257, 16649979327439178909, 12405201291620119593,
      9242595204427927429, 13772540099066387757, 10261342003245940623, 15290591125556738113,
      11392378155556871081, 16975966327722178521, 12648080533535911531]"

definition kCachedPowers_E :: "int list" where
  "kCachedPowers_E = [
      -1220, -1193, -1166, -1140, -1113, -1087, -1060, -1034, -1007, -980, -954,
      -927, -901, -874, -847, -821, -794, -768, -741, -715, -688, -661,
      -635, -608, -582, -555, -529, -502, -475, -449, -422, -396, -369,
      -343, -316, -289, -263, -236, -210, -183, -157, -130, -103, -77,
      -50, -24, 3, 30, 56, 83, 109, 136, 162, 189, 216,
      242, 269, 295, 322, 348, 375, 402, 428, 455, 481, 508,
      534, 561, 588, 614, 641, 667, 694, 720, 747, 774, 800,
      827, 853, 880, 907, 933, 960, 986, 1013, 1039, 1066]"

text \<open>
  \<open>dk\<close> is computed in \<open>double\<close> and rounded up.  The model rounds the exact value of the expression up;
  for every exponent of a \<open>double\<close> that value is an integer or further than \<open>10\<^sup>-\<^sup>4\<close> from one, far more than
  the rounding error, so the two agree.
\<close>

definition cached_k :: "int \<Rightarrow> int" where
  "cached_k e = - ((- ((-61 - e) * 30102999566398114 + 347 * 100000000000000000)) div 100000000000000000)"

definition GetCachedPower :: "int \<Rightarrow> (DiyFp \<times> int) res" where
  "GetCachedPower e =
     (let index = cached_k e div 8 + 1; K = - (- 348 + index * 8) in
      bindE (guardE (0 \<le> index \<and> index < 87) Assert_failed) (\<lambda>_.
        Inr (\<lparr>df = kCachedPowers_F ! nat index, de = kCachedPowers_E ! nat index\<rparr>, K)))"

section \<open>Digits\<close>

text \<open>Storing consecutive characters from a position on.\<close>

definition store :: "nat \<Rightarrow> string \<Rightarrow> string \<Rightarrow> string res" where
  "store p s b =
     (if p + length s \<le> length b then Inr (take p b @ s @ drop (p + length s) b) else Inl Out_of_bounds)"

definition memmove_in :: "nat \<Rightarrow> nat \<Rightarrow> nat \<Rightarrow> string \<Rightarrow> string res" where
  "memmove_in dst src n b =
     (if src + n \<le> length b then store dst (take n (drop src b)) b else Inl Out_of_bounds)"

primrec GrisuRound :: "nat \<Rightarrow> string \<Rightarrow> nat \<Rightarrow> u64 \<Rightarrow> u64 \<Rightarrow> u64 \<Rightarrow> u64 \<Rightarrow> string res" where
  "GrisuRound 0 b len delta rest ten_kappa wp_w = Inl Out_of_fuel"
| "GrisuRound (Suc n) b len delta rest ten_kappa wp_w =
     (if rest < wp_w \<and> ten_kappa \<le> delta - rest \<and>
         (rest + ten_kappa < wp_w \<or> rest + ten_kappa - wp_w < wp_w - rest)
      then
        bindE (guardE (0 < len \<and> len \<le> length b) Out_of_bounds) (\<lambda>_.
          GrisuRound n (b[len - 1 := char_of (of_char (b ! (len - 1)) + 255 :: nat)]) len delta (rest + ten_kappa) ten_kappa wp_w)
      else Inr b)"

definition CountDecimalDigit32 :: "u32 \<Rightarrow> nat" where
  "CountDecimalDigit32 n =
     (if n < 10 then 1 else if n < 100 then 2 else if n < 1000 then 3 else if n < 10000 then 4
      else if n < 100000 then 5 else if n < 1000000 then 6 else if n < 10000000 then 7
      else if n < 100000000 then 8 else if n < 1000000000 then 9 else 10)"

definition kPow10 :: "u32 list" where
  "kPow10 = [1, 10, 100, 1000, 10000, 100000, 1000000, 10000000, 100000000, 1000000000]"

text \<open>\<open>if (d || *len) buffer[( *len)++] = '0' + d\<close>\<close>

definition put_digit :: "nat \<Rightarrow> string \<Rightarrow> nat \<Rightarrow> (string \<times> nat) res" where
  "put_digit d b len =
     (if d \<noteq> 0 \<or> len \<noteq> 0 then bindE (store len [char_of (48 + d)] b) (\<lambda>b. Inr (b, Suc len)) else Inr (b, len))"

text \<open>
  The fractional part: \<open>kappa\<close> is 0 or negative.  \<open>kPow10[-kappa]\<close> is read without a bound; from the
  eleventh fractional digit on it is outside the table.
\<close>

primrec digit_frac ::
  "nat \<Rightarrow> nat \<Rightarrow> u64 \<Rightarrow> u64 \<Rightarrow> u64 \<Rightarrow> u64 \<Rightarrow> nat \<Rightarrow> string \<Rightarrow> nat \<Rightarrow> (string \<times> nat \<times> int) res" where
  "digit_frac 0 sh one p2 delta wp_w m b len = Inl Out_of_fuel"
| "digit_frac (Suc n) sh one p2 delta wp_w m b len =
     (let p2 = p2 * 10; delta = delta * 10; d = unat (drop_bit sh p2) mod 256 in
      bindE (put_digit d b len) (\<lambda>(b, len).
      let p2 = p2 AND (one - 1); m = Suc m in
      if p2 < delta then
        bindE (guardE (m < length kPow10) Out_of_bounds) (\<lambda>_.
        bindE (GrisuRound 256 b len delta p2 one (wp_w * ucast (kPow10 ! m))) (\<lambda>b.
          Inr (b, len, - int m)))
      else digit_frac n sh one p2 delta wp_w m b len))"

text \<open>The integral part: \<open>kappa\<close> digits of \<open>p1\<close> are left; \<open>case kappa\<close> divides by \<open>10\<^sup>k\<^sup>a\<^sup>p\<^sup>p\<^sup>a\<^sup>-\<^sup>1\<close>.\<close>

primrec digit_int ::
  "nat \<Rightarrow> nat \<Rightarrow> u64 \<Rightarrow> u32 \<Rightarrow> u64 \<Rightarrow> u64 \<Rightarrow> u64 \<Rightarrow> string \<Rightarrow> nat \<Rightarrow> (string \<times> nat \<times> int) res" where
  "digit_int 0 sh one p1 p2 delta wp_w b len = digit_frac 64 sh one p2 delta wp_w 0 b len"
| "digit_int (Suc k) sh one p1 p2 delta wp_w b len =
     (let d = unat (p1 div kPow10 ! k); p1 = p1 mod kPow10 ! k in
      bindE (put_digit d b len) (\<lambda>(b, len).
      let tmp = push_bit sh (ucast p1) + p2 in
      if tmp \<le> delta then
        bindE (GrisuRound 256 b len delta tmp (push_bit sh (ucast (kPow10 ! k))) wp_w) (\<lambda>b. Inr (b, len, int k))
      else digit_int k sh one p1 p2 delta wp_w b len))"

definition DigitGen :: "DiyFp \<Rightarrow> DiyFp \<Rightarrow> u64 \<Rightarrow> string \<Rightarrow> int \<Rightarrow> (string \<times> nat \<times> int) res" where
  "DigitGen W Mp delta b K =
     (let sh = nat (- de Mp); one = push_bit sh 1 in
      bindE (diy_minus Mp W) (\<lambda>wp_w.
      let p1 = (ucast (drop_bit sh (df Mp)) :: u32); p2 = df Mp AND (one - 1) in
      bindE (digit_int (CountDecimalDigit32 p1) sh one p1 p2 delta (df wp_w) b 0) (\<lambda>(b, len, kappa).
        Inr (b, len, K + kappa))))"

definition Grisu2 :: "u64 \<Rightarrow> string \<Rightarrow> (string \<times> nat \<times> int) res" where
  "Grisu2 bits b =
     (let v = DiyFp_of_double bits in
      bindE (NormalizedBoundaries v) (\<lambda>(w_m, w_p).
      bindE (GetCachedPower (de w_p)) (\<lambda>(c_mk, K).
      let W = diy_times (Normalize v) c_mk; Wp = diy_times w_p c_mk; Wm = diy_times w_m c_mk;
          Wm = Wm\<lparr>df := df Wm + 1\<rparr>; Wp = Wp\<lparr>df := df Wp - 1\<rparr> in
      DigitGen W Wp (df Wp - df Wm) b K)))"

section \<open>Text\<close>

definition cDigitsLut :: string where
  "cDigitsLut = ''00010203040506070809101112131415161718192021222324252627282930313233343536373839404142434445464748495051525354555657585960616263646566676869707172737475767778798081828384858687888990919293949596979899''"

text \<open>The characters \<open>WriteExponent\<close> stores in front of the terminator.\<close>

definition exponent_chars :: "int \<Rightarrow> string" where
  "exponent_chars K =
     (let sign = (if K < 0 then [CHR ''-''] else []); K = nat \<bar>K\<bar> in
      sign @
      (if 100 \<le> K then char_of (48 + K div 100) # [cDigitsLut ! (K mod 100 * 2), cDigitsLut ! (K mod 100 * 2 + 1)]
       else if 10 \<le> K then [cDigitsLut ! (K * 2), cDigitsLut ! (K * 2 + 1)]
       else [char_of (48 + K)]))"

definition NUL :: char where "NUL = char_of (0 :: nat)"

definition WriteExponent :: "int \<Rightarrow> nat \<Rightarrow> string \<Rightarrow> string res" where
  "WriteExponent K p b = store p (exponent_chars K @ [NUL]) b"

definition Prettify :: "string \<Rightarrow> nat \<Rightarrow> int \<Rightarrow> string res" where
  "Prettify b len k =
     (let kk = int len + k in
      if int len \<le> kk \<and> kk \<le> 21
      then bindE (store len (replicate (nat kk - len) CHR ''0'') b) (store (nat kk) [CHR ''.'', CHR ''0'', NUL])
      else if 0 < kk \<and> kk \<le> 21
      then bindE (memmove_in (nat kk + 1) (nat kk) (len - nat kk) b) (\<lambda>b.
           bindE (store (nat kk) [CHR ''.''] b) (store (len + 1) [NUL]))
      else if - 6 < kk \<and> kk \<le> 0
      then let offset = nat (2 - kk) in
           bindE (memmove_in offset 0 len b) (\<lambda>b.
           bindE (store 0 [CHR ''0'', CHR ''.''] b) (\<lambda>b.
           bindE (store 2 (replicate (offset - 2) CHR ''0'') b) (store (len + offset) [NUL])))
      else if len = 1
      then bindE (store 1 [CHR ''e''] b) (WriteExponent (kk - 1) 2)
      else bindE (memmove_in 2 1 (len - 1) b) (\<lambda>b.
           bindE (store 1 [CHR ''.''] b) (\<lambda>b.
           bindE (store (len + 1) [CHR ''e''] b) (WriteExponent (kk - 1) (len + 2)))))"

text \<open>
  The result is the buffer and the returned count.  The sign bit is the top bit of the value; zero
  of either sign compares equal to 0.  NaN and infinity fail the assertions.
\<close>

definition dtoa_grisu2 :: "string \<Rightarrow> u64 \<Rightarrow> (string \<times> nat) res" where
  "dtoa_grisu2 b value =
     bindE (guardE (value AND kDpExponentMask \<noteq> kDpExponentMask) Assert_failed) (\<lambda>_.
     if push_bit 1 value = 0
     then bindE (store 0 [CHR ''0'', CHR ''.'', CHR ''0'', NUL] b) (\<lambda>b. Inr (b, 4))
     else
       let neg = bit value 63; sl = (if neg then 1 else 0); value = (if neg then value - push_bit 63 1 else value) in
       bindE (if neg then store 0 [CHR ''-''] b else Inr b) (\<lambda>b.
       bindE (Grisu2 value (drop sl b)) (\<lambda>(c, len, K).
       bindE (Prettify c len K) (\<lambda>c. Inr (take sl b @ c, sl + len)))))"

end
