(* ===== verification/Log.thy ===== *)
theory Log
  imports Grisu Itoa
begin

text \<open>
  Log entries: \<open>LogStreamBuffer\<close>, \<open>LogStream\<close> and \<open>LogMessage\<close> of \<^verbatim>\<open>src/common/log.hpp\<close>.

  A stream is the thread-local array \<open>gLogBuf\<close> of its level and the offset of \<open>cur_\<close> in it; the array has 64 bytes more than the
  \<open>SIZE\<close> the stream counts with.  An operand of the stream operators is a \<open>piece\<close>; \<open>short\<close> operands are converted to \<open>int\<close> and
  \<open>float\<close> operands to \<open>double\<close> by the code before anything else is done with them.
\<close>

section \<open>The buffer\<close>

definition kSmallBufferSize :: nat where "kSmallBufferSize = 1024"

definition kMaxNumericSize :: nat where "kMaxNumericSize = 48"

record log_stream =
  ldata :: string
  lcur :: nat

definition new_LogStream :: "string \<Rightarrow> log_stream" where
  "new_LogStream buf = \<lparr>ldata = buf, lcur = 0\<rparr>"

definition lsize :: "log_stream \<Rightarrow> nat" where
  "lsize s = lcur s"

definition avail :: "log_stream \<Rightarrow> int" where
  "avail s = int kSmallBufferSize - int (lcur s)"

definition append_buf :: "string \<Rightarrow> log_stream \<Rightarrow> log_stream res" where
  "append_buf buf s =
     (if int (length buf) < avail s mod 2 ^ 64
      then bindE (store (lcur s) buf (ldata s)) (\<lambda>d. Inr (s\<lparr>ldata := d, lcur := lcur s + length buf\<rparr>))
      else Inr s)"

text \<open>A functor gets the memory from \<open>cur_\<close> on and the room, and returns the memory and the number of characters it put there.\<close>

definition appendfx :: "(string \<Rightarrow> nat \<Rightarrow> (string \<times> nat) res) \<Rightarrow> log_stream \<Rightarrow> log_stream res" where
  "appendfx f s =
     bindE (f (drop (lcur s) (ldata s)) (nat (avail s mod 2 ^ 64))) (\<lambda>(d, n).
       Inr (s\<lparr>ldata := take (lcur s) (ldata s) @ d, lcur := lcur s + n\<rparr>))"

section \<open>Stream operators\<close>

datatype piece =
    Cstr "string option"       \<comment> \<open>\<open>const char*\<close>, \<open>None\<close> for null\<close>
  | Text string                \<comment> \<open>\<open>std::string\<close>, \<open>std::string_view\<close>\<close>
  | Boolean bool
  | Character char
  | Integer nat int            \<comment> \<open>an integral type of that many bits\<close>
  | Pointer u64
  | Double u64
  | Time string                \<comment> \<open>\<open>const tm*\<close>: what \<open>strftime\<close> makes of it\<close>

text \<open>A number formatter puts its characters and a terminator at the start of the memory it is given.\<close>

definition put_text :: "string res \<Rightarrow> string \<Rightarrow> (string \<times> nat) res" where
  "put_text t b = bindE t (\<lambda>t. bindE (store 0 (t @ [NUL]) b) (\<lambda>b. Inr (b, length t)))"

definition formatInteger :: "nat \<Rightarrow> int \<Rightarrow> log_stream \<Rightarrow> log_stream res" where
  "formatInteger w v s =
     (if int kMaxNumericSize < avail s then appendfx (\<lambda>dst n. put_text (itoa w n v) dst) s else Inr s)"

text \<open>\<open>strftime\<close> stores the text when it and its terminator fit, and returns 0 otherwise.\<close>

definition strftime :: "string \<Rightarrow> string \<Rightarrow> nat \<Rightarrow> (string \<times> nat) res" where
  "strftime t dst n = (if length t < n then put_text (Inr t) dst else Inr (dst, 0))"

fun log_put :: "piece \<Rightarrow> log_stream \<Rightarrow> log_stream res" where
  "log_put (Cstr (Some str)) s = append_buf str s"
| "log_put (Cstr None) s = append_buf ''(null)'' s"
| "log_put (Text v) s = append_buf v s"
| "log_put (Boolean v) s = append_buf (if v then ''1'' else ''0'') s"
| "log_put (Character v) s = append_buf [v] s"
| "log_put (Integer w v) s = formatInteger w v s"
| "log_put (Pointer ptr) s = (if 8 < avail s then appendfx (\<lambda>dst n. put_text (ptrtoa n ptr) dst) s else Inr s)"
| "log_put (Double v) s = (if int kMaxNumericSize < avail s then appendfx (\<lambda>dst n. dtoa_grisu2 dst v) s else Inr s)"
| "log_put (Time t) s = appendfx (strftime t) s"

primrec log_puts :: "piece list \<Rightarrow> log_stream \<Rightarrow> log_stream res" where
  "log_puts [] s = Inr s"
| "log_puts (p # ps) s = bindE (log_put p s) (log_puts ps)"

section \<open>Messages\<close>

datatype Level = GLOBAL | DEBUG | INFO | WARN | ERROR | FATAL

primrec level_id :: "Level \<Rightarrow> string" where
  "level_id GLOBAL = []"
| "level_id DEBUG = ''DEBUG''"
| "level_id INFO = ''INFO''"
| "level_id WARN = ''WARN''"
| "level_id ERROR = ''ERROR''"
| "level_id FATAL = ''FATAL''"

text \<open>The \<open>output\<close> file of each level, the buffers of one thread, and what was written to which file.\<close>

record logger =
  out_file :: "Level \<Rightarrow> nat option"
  gLogBuf :: "Level \<Rightarrow> string"
  written :: "(nat \<times> string) list"

definition new_logger :: logger where
  "new_logger = \<lparr>out_file = (\<lambda>_. None)(GLOBAL := Some 1), gLogBuf = (\<lambda>_. replicate (64 + kSmallBufferSize) NUL), written = []\<rparr>"

text \<open>\<open>__SHORT_FILE__\<close>: the part of the path after its last slash.\<close>

fun past_last_slash :: "string \<Rightarrow> string \<Rightarrow> string" where
  "past_last_slash [] last_slash = last_slash"
| "past_last_slash (c # str) last_slash = (if c = CHR ''/'' then past_last_slash str str else past_last_slash str last_slash)"

definition short_file :: "string \<Rightarrow> string" where
  "short_file path = past_last_slash path path"

definition header :: "Level \<Rightarrow> string \<Rightarrow> string \<Rightarrow> int \<Rightarrow> piece list" where
  "header lv time file line =
     [Time time, Cstr (Some file), Character (CHR '':''), Integer 32 line, Character (CHR '' ''),
      Cstr (Some (level_id lv)), Character (CHR '' '')]"

definition new_LogMessage :: "Level \<Rightarrow> string \<Rightarrow> string \<Rightarrow> int \<Rightarrow> logger \<Rightarrow> (log_stream \<times> logger) res" where
  "new_LogMessage lv time file line g =
     (let g = g\<lparr>out_file := (out_file g)(lv := (if out_file g lv = None then out_file g GLOBAL else out_file g lv))\<rparr> in
      bindE (log_puts (header lv time file line) (new_LogStream (gLogBuf g lv))) (\<lambda>s. Inr (s, g\<lparr>gLogBuf := (gLogBuf g)(lv := ldata s)\<rparr>)))"

definition flush :: "nat option \<Rightarrow> log_stream \<Rightarrow> logger \<Rightarrow> logger res" where
  "flush out s g = (case out of None \<Rightarrow> Inl Null_deref | Some f \<Rightarrow> Inr (g\<lparr>written := written g @ [(f, take (lsize s) (ldata s))]\<rparr>))"

definition destroy_LogMessage :: "Level \<Rightarrow> log_stream \<Rightarrow> logger \<Rightarrow> logger res" where
  "destroy_LogMessage lv s g =
     bindE (log_put (Character (CHR 0x0A)) s) (\<lambda>s.
       flush (out_file g lv) s (g\<lparr>gLogBuf := (gLogBuf g)(lv := ldata s)\<rparr>))"

text \<open>\<open>LOG(level) << p\<^sub>1 << p\<^sub>2 \<dots>\<close> in a thread.\<close>

definition log_entry :: "Level \<Rightarrow> string \<Rightarrow> string \<Rightarrow> int \<Rightarrow> piece list \<Rightarrow> logger \<Rightarrow> logger res" where
  "log_entry lv time path line ps g =
     bindE (new_LogMessage lv time (short_file path) line g) (\<lambda>(s, g).
     bindE (log_puts ps s) (\<lambda>s. destroy_LogMessage lv s g))"

section \<open>The buffer is never left\<close>

definition log_ok :: "log_stream \<Rightarrow> bool" where
  "log_ok s \<longleftrightarrow> length (ldata s) = 64 + kSmallBufferSize \<and> lcur s < kSmallBufferSize"

lemmas log_sizes = kSmallBufferSize_def kMaxNumericSize_def

lemma store_length: "store p s b = Inr b' \<Longrightarrow> length b' = length b"
  by (auto simp: store_def split: if_splits)

lemma memmove_in_length: "memmove_in d s n b = Inr b' \<Longrightarrow> length b' = length b"
  by (auto simp: memmove_in_def dest: store_length split: if_splits)

lemma put_digit_length: "put_digit d b len = Inr (b', len') \<Longrightarrow> length b' = length b \<and> len' \<le> Suc len"
  by (auto simp: put_digit_def bindE_def dest: store_length split: if_splits sum.splits)

lemma GrisuRound_length: "GrisuRound n b len delta r t w = Inr b' \<Longrightarrow> length b' = length b"
  by (induction n arbitrary: b r) (auto simp: bindE_def guardE_def split: if_splits sum.splits)

lemma digit_frac_length:
  "digit_frac n sh one p2 delta wp_w m b len = Inr (b', len', k) \<Longrightarrow> length b' = length b \<and> len' + m \<le> len + 9"
proof (induction n arbitrary: p2 delta m b len)
  case (Suc n)
  obtain b1 len1 where put: "put_digit (unat (drop_bit sh (p2 * 10)) mod 256) b len = Inr (b1, len1)"
    using Suc.prems by (auto simp: Let_def bindE_def split: sum.splits)
  show ?case
  proof (cases "(p2 * 10) AND (one - 1) < delta * 10")
    case True
    then have "Suc m < 10" "length b' = length b1" "len' = len1"
      using Suc.prems put by (auto simp: Let_def bindE_def guardE_def kPow10_def dest: GrisuRound_length split: sum.splits if_splits)
    then show ?thesis using put_digit_length [OF put] by simp
  next
    case False
    then have "digit_frac n sh one ((p2 * 10) AND (one - 1)) (delta * 10) wp_w (Suc m) b1 len1 = Inr (b', len', k)"
      using Suc.prems put by (simp add: Let_def)
    from Suc.IH [OF this] show ?thesis using put_digit_length [OF put] by auto
  qed
qed simp

lemma digit_int_length:
  "digit_int n sh one p1 p2 delta wp_w b len = Inr (b', len', k) \<Longrightarrow> length b' = length b \<and> len' \<le> len + n + 9"
proof (induction n arbitrary: p1 b len)
  case 0
  then show ?case using digit_frac_length by fastforce
next
  case (Suc n)
  obtain b1 len1 where put: "put_digit (unat (p1 div kPow10 ! n)) b len = Inr (b1, len1)"
    using Suc.prems by (auto simp: Let_def bindE_def split: sum.splits)
  note len1 = put_digit_length [OF put]
  show ?case
  proof (cases "push_bit sh (ucast (p1 mod kPow10 ! n)) + p2 \<le> delta")
    case True
    then have "length b' = length b1" "len' = len1"
      using Suc.prems put by (auto simp: Let_def bindE_def dest: GrisuRound_length split: sum.splits)
    then show ?thesis using len1 by simp
  next
    case False
    then have "digit_int n sh one (p1 mod kPow10 ! n) p2 delta wp_w b1 len1 = Inr (b', len', k)"
      using Suc.prems put by (simp add: Let_def)
    from Suc.IH [OF this] show ?thesis using len1 by auto
  qed
qed

lemma DigitGen_length: "DigitGen W Mp delta b K = Inr (b', len, K') \<Longrightarrow> length b' = length b \<and> len \<le> 19"
proof -
  let ?p1 = "ucast (drop_bit (nat (- de Mp)) (df Mp)) :: u32"
  assume "DigitGen W Mp delta b K = Inr (b', len, K')"
  then obtain k sh one p2 w where "digit_int (CountDecimalDigit32 ?p1) sh one ?p1 p2 delta w b 0 = Inr (b', len, k)"
    by (auto simp: DigitGen_def bindE_def Let_def split: sum.splits)
  from digit_int_length [OF this] show ?thesis
    by (auto simp: CountDecimalDigit32_def split: if_splits)
qed

lemma Grisu2_length: "Grisu2 v b = Inr (b', len, K) \<Longrightarrow> length b' = length b \<and> len \<le> 19"
  by (auto simp: Grisu2_def bindE_def Let_def split: sum.splits prod.splits dest!: DigitGen_length)

lemma Prettify_length: "Prettify b len k = Inr b' \<Longrightarrow> length b' = length b"
  by (auto simp: Prettify_def Let_def bindE_def WriteExponent_def dest!: store_length memmove_in_length split: if_splits sum.splits)

lemma dtoa_grisu2_length: "dtoa_grisu2 b v = Inr (b', n) \<Longrightarrow> length b' = length b \<and> n \<le> 20"
  by (auto simp: dtoa_grisu2_def Let_def bindE_def guardE_def dest!: store_length Grisu2_length Prettify_length split: if_splits sum.splits)

lemma itoa_loop_length:
  "length out = i \<Longrightarrow> i < maxlen \<Longrightarrow> length (itoa_loop w maxlen i v out) < maxlen"
  by (induction w maxlen i v out rule: itoa_loop.induct) (subst itoa_loop.simps, auto simp: Let_def less_diff_conv)

lemma ptrtoa_loop_length:
  "length out = i \<Longrightarrow> i < maxlen \<Longrightarrow> length (ptrtoa_loop maxlen i v out) < maxlen"
  by (induction maxlen i v out rule: ptrtoa_loop.induct) (subst ptrtoa_loop.simps, auto simp: Let_def less_diff_conv)

lemma itoa_length:
  assumes "0 < n"
  shows "(\<exists>t. itoa w n x = Inr t \<and> length t < n) \<or> (\<exists>e. itoa w n x = Inl e \<and> itoa_abs w x = Inl e)"
proof (cases "itoa_abs w x")
  case (Inr v)
  then show ?thesis
    using itoa_loop_length [of "[]" 0 n w v] assms by (auto simp: itoa_def Let_def)
qed (simp add: itoa_def)

lemma ptrtoa_length: "0 < n \<Longrightarrow> \<exists>t. ptrtoa n v = Inr t \<and> length t < n"
  using ptrtoa_loop_length [of "[]" 0 n v] by (simp add: ptrtoa_def Let_def)

text \<open>What an operator may do to the stream: it stays within its bounds and keeps what was put before.\<close>

definition extends :: "log_stream \<Rightarrow> log_stream \<Rightarrow> bool" where
  "extends s s' \<longleftrightarrow> log_ok s' \<and> lcur s \<le> lcur s' \<and> take (lcur s) (ldata s') = take (lcur s) (ldata s)"

lemma avail_mod: "log_ok s \<Longrightarrow> avail s mod 18446744073709551616 = avail s"
  by (simp add: avail_def log_ok_def log_sizes)

lemma append_buf_extends: "log_ok s \<Longrightarrow> \<exists>s'. append_buf buf s = Inr s' \<and> extends s s'"
  by (auto simp: append_buf_def avail_mod extends_def store_def log_ok_def avail_def log_sizes)

lemma append_buf_in_bounds:
  "log_ok s \<Longrightarrow> case append_buf buf s of
      Inr s' \<Rightarrow> log_ok s' \<and> lcur s \<le> lcur s' \<and> take (lcur s) (ldata s') = take (lcur s) (ldata s)
    | Inl e \<Rightarrow> P e"
  using append_buf_extends [of s buf] by (auto simp: extends_def)

lemma appendfx_extends:
  assumes "log_ok s" and "f (drop (lcur s) (ldata s)) (nat (avail s)) = Inr (d, n)"
    and "length d = length (drop (lcur s) (ldata s))" and "int n < avail s"
  shows "\<exists>s'. appendfx f s = Inr s' \<and> extends s s'"
  using assms by (auto simp: appendfx_def avail_mod extends_def log_ok_def avail_def log_sizes)

lemma appendfx_text:
  assumes "log_ok s" and "f (drop (lcur s) (ldata s)) (nat (avail s)) = put_text (Inr t) (drop (lcur s) (ldata s))"
    and "int (length t) < avail s"
  shows "appendfx f s = Inr (s\<lparr>ldata := take (lcur s) (ldata s) @ t @ NUL # drop (lcur s + length t + 1) (ldata s),
      lcur := lcur s + length t\<rparr>)"
  using assms by (auto simp: appendfx_def avail_mod put_text_def store_def log_ok_def avail_def log_sizes add.commute)

lemma appendfx_text_extends:
  assumes "log_ok s" and "f (drop (lcur s) (ldata s)) (nat (avail s)) = put_text (Inr t) (drop (lcur s) (ldata s))"
    and "int (length t) < avail s"
  shows "\<exists>s'. appendfx f s = Inr s' \<and> extends s s'"
  using appendfx_text [of s f t] assms by (auto simp: extends_def log_ok_def avail_def log_sizes)

lemma avail_pos: "log_ok s \<Longrightarrow> 0 < avail s"
  by (simp add: log_ok_def avail_def)

lemma log_put_Integer:
  assumes "log_ok s"
  shows "(\<exists>s'. log_put (Integer w v) s = Inr s' \<and> extends s s') \<or>
    (\<exists>e. log_put (Integer w v) s = Inl e \<and> itoa_abs w v = Inl e)"
proof (cases "int kMaxNumericSize < avail s")
  case True
  consider t where "itoa w (nat (avail s)) v = Inr t" "length t < nat (avail s)"
    | e where "itoa w (nat (avail s)) v = Inl e" "itoa_abs w v = Inl e"
    using itoa_length [of "nat (avail s)" w v] avail_pos [OF assms] by auto
  then show ?thesis
  proof cases
    case 1
    then show ?thesis
      using True appendfx_text_extends [OF assms, of "\<lambda>dst n. put_text (itoa w n v) dst" t] by (simp add: formatInteger_def)
  next
    case 2
    then show ?thesis
      using True by (simp add: formatInteger_def appendfx_def avail_mod [OF assms] put_text_def)
  qed
next
  case False
  then show ?thesis using assms by (simp add: formatInteger_def extends_def)
qed

lemma log_put_Pointer:
  assumes "log_ok s"
  shows "\<exists>s'. log_put (Pointer v) s = Inr s' \<and> extends s s'"
proof (cases "8 < avail s")
  case True
  obtain t where "ptrtoa (nat (avail s)) v = Inr t" "length t < nat (avail s)"
    using ptrtoa_length [of "nat (avail s)" v] avail_pos [OF assms] by auto
  then show ?thesis
    using True appendfx_text_extends [OF assms, of "\<lambda>dst n. put_text (ptrtoa n v) dst" t] by simp
next
  case False
  then show ?thesis using assms by (simp add: extends_def)
qed

lemma log_put_Double:
  assumes "log_ok s" and "log_put (Double v) s = Inr s'"
  shows "extends s s'"
proof (cases "int kMaxNumericSize < avail s")
  case True
  obtain d n where dtoa: "dtoa_grisu2 (drop (lcur s) (ldata s)) v = Inr (d, n)"
    using True assms(2) by (auto simp: appendfx_def bindE_def split: sum.splits)
  then show ?thesis
    using True assms(2) appendfx_extends [OF assms(1), of "\<lambda>dst n. dtoa_grisu2 dst v" d n] dtoa_grisu2_length [OF dtoa]
    by (auto simp: log_sizes)
next
  case False
  then show ?thesis using assms by (simp add: extends_def)
qed

lemma log_put_Time:
  assumes "log_ok s"
  shows "\<exists>s'. log_put (Time t) s = Inr s' \<and> extends s s'"
proof (cases "length t < nat (avail s)")
  case True
  then show ?thesis
    using appendfx_text_extends [OF assms, of "strftime t" t] by (simp add: strftime_def)
next
  case False
  then show ?thesis
    using appendfx_extends [OF assms, of "strftime t" "drop (lcur s) (ldata s)" 0] avail_pos [OF assms] by (simp add: strftime_def)
qed


definition demo_full :: log_stream where
  "demo_full = \<lparr>ldata = replicate 1088 (CHR ''x''), lcur = 1020\<rparr>"


section \<open>What an entry writes\<close>

lemma ptrtoa_loop_eq:
  "length (rev_digits 16 (unat v)) + i < maxlen \<Longrightarrow>
    ptrtoa_loop maxlen i v out = out @ map hex_char (rev_digits 16 (unat v))"
proof (induction maxlen i v out rule: ptrtoa_loop.induct)
  case (1 maxlen i v out)
  show ?case
  proof (cases "v = 0")
    case True
    then show ?thesis by (simp add: ptrtoa_loop.simps)
  next
    case False
    have q: "unat (drop_bit 4 v) = unat v div 16"
      by (simp add: drop_bit_eq_div unat_div)
    have "v - push_bit 4 (drop_bit 4 v) = v mod 16"
      by (simp add: drop_bit_eq_div push_bit_eq_mult minus_div_mult_eq_mod)
    then have r: "unat (v - push_bit 4 (drop_bit 4 v)) = unat v mod 16"
      by (simp add: unat_mod)
    have digs: "rev_digits 16 (unat v) = unat v mod 16 # rev_digits 16 (unat v div 16)"
      using False by (intro rev_digits_pos) (auto simp: unat_gt_0)
    then have "ptrtoa_loop maxlen (Suc i) (drop_bit 4 v) (out @ [hex_char (unat (v - push_bit 4 (drop_bit 4 v)))]) =
        (out @ [hex_char (unat v mod 16)]) @ map hex_char (rev_digits 16 (unat v div 16))"
      using 1 False unfolding q [symmetric] r [symmetric] by (intro "1.IH") auto
    then show ?thesis
      using False 1(2) digs by (subst ptrtoa_loop.simps) (simp add: Let_def)
  qed
qed

text \<open>The text of an operand, and the operands that have one.\<close>

fun piece_text :: "piece \<Rightarrow> string" where
  "piece_text (Cstr str) = (case str of None \<Rightarrow> ''(null)'' | Some str \<Rightarrow> str)"
| "piece_text (Text v) = v"
| "piece_text (Boolean v) = (if v then ''1'' else ''0'')"
| "piece_text (Character v) = [v]"
| "piece_text (Integer w v) = (if v < 0 then CHR ''-'' # dec (nat (- v)) else dec (nat v))"
| "piece_text (Pointer v) = rev (map hex_char (rev_digits 16 (unat v)))"
| "piece_text (Double v) = []"
| "piece_text (Time t) = t"

fun plain :: "piece \<Rightarrow> bool" where
  "plain (Integer w v) \<longleftrightarrow> int_width w \<and> - (2 ^ (w - 1)) \<le> v \<and> v < 2 ^ w \<and> (w < 32 \<or> v \<noteq> - (2 ^ (w - 1)))"
| "plain (Double v) \<longleftrightarrow> False"
| "plain p \<longleftrightarrow> True"

abbreviation entry_text :: "piece list \<Rightarrow> string" where
  "entry_text ps \<equiv> concat (map piece_text ps)"

definition holds :: "string \<Rightarrow> log_stream \<Rightarrow> bool" where
  "holds t s \<longleftrightarrow> log_ok s \<and> lcur s = length t \<and> take (lcur s) (ldata s) = t"

lemma append_buf_holds:
  "holds t s \<Longrightarrow> length t + length u < 1024 \<Longrightarrow> \<exists>s'. append_buf u s = Inr s' \<and> holds (t @ u) s'"
  by (auto simp: append_buf_def avail_mod holds_def store_def log_ok_def avail_def log_sizes)

lemma appendfx_holds:
  assumes "holds t s" and "length t + length u < 1024"
    and "f (drop (lcur s) (ldata s)) (nat (avail s)) = put_text (Inr u) (drop (lcur s) (ldata s))"
  shows "\<exists>s'. appendfx f s = Inr s' \<and> holds (t @ u) s'"
  using appendfx_text [of s f u] assms by (auto simp: holds_def log_ok_def avail_def log_sizes)

lemma log_put_holds:
  assumes "holds t s" and "plain p" and "length t + length (piece_text p) + 48 < 1024"
  shows "\<exists>s'. log_put p s = Inr s' \<and> holds (t @ piece_text p) s'"
proof (cases p)
  case (Cstr str)
  then show ?thesis using append_buf_holds [OF assms(1)] assms(3) by (cases str) auto
next
  case (Integer w v)
  have room: "avail s = 1024 - int (length t)"
    using assms(1) by (simp add: holds_def avail_def log_sizes)
  have "itoa w (nat (avail s)) v = Inr (piece_text p)"
    using itoa_eq [of w v "nat (avail s)"] assms(2,3) Integer room by (auto simp: abs_if split: if_splits)
  then show ?thesis
    using appendfx_holds [OF assms(1), of "piece_text p" "\<lambda>dst n. put_text (itoa w n v) dst"] assms(3) Integer room
    by (simp add: formatInteger_def log_sizes)
next
  case (Pointer v)
  have room: "avail s = 1024 - int (length t)"
    using assms(1) by (simp add: holds_def avail_def log_sizes)
  have "ptrtoa (nat (avail s)) v = Inr (piece_text p)"
    using ptrtoa_loop_eq [of v 0 "nat (avail s)" "[]"] assms(3) Pointer room by (simp add: ptrtoa_def Let_def)
  then show ?thesis
    using appendfx_holds [OF assms(1), of "piece_text p" "\<lambda>dst n. put_text (ptrtoa n v) dst"] assms(3) Pointer room by simp
next
  case (Time u)
  have "length u < nat (avail s)"
    using assms(1,3) Time by (simp add: holds_def avail_def log_sizes)
  then show ?thesis
    using appendfx_holds [OF assms(1), of u "strftime u"] assms(3) Time by (simp add: strftime_def)
qed (use append_buf_holds [OF assms(1)] assms(2,3) in auto)

lemma log_puts_holds:
  "\<lbrakk>holds t s; list_all plain ps; length t + length (entry_text ps) + 48 < 1024\<rbrakk> \<Longrightarrow>
    \<exists>s'. log_puts ps s = Inr s' \<and> holds (t @ entry_text ps) s'"
proof (induction ps arbitrary: t s)
  case (Cons p ps)
  obtain s1 where s1: "log_put p s = Inr s1" "holds (t @ piece_text p) s1"
    using log_put_holds [OF Cons.prems(1), of p] Cons.prems(2,3) by auto
  then show ?case
    using Cons.IH [OF s1(2)] Cons.prems(2,3) by simp
qed simp



section \<open>Entries that come out wrong\<close>

text \<open>\<open>1.0\<close> appears as \<open>1\<close>: the stream advances by the digit count that \<open>dtoa_grisu2\<close> returns.\<close>

lemma log_double_truncated:
  "case log_put (Double 4607182418800017408) (new_LogStream (replicate 80 NUL)) of
     Inr s \<Rightarrow> take (lcur s) (ldata s) = ''1'' \<and> take 3 (ldata s) = ''1.0'' | Inl e \<Rightarrow> False"
  by code_simp

text \<open>An entry that has filled the buffer ends without its newline.\<close>

lemma full_entry_no_newline: "log_ok s \<Longrightarrow> lcur s = 1023 \<Longrightarrow> log_put (Character (CHR 0x0A)) s = Inr s"
  by (simp add: append_buf_def avail_mod) (simp add: avail_def log_sizes)

end
