(* ===== verification/Grisu_Scale.thy ===== *)
theory Grisu_Scale
  imports Grisu Complex_Main
begin

text \<open>
  Scaling in \<open>Grisu2\<close> of \<^verbatim>\<open>src/common/string.hpp\<close>: the rounded product of two \<open>DiyFp\<close> and the table of
  cached powers of ten, every entry of which is checked against the exact power.  The tables are walked
  away from \<open>10\<^sup>\<plusminus>\<^sup>4\<close> in both directions, so that each power of 5 is computed from its neighbour.
\<close>

section \<open>Reference predicates\<close>

definition power_ok :: "int \<Rightarrow> u64 \<Rightarrow> int \<Rightarrow> bool" where
  "power_ok k f e \<longleftrightarrow> 2 ^ 63 \<le> uint f \<and> \<bar>real_of_int (uint f) * 2 powi e - 10 powi k\<bar> \<le> 2 powi e / 2"

definition near :: "int \<Rightarrow> int \<Rightarrow> int \<Rightarrow> bool" where
  "near u a b \<longleftrightarrow> 2 * \<bar>a - b\<bar> \<le> u"

fun neg_ok :: "int \<Rightarrow> int \<Rightarrow> u64 list \<Rightarrow> int list \<Rightarrow> bool" where
  "neg_ok k p (f # fs) (e # es) \<longleftrightarrow> 2 ^ 63 \<le> uint f \<and> e \<le> k \<and> near p (uint f * p) (2 ^ nat (k - e)) \<and> neg_ok (k - 8) (p * 390625) fs es"
| "neg_ok k p fs es \<longleftrightarrow> fs = [] \<and> es = []"

fun pos_ok :: "int \<Rightarrow> int \<Rightarrow> u64 list \<Rightarrow> int list \<Rightarrow> bool" where
  "pos_ok k p (f # fs) (e # es) \<longleftrightarrow> 2 ^ 63 \<le> uint f \<and> near (2 ^ nat (e - k)) (uint f * 2 ^ nat (e - k)) (p * 2 ^ nat (k - e)) \<and> pos_ok (k + 8) (p * 390625) fs es"
| "pos_ok k p fs es \<longleftrightarrow> fs = [] \<and> es = []"

fun exps_ok :: "int \<Rightarrow> int list \<Rightarrow> bool" where
  "exps_ok k [] \<longleftrightarrow> True"
| "exps_ok k (e # es) \<longleftrightarrow>
     (34 + e) * 30102999566398114 \<le> (k - 8) * 100000000000000000 \<and>
     k * 100000000000000000 < (64 + e) * 30102999566398114 \<and> exps_ok (k + 8) es"

section \<open>Products\<close>

lemma div_parts:
  fixes a b c d M H :: nat
  assumes M: "0 < M"
  shows "((a * M + b) * (c * M + d) + H * M) div (M * M)
       = a * c + a * d div M + b * c div M + (b * d div M + a * d mod M + b * c mod M + H) div M"
proof -
  have "(a * M + b) * (c * M + d) + H * M = b * d + M * (a * d + b * c + H + a * c * M)"
    by (simp add: algebra_simps)
  also have "\<dots> div M = b * d div M + (a * d + b * c + H + a * c * M)"
    using M by simp
  also have "\<dots> = (b * d div M + a * d mod M + b * c mod M + H) + M * (a * d div M + b * c div M + a * c)"
    using mult_div_mod_eq [of M "a * d"] mult_div_mod_eq [of M "b * c"] by (simp add: algebra_simps)
  also have "\<dots> div M = (b * d div M + a * d mod M + b * c mod M + H) div M + (a * d div M + b * c div M + a * c)"
    using M by simp
  finally show ?thesis unfolding div_mult2_eq by simp
qed

lemma unat_half:
  "unat (drop_bit 32 (x :: u64)) = unat x div 2 ^ 32" "unat (x AND 4294967295) = unat x mod 2 ^ 32"
proof -
  have "x AND 4294967295 = take_bit 32 x"
    by (simp add: take_bit_eq_mask mask_eq_exp_minus_1)
  then show "unat (x AND 4294967295) = unat x mod 2 ^ 32"
    unfolding take_bit_eq_mod [symmetric] by (simp only: unsigned_take_bit_eq)
qed (rule trans [OF unat_drop_bit_eq drop_bit_eq_div])

lemma unat_plus_small: "unat x + unat y < 2 ^ 64 \<Longrightarrow> unat (x + y :: u64) = unat x + unat y"
  by (simp add: unat_word_ariths)

lemma unat_mult_half: "unat x < 2 ^ 32 \<Longrightarrow> unat y < 2 ^ 32 \<Longrightarrow> unat (x * y :: u64) = unat x * unat y"
  using mult_strict_mono [of "unat x" "2 ^ 32" "unat y" "2 ^ 32"] by (simp add: unat_word_ariths)

text \<open>
  The product of two DiyFp values, computed from four 32-bit partial products with 64-bit wrap-around arithmetic,
  is the exact 128-bit product divided by \<open>2\<^sup>6\<^sup>4\<close> and rounded to nearest: no partial sum overflows.
\<close>

lemma diy_times_round:
  "unat (df (diy_times x y)) = (unat (df x) * unat (df y) + 2 ^ 63) div 2 ^ 64 \<and>
   de (diy_times x y) = de x + de y + 64"
proof
  define a b c d where "a = drop_bit 32 (df x)" "b = df x AND 4294967295"
    "c = drop_bit 32 (df y)" "d = df y AND 4294967295"
  note defs = a_b_c_d_def
  have lt: "unat a < 2 ^ 32" "unat b < 2 ^ 32" "unat c < 2 ^ 32" "unat d < 2 ^ 32"
    using unsigned_less [of "df x", where ?'a = nat] unsigned_less [of "df y", where ?'a = nat]
    unfolding defs unat_half by auto
  have xy: "unat (df x) = unat a * 2 ^ 32 + unat b" "unat (df y) = unat c * 2 ^ 32 + unat d"
    unfolding defs unat_half by simp_all
  let ?t = "unat b * unat d div 2 ^ 32 + unat a * unat d mod 2 ^ 32 + unat b * unat c mod 2 ^ 32 + 2 ^ 31"
  let ?r = "unat a * unat c + unat a * unat d div 2 ^ 32 + unat b * unat c div 2 ^ 32 + ?t div 2 ^ 32"
  have r: "(unat (df x) * unat (df y) + 2 ^ 63) div 2 ^ 64 = ?r"
    using div_parts [of "2 ^ 32" "unat a" "unat b" "unat c" "unat d" "2 ^ 31"] unfolding xy by simp
  have "unat (df x) * unat (df y) \<le> (2 ^ 64 - 1) * (2 ^ 64 - 1)"
    using unsigned_less [of "df x", where ?'a = nat] unsigned_less [of "df y", where ?'a = nat] by (intro mult_mono) auto
  then have small: "?r < 2 ^ 64"
    unfolding r [symmetric] by simp
  have bd: "unat b * unat d < 2 ^ 64"
    using mult_strict_mono [of "unat b" "2 ^ 32" "unat d" "2 ^ 32"] lt by simp
  then have "unat b * unat d div 2 ^ 32 < 2 ^ 32"
    by simp
  then have "unat (drop_bit 32 (b * d) + (a * d AND 4294967295) + (b * c AND 4294967295) + push_bit 31 1) = ?t"
    using lt by (simp add: unat_plus_small unat_half unat_mult_half push_bit_eq_mult)
  then show "unat (df (diy_times x y)) = (unat (df x) * unat (df y) + 2 ^ 63) div 2 ^ 64"
    using small lt unfolding r
    by (simp add: diy_times_def Let_def unat_plus_small unat_half unat_mult_half flip: defs)
qed (simp add: diy_times_def Let_def)

section \<open>Cached powers\<close>

lemma cached_powers_negative: "neg_ok (-4) (5 ^ 4) (rev (take 44 kCachedPowers_F)) (rev (take 44 kCachedPowers_E))"
  by code_simp

lemma cached_powers_positive: "pos_ok 4 (5 ^ 4) (drop 44 kCachedPowers_F) (drop 44 kCachedPowers_E)"
  by code_simp

lemma power_okI:
  assumes f: "2 ^ 63 \<le> uint f" and n: "near u (uint f * u) v" 
    and uv: "real_of_int v * 2 powi e = 10 powi k * real_of_int u" and u: "0 < u"
  shows "power_ok k f e"
proof -
  have "real_of_int (2 * \<bar>uint f * u - v\<bar>) \<le> real_of_int u"
    using n by (simp only: near_def of_int_le_iff)
  then have "\<bar>real_of_int (uint f) * real_of_int u - real_of_int v\<bar> * 2 powi e \<le> real_of_int u / 2 * 2 powi e"
    by (intro mult_right_mono) auto
  moreover have "\<bar>real_of_int (uint f) * real_of_int u - real_of_int v\<bar> * 2 powi e
      = \<bar>(real_of_int (uint f) * real_of_int u - real_of_int v) * 2 powi e\<bar>"
    by (simp add: abs_mult)
  moreover have "(real_of_int (uint f) * real_of_int u - real_of_int v) * 2 powi e
      = (real_of_int (uint f) * 2 powi e - 10 powi k) * real_of_int u"
    using uv by (simp add: algebra_simps)
  ultimately have "\<bar>real_of_int (uint f) * 2 powi e - 10 powi k\<bar> * real_of_int u \<le> 2 powi e / 2 * real_of_int u"
    using u by (simp only: abs_mult) (simp add: mult.commute)
  then show ?thesis
    using u f unfolding power_ok_def by (auto dest: mult_right_le_imp_le)
qed

lemma neg_ok_nth:
  "neg_ok k p fs es \<Longrightarrow> p = 5 ^ nat (- k) \<Longrightarrow> k < 0 \<Longrightarrow> i < length fs \<Longrightarrow> power_ok (k - 8 * int i) (fs ! i) (es ! i)"
proof (induction k p fs es arbitrary: i rule: neg_ok.induct)
  case (1 k p f fs e es)
  have p: "p * 390625 = 5 ^ nat (- (k - 8))"
    using "1.prems"(2,3) power_add [of "5 :: int" "nat (- k)" 8] nat_add_distrib [of "- k" 8] by simp
  show ?case
  proof (cases i)
    case 0
    have "power_ok k f e"
    proof (rule power_okI)
      have "(2 :: real) powi (k - e) * 2 powi e = 2 powi k" "(10 :: real) powi k = 2 powi k * 5 powi k"
        "(5 :: real) powi k * 5 powi (- k) = 1"
        by (simp_all flip: power_int_add power_int_mult_distrib)
      then show "real_of_int (2 ^ nat (k - e)) * 2 powi e = 10 powi k * real_of_int p"
        using "1.prems" by (simp add: power_int_def algebra_simps)
    qed (use "1.prems" in auto)
    then show ?thesis using 0 by simp
  next
    case (Suc j)
    then show ?thesis using "1.IH" [OF _ p, of j] "1.prems" by (simp add: algebra_simps)
  qed
qed auto
lemma pos_ok_nth:
  "pos_ok k p fs es \<Longrightarrow> p = 5 ^ nat k \<Longrightarrow> 0 \<le> k \<Longrightarrow> i < length fs \<Longrightarrow> power_ok (k + 8 * int i) (fs ! i) (es ! i)"
proof (induction k p fs es arbitrary: i rule: pos_ok.induct)
  case (1 k p f fs e es)
  have p: "p * 390625 = 5 ^ nat (k + 8)"
    using "1.prems"(2,3) power_add [of "5 :: int" "nat k" 8] nat_add_distrib [of k 8] by simp
  show ?case
  proof (cases i)
    case 0
    have "power_ok k f e"
    proof (rule power_okI)
      have "(2 :: real) powi (k - e) * 2 powi e = 2 powi k" "(10 :: real) powi k = 2 powi k * 5 powi k"
        by (simp_all flip: power_int_add power_int_mult_distrib)
      moreover have "(2 :: real) ^ nat (k - e) = 2 powi (k - e) * 2 ^ nat (e - k)"
        by (cases "e \<le> k") (simp_all add: power_int_def flip: power_mult_distrib)
      ultimately show "real_of_int (p * 2 ^ nat (k - e)) * 2 powi e = 10 powi k * real_of_int (2 ^ nat (e - k))"
        using "1.prems" by (simp add: power_int_def [of "5 :: real"] algebra_simps)
    qed (use "1.prems" in auto)
    then show ?thesis using 0 by simp
  next
    case (Suc j)
    then show ?thesis using "1.IH" [OF _ p, of j] "1.prems" by (simp add: algebra_simps)
  qed
qed auto

lemma cached_power_ok:
  assumes "i < 87"
  shows "power_ok (8 * int i - 348) (kCachedPowers_F ! i) (kCachedPowers_E ! i)"
proof -
  have len: "length kCachedPowers_F = 87" "length kCachedPowers_E = 87"
    by (simp_all add: kCachedPowers_F_def kCachedPowers_E_def)
  show ?thesis
  proof (cases "i < 44")
    case True
    then show ?thesis using neg_ok_nth [OF cached_powers_negative, of "43 - i"] len by (simp add: rev_nth of_nat_diff)
  next
    case False
    then show ?thesis using pos_ok_nth [OF cached_powers_positive, of "i - 44"] len assms by (simp add: of_nat_diff)
  qed
qed

lemma exps_ok_table: "exps_ok (- 348) kCachedPowers_E"
  by (simp add: kCachedPowers_E_def)

lemma exps_ok_nth: "exps_ok k es \<Longrightarrow> i < length es \<Longrightarrow> 
    (34 + es ! i) * 30102999566398114 \<le> (k + 8 * int i - 8) * 100000000000000000 \<and>
    (k + 8 * int i) * 100000000000000000 < (64 + es ! i) * 30102999566398114"
proof (induction k es arbitrary: i rule: exps_ok.induct)
  case (2 k e es)
  then show ?case using "2.IH" [of "i - 1"] by (cases i) (auto simp: algebra_simps)
qed simp

lemma ceil_div_bounds:
  fixes x d :: int
  assumes "0 < d"
  shows "x \<le> - ((- x) div d) * d" "(- ((- x) div d) - 1) * d < x"
proof -
  have "- x div d * d + - x mod d = - x" "(- ((- x) div d) - 1) * d = - (- x div d * d) - d"
    by (rule div_mult_mod_eq) (simp add: algebra_simps)
  moreover have "0 \<le> - x mod d" "- x mod d < d"
    using assms by simp_all
  ultimately show "x \<le> - ((- x) div d) * d" "(- ((- x) div d) - 1) * d < x"
    unfolding mult_minus_left by linarith+
qed

lemma cached_k_bounds:
  "(- 61 - e) * 30102999566398114 + 347 * 100000000000000000 \<le> cached_k e * 100000000000000000"
  "(cached_k e - 1) * 100000000000000000 < (- 61 - e) * 30102999566398114 + 347 * 100000000000000000"
  unfolding cached_k_def by (rule ceil_div_bounds; simp)+

lemma cached_index_range:
  assumes "- 1137 \<le> e" and "e \<le> 960"
  shows "5 \<le> cached_k e div 8 \<and> cached_k e div 8 \<le> 83"
proof -
  have "40 \<le> cached_k e" "cached_k e < 672"
    using assms cached_k_bounds [of e] by simp_all
  then show ?thesis by linarith
qed

text \<open>
  For every exponent a boundary of a double can have, GetCachedPower finds an entry of its table; the entry is a
  normalised 64-bit approximation of \<open>10\<^sup>-\<^sup>K\<close> within half a unit in the last place, and multiplying by it brings the
  exponent between -60 and -32, where the integral part fits 32 bits.
\<close>

lemma cached_power_scales:
  assumes "- 1137 \<le> e" and "e \<le> 960"
  shows "\<exists>c K. GetCachedPower e = Inr (c, K) \<and> power_ok (- K) (df c) (de c) \<and>
           - 60 \<le> e + de c + 64 \<and> e + de c + 64 \<le> - 32 \<and> - 324 \<le> K \<and> K \<le> 300"
proof -
  define i where "i = nat (cached_k e div 8 + 1)"
  have i: "cached_k e div 8 + 1 = int i" "i < 87" "6 \<le> i" "i \<le> 84"
    using cached_index_range [OF assms] by (auto simp: i_def nat_less_iff le_nat_iff)
  have len: "length kCachedPowers_E = 87"
    by (simp add: kCachedPowers_E_def)
  note x = exps_ok_nth [OF exps_ok_table, of i, unfolded len, OF i(2), THEN conjunct1]
    exps_ok_nth [OF exps_ok_table, of i, unfolded len, OF i(2), THEN conjunct2]
  have "8 * int i - 8 \<le> cached_k e" "cached_k e \<le> 8 * int i - 1"
    using i(1) by linarith+
  then have "(- 61 - e) * 30102999566398114 < (64 + kCachedPowers_E ! i) * 30102999566398114"
    "(34 + kCachedPowers_E ! i) * 30102999566398114 < (- 61 - e) * 30102999566398114"
    using x cached_k_bounds [of e] by simp_all
  then have "- 124 \<le> e + kCachedPowers_E ! i" "e + kCachedPowers_E ! i \<le> - 96"
    by simp_all
  then show ?thesis
    using cached_power_ok [OF i(2)] i by (simp add: GetCachedPower_def mult.commute)
qed

end
