(* ===== verification/Grisu_Text.thy ===== *)
theory Grisu_Text
  imports Grisu Complex_Main
begin

text \<open>
  The text that \<open>Prettify\<close> and \<open>WriteExponent\<close> of \<^verbatim>\<open>src/common/string.hpp\<close> write.  \<open>text_value\<close> reads a decimal numeral,
  with or without an exponent, as a real number; \<open>pretty\<close> is the text for each notation.
\<close>

section \<open>Reading decimal text\<close>

definition pretty :: "string \<Rightarrow> int \<Rightarrow> string" where
  "pretty ds k =
     (let kk = int (length ds) + k in
      if 0 \<le> k \<and> kk \<le> 21 then ds @ replicate (nat k) CHR ''0'' @ ''.0''
      else if 0 < kk \<and> kk \<le> 21 then take (nat kk) ds @ ''.'' @ drop (nat kk) ds
      else if - 6 < kk \<and> kk \<le> 0 then ''0.'' @ replicate (nat (- kk)) CHR ''0'' @ ds
      else if length ds = 1 then ds @ ''e'' @ exponent_chars (kk - 1)
      else take 1 ds @ ''.'' @ drop 1 ds @ ''e'' @ exponent_chars (kk - 1))"

definition text_value :: "string \<Rightarrow> real" where
  "text_value s =
     (let m = takeWhile (\<lambda>c. c \<noteq> CHR ''e'') s; x = drop (Suc (length m)) s;
          i = takeWhile (\<lambda>c. c \<noteq> CHR ''.'') m; f = drop (Suc (length i)) m in
      real (read_nat (i @ f)) * 10 powi (read_int x - int (length f)))"

definition is_digit :: "char \<Rightarrow> bool" where
  "is_digit c \<longleftrightarrow> 48 \<le> (of_char c :: nat) \<and> (of_char c :: nat) < 58"

definition cstr :: "string \<Rightarrow> string" where
  "cstr b = takeWhile (\<lambda>c. c \<noteq> NUL) b"

section \<open>Writing inside the buffer\<close>

lemma store_at:
  "length xs = p \<Longrightarrow> length s \<le> length ys \<Longrightarrow> store p s (xs @ ys) = Inr (xs @ s @ drop (length s) ys)"
  by (auto simp: store_def)

lemma store_mid:
  "length xs = p \<Longrightarrow> length s = length ys \<Longrightarrow> store p s (xs @ ys @ zs) = Inr (xs @ s @ zs)"
  by (auto simp: store_def)

lemma memmove_shift:
  assumes "length xs = src" and "length ys = n" and "j \<le> length r"
  shows "memmove_in (src + j) src n (xs @ ys @ r) = Inr (xs @ take j (ys @ r) @ ys @ drop j r)"
  using assms by (auto simp: memmove_in_def store_def)

lemma length_exponent: "length (exponent_chars K) \<le> 4"
  by (simp add: exponent_chars_def Let_def)

lemma Prettify_integer:
  assumes "0 \<le> k" and "int (length ds) + k \<le> 21" and "24 \<le> length ds + length r"
  shows "\<exists>z. Prettify (ds @ r) (length ds) k = Inr (pretty ds k @ NUL # z)"
proof -
  have n: "nat (int (length ds) + k) = length ds + nat k"
    using assms by simp
  have "store (length ds + nat k) [CHR ''.'', CHR ''0'', NUL] ((ds @ replicate (nat k) CHR ''0'') @ drop (nat k) r)
    = Inr ((ds @ replicate (nat k) CHR ''0'') @ [CHR ''.'', CHR ''0'', NUL] @ drop (3 + nat k) r)"
    using assms by (subst store_at) (simp_all add: numeral_3_eq_3)
  then show ?thesis using assms n
    by (auto simp: Prettify_def pretty_def Let_def store_at)
qed

lemma Prettify_point:
  assumes "k < 0" and "0 < int (length ds) + k" and "int (length ds) + k \<le> 21" and "8 \<le> length r"
  shows "\<exists>z. Prettify (ds @ r) (length ds) k = Inr (pretty ds k @ NUL # z)"
proof -
  define m where "m = nat (int (length ds) + k)"
  define xs where "xs = take m ds"
  define ys where "ys = drop m ds"
  have m: "m < length ds" "0 < m" "int (length ds) + k = int m" using assms by (auto simp: m_def)
  have len: "length xs = m" "length ys = length ds - m" "ds = xs @ ys" using m by (simp_all add: xs_def ys_def)
  have e: "ds @ r = xs @ ys @ r" using len(3) by simp
  have "memmove_in (m + 1) m (length ds - m) (ds @ r) = Inr (xs @ take 1 (ys @ r) @ ys @ drop 1 r)"
    unfolding e using len assms by (subst memmove_shift) simp_all
  moreover have "store m [CHR ''.''] (xs @ take 1 (ys @ r) @ ys @ drop 1 r) = Inr (xs @ [CHR ''.''] @ ys @ drop 1 r)"
    using len assms by (subst store_mid) auto
  moreover have "store (length ds + 1) [NUL] ((xs @ [CHR ''.''] @ ys) @ drop 1 r)
      = Inr ((xs @ [CHR ''.''] @ ys) @ [NUL] @ drop 1 (drop 1 r))"
    using len m assms by (subst store_at) auto
  ultimately show ?thesis using assms m
    by (simp add: Prettify_def pretty_def Let_def flip: xs_def ys_def)
qed

lemma Prettify_fraction:
  assumes "- 6 < int (length ds) + k" and "int (length ds) + k \<le> 0" and "ds \<noteq> []" and "8 \<le> length r"
  shows "\<exists>z. Prettify (ds @ r) (length ds) k = Inr (pretty ds k @ NUL # z)"
proof -
  define m where "m = nat (- (int (length ds) + k))"
  have m: "nat (2 - (int (length ds) + k)) = m + 2" "m \<le> 5"
    "nat (- int (length ds) - k) = m" "k < 0"
    using assms by (cases ds; simp add: m_def)+
  have "memmove_in (m + 2) 0 (length ds) (ds @ r) = Inr (take (m + 2) (ds @ r) @ ds @ drop (m + 2) r)"
    using memmove_shift [of "[]" 0 ds "length ds" "m + 2" r] m assms by simp
  moreover have "store 0 [CHR ''0'', CHR ''.''] (take (m + 2) (ds @ r) @ ds @ drop (m + 2) r)
     = Inr (''0.'' @ drop 2 (take (m + 2) (ds @ r)) @ ds @ drop (m + 2) r)"
    using m assms by (auto simp: store_def min_def numeral_2_eq_2)
  moreover have "store 2 (replicate m CHR ''0'') (''0.'' @ drop 2 (take (m + 2) (ds @ r)) @ ds @ drop (m + 2) r)
     = Inr (''0.'' @ replicate m CHR ''0'' @ ds @ drop (m + 2) r)"
    using m assms by (subst store_mid) simp_all
  moreover have "store (length ds + (m + 2)) [NUL] ((''0.'' @ replicate m CHR ''0'' @ ds) @ drop (m + 2) r)
     = Inr ((''0.'' @ replicate m CHR ''0'' @ ds) @ [NUL] @ drop 1 (drop (m + 2) r))"
    using m assms by (subst store_at) simp_all
  ultimately show ?thesis using assms m
    by (simp add: Prettify_def pretty_def Let_def)
qed

lemma WriteExponent_at:
  assumes "length xs = p" and "5 \<le> length r"
  shows "\<exists>z. WriteExponent K p (xs @ r) = Inr (xs @ exponent_chars K @ NUL # z)"
  using assms length_exponent [of K] by (simp add: WriteExponent_def store_at)

lemma Prettify_exponent:
  assumes "\<not> (- 6 < int (length ds) + k \<and> int (length ds) + k \<le> 21)" and "ds \<noteq> []" and "8 \<le> length r"
  shows "\<exists>z. Prettify (ds @ r) (length ds) k = Inr (pretty ds k @ NUL # z)"
proof (cases "length ds = 1")
  case True
  moreover have "store 1 [CHR ''e''] (ds @ r) = Inr ((ds @ ''e'') @ drop 1 r)"
    using True assms by (simp add: store_at)
  moreover have "5 \<le> length (drop 1 r)"
    using assms by simp
  moreover obtain z where "WriteExponent k 2 ((ds @ ''e'') @ drop 1 r) = Inr ((ds @ ''e'') @ exponent_chars k @ NUL # z)"
    using WriteExponent_at [OF _ calculation(3), of "ds @ ''e''" 2 k] True by auto
  ultimately show ?thesis using assms
    by (auto simp: Prettify_def pretty_def Let_def)
next
  case False
  define x where "x = take (Suc 0) ds"
  define ys where "ys = drop (Suc 0) ds"
  define K where "K = int (length ds) + k - 1"
  have len: "length x = 1" "length ys = length ds - 1" "ds = x @ ys" "2 \<le> length ds"
    using False assms by (cases ds; auto simp: x_def ys_def Suc_le_eq)+
  have e: "ds @ r = x @ ys @ r" using len(3) by simp
  have "memmove_in 2 1 (length ds - 1) (ds @ r) = Inr (x @ take 1 (ys @ r) @ ys @ drop 1 r)"
    unfolding e using memmove_shift [of x 1 ys "length ds - 1" 1 r] len(1,2) assms by (simp add: numeral_2_eq_2)
  moreover have "store 1 [CHR ''.''] (x @ take 1 (ys @ r) @ ys @ drop 1 r) = Inr (x @ [CHR ''.''] @ ys @ drop 1 r)"
    using len(1,2) assms by (subst store_mid) auto
  moreover have "store (length ds + 1) [CHR ''e''] ((x @ [CHR ''.''] @ ys) @ drop 1 r)
      = Inr ((x @ [CHR ''.''] @ ys) @ [CHR ''e''] @ drop 1 (drop 1 r))"
    using len(1,2,4) assms by (subst store_at) auto
  moreover have r: "5 \<le> length (drop 1 (drop 1 r))"
    using assms by simp
  moreover obtain z where "WriteExponent K (length ds + 2) ((x @ ''.'' @ ys @ ''e'') @ drop 1 (drop 1 r))
      = Inr ((x @ ''.'' @ ys @ ''e'') @ exponent_chars K @ NUL # z)"
    using WriteExponent_at [OF _ r, of "x @ ''.'' @ ys @ ''e''" "length ds + 2" K] len(1,2,4)
    by (cases "length ds") auto
  ultimately show ?thesis using assms len(4) False
    by (auto simp: Prettify_def pretty_def Let_def simp flip: x_def ys_def K_def)
qed

lemma Prettify_text:
  assumes "ds \<noteq> []" and "8 \<le> length r" and "24 \<le> length ds + length r"
  shows "\<exists>z. Prettify (ds @ r) (length ds) k = Inr (pretty ds k @ NUL # z)"
proof -
  let ?kk = "int (length ds) + k"
  consider "0 \<le> k" "?kk \<le> 21" | "k < 0" "0 < ?kk" "?kk \<le> 21" | "- 6 < ?kk" "?kk \<le> 0" | "\<not> (- 6 < ?kk \<and> ?kk \<le> 21)"
    by linarith
  then show ?thesis
    using assms by cases (blast intro: Prettify_integer Prettify_point Prettify_fraction Prettify_exponent)+
qed

lemma is_digit_simps [simp]: "is_digit CHR ''0''" "\<not> is_digit CHR ''e''" "\<not> is_digit CHR ''.''" "\<not> is_digit NUL" "\<not> is_digit CHR ''-''" "is_digit c \<Longrightarrow> c \<noteq> CHR ''e''" "is_digit c \<Longrightarrow> c \<noteq> CHR ''.''"
  "is_digit c \<Longrightarrow> c \<noteq> CHR ''-''" "is_digit c \<Longrightarrow> c \<noteq> NUL"
  by (auto simp: is_digit_def NUL_def)

lemma read_nat_Nil [simp]: "read_nat [] = 0"
  by (simp add: read_nat_def)

lemma read_nat_0 [simp]: "read_nat (CHR ''0'' # s) = read_nat s"
  by (simp add: read_nat_def digit_val_def)

lemma read_nat_append: "read_nat (xs @ ys) = read_nat xs * 10 ^ length ys + read_nat ys"
  by (induction ys rule: rev_induct) (simp_all add: read_nat_snoc algebra_simps flip: append_assoc)

lemma read_nat_zeros: "read_nat (replicate n CHR ''0'') = 0"
  by (induction n) (simp_all add: read_nat_snoc digit_val_def replicate_append_same flip: replicate_append_same)

lemma text_value_plain:
  assumes "\<forall>c\<in>set i. is_digit c" "\<forall>c\<in>set f. is_digit c"
  shows "text_value (i @ CHR ''.'' # f) = real (read_nat (i @ f)) * 10 powi - int (length f)"
    and "text_value (i @ CHR ''.'' # f @ CHR ''e'' # x) = real (read_nat (i @ f)) * 10 powi (read_int x - int (length f))"
    and "text_value (i @ CHR ''e'' # x) = real (read_nat i) * 10 powi read_int x"
proof -
  have tw: "takeWhile (\<lambda>c. c \<noteq> CHR ''e'') i = i" "takeWhile (\<lambda>c. c \<noteq> CHR ''e'') f = f" "takeWhile (\<lambda>c. c \<noteq> CHR ''.'') i = i"
    using assms by (auto simp: takeWhile_eq_all_conv)
  have e: "CHR ''e'' \<notin> set i" "CHR ''e'' \<notin> set f" "CHR ''.'' \<notin> set i"
    using assms by auto
  show "text_value (i @ CHR ''.'' # f) = real (read_nat (i @ f)) * 10 powi - int (length f)"
    "text_value (i @ CHR ''.'' # f @ CHR ''e'' # x) = real (read_nat (i @ f)) * 10 powi (read_int x - int (length f))"
    "text_value (i @ CHR ''e'' # x) = real (read_nat i) * 10 powi read_int x"
    by (simp_all add: text_value_def Let_def takeWhile_append read_int_def tw e)
qed

lemma digits_lut: "n < 100 \<Longrightarrow> [cDigitsLut ! (2 * n), cDigitsLut ! (2 * n + 1)] = [digit_char (n div 10), digit_char (n mod 10)]"
proof -
  have "\<forall>n \<in> set [0..<100]. [cDigitsLut ! (2 * n), cDigitsLut ! (2 * n + 1)] = [digit_char (n div 10), digit_char (n mod 10)]"
    by code_simp
  then show "n < 100 \<Longrightarrow> ?thesis" by (simp only: set_upt) auto
qed


lemma char_of_digit:
  assumes "d < 10"
  shows "char_of (48 + d) = digit_char d"
proof -
  have "\<forall>d\<in>set [0..<10]. char_of (48 + d) = digit_char d"
    by code_simp
  then show ?thesis using assms by (simp only: set_upt) auto
qed

lemma is_digit_char: "d < 10 \<Longrightarrow> is_digit (digit_char d)"
  by (auto simp: digit_char_def is_digit_def less_Suc_eq numeral_eq_Suc)

lemma exponent_chars_digits:
  assumes "\<bar>K\<bar> < 1000"
  obtains s where "exponent_chars K = (if K < 0 then [CHR ''-''] else []) @ s" "\<forall>c\<in>set s. is_digit c" "s \<noteq> []"
    "int (read_nat s) = \<bar>K\<bar>"
proof -
  define n where "n = nat \<bar>K\<bar>"
  define s where "s = (if 100 \<le> n then [digit_char (n div 100), digit_char (n mod 100 div 10), digit_char (n mod 100 mod 10)]
       else if 10 \<le> n then [digit_char (n div 10), digit_char (n mod 10)] else [digit_char n])"
  have n: "n < 1000" "\<bar>K\<bar> = int n" using assms by (simp_all add: n_def)
  then have d: "n div 100 < 10" "n mod 100 div 10 < 10" by auto
  show ?thesis
  proof
    show "exponent_chars K = (if K < 0 then [CHR ''-''] else []) @ s"
      using n d digits_lut [of "n mod 100"] digits_lut [of n]
      by (simp add: exponent_chars_def s_def Let_def char_of_digit mult.commute)
    show "\<forall>c\<in>set s. is_digit c" "s \<noteq> []"
      using d by (auto simp: s_def is_digit_char)
    show "int (read_nat s) = \<bar>K\<bar>"
      using n d by (auto simp: s_def read_nat_def digit_val_char)
  qed
qed

lemma read_int_exponent: "\<bar>K\<bar> < 1000 \<Longrightarrow> read_int (exponent_chars K) = K"
  by (rule exponent_chars_digits [of K]) (auto simp: read_int_def)

lemma text_value_pretty:
  assumes ds: "\<forall>c\<in>set ds. is_digit c" "ds \<noteq> []" and k: "\<bar>int (length ds) + k - 1\<bar> < 1000"
  shows "text_value (pretty ds k) = real (read_nat ds) * 10 powi k"
proof -
  let ?kk = "int (length ds) + k"
  consider "0 \<le> k" "?kk \<le> 21" | "k < 0" "0 < ?kk" "?kk \<le> 21" | "k < 0" "- 6 < ?kk" "?kk \<le> 0" 
    | "\<not> (- 6 < ?kk \<and> ?kk \<le> 21)" "length ds = 1" | "\<not> (- 6 < ?kk \<and> ?kk \<le> 21)" "length ds \<noteq> 1"
    using ds(2) by (cases ds) fastforce+
  then show ?thesis
  proof cases
    case 1
    have "\<forall>c\<in>set (ds @ replicate (nat k) CHR ''0''). is_digit c"
      using ds by auto
    from text_value_plain(1) [OF this, of "''0''"] 1 show ?thesis
      by (auto simp: pretty_def read_nat_append read_nat_zeros power_int_def)
  next
    case 2
    then show ?thesis
      using ds text_value_plain(1) [of "take (nat ?kk) ds" "drop (nat ?kk) ds"]
      by (auto simp: pretty_def Let_def of_nat_diff dest: in_set_takeD in_set_dropD)
  next
    case 3
    have "\<forall>c\<in>set (replicate (nat (- ?kk)) CHR ''0'' @ ds). is_digit c"
      using ds by auto
    from text_value_plain(1) [OF _ this, of "''0''"] 3 show ?thesis
      by (simp add: pretty_def Let_def read_nat_append read_nat_zeros)
  next
    case 4
    then show ?thesis
      using ds k text_value_plain(3) [of ds _ "exponent_chars (?kk - 1)"] by (auto simp: pretty_def Let_def read_int_exponent)
  next
    case 5
    obtain c cs where "ds = c # cs" using ds(2) by (cases ds) auto
    then show ?thesis
      using 5 ds k text_value_plain(2) [of "[c]" cs "exponent_chars (?kk - 1)"]
      by (auto simp: pretty_def Let_def read_int_exponent)
  qed
qed


lemma NUL_neq [simp]:
  "NUL \<noteq> CHR ''0''" "NUL \<noteq> CHR ''.''" "NUL \<noteq> CHR ''e''" "NUL \<noteq> CHR ''-''"
  by code_simp+

lemma exponent_no_NUL:
  assumes "\<bar>K\<bar> < 1000"
  shows "NUL \<notin> set (exponent_chars K)"
  by (rule exponent_chars_digits [OF assms]) (auto split: if_splits)

lemma pretty_chars:
  assumes "\<forall>c\<in>set ds. is_digit c" "ds \<noteq> []" "\<bar>int (length ds) + k - 1\<bar> < 1000"
  shows "NUL \<notin> set (pretty ds k)" "length ds < length (pretty ds k)"
proof -
  have "NUL \<notin> set ds"
    using assms(1) by auto
  then have n: "NUL \<notin> set ds" "NUL \<notin> set (take n ds)" "NUL \<notin> set (drop n ds)" for n
    by (auto dest: in_set_takeD in_set_dropD)
  show "NUL \<notin> set (pretty ds k)"
    using n exponent_no_NUL [OF assms(3)] by (auto simp: pretty_def Let_def)
  show "length ds < length (pretty ds k)"
    using assms(2) by (cases ds) (auto simp: pretty_def Let_def)
qed

text \<open>  Prettify writes a C string that denotes the digits times ten to the exponent, whatever the notation it
  chooses (integral, with a decimal point, with leading zeros, with an exponent), and never writes
  outside a buffer that leaves 8 characters after the digits and holds at least 24.  The string is always longer
  than the digit count, which is what dtoa_grisu2 returns as its length.
\<close>

theorem Prettify_value:
  assumes "ds \<noteq> []" and "\<forall>c\<in>set ds. is_digit c" and "\<bar>int (length ds) + k - 1\<bar> < 1000"
    and "8 \<le> length r" and "24 \<le> length ds + length r"
  shows "\<exists>b. Prettify (ds @ r) (length ds) k = Inr b \<and>
           text_value (cstr b) = real (read_nat ds) * 10 powi k \<and> length ds < length (cstr b)"
proof -
  obtain z where z: "Prettify (ds @ r) (length ds) k = Inr (pretty ds k @ NUL # z)"
    using Prettify_text [OF assms(1,4,5)] by blast
  have "cstr (pretty ds k @ NUL # z) = pretty ds k"
    using pretty_chars(1) [OF assms(2,1,3)] by (auto simp: cstr_def takeWhile_append takeWhile_eq_all_conv)
  then show ?thesis
    using z text_value_pretty [OF assms(2,1,3)] pretty_chars(2) [OF assms(2,1,3)] by simp
qed

theorem Prettify_value_witness:
  "\<exists>b. Prettify (''1234'' @ replicate 20 NUL) (length ''1234'') (- 6) = Inr b \<and>
       text_value (cstr b) = real (read_nat ''1234'') * 10 powi - 6 \<and> length ''1234'' < length (cstr b)"
  by (rule Prettify_value) (simp_all add: is_digit_def)

text \<open>  dtoa_grisu2 does not convert every double: for 1/3 the digit generator needs more than ten fractional digits
  and reads kPow10 outside the table.  For 1.0 it writes 1.0 and returns 1, the number of digits, where
  the text has three characters.
\<close>

theorem dtoa_grisu2_limits:
  "dtoa_grisu2 (replicate 40 NUL) 4599676419421066581 = Inl Out_of_bounds \<and>
   dtoa_grisu2 (replicate 8 NUL) 4607182418800017408 = Inr (''1.0'' @ replicate 5 NUL, 1)"
proof
  show "dtoa_grisu2 (replicate 40 NUL) 4599676419421066581 = Inl Out_of_bounds"
    by code_simp
  show "dtoa_grisu2 (replicate 8 NUL) 4607182418800017408 = Inr (''1.0'' @ replicate 5 NUL, 1)"
    by code_simp
qed

end
