(* ===== verification/Grisu_Digits.thy ===== *)
theory Grisu_Digits
  imports Grisu_Scale Grisu_Text
begin

text \<open>
  The digit generator of \<open>Grisu2\<close> (\<open>GrisuRound\<close> and \<open>DigitGen\<close> of \<^verbatim>\<open>src/common/string.hpp\<close>).  A run works on the
  upper end \<open>M\<close> of an interval of width \<open>\<delta>\<close>, in units of \<open>2\<^sup>-\<^sup>s\<^sup>h\<close>; \<open>gen_ok\<close> states what it leaves: digits that denote a
  point of the interval, or a fault when no point of the interval with nine fractional digits exists.
\<close>

section \<open>Reference predicates\<close>

definition digits_of :: "string \<Rightarrow> bool" where
  "digits_of ds \<longleftrightarrow> (\<forall>c\<in>set ds. is_digit c) \<and> (ds = [] \<or> 10 ^ (length ds - 1) \<le> read_nat ds)"

fun gen_ok :: "nat \<Rightarrow> nat \<Rightarrow> nat \<Rightarrow> nat \<Rightarrow> (string \<times> nat \<times> int) res \<Rightarrow> bool" where
  "gen_ok sh M \<delta> L (Inr (b, len, k)) \<longleftrightarrow>
     length b = L \<and> 0 < len \<and> len \<le> 18 \<and> len \<le> L \<and> - 9 \<le> k \<and> k \<le> 9 \<and> (\<forall>c\<in>set (take len b). is_digit c) \<and>
     real (read_nat (take len b)) * 10 powi k * 2 ^ sh \<le> real M \<and>
     real M \<le> real (read_nat (take len b)) * 10 powi k * 2 ^ sh + real \<delta>"
| "gen_ok sh M \<delta> L (Inl e) \<longleftrightarrow> e = Out_of_bounds \<and> (\<forall>m\<le>9. \<delta> * 10 ^ m \<le> M * 10 ^ m mod 2 ^ sh)"

section \<open>Writing and lowering digits\<close>

lemma digit_char_down:
  assumes "0 < d" and "d < 10"
  shows "char_of (of_char (digit_char d) + 255 :: nat) = digit_char (d - 1)"
proof -
  have "of_char (digit_char d) = 48 + d"
    using assms by (simp flip: char_of_digit)
  then have "of_char (digit_char d) + 255 = 256 + (48 + (d - 1))"
    using assms by simp
  also have "char_of (256 + (48 + (d - 1))) = (char_of (48 + (d - 1)) :: char)"
    by (simp only: char_of_quasi_inj mod_add_self1)
  also have "\<dots> = digit_char (d - 1)"
    using assms by (intro char_of_digit) simp
  finally show ?thesis .
qed

lemma read_nat_digit: "d < 10 \<Longrightarrow> read_nat (xs @ [digit_char d]) = 10 * read_nat xs + d"
  by (simp add: read_nat_snoc digit_val_char)

lemma GrisuRound_lowers:
  assumes "d < n" and "d < 10" and "rest \<le> delta" and "unat delta \<le> d * unat T + unat rest" and "0 < T"
  shows "\<exists>j\<le>d. unat rest + j * unat T \<le> unat delta \<and>
           GrisuRound n (xs @ digit_char d # r) (Suc (length xs)) delta rest T wp_w = Inr (xs @ digit_char (d - j) # r)"
  using assms
proof (induction n arbitrary: d rest)
  case (Suc n)
  show ?case
  proof (cases "rest < wp_w \<and> T \<le> delta - rest \<and> (rest + T < wp_w \<or> rest + T - wp_w < wp_w - rest)")
    case True
    have le: "unat T \<le> unat delta - unat rest"
      using True Suc.prems(3) by (simp add: word_le_nat_alt unat_sub)
    have rd: "unat rest \<le> unat delta"
      using Suc.prems(3) by (simp add: word_le_nat_alt)
    have T: "0 < unat T"
      using Suc.prems(5) by (simp add: unat_gt_0 word_gt_0)
    have s: "unat (rest + T) = unat rest + unat T"
      using le rd unsigned_less [of delta, where ?'a = nat] by (intro unat_plus_small) simp
    obtain c where d: "d = Suc c"
      using Suc.prems(4) le rd T by (cases d) auto
    have "\<exists>j\<le>c. unat (rest + T) + j * unat T \<le> unat delta \<and>
        GrisuRound n (xs @ digit_char c # r) (Suc (length xs)) delta (rest + T) T wp_w = Inr (xs @ digit_char (c - j) # r)"
      using Suc.prems le rd d s by (intro Suc.IH) (auto simp: word_le_nat_alt)
    then obtain j where j: "j \<le> c" "unat (rest + T) + j * unat T \<le> unat delta"
      "GrisuRound n (xs @ digit_char c # r) (Suc (length xs)) delta (rest + T) T wp_w = Inr (xs @ digit_char (c - j) # r)"
      by blast
    have "char_of (of_char (digit_char d) + 255 :: nat) = digit_char c"
      using digit_char_down [of d] Suc.prems(2) d by simp
    then show ?thesis
      using True j s d by (intro exI [of _ "Suc j"]) (simp add: guardE_def bindE_def list_update_append)
  next
    case False
    then show ?thesis using Suc.prems by (intro exI [of _ 0]) (auto simp: word_le_nat_alt)
  qed
qed simp

lemma put_digit_writes:
  assumes "d < 10" and "digits_of ds" and "0 < length r"
  obtains ds' r' where "put_digit d (ds @ r) (length ds) = Inr (ds' @ r', length ds')" "digits_of ds'"
    "read_nat ds' = 10 * read_nat ds + d" "length (ds' @ r') = length (ds @ r)" "length ds' \<le> Suc (length ds)"
    "d = 0 \<or> (\<exists>xs. ds' = xs @ [digit_char d])"
proof (cases "d = 0 \<and> ds = []")
  case True
  then show ?thesis using that [of "[]" r] by (simp add: put_digit_def digits_of_def)
next
  case False
  have "store (length ds) [char_of (48 + d)] (ds @ r) = Inr (ds @ [digit_char d] @ drop 1 r)"
    using assms by (subst store_at) (auto simp: char_of_digit Suc_le_eq)
  moreover have "digits_of (ds @ [digit_char d])"
  proof (cases ds rule: rev_cases)
    case Nil
    then show ?thesis using False assms(1) read_nat_digit [of d "[]"] by (simp add: digits_of_def is_digit_char)
  next
    case (snoc ys y)
    then show ?thesis
      using assms read_nat_digit [of d ds] by (auto simp: digits_of_def is_digit_char)
  qed
  ultimately show ?thesis
    using False assms by (intro that [of "ds @ [digit_char d]" "drop 1 r"]) (auto simp: put_digit_def bindE_def read_nat_digit)
qed

section \<open>The two loops\<close>

lemma digits_len:
  assumes "digits_of ds" and "read_nat ds * S \<le> M * q" and "512 * q < S" and "M < 2 ^ 64"
  shows "length ds < 18"
proof (rule ccontr)
  assume "\<not> length ds < 18"
  then have len: "17 \<le> length ds - 1" "ds \<noteq> []" by auto
  have "(10 :: nat) ^ 17 \<le> 10 ^ (length ds - 1)"
    by (rule power_increasing [OF len(1)]) simp
  also have "\<dots> \<le> read_nat ds"
    using assms(1) len(2) by (simp add: digits_of_def)
  finally have "10 ^ 17 * S \<le> M * q"
    using assms(2) by (meson le_trans mult_le_mono1)
  moreover have "M * q \<le> 2 ^ 64 * q"
    using assms(4) by (intro mult_le_mono1) simp
  ultimately have "10 ^ 17 * S \<le> 2 ^ 64 * q"
    by (rule le_trans)
  then show False using assms(3) by simp
qed

lemma shift_parts:
  fixes x :: u64
  shows "unat (drop_bit sh x) = unat x div 2 ^ sh" "sh < 64 \<Longrightarrow> unat (x AND (2 ^ sh - 1)) = unat x mod 2 ^ sh"
proof -
  have "x AND (2 ^ sh - 1) = take_bit sh x"
    by (simp add: take_bit_eq_mask mask_eq_exp_minus_1 push_bit_eq_mult)
  then show "sh < 64 \<Longrightarrow> unat (x AND (2 ^ sh - 1)) = unat x mod 2 ^ sh"
    unfolding take_bit_eq_mod [symmetric] by (simp only: unsigned_take_bit_eq)
qed (rule trans [OF unat_drop_bit_eq drop_bit_eq_div])

lemma unat_one:
  assumes "sh < 64"
  shows "unat (2 ^ sh :: u64) = 2 ^ sh"
proof -
  have "(2 :: nat) ^ sh < 2 ^ 64"
    using assms by (rule power_strict_increasing) simp
  then have "unat (of_nat (2 ^ sh) :: u64) = 2 ^ sh"
    unfolding unsigned_of_nat by (subst take_bit_nat_eq_self) simp_all
  then show ?thesis by simp
qed

lemma unat_times10: "unat (x :: u64) < 2 ^ 60 \<Longrightarrow> unat (x * 10) = unat x * 10"
  by (simp add: unat_word_ariths)

lemma gen_ok_fracI:
  assumes "digits_of (xs @ [digit_char d])" and "j \<le> d" and "d < 10" and "m < 10"
    and "M * 10 ^ m = read_nat (xs @ [digit_char d]) * 2 ^ sh + R" and "R + j * 2 ^ sh \<le> \<delta> * 10 ^ m"
    and "length xs < 18" and "L = Suc (length xs + length r)"
  shows "gen_ok sh M \<delta> L (Inr (xs @ digit_char (d - j) # r, Suc (length xs), - int m))"
proof -
  let ?D = "read_nat (xs @ [digit_char (d - j)])"
  have D: "read_nat (xs @ [digit_char d]) = ?D + j"
    using assms(2,3) by (simp add: read_nat_digit)
  have "?D * 2 ^ sh \<le> M * 10 ^ m" "M * 10 ^ m \<le> ?D * 2 ^ sh + \<delta> * 10 ^ m"
    using assms(5,6) unfolding D by (simp_all add: algebra_simps)
  then have "real (?D * 2 ^ sh) \<le> real (M * 10 ^ m)" "real (M * 10 ^ m) \<le> real (?D * 2 ^ sh + \<delta> * 10 ^ m)"
    by (simp_all only: of_nat_le_iff)
  then have "real ?D * 10 powi - int m * 2 ^ sh \<le> real M" "real M \<le> real ?D * 10 powi - int m * 2 ^ sh + real \<delta>"
    by (simp_all add: power_int_minus field_simps)
  then show ?thesis
    using assms by (auto simp: digits_of_def is_digit_char)
qed

lemma frac_steps:
  fixes \<delta> x :: nat
  assumes "512 \<le> \<delta>" and "\<delta> * 10 ^ m \<le> x" and "x < 2 ^ sh" and "sh \<le> 60"
  shows "m < (17 :: nat)"
proof (rule ccontr)
  assume "\<not> m < 17"
  then have "(10 :: nat) ^ 17 \<le> 10 ^ m" "(2 :: nat) ^ sh \<le> 2 ^ 60"
    using assms(4) by (intro power_increasing; simp)+
  then have "512 * 10 ^ 17 \<le> \<delta> * 10 ^ m"
    using assms(1) by (intro mult_le_mono) simp_all
  then show False using assms(2,3) \<open>2 ^ sh \<le> 2 ^ 60\<close> by simp
qed

lemma digit_frac_ok:
  assumes "digits_of ds" and "sh \<le> 60" and "M < 2 ^ 64" and "512 \<le> \<delta>" and "17 \<le> m + n"
    and "M * 10 ^ m = read_nat ds * 2 ^ sh + unat p2" and "unat p2 < 2 ^ sh" and "unat delta = \<delta> * 10 ^ m"
    and "\<forall>i\<le>m. \<delta> * 10 ^ i \<le> M * 10 ^ i mod 2 ^ sh" and "18 \<le> length (ds @ r)" and "L = length (ds @ r)"
  shows "gen_ok sh M \<delta> L (digit_frac n sh (2 ^ sh) p2 delta wp_w m (ds @ r) (length ds))"
  using assms
proof (induction n arbitrary: m p2 delta ds r)
  case 0
  then have "\<delta> * 10 ^ m \<le> M * 10 ^ m mod 2 ^ sh" by blast
  then have "\<delta> * 10 ^ m \<le> unat p2" using 0(6,7) by simp
  then show ?case using frac_steps [OF 0(4) _ 0(7,2)] 0(5) by fastforce
next
  case (Suc n)
  have p2: "unat p2 = M * 10 ^ m mod 2 ^ sh"
    using Suc.prems(6,7) by simp
  have S: "(2::nat) ^ sh \<le> 2 ^ 60"
    using Suc.prems(2) by (intro power_increasing) simp_all
  have le: "\<delta> * 10 ^ m \<le> unat p2"
    using Suc.prems(9) p2 by simp
  have q: "512 * 10 ^ m < (2::nat) ^ sh"
    using le mult_le_mono1 [OF Suc.prems(4), of "10 ^ m"] Suc.prems(7) by linarith
  have len: "length ds < 18"
    using digits_len [OF Suc.prems(1) _ q Suc.prems(3)] Suc.prems(6) by simp
  define d where "d = unat p2 * 10 div 2 ^ sh"
  have d: "d < 10"
    using Suc.prems(7) by (simp add: d_def less_mult_imp_div_less)
  define q2 where "q2 = (p2 * 10) AND (2 ^ sh - 1)"
  have t: "unat (p2 * 10) = unat p2 * 10" "unat (delta * 10) = unat delta * 10"
    using Suc.prems(7,8) le S by (intro unat_times10; simp)+
  have q2: "unat q2 = unat p2 * 10 mod 2 ^ sh"
    using Suc.prems(2) by (simp add: q2_def shift_parts t)
  have split: "d * 2 ^ sh + unat q2 = unat p2 * 10"
    unfolding d_def q2 by (rule div_mult_mod_eq)
  have r: "0 < length r"
    using len Suc.prems(10) by (cases r) simp_all
  obtain ds' r' where w: "put_digit d (ds @ r) (length ds) = Inr (ds' @ r', length ds')" "digits_of ds'"
    "read_nat ds' = 10 * read_nat ds + d" "length (ds' @ r') = length (ds @ r)" "length ds' \<le> Suc (length ds)"
    "d = 0 \<or> (\<exists>xs. ds' = xs @ [digit_char d])"
    by (rule put_digit_writes [OF d Suc.prems(1) r])
  have eq: "M * 10 ^ Suc m = read_nat ds' * 2 ^ sh + unat q2"
    using Suc.prems(6) split w(3) by (simp add: algebra_simps)
  have q2lt: "unat q2 < 2 ^ sh"
    by (simp add: q2)
  have d256: "unat (drop_bit sh (p2 * 10)) mod 256 = d"
    using d by (simp add: shift_parts t d_def)
  show ?case
  proof (cases "q2 < delta * 10")
    case True
    then have lt: "unat q2 < unat delta * 10"
      by (simp add: word_less_nat_alt t)
    then have "d \<noteq> 0"
      using split le Suc.prems(8) by (cases d) auto
    then obtain xs where xs: "ds' = xs @ [digit_char d]"
      using w(6) by blast
    show ?thesis
    proof (cases "Suc m < 10")
      case k: True
      have "\<exists>j\<le>d. unat q2 + j * unat (2 ^ sh :: u64) \<le> unat (delta * 10) \<and>
          GrisuRound 256 (xs @ digit_char d # r') (Suc (length xs)) (delta * 10) q2 (2 ^ sh) (wp_w * ucast (kPow10 ! Suc m))
            = Inr (xs @ digit_char (d - j) # r')"
        using d True split le Suc.prems(2,8) by (intro GrisuRound_lowers) (auto simp: unat_one t word_gt_0 simp flip: unat_eq_0)
      then obtain j where j: "j \<le> d" "unat q2 + j * 2 ^ sh \<le> unat delta * 10"
        "GrisuRound 256 (xs @ digit_char d # r') (Suc (length xs)) (delta * 10) q2 (2 ^ sh) (wp_w * ucast (kPow10 ! Suc m))
            = Inr (xs @ digit_char (d - j) # r')"
        using Suc.prems(2) by (auto simp: unat_one t)
      have "gen_ok sh M \<delta> L (Inr (xs @ digit_char (d - j) # r', Suc (length xs), - int (Suc m)))"
        using w(2,4,5) eq xs j d k len Suc.prems(8,11) by (intro gen_ok_fracI [where R = "unat q2"]) auto
      then show ?thesis
        using w(1) True k j(3) xs by (simp add: d256 q2_def Let_def bindE_def guardE_def kPow10_def)
    next
      case False
      then show ?thesis
        using Suc.prems(9) w(1) True xs by (simp add: d256 q2_def Let_def bindE_def guardE_def kPow10_def)
    qed
  next
    case False
    then have ge: "\<delta> * 10 ^ Suc m \<le> unat q2"
      using Suc.prems(8) by (simp add: word_less_nat_alt t)
    moreover have "M * 10 ^ Suc m mod 2 ^ sh = unat q2"
      using eq q2lt by simp
    ultimately have "\<forall>i\<le>Suc m. \<delta> * 10 ^ i \<le> M * 10 ^ i mod 2 ^ sh"
      using Suc.prems(9) by (auto simp: le_Suc_eq)
    then have "gen_ok sh M \<delta> L (digit_frac n sh (2 ^ sh) q2 (delta * 10) wp_w (Suc m) (ds' @ r') (length ds'))"
      using Suc.prems w(2,4) eq q2lt by (intro Suc.IH) (auto simp: t)
    then show ?thesis
      using w(1) False by (simp add: d256 q2_def Let_def bindE_def)
  qed
qed


lemma kPow10_nth:
  assumes "k < 10"
  shows "unat (kPow10 ! k) = 10 ^ k"
proof -
  have "k = 0 \<or> k = 1 \<or> k = 2 \<or> k = 3 \<or> k = 4 \<or> k = 5 \<or> k = 6 \<or> k = 7 \<or> k = 8 \<or> k = 9"
    using assms by auto
  then show ?thesis by (elim disjE) (simp_all add: kPow10_def)
qed

lemma unat_shifted:
  fixes p :: u32
  assumes "unat p * 2 ^ sh < 2 ^ 64" and "sh < 64"
  shows "unat (push_bit sh (ucast p) :: u64) = unat p * 2 ^ sh"
proof -
  have "push_bit sh (ucast p) = (of_nat (unat p * 2 ^ sh) :: u64)"
    by (simp add: push_bit_eq_mult)
  also have "unat (of_nat (unat p * 2 ^ sh) :: u64) = unat p * 2 ^ sh"
    unfolding unsigned_of_nat by (subst take_bit_nat_eq_self) (use assms in simp_all)
  finally show ?thesis .
qed

lemma gen_ok_intI:
  assumes "digits_of (xs @ [digit_char d])" and "j \<le> d" and "d < 10" and "k < 10"
    and "M = read_nat (xs @ [digit_char d]) * 10 ^ k * 2 ^ sh + R" and "R + j * (10 ^ k * 2 ^ sh) \<le> \<delta>"
    and "length xs < 18" and "L = Suc (length xs + length r)"
  shows "gen_ok sh M \<delta> L (Inr (xs @ digit_char (d - j) # r, Suc (length xs), int k))"
proof -
  let ?D = "read_nat (xs @ [digit_char (d - j)])"
  have D: "read_nat (xs @ [digit_char d]) = ?D + j"
    using assms(2,3) by (simp add: read_nat_digit)
  have "?D * 10 ^ k * 2 ^ sh \<le> M" "M \<le> ?D * 10 ^ k * 2 ^ sh + \<delta>"
    using assms(5,6) unfolding D by (simp_all add: algebra_simps)
  then have "real (?D * 10 ^ k * 2 ^ sh) \<le> real M" "real M \<le> real (?D * 10 ^ k * 2 ^ sh + \<delta>)"
    by (simp_all only: of_nat_le_iff)
  then show ?thesis
    using assms by (auto simp: digits_of_def is_digit_char)
qed

lemma digit_int_ok:
  assumes "digits_of ds" and "sh \<le> 60" and "M < 2 ^ 64" and "512 \<le> unat delta" and "k \<le> 10"
    and "M = read_nat ds * 10 ^ k * 2 ^ sh + unat p1 * 2 ^ sh + unat p2" and "unat p2 < 2 ^ sh" and "unat p1 < 10 ^ k"
    and "unat delta < unat p1 * 2 ^ sh + unat p2" and "18 \<le> length (ds @ r)" and "L = length (ds @ r)"
  shows "gen_ok sh M (unat delta) L (digit_int k sh (2 ^ sh) p1 p2 delta wp_w (ds @ r) (length ds))"
  using assms
proof (induction k arbitrary: p1 ds r)
  case 0
  then have "M mod 2 ^ sh = unat p2" by simp
  then show ?case
    using digit_frac_ok [of ds sh M "unat delta" 0 64 p2 delta r L wp_w] 0 by simp
next
  case (Suc k)
  define d where "d = unat p1 div 10 ^ k"
  have d: "d < 10"
    using Suc.prems(8) by (simp add: d_def less_mult_imp_div_less)
  have p1: "unat (p1 div kPow10 ! k) = d" "unat (p1 mod kPow10 ! k) = unat p1 mod 10 ^ k"
    using Suc.prems(5) kPow10_nth [of k] by (simp_all add: d_def unat_div_distrib unat_mod_distrib)
  define q1 where "q1 = p1 mod kPow10 ! k"
  have split: "unat p1 = d * 10 ^ k + unat q1"
    unfolding d_def q1_def p1(2) by (rule div_mult_mod_eq [symmetric])
  have "unat p1 * 2 ^ sh + unat p2 \<le> M"
    using Suc.prems(6) by simp
  then have small: "d * 10 ^ k * 2 ^ sh + unat q1 * 2 ^ sh + unat p2 < 2 ^ 64"
    using Suc.prems(3) unfolding split by (simp add: algebra_simps)
  define tmp where "tmp = push_bit sh (ucast q1) + p2"
  have sh: "unat (push_bit sh (ucast q1) :: u64) = unat q1 * 2 ^ sh"
    using small Suc.prems(2) by (intro unat_shifted) auto
  then have tmp: "unat tmp = unat q1 * 2 ^ sh + unat p2"
    using small unfolding tmp_def by (subst unat_plus_small) auto
  have len: "length ds < 18"
  proof (rule digits_len [OF Suc.prems(1) _ _ Suc.prems(3), where q = 1])
    show "read_nat ds * (10 ^ Suc k * 2 ^ sh) \<le> M * 1"
      using Suc.prems(6) by simp
    have "unat p1 * 2 ^ sh + unat p2 < (unat p1 + 1) * 2 ^ sh"
      using Suc.prems(7) by simp
    also have "\<dots> \<le> 10 ^ Suc k * 2 ^ sh"
      using Suc.prems(8) by (intro mult_le_mono1) simp
    finally show "512 * 1 < (10 :: nat) ^ Suc k * 2 ^ sh"
      using Suc.prems(4,9) by linarith
  qed
  have r: "0 < length r"
    using len Suc.prems(10) by (cases r) simp_all
  obtain ds' r' where w: "put_digit d (ds @ r) (length ds) = Inr (ds' @ r', length ds')" "digits_of ds'"
    "read_nat ds' = 10 * read_nat ds + d" "length (ds' @ r') = length (ds @ r)" "length ds' \<le> Suc (length ds)"
    "d = 0 \<or> (\<exists>xs. ds' = xs @ [digit_char d])"
    by (rule put_digit_writes [OF d Suc.prems(1) r])
  have eq: "M = read_nat ds' * 10 ^ k * 2 ^ sh + unat q1 * 2 ^ sh + unat p2"
    using Suc.prems(6) split w(3) by (simp add: algebra_simps)
  show ?case
  proof (cases "tmp \<le> delta")
    case True
    have lt: "unat delta < d * (10 ^ k * 2 ^ sh) + unat tmp"
      using Suc.prems(9) split tmp by (simp add: algebra_simps)
    then have dd: "d \<noteq> 0"
      using True by (cases d) (simp_all add: word_le_nat_alt)
    then obtain xs where xs: "ds' = xs @ [digit_char d]"
      using w(6) by blast
    have "unat (kPow10 ! k) * 2 ^ sh \<le> d * 10 ^ k * 2 ^ sh"
      using dd Suc.prems(5) by (simp add: kPow10_nth)
    then have "unat (kPow10 ! k) * 2 ^ sh < 2 ^ 64"
      using small by linarith
    then have T: "unat (push_bit sh (ucast (kPow10 ! k)) :: u64) = 10 ^ k * 2 ^ sh"
      using Suc.prems(2,5) by (subst unat_shifted) (simp_all add: kPow10_nth)
    have "\<exists>j\<le>d. unat tmp + j * unat (push_bit sh (ucast (kPow10 ! k)) :: u64) \<le> unat delta \<and>
        GrisuRound 256 (xs @ digit_char d # r') (Suc (length xs)) delta tmp (push_bit sh (ucast (kPow10 ! k))) wp_w
          = Inr (xs @ digit_char (d - j) # r')"
      using d True lt T by (intro GrisuRound_lowers) (auto simp: word_gt_0 simp flip: unat_eq_0)
    then obtain j where j: "j \<le> d" "unat tmp + j * (10 ^ k * 2 ^ sh) \<le> unat delta"
      "GrisuRound 256 (xs @ digit_char d # r') (Suc (length xs)) delta tmp (push_bit sh (ucast (kPow10 ! k))) wp_w
          = Inr (xs @ digit_char (d - j) # r')"
      unfolding T by blast
    have "gen_ok sh M (unat delta) L (Inr (xs @ digit_char (d - j) # r', Suc (length xs), int k))"
      using w(2,4,5) eq xs j(1,2) d len Suc.prems(5,11) tmp by (intro gen_ok_intI [where R = "unat tmp"]) auto
    then show ?thesis
      using w(1) True j(3) xs by (simp add: p1 Let_def bindE_def flip: q1_def tmp_def)
  next
    case False
    then have "gen_ok sh M (unat delta) L (digit_int k sh (2 ^ sh) q1 p2 delta wp_w (ds' @ r') (length ds'))"
      using Suc.prems w(2,4) eq tmp by (intro Suc.IH) (auto simp: word_le_nat_alt q1_def p1)
    then show ?thesis
      using w(1) False by (simp add: p1 Let_def bindE_def flip: q1_def tmp_def)
  qed
qed


section \<open>DigitGen\<close>

lemma CountDecimalDigit32_bound: "unat n < 10 ^ CountDecimalDigit32 n" "CountDecimalDigit32 n \<le> 10"
proof -
  have "unat n < 2 ^ 32"
    using unsigned_less [of n, where ?'a = nat] by simp
  then show "unat n < 10 ^ CountDecimalDigit32 n"
    by (simp add: CountDecimalDigit32_def word_less_nat_alt)
qed (simp add: CountDecimalDigit32_def)

lemma DigitGen_ok:
  assumes "- 60 \<le> de Mp" and "de Mp \<le> - 32" and "de W = de Mp" and "df W \<le> df Mp"
    and "512 \<le> unat delta" and "unat delta < unat (df Mp)" and "18 \<le> length b"
  shows "\<exists>r. gen_ok (nat (- de Mp)) (unat (df Mp)) (unat delta) (length b) r \<and>
    DigitGen W Mp delta b K = bindE r (\<lambda>(b, len, kappa). Inr (b, len, K + kappa))"
proof -
  define sh where "sh = nat (- de Mp)"
  have sh: "32 \<le> sh" "sh \<le> 60" using assms by (simp_all add: sh_def)
  define p1 p2 where "p1 = (ucast (drop_bit sh (df Mp)) :: u32)" and "p2 = df Mp AND (2 ^ sh - 1)"
  have "unat (df Mp) < 2 ^ 32 * 2 ^ 32"
    using unsigned_less [of "df Mp", where ?'a = nat] by simp
  also have "(2 :: nat) ^ 32 * 2 ^ 32 \<le> 2 ^ 32 * 2 ^ sh"
    using sh by (intro mult_le_mono2 power_increasing) simp_all
  finally have "unat (df Mp) div 2 ^ sh < 2 ^ 32"
    by (simp add: less_mult_imp_div_less)
  then have p1: "unat p1 = unat (df Mp) div 2 ^ sh"
    unfolding p1_def unsigned_ucast_eq shift_parts by (subst take_bit_nat_eq_self) simp_all
  have p2: "unat p2 = unat (df Mp) mod 2 ^ sh"
    unfolding p2_def using sh by (intro shift_parts) simp
  have M: "unat (df Mp) = unat p1 * 2 ^ sh + unat p2"
    unfolding p1 p2 by (rule div_mult_mod_eq [symmetric])
  let ?r = "digit_int (CountDecimalDigit32 p1) sh (2 ^ sh) p1 p2 delta (df Mp - df W) ([] @ b) (length ([] :: string))"
  have "gen_ok sh (unat (df Mp)) (unat delta) (length b) ?r"
    using sh M assms(5,6,7) CountDecimalDigit32_bound [of p1] unsigned_less [of "df Mp", where ?'a = nat]
    by (intro digit_int_ok) (auto simp: digits_of_def p2)
  then show ?thesis
    using assms(3,4) unfolding sh_def [symmetric]
    by (intro exI [of _ ?r]) (simp add: DigitGen_def diy_minus_def guardE_def bindE_def Let_def p1_def p2_def flip: sh_def)
qed

end
