(* ===== verification/Grisu_Read.thy ===== *)
theory Grisu_Read
  imports Grisu_Digits
begin

text \<open>
  \<open>Grisu2\<close> and \<open>dtoa_grisu2\<close> of \<^verbatim>\<open>src/common/string.hpp\<close> as a whole: the boundaries of a \<open>double\<close> are exact, the scaled interval
  lies inside them in spite of the rounded products and the rounded power of ten, and so the text reads back as
  the same \<open>double\<close>.
\<close>

section \<open>Normalisation\<close>

lemma bit_top: 
  fixes x :: u64
  assumes "unat x < 2 ^ Suc n"
  shows "bit x n \<longleftrightarrow> 2 ^ n \<le> unat x"
proof -
  have "unat x div 2 ^ n < 2"
    using assms by (simp add: less_mult_imp_div_less)
  then have "odd (unat x div 2 ^ n) \<longleftrightarrow> 1 \<le> unat x div 2 ^ n"
    by (cases "unat x div 2 ^ n") auto
  also have "\<dots> \<longleftrightarrow> 2 ^ n \<le> unat x"
    by (simp add: less_eq_div_iff_mult_less_eq)
  finally have "bit (unat x) n \<longleftrightarrow> 2 ^ n \<le> unat x"
    by (simp only: bit_iff_odd)
  then show ?thesis
    by (simp add: bit_unsigned_iff)
qed

lemma unat_push: 
  fixes x :: u64
  assumes "unat x * 2 ^ s < 2 ^ 64" and "s < 64"
  shows "unat (push_bit s x) = unat x * 2 ^ s"
proof -
  have "push_bit s x = of_nat (unat x * 2 ^ s)"
    by (simp add: push_bit_eq_mult)
  also have "unat (of_nat (unat x * 2 ^ s) :: u64) = unat x * 2 ^ s"
    unfolding unsigned_of_nat by (subst take_bit_nat_eq_self) (use assms in simp_all)
  finally show ?thesis .
qed

lemma clz64_bounds:
  fixes f :: u64
  assumes "f \<noteq> 0"
  shows "clz64 f < 64" "unat f < 2 ^ (64 - clz64 f)" "2 ^ (63 - clz64 f) \<le> unat f"
proof -
  define s where "s = clz64 f"
  let ?P = "\<lambda>i. \<not> bit f i" and ?xs = "rev [0..<64] :: nat list"
  have zero: "\<not> bit f i" if "64 - s \<le> i" "i < 64" for i
  proof -
    have "takeWhile ?P ?xs ! (63 - i) = ?xs ! (63 - i)" "63 - i < length (takeWhile ?P ?xs)"
      using that by (auto simp: s_def clz64_def intro!: takeWhile_nth)
    then have "?xs ! (63 - i) \<in> set (takeWhile ?P ?xs)"
      by (metis nth_mem)
    then show ?thesis using that by (auto dest: set_takeWhileD simp: rev_nth)
  qed
  show s64: "clz64 f < 64"
  proof (rule ccontr)
    assume "\<not> clz64 f < 64"
    then have "f = 0" using zero by (intro bit_eqI) (auto simp: s_def dest: bit_imp_le_length)
    then show False using assms by simp
  qed
  have "\<not> ?P (?xs ! length (takeWhile ?P ?xs))"
    using s64 by (intro nth_length_takeWhile) (simp add: clz64_def)
  then have one: "bit f (63 - s)"
    using s64 by (simp add: s_def clz64_def rev_nth)
  have "take_bit (64 - s) f = f"
    using zero by (intro bit_eqI) (auto simp: bit_take_bit_iff not_le [symmetric])
  then have "unat f = take_bit (64 - s) (unat f)"
    by (metis unsigned_take_bit_eq)
  then have lt: "unat f < 2 ^ (64 - s)"
    by (metis take_bit_nat_less_exp)
  moreover have "64 - s = Suc (63 - s)"
    using s64 by (simp add: s_def)
  ultimately show "unat f < 2 ^ (64 - clz64 f)" "2 ^ (63 - clz64 f) \<le> unat f"
    using bit_top [of f "63 - s"] one by (simp_all add: s_def)
qed


lemma Normalize_exact:
  assumes "df x \<noteq> 0"
  shows "unat (df (Normalize x)) = unat (df x) * 2 ^ clz64 (df x)" "de (Normalize x) = de x - int (clz64 (df x))"
proof -
  have "unat (df x) * 2 ^ clz64 (df x) < 2 ^ (64 - clz64 (df x)) * 2 ^ clz64 (df x)"
    using clz64_bounds [OF assms] by simp
  also have "\<dots> = 2 ^ 64"
    using clz64_bounds(1) [OF assms] by (simp flip: power_add)
  finally show "unat (df (Normalize x)) = unat (df x) * 2 ^ clz64 (df x)"
    using clz64_bounds(1) [OF assms] by (simp add: Normalize_def Let_def unat_push)
qed (simp add: Normalize_def Let_def)

lemma clz64_unique:
  assumes "2 ^ 63 \<le> unat f * 2 ^ s" and "unat f * 2 ^ s < 2 ^ 64"
  shows "clz64 f = s"
proof -
  have f: "f \<noteq> 0" using assms(1) by auto
  let ?c = "clz64 f"
  note c = clz64_bounds [OF f]
  have "(2 :: nat) ^ (63 - ?c) * 2 ^ s < 2 ^ 64"
    using c(3) assms(2) by (meson le_less_trans mult_le_mono1)
  then have "63 - ?c + s < 64"
    unfolding power_add [symmetric] by (rule power_less_imp_less_exp [rotated]) simp
  moreover have "2 ^ 63 < (2 :: nat) ^ (64 - ?c) * 2 ^ s"
    using c(2) assms(1) by (meson le_less_trans mult_less_mono1 zero_less_numeral zero_less_power)
  then have "63 < 64 - ?c + s"
    unfolding power_add [symmetric] by (rule power_less_imp_less_exp [rotated]) simp
  ultimately show ?thesis using c(1) by simp
qed

lemma hidden_bit:
  assumes "unat f < 2 ^ 54"
  shows "f AND push_bit 1 kDpHiddenBit \<noteq> 0 \<longleftrightarrow> 2 ^ 53 \<le> unat f"
proof -
  have "push_bit 1 kDpHiddenBit = push_bit 53 1"
    by (simp add: kDpHiddenBit_def)
  then show ?thesis
    using bit_top [of f 53] assms by (simp only: bit_iff_and_push_bit_not_eq_0) simp
qed

lemma normalize_loop_exact:
  assumes "unat (df x) < 2 ^ 54" and "2 ^ 53 \<le> unat (df x) * 2 ^ n" and "n < 64"
  obtains s where "normalize_loop (Suc n) x = Inr \<lparr>df = push_bit s (df x), de = de x - int s\<rparr>"
    "2 ^ 53 \<le> unat (df x) * 2 ^ s" "unat (df x) * 2 ^ s < 2 ^ 54" "s \<le> n"
  using assms
proof (induction n arbitrary: x thesis)
  case 0
  then show ?case using hidden_bit [of "df x"] by (intro "0.prems"(1) [of 0]) simp_all
next
  case (Suc n)
  have hid: "df x AND push_bit 1 kDpHiddenBit \<noteq> 0 \<longleftrightarrow> 2 ^ 53 \<le> unat (df x)"
    by (rule hidden_bit [OF Suc.prems(2)])
  show ?case
  proof (cases "2 ^ 53 \<le> unat (df x)")
    case True
    then show ?thesis using Suc.prems hid by (intro Suc.prems(1) [of 0]) simp_all
  next
    case False
    let ?y = "x\<lparr>df := push_bit 1 (df x), de := de x - 1\<rparr>"
    have y: "unat (df ?y) = unat (df x) * 2"
      using False unat_push [of "df x" 1] by simp
    show ?thesis
    proof (rule Suc.IH [of ?y])
      fix s assume s: "normalize_loop (Suc n) ?y = Inr \<lparr>df = push_bit s (df ?y), de = de ?y - int s\<rparr>"
        "2 ^ 53 \<le> unat (df ?y) * 2 ^ s" "unat (df ?y) * 2 ^ s < 2 ^ 54" "s \<le> n"
      have "2 ^ 53 \<le> unat (df x) * 2 ^ Suc s" "unat (df x) * 2 ^ Suc s < 2 ^ 54"
        using s(2,3) unfolding y by simp_all
      moreover have "normalize_loop (Suc (Suc n)) x = normalize_loop (Suc n) ?y"
        using False hid by (subst normalize_loop.simps) simp
      ultimately show thesis
        using s(1,4) by (intro Suc.prems(1) [of "Suc s"]) (simp_all only: push_bit_eq_mult, simp_all add: algebra_simps)
    qed (use Suc.prems False y in simp_all)
  qed
qed

lemma odd_scaled:
  fixes f t :: nat
  assumes "0 < f" and lo: "2 ^ 53 \<le> (2 * f + 1) * 2 ^ t" and hi: "(2 * f + 1) * 2 ^ t < 2 ^ 54"
  shows "t < 53 \<and> 2 ^ 53 \<le> 2 * f * 2 ^ t"
proof
  have three: "3 * 2 ^ t \<le> (2 * f + 1) * 2 ^ t"
    using assms by (intro mult_le_mono1) simp
  have "(2 :: nat) ^ t < 2 ^ 53"
    using le_less_trans [OF three hi] by simp
  then show t53: "t < 53"
    by (rule power_less_imp_less_exp [rotated]) simp
  obtain a where a: "53 - t = Suc a"
    using t53 by (cases "53 - t") simp_all
  have p53: "2 ^ 53 = 2 ^ Suc a * (2 :: nat) ^ t"
    using t53 unfolding a [symmetric] power_add [symmetric] by simp
  have "2 ^ Suc a \<le> 2 * f + 1"
    using lo unfolding p53 by (rule mult_le_cancel2 [THEN iffD1, rule_format]) simp
  then have "2 ^ Suc a \<le> 2 * f"
    by simp
  then show "2 ^ 53 \<le> 2 * f * 2 ^ t"
    unfolding p53 by (rule mult_le_mono1)
qed

lemma NormalizeBoundary_exact:
  fixes x :: DiyFp
  defines "f \<equiv> unat (df x)" and "s \<equiv> clz64 (df x)"
  assumes "0 < f" and "f < 2 ^ 53"
  obtains pl where "NormalizeBoundary \<lparr>df = push_bit 1 (df x) + 1, de = de x - 1\<rparr> = Inr pl"
    "unat (df pl) = f * 2 ^ s + 2 ^ (s - 1)" "de pl = de x - int s"
    "11 \<le> s" "s < 64" "2 ^ 63 \<le> f * 2 ^ s" "f * 2 ^ s + 2 ^ (s - 1) < 2 ^ 64"
proof -
  let ?y = "\<lparr>df = push_bit 1 (df x) + 1, de = de x - 1\<rparr>"
  have "unat (push_bit 1 (df x)) = 2 * f"
    using assms by (subst unat_push) simp_all
  then have y: "unat (df ?y) = 2 * f + 1"
    using assms by (simp add: unat_plus_small)
  obtain t where t: "normalize_loop (Suc 63) ?y = Inr \<lparr>df = push_bit t (df ?y), de = de ?y - int t\<rparr>"
    "2 ^ 53 \<le> unat (df ?y) * 2 ^ t" "unat (df ?y) * 2 ^ t < 2 ^ 54" "t \<le> 63"
    by (rule normalize_loop_exact [of ?y 63]) (use assms y in simp_all)
  have lo: "2 ^ 53 \<le> (2 * f + 1) * 2 ^ t" and hi: "(2 * f + 1) * 2 ^ t < 2 ^ 54"
    using t(2,3) unfolding y .
  have t53: "t < 53" and lo2: "2 ^ 53 \<le> 2 * f * 2 ^ t"
    using odd_scaled [OF assms(3) lo hi] by simp_all
  have s: "s = t + 11"
    unfolding s_def by (rule clz64_unique) (use lo2 hi in \<open>simp_all add: power_add flip: f_def\<close>)
  define pl where "pl = \<lparr>df = push_bit 10 (push_bit t (df ?y)), de = de ?y - int t - 10\<rparr>"
  have v: "unat (push_bit t (df ?y)) = (2 * f + 1) * 2 ^ t"
    using t53 hi unfolding y [symmetric] by (intro unat_push) simp_all
  have u: "unat (push_bit 10 (push_bit t (df ?y))) = unat (push_bit t (df ?y)) * 2 ^ 10"
    using hi by (intro unat_push) (simp_all only: v, simp_all)
  show ?thesis
  proof
    show "NormalizeBoundary ?y = Inr pl"
      using t(1) by (simp add: NormalizeBoundary_def bindE_def pl_def)
    show "unat (df pl) = f * 2 ^ s + 2 ^ (s - 1)" "de pl = de x - int s"
      using u unfolding pl_def s v by (simp_all only: DiyFp.simps) (simp_all add: power_add)
  qed (use lo2 hi t53 in \<open>simp_all add: s power_add\<close>)
qed

text \<open>The boundaries of a \<open>double\<close> are half way to its neighbours, in the scale of its normalised significand.\<close>

lemma NormalizedBoundaries_exact:
  fixes x :: DiyFp
  defines "f \<equiv> unat (df x)" and "s \<equiv> clz64 (df x)"
  assumes "0 < f" and "f < 2 ^ 53"
  obtains mi pl where "NormalizedBoundaries x = Inr (mi, pl)"
    "unat (df pl) = f * 2 ^ s + 2 ^ (s - 1)" "unat (df mi) = f * 2 ^ s - 2 ^ (s - (if f = 2 ^ 52 then 2 else 1))"
    "de pl = de x - int s" "de mi = de x - int s" "11 \<le> s" "s < 64" "2 ^ 63 \<le> f * 2 ^ s" "f * 2 ^ s + 2 ^ (s - 1) < 2 ^ 64"
proof -
  obtain pl where pl: "NormalizeBoundary \<lparr>df = push_bit 1 (df x) + 1, de = de x - 1\<rparr> = Inr pl"
    "unat (df pl) = f * 2 ^ s + 2 ^ (s - 1)" "de pl = de x - int s"
    and s: "11 \<le> s" "s < 64" "2 ^ 63 \<le> f * 2 ^ s" and small: "f * 2 ^ s + 2 ^ (s - 1) < 2 ^ 64"
    using NormalizeBoundary_exact [of x] assms unfolding f_def s_def by blast
  define h where "h = (if f = 2 ^ 52 then 2 else 1 :: nat)"
  have h: "1 \<le> h" "h < s" using s by (simp_all add: h_def)
  define mi where "mi = \<lparr>df = push_bit (s - h) (push_bit h (df x) - 1), de = de x - int s\<rparr>"
  have hid: "df x = kDpHiddenBit \<longleftrightarrow> f = 2 ^ 52"
    unfolding f_def word_unat_eq_iff kDpHiddenBit_def by simp
  have "f * 2 ^ h \<le> f * 2 ^ 2"
    using h by (intro mult_le_mono2 power_increasing) (simp_all add: h_def)
  then have u: "unat (push_bit h (df x)) = f * 2 ^ h"
    using assms unfolding f_def by (subst unat_push) (simp_all add: h_def)
  moreover have "1 \<le> f * 2 ^ h"
    using assms(3) by (simp add: Suc_le_eq)
  ultimately have "1 \<le> push_bit h (df x)"
    by (simp add: word_le_nat_alt)
  then have m1: "unat (push_bit h (df x) - 1) = f * 2 ^ h - 1"
    using u by (simp add: unat_sub)
  have "(2 :: nat) ^ s = 2 ^ h * 2 ^ (s - h)"
    using h by (simp flip: power_add)
  then have sub: "(f * 2 ^ h - 1) * 2 ^ (s - h) = f * 2 ^ s - 2 ^ (s - h)"
    by (simp add: diff_mult_distrib)
  have "unat (push_bit h (df x) - 1) * 2 ^ (s - h) < 2 ^ 64"
    unfolding m1 sub using small by (rule le_less_trans [rotated]) simp
  then have mi: "unat (df mi) = f * 2 ^ s - 2 ^ (s - h)"
    using unat_push [of "push_bit h (df x) - 1" "s - h"] s(2) by (simp only: mi_def DiyFp.simps m1 sub)
  show ?thesis
  proof
    show "NormalizedBoundaries x = Inr (mi, pl)"
      using pl(1,3) s(1) by (auto simp: NormalizedBoundaries_def bindE_def mi_def hid h_def nat_diff_distrib)
    show "unat (df mi) = f * 2 ^ s - 2 ^ (s - (if f = 2 ^ 52 then 2 else 1))" "de mi = de x - int s"
      using mi unfolding h_def by (simp_all add: mi_def)
  qed (use pl s small in simp_all)
qed


section \<open>The scaled interval\<close>

definition rprod :: "nat \<Rightarrow> nat \<Rightarrow> nat" where
  "rprod x c = (x * c + 2 ^ 63) div 2 ^ 64"

lemma rprod_gap:
  assumes "x + 2 * g \<le> y" and "2 ^ 63 \<le> c"
  shows "rprod x c + g \<le> rprod y c"
proof -
  have "2 * g * 2 ^ 63 \<le> 2 * g * c"
    using assms(2) by (rule mult_le_mono2)
  then have "x * c + 2 ^ 63 + g * 2 ^ 64 \<le> (x + 2 * g) * c + 2 ^ 63"
    by (simp add: algebra_simps)
  also have "\<dots> \<le> y * c + 2 ^ 63"
    using assms(1) by simp
  finally have "(x * c + 2 ^ 63 + g * 2 ^ 64) div 2 ^ 64 \<le> rprod y c"
    unfolding rprod_def by (rule div_le_mono)
  then show ?thesis by (simp add: rprod_def)
qed

lemma rprod_less: "x < 2 ^ 64 \<Longrightarrow> c < 2 ^ 64 \<Longrightarrow> rprod x c < 2 ^ 64"
proof -
  assume "x < 2 ^ 64" "c < 2 ^ 64"
  then have "x * c \<le> (2 ^ 64 - 1) * (2 ^ 64 - 1)"
    by (intro mult_le_mono) simp_all
  then show ?thesis by (simp add: rprod_def)
qed

lemma rprod_real:
  "real (rprod x c) * 2 ^ 64 \<le> real x * real c + 2 ^ 63" "real x * real c + 2 ^ 63 < (real (rprod x c) + 1) * 2 ^ 64"
proof -
  let ?n = "x * c + 2 ^ 63"
  have "?n div 2 ^ 64 * 2 ^ 64 \<le> ?n" "?n < (?n div 2 ^ 64 + 1) * 2 ^ 64"
    using div_mult_mod_eq [of ?n "2 ^ 64"] mod_less_divisor [of "2 ^ 64" ?n] by simp_all
  then have "real (?n div 2 ^ 64 * 2 ^ 64) \<le> real ?n" "real ?n < real ((?n div 2 ^ 64 + 1) * 2 ^ 64)"
    by (simp_all only: of_nat_le_iff of_nat_less_iff)
  then show "real (rprod x c) * 2 ^ 64 \<le> real x * real c + 2 ^ 63"
    "real x * real c + 2 ^ 63 < (real (rprod x c) + 1) * 2 ^ 64"
    by (simp_all add: rprod_def)
qed

text \<open>
  What the two rounding errors leave: \<open>p\<close> is the exact power of ten, \<open>c\<close> its approximation within half a unit.
\<close>

lemma rprod_below:
  assumes "\<bar>real c - p\<bar> \<le> 1 / 2" and "x < 2 ^ 64"
  shows "(real (rprod x c) - 1) * 2 ^ 64 < real x * p"
proof -
  have "real x * (real c - 1 / 2) \<le> real x * p"
    using assms(1) by (intro mult_left_mono) (simp_all add: abs_if split: if_splits)
  moreover have "real x < 2 ^ 64"
    using assms(2) by (simp only: of_nat_less_numeral_power_cancel_iff)
  ultimately show ?thesis using rprod_real(1) [of x c] by (simp add: algebra_simps)
qed

lemma rprod_above:
  assumes "\<bar>real c - p\<bar> \<le> 1 / 2" and "x < 2 ^ 64"
  shows "real x * p < (real (rprod x c) + 1) * 2 ^ 64"
proof -
  have "real x * p \<le> real x * (real c + 1 / 2)"
    using assms(1) by (intro mult_left_mono) (simp_all add: abs_if split: if_splits)
  moreover have "real x < 2 ^ 64"
    using assms(2) by (simp only: of_nat_less_numeral_power_cancel_iff)
  ultimately show ?thesis using rprod_real(2) [of x c] by (simp add: algebra_simps)
qed


text \<open>The interval handed to \<open>DigitGen\<close>: its ends are one unit inside the scaled boundaries.\<close>

definition scaled :: "nat \<Rightarrow> real \<Rightarrow> nat \<Rightarrow> nat \<Rightarrow> bool" where
  "scaled c p wm wp \<longleftrightarrow> \<bar>real c - p\<bar> \<le> 1 / 2 \<and> 2 ^ 63 \<le> c \<and> wp < 2 ^ 64 \<and> wm + 1536 \<le> wp \<and> 2 ^ 62 \<le> wm"

lemma scaled_ends:
  assumes "scaled c p wm wp"
  shows "rprod wm c + 768 \<le> rprod wp c" "2 ^ 61 \<le> rprod wm c"
  using rprod_gap [of wm 768 wp c] rprod_gap [of 0 "2 ^ 61" wm c] assms by (simp_all add: scaled_def)

lemma scaled_digits_inside:
  assumes sc: "scaled c p wm wp"
    and "gen_ok sh (rprod wp c - 1) (rprod wp c - 1 - (rprod wm c + 1)) L (Inr (b, len, k))"
  shows "real wm * p < real (read_nat (take len b)) * 10 powi k * 2 ^ sh * 2 ^ 64"
    and "real (read_nat (take len b)) * 10 powi k * 2 ^ sh * 2 ^ 64 < real wp * p"
proof -
  let ?X = "real (read_nat (take len b)) * 10 powi k * 2 ^ sh"
  have "real (rprod wp c - 1) = real (rprod wp c) - 1"
    "real (rprod wp c - 1 - (rprod wm c + 1)) = real (rprod wp c) - real (rprod wm c) - 2"
    using scaled_ends [OF sc] by (simp_all add: of_nat_diff)
  then have "?X \<le> real (rprod wp c) - 1" "real (rprod wm c) + 1 \<le> ?X"
    using assms(2) by auto
  then have "?X * 2 ^ 64 \<le> (real (rprod wp c) - 1) * 2 ^ 64" "(real (rprod wm c) + 1) * 2 ^ 64 \<le> ?X * 2 ^ 64"
    by (intro mult_right_mono; simp)+
  then show "real wm * p < ?X * 2 ^ 64" "?X * 2 ^ 64 < real wp * p"
    using rprod_below [of c p wp] rprod_above [of c p wm] sc by (auto simp: scaled_def)
qed

lemma scaled_no_fault:
  assumes sc: "scaled c p wm wp"
    and "gen_ok sh (rprod wp c - 1) (rprod wp c - 1 - (rprod wm c + 1)) L (Inl e)"
    and "real y * 2 ^ sh \<le> (real (rprod wp c) - 1) * 10 ^ 9"
  shows "real y * 2 ^ sh \<le> (real (rprod wm c) + 1) * 10 ^ 9"
proof -
  let ?M = "rprod wp c - 1" and ?m = "rprod wm c + 1"
  have m: "?m \<le> ?M" using scaled_ends [OF sc] by simp
  have "real (y * 2 ^ sh) \<le> real (?M * 10 ^ 9)"
    using assms(3) scaled_ends [OF sc] by (simp add: of_nat_diff)
  then have le: "y * 2 ^ sh \<le> ?M * 10 ^ 9"
    by (simp only: of_nat_le_iff)
  then have "?M * 10 ^ 9 mod 2 ^ sh = (?M * 10 ^ 9 - y * 2 ^ sh) mod 2 ^ sh"
    by (metis le_add_diff_inverse mod_mult_self3)
  then have "?M * 10 ^ 9 mod 2 ^ sh \<le> ?M * 10 ^ 9 - y * 2 ^ sh"
    by simp
  moreover have "(?M - ?m) * 10 ^ 9 \<le> ?M * 10 ^ 9 mod 2 ^ sh"
    using assms(2) gen_ok.simps(2) by blast
  ultimately have "y * 2 ^ sh \<le> ?m * 10 ^ 9"
    using le m by (simp add: diff_mult_distrib)
  then have "real (y * 2 ^ sh) \<le> real (?m * 10 ^ 9)"
    by (simp only: of_nat_le_iff)
  then show ?thesis by simp
qed


section \<open>Grisu2\<close>

text \<open>
  What \<open>Grisu2\<close> leaves for the significand \<open>f\<close> and the exponent \<open>e\<close>: digits strictly between the boundaries, or the
  fault, which spares every value that has a decimal of ten digits close to it.
\<close>

fun grisu_ok :: "nat \<Rightarrow> int \<Rightarrow> nat \<Rightarrow> (string \<times> nat \<times> int) res \<Rightarrow> bool" where
  "grisu_ok f e L (Inr (b, len, K)) \<longleftrightarrow>
     length b = L \<and> 0 < len \<and> len \<le> 18 \<and> len \<le> L \<and> - 400 \<le> K \<and> K \<le> 400 \<and> (\<forall>c\<in>set (take len b). is_digit c) \<and>
     (real f - (if f = 2 ^ 52 then 1 / 4 else 1 / 2)) * 2 powi e < real (read_nat (take len b)) * 10 powi K \<and>
     real (read_nat (take len b)) * 10 powi K < (real f + 1 / 2) * 2 powi e"
| "grisu_ok f e L (Inl x) \<longleftrightarrow>
     x = Out_of_bounds \<and>
     (\<forall>n j. n < (10 :: nat) ^ 10 \<longrightarrow> 2 powi e / 8 < \<bar>real n * 10 powi j - real f * 2 powi e\<bar>)"

lemma power_ok_near:
  assumes "power_ok (- K) c ce"
  shows "\<bar>real (unat c) - 10 powi - K / 2 powi ce\<bar> \<le> 1 / 2" "2 ^ 63 \<le> unat c"
proof -
  have u: "real_of_int (uint c) = real (unat c)" by (simp flip: uint_nat)
  have "\<bar>(real (unat c) - 10 powi - K / 2 powi ce) * 2 powi ce\<bar> \<le> 1 / 2 * 2 powi ce"
    using assms unfolding power_ok_def u by (simp add: left_diff_distrib)
  then have "\<bar>real (unat c) - 10 powi - K / 2 powi ce\<bar> * 2 powi ce \<le> 1 / 2 * 2 powi ce"
    by (simp only: abs_mult) simp
  then show "\<bar>real (unat c) - 10 powi - K / 2 powi ce\<bar> \<le> 1 / 2"
    by (rule mult_right_le_imp_le) simp
  have "int (2 ^ 63) \<le> int (unat c)"
    using assms by (simp add: power_ok_def flip: uint_nat)
  then show "2 ^ 63 \<le> unat c" by (simp only: of_nat_le_iff)
qed

lemma unscale:
  fixes E ce K :: int
  assumes "- int sh = E + ce + 64"
  defines "p \<equiv> 10 powi - K / 2 powi ce" and "S \<equiv> 2 powi E * 2 powi ce * (10 powi K :: real)"
  shows "x * p * S = x * 2 powi E" "x * 2 ^ sh * 2 ^ 64 * S = x * 10 powi K" "0 < S"
proof -
  have "(10 :: real) powi - K * 10 powi K = 1"
    by (simp add: power_int_minus)
  then show "x * p * S = x * 2 powi E" 
    by (simp add: p_def S_def field_simps)
  have "(2 :: real) ^ sh * 2 ^ 64 * (2 powi E * 2 powi ce) = 2 powi (int sh + 64 + (E + ce))"
    by (simp add: power_int_add)
  also have "int sh + 64 + (E + ce) = 0"
    using assms(1) by linarith
  finally have "2 ^ sh * 2 ^ 64 * S = 10 powi K"
    by (simp add: S_def)
  then show "x * 2 ^ sh * 2 ^ 64 * S = x * 10 powi K"
    by (simp only: mult.assoc)
qed (simp add: S_def)

lemma boundary_values:
  fixes f s :: nat and e :: int
  assumes "11 \<le> s" and "0 < f"
  shows "real (f * 2 ^ s + 2 ^ (s - 1)) * 2 powi (e - int s) = (real f + 1 / 2) * 2 powi e"
    and "h = 1 \<or> h = 2 \<Longrightarrow> real (f * 2 ^ s - 2 ^ (s - h)) * 2 powi (e - int s) = (real f - 1 / 2 ^ h) * 2 powi e"
proof -
  have e: "(2 :: real) powi (e - int s) = 2 powi e / 2 ^ s"
    by (simp add: power_int_diff)
  have s: "(2 :: real) ^ (s - h) = 2 ^ s / 2 ^ h" if "h \<le> 2" for h
    using that assms(1) by (simp add: power_diff)
  show "real (f * 2 ^ s + 2 ^ (s - 1)) * 2 powi (e - int s) = (real f + 1 / 2) * 2 powi e"
    using s [of 1] by (simp add: e field_simps)
  assume h: "h = 1 \<or> h = 2"
  have "(2 :: nat) ^ (s - h) \<le> 2 ^ s" by (rule power_increasing) simp_all
  also have "\<dots> \<le> f * 2 ^ s" using assms(2) by simp
  finally have "real (f * 2 ^ s - 2 ^ (s - h)) = real f * 2 ^ s - 2 ^ (s - h)"
    by (simp add: of_nat_diff)
  also have "\<dots> = (real f - 1 / 2 ^ h) * 2 ^ s"
    using s [of h] h by (auto simp: left_diff_distrib)
  finally show "real (f * 2 ^ s - 2 ^ (s - h)) * 2 powi (e - int s) = (real f - 1 / 2 ^ h) * 2 powi e"
    by (simp add: e)
qed


text \<open>A point well inside the boundaries is well inside the scaled interval.\<close>

lemma scaled_inside:
  assumes sc: "scaled c p wm wp" and "q + 768 \<le> real wp" and "real wm + 256 \<le> q" and "X * 2 ^ 64 = q * p"
  shows "X \<le> real (rprod wp c) - 1" "real (rprod wm c) + 1 < X"
proof -
  have "real (2 ^ 63) \<le> real c"
    using sc unfolding scaled_def by (simp only: of_nat_le_iff)
  then have p: "2 ^ 62 \<le> p"
    using sc by (simp add: scaled_def abs_if split: if_splits)
  have "768 * 2 ^ 62 \<le> (real wp - q) * p" "256 * 2 ^ 62 \<le> (q - real wm) * p"
    using assms(2,3) p by (intro mult_mono; simp)+
  then have "768 * 2 ^ 62 \<le> real wp * p - X * 2 ^ 64" "256 * 2 ^ 62 \<le> X * 2 ^ 64 - real wm * p"
    unfolding assms(4) by (simp_all only: left_diff_distrib)
  then show "X \<le> real (rprod wp c) - 1" "real (rprod wm c) + 1 < X"
    using rprod_above [of c p wp] rprod_below [of c p wm] sc by (simp_all add: scaled_def)
qed

lemma close_point:
  fixes f s h :: nat and e :: int
  assumes "\<bar>x - real f * 2 powi e\<bar> \<le> 2 powi e / 8" and "11 \<le> s" and "0 < f" and h: "h = 1 \<or> h = 2"
  defines "q \<equiv> x / 2 powi (e - int s)"
  shows "q + 768 \<le> real (f * 2 ^ s + 2 ^ (s - 1))" "real (f * 2 ^ s - 2 ^ (s - h)) + 256 \<le> q"
proof -
  let ?E = "2 powi (e - int s) :: real"
  have E: "0 < ?E" "(2 :: real) powi e = 2 ^ s * ?E"
    by (simp_all add: power_int_diff)
  have "(2 :: real) ^ 11 \<le> 2 ^ s"
    using assms(2) by (rule power_increasing) simp
  then have big: "(2048 :: real) \<le> 2 ^ s" by simp
  have "real (f * 2 ^ s + 2 ^ (s - 1)) * ?E = (real f + 1 / 2) * 2 ^ s * ?E"
    using boundary_values(1) [OF assms(2,3), of e] unfolding E(2) by simp
  then have up: "real (f * 2 ^ s + 2 ^ (s - 1)) = (real f + 1 / 2) * 2 ^ s"
    using E(1) by (simp only: mult_cancel_right) simp
  have "real (f * 2 ^ s - 2 ^ (s - h)) * ?E = (real f - 1 / 2 ^ h) * 2 ^ s * ?E"
    using boundary_values(2) [OF assms(2,3) h, of e] unfolding E(2) by simp
  then have "real (f * 2 ^ s - 2 ^ (s - h)) = (real f - 1 / 2 ^ h) * 2 ^ s"
    using E(1) by (simp only: mult_cancel_right) simp
  moreover have "(real f - 1 / 2 ^ h) * 2 ^ s \<le> (real f - 1 / 4) * 2 ^ s"
    using h by (intro mult_right_mono) auto
  ultimately have lo: "real (f * 2 ^ s - 2 ^ (s - h)) \<le> (real f - 1 / 4) * 2 ^ s"
    by simp
  have "q * ?E = x" using E(1) by (simp add: q_def)
  then have "\<bar>(q - real f * 2 ^ s) * ?E\<bar> \<le> 2 ^ s / 8 * ?E"
    using assms(1) unfolding E(2) by (simp add: left_diff_distrib mult.assoc)
  then have "\<bar>q - real f * 2 ^ s\<bar> * ?E \<le> 2 ^ s / 8 * ?E"
    using E(1) by (simp add: abs_mult)
  then have "\<bar>q - real f * 2 ^ s\<bar> \<le> 2 ^ s / 8"
    using E(1) by (rule mult_right_le_imp_le)
  then have "q \<le> real f * 2 ^ s + 2 ^ s / 8" "real f * 2 ^ s - 2 ^ s / 8 \<le> q"
    by (simp_all add: abs_if split: if_splits)
  then show "q + 768 \<le> real (f * 2 ^ s + 2 ^ (s - 1))" "real (f * 2 ^ s - 2 ^ (s - h)) + 256 \<le> q"
    using lo big unfolding up by (simp_all add: algebra_simps)
qed

lemma short_decimal:
  assumes "1 < real n * 10 powi k" and "n < 10 ^ 10"
  obtains y :: nat where "real y = real n * 10 powi k * 10 ^ 9"
proof -
  have "real n < 10 ^ 10"
    using assms(2) by (simp only: of_nat_less_numeral_power_cancel_iff)
  then have "real n * 10 powi k < 10 ^ 10 * 10 powi k"
    by (intro mult_strict_right_mono) simp_all
  then have "1 < 10 ^ 10 * (10 :: real) powi k"
    using assms(1) by linarith
  then have "(10 :: real) powi 0 < 10 powi (10 + k)"
    by (simp add: power_int_add)
  then have "0 < 10 + k"
    using power_int_increasing [of "10 + k" 0 "10 :: real"] by (cases "10 + k \<le> 0") simp_all
  then have "(10 :: real) powi k * 10 ^ 9 = 10 ^ nat (k + 9)"
    using power_int_add [of "10 :: real" k 9] by (simp add: power_int_def [of _ "k + 9"])
  then show ?thesis by (intro that [of "n * 10 ^ nat (k + 9)"]) simp
qed


lemma scaled_fault_far:
  assumes sc: "scaled c p wm wp" and gen: "gen_ok sh (rprod wp c - 1) (rprod wp c - 1 - (rprod wm c + 1)) L (Inl x)"
    and n: "n < 10 ^ 10" and sh: "sh \<le> 60" and lo: "real (rprod wm c) + 1 < real n * 10 powi k * 2 ^ sh"
  shows "real (rprod wp c) - 1 < real n * 10 powi k * 2 ^ sh"
proof (rule ccontr)
  let ?X = "real n * 10 powi k * 2 ^ sh"
  assume "\<not> real (rprod wp c) - 1 < ?X"
  then have hi: "?X * 10 ^ 9 \<le> (real (rprod wp c) - 1) * 10 ^ 9"
    by (intro mult_right_mono) simp_all
  have "real (2 ^ 61) \<le> real (rprod wm c)"
    using scaled_ends(2) [OF sc] by (simp only: of_nat_le_iff)
  moreover have "(2 :: real) ^ sh \<le> real (2 ^ 61)"
    using power_increasing [of sh 61 "2 :: real"] sh by simp
  ultimately have "1 * 2 ^ sh < ?X"
    using lo by linarith
  then have "1 < real n * 10 powi k"
    by (rule mult_right_less_imp_less) simp
  then obtain y where y: "real y = real n * 10 powi k * 10 ^ 9"
    using n by (rule short_decimal)
  then have "real y * 2 ^ sh = ?X * 10 ^ 9"
    by simp
  then have "?X * 10 ^ 9 \<le> (real (rprod wm c) + 1) * 10 ^ 9"
    using scaled_no_fault [OF sc gen, of y] hi by (simp only:)
  then show False using lo by simp
qed

lemma grisu_scaled:
  fixes f s sh c :: nat and e ce K :: int
  defines "h \<equiv> (if f = 2 ^ 52 then 2 else 1 :: nat)"
  defines "wp \<equiv> f * 2 ^ s + 2 ^ (s - 1)" and "wm \<equiv> f * 2 ^ s - 2 ^ (s - h)"
  assumes sc: "scaled c (10 powi - K / 2 powi ce) wm wp"
    and sh: "- int sh = e - int s + ce + 64" "sh \<le> 60" and fs: "11 \<le> s" "0 < f" and K: "- 324 \<le> K" "K \<le> 300"
    and gen: "gen_ok sh (rprod wp c - 1) (rprod wp c - 1 - (rprod wm c + 1)) L r"
  shows "grisu_ok f e L (bindE r (\<lambda>(b, len, kappa). Inr (b, len, K + kappa)))"
proof (cases r)
  case (Inl x)
  have "2 powi e / 8 < \<bar>real n * 10 powi j - real f * 2 powi e\<bar>" if n: "n < (10 :: nat) ^ 10" for n j
  proof (rule ccontr)
    assume "\<not> 2 powi e / 8 < \<bar>real n * 10 powi j - real f * 2 powi e\<bar>"
    then have close: "\<bar>real n * 10 powi j - real f * 2 powi e\<bar> \<le> 2 powi e / 8" by simp
    let ?p = "10 powi - K / 2 powi ce :: real" and ?S = "2 powi (e - int s) * 2 powi ce * (10 powi K :: real)"
    let ?q = "real n * 10 powi j / 2 powi (e - int s)" and ?X = "real n * 10 powi (j - K) * 2 ^ sh"
    have "?X * 2 ^ 64 * ?S = real n * 10 powi (j - K) * 10 powi K"
      by (rule unscale(2) [OF sh(1)])
    also have "\<dots> = ?q * 2 powi (e - int s)"
      by (simp add: power_int_diff)
    also have "\<dots> = ?q * ?p * ?S"
      by (rule unscale(1) [OF sh(1), symmetric])
    finally have X: "?X * 2 ^ 64 = ?q * ?p"
      by (rule mult_right_cancel [THEN iffD1, rotated]) simp
    have "?X \<le> real (rprod wp c) - 1" "real (rprod wm c) + 1 < ?X"
      using scaled_inside [OF sc _ _ X] close_point [OF close fs, of h] unfolding wp_def wm_def
      by (simp_all add: h_def)
    then show False
      using scaled_fault_far [OF sc gen [unfolded Inl] n sh(2), of "j - K"] by simp
  qed
  then show ?thesis using Inl gen by (auto simp: bindE_def)
next
  case (Inr y)
  obtain b len k where y: "y = (b, len, k)" by (cases y)
  let ?D = "real (read_nat (take len b))" and ?S = "2 powi (e - int s) * 2 powi ce * (10 powi K :: real)"
  have D: "?D * 10 powi k * 2 ^ sh * 2 ^ 64 * ?S = ?D * 10 powi (K + k)"
    using unscale(2) [OF sh(1), of "?D * 10 powi k" K] by (simp add: power_int_add)
  have U: "x * 2 powi (e - int s) = x * (10 powi - K / 2 powi ce) * ?S" for x
    by (rule unscale(1) [OF sh(1), symmetric])
  have "real wm * 2 powi (e - int s) < ?D * 10 powi (K + k)" "?D * 10 powi (K + k) < real wp * 2 powi (e - int s)"
    unfolding D [symmetric] U using scaled_digits_inside [OF sc gen [unfolded Inr y]]
    by (intro mult_strict_right_mono; simp)+
  then have "(real f - 1 / 2 ^ h) * 2 powi e < ?D * 10 powi (K + k)" "?D * 10 powi (K + k) < (real f + 1 / 2) * 2 powi e"
    unfolding wp_def wm_def using boundary_values(1) [OF fs, of e] boundary_values(2) [OF fs, of h e]
    by (simp_all only:) (simp_all add: h_def)
  then show ?thesis
    using gen K unfolding Inr y h_def by (auto simp: bindE_def)
qed


lemma diy_times_rprod: "unat (df (diy_times x y)) = rprod (unat (df x)) (unat (df y))"
  using diy_times_round [of x y] by (simp add: rprod_def)

lemma boundaries_scaled:
  fixes f s c :: nat
  assumes "11 \<le> s" and "0 < f" and "2 ^ 63 \<le> f * 2 ^ s" and "f * 2 ^ s + 2 ^ (s - 1) < 2 ^ 64" and "h = 1 \<or> h = 2"
    and "\<bar>real c - p\<bar> \<le> 1 / 2" and "2 ^ 63 \<le> c"
  shows "scaled c p (f * 2 ^ s - 2 ^ (s - h)) (f * 2 ^ s + 2 ^ (s - 1))" "rprod (f * 2 ^ s) c + 512 \<le> rprod (f * 2 ^ s + 2 ^ (s - 1)) c"
proof -
  have "(2 :: nat) ^ 9 \<le> 2 ^ (s - 2)" 
    using assms(1) by (intro power_increasing) simp_all
  then have b: "512 \<le> (2 :: nat) ^ (s - 2)" by simp
  have p: "(2 :: nat) ^ (s - 1) = 2 * 2 ^ (s - 2)" "(2 :: nat) ^ s = 4 * 2 ^ (s - 2)"
    using assms(1) power_add [of "2 :: nat" "s - 2" 1] power_add [of "2 :: nat" "s - 2" 2] by (simp_all add: Suc_diff_Suc numeral_2_eq_2)
  have "(2 :: nat) ^ s \<le> f * 2 ^ s"
    using assms(2) by simp
  then have "4 * 2 ^ (s - 2) \<le> f * 2 ^ s"
    by (simp only: p(2))
  then have "(2 :: nat) ^ (s - h) + 2 ^ 62 \<le> f * 2 ^ s" "2 ^ (s - 2) \<le> (2 :: nat) ^ (s - h)"
    using assms(3,5) p(1) by auto
  then have "f * 2 ^ s - 2 ^ (s - h) + 1536 \<le> f * 2 ^ s + 2 ^ (s - 1)" "2 ^ 62 \<le> f * 2 ^ s - 2 ^ (s - h)"
    using b p(1) by linarith+
  then show "scaled c p (f * 2 ^ s - 2 ^ (s - h)) (f * 2 ^ s + 2 ^ (s - 1))"
    using assms(4,6,7) unfolding scaled_def by blast
  show "rprod (f * 2 ^ s) c + 512 \<le> rprod (f * 2 ^ s + 2 ^ (s - 1)) c"
    using b assms(7) p(1) by (intro rprod_gap) simp_all
qed

lemma interval_words:
  fixes P Q :: u64
  assumes sc: "scaled c p wm wp" and P: "unat P = rprod wp c" and Q: "unat Q = rprod wm c"
  shows "unat (P - 1) = rprod wp c - 1" "unat (P - 1 - (Q + 1)) = rprod wp c - 1 - (rprod wm c + 1)"
    "512 \<le> unat (P - 1 - (Q + 1))" "unat (P - 1 - (Q + 1)) < unat (P - 1)"
proof -
  note ends = scaled_ends [OF sc]
  show p1: "unat (P - 1) = rprod wp c - 1"
    using ends P by (subst unat_sub) (simp_all add: word_le_nat_alt)
  have q1: "unat (Q + 1) = rprod wm c + 1"
    using ends P Q unsigned_less [of P, where ?'a = nat] by (subst unat_plus_small) simp_all
  show d: "unat (P - 1 - (Q + 1)) = rprod wp c - 1 - (rprod wm c + 1)"
    using ends by (subst unat_sub) (simp_all add: word_le_nat_alt p1 q1)
  show "512 \<le> unat (P - 1 - (Q + 1))" "unat (P - 1 - (Q + 1)) < unat (P - 1)"
    unfolding d p1 using ends by linarith+
qed

lemma Grisu2_ok:
  fixes bits :: u64
  defines "f \<equiv> unat (df (DiyFp_of_double bits))" and "e \<equiv> de (DiyFp_of_double bits)"
  assumes f: "0 < f" "f < 2 ^ 53" and e: "- 1074 \<le> e" "e \<le> 971" and b: "18 \<le> length b"
  shows "grisu_ok f e (length b) (Grisu2 bits b)"
proof -
  let ?v = "DiyFp_of_double bits"
  define s h where "s = clz64 (df ?v)" and "h = (if f = 2 ^ 52 then 2 else 1 :: nat)"
  obtain mi pl where nb: "NormalizedBoundaries ?v = Inr (mi, pl)" "unat (df pl) = f * 2 ^ s + 2 ^ (s - 1)"
    "unat (df mi) = f * 2 ^ s - 2 ^ (s - h)" "de pl = e - int s" "de mi = e - int s"
    and s: "11 \<le> s" "s < 64" "2 ^ 63 \<le> f * 2 ^ s" "f * 2 ^ s + 2 ^ (s - 1) < 2 ^ 64"
    using NormalizedBoundaries_exact [of ?v] f unfolding f_def e_def s_def h_def by metis
  obtain c K where c: "GetCachedPower (de pl) = Inr (c, K)" "power_ok (- K) (df c) (de c)"
    "- 60 \<le> de pl + de c + 64" "de pl + de c + 64 \<le> - 32" "- 324 \<le> K" "K \<le> 300"
    using cached_power_scales [of "de pl"] e s(1,2) nb(4) by auto
  have "df ?v \<noteq> 0"
    using f(1) by (auto simp: f_def)
  then have w: "unat (df (Normalize ?v)) = f * 2 ^ s" "de (Normalize ?v) = e - int s"
    using Normalize_exact [of ?v] by (simp_all add: f_def s_def e_def)
  let ?c = "unat (df c)" and ?p = "10 powi - K / 2 powi de c :: real"
  let ?wp = "f * 2 ^ s + 2 ^ (s - 1)" and ?wm = "f * 2 ^ s - 2 ^ (s - h)"
  have sc: "scaled ?c ?p ?wm ?wp" and gap: "rprod (f * 2 ^ s) ?c + 512 \<le> rprod ?wp ?c"
    using boundaries_scaled [OF s(1) f(1) s(3,4) _ power_ok_near [OF c(2)], of h] by (simp_all add: h_def)
  define W Wp Wm where "W = diy_times (Normalize ?v) c" and "Wp = df (diy_times pl c) - 1" and "Wm = df (diy_times mi c) + 1"
  note words = interval_words [OF sc, of "df (diy_times pl c)" "df (diy_times mi c)", unfolded diy_times_rprod nb,
      OF refl refl, folded Wp_def Wm_def]
  let ?Mp = "(diy_times pl c)\<lparr>df := Wp\<rparr>" and ?sh = "nat (- (e - int s + de c + 64))"
  have deM: "de ?Mp = e - int s + de c + 64" "de W = de ?Mp"
    using diy_times_round by (simp_all add: nb(4) w(2) W_def)
  have "df W \<le> df ?Mp"
    using gap by (simp add: W_def word_le_nat_alt diy_times_rprod w(1) words(1))
  then have "\<exists>r. gen_ok (nat (- de ?Mp)) (unat (df ?Mp)) (unat (Wp - Wm)) (length b) r \<and>
      DigitGen W ?Mp (Wp - Wm) b K = bindE r (\<lambda>(b, len, kappa). Inr (b, len, K + kappa))"
    using c(3,4) deM b words(3,4) by (intro DigitGen_ok) (simp_all add: nb(4))
  then obtain r where r: "gen_ok ?sh (rprod ?wp ?c - 1) (rprod ?wp ?c - 1 - (rprod ?wm ?c + 1)) (length b) r"
    "DigitGen W ?Mp (Wp - Wm) b K = bindE r (\<lambda>(b, len, kappa). Inr (b, len, K + kappa))"
    unfolding deM(1) words(2) by (auto simp: words(1))
  have "grisu_ok f e (length b) (bindE r (\<lambda>(b, len, kappa). Inr (b, len, K + kappa)))"
    using sc r(1) c(3,4) unfolding h_def nb(4) by (intro grisu_scaled [OF _ _ _ s(1) f(1) c(5,6)]) simp_all
  then show ?thesis
    using r(2) nb(1) c(1) by (simp add: Grisu2_def Let_def bindE_def W_def Wp_def Wm_def)
qed


section \<open>The doubles\<close>

definition finite_double :: "u64 \<Rightarrow> bool" where
  "finite_double b \<longleftrightarrow> b AND kDpExponentMask \<noteq> kDpExponentMask"

definition magnitude :: "u64 \<Rightarrow> real" where
  "magnitude b = real (unat (df (DiyFp_of_double b))) * 2 powi de (DiyFp_of_double b)"

definition double_val :: "u64 \<Rightarrow> real" where
  "double_val b = (if bit b 63 then - magnitude b else magnitude b)"

text \<open>A reader that rounds to the nearest \<open>double\<close> makes \<open>b\<close> of \<open>x\<close>.\<close>

definition reads_as :: "real \<Rightarrow> u64 \<Rightarrow> bool" where
  "reads_as x b \<longleftrightarrow>
     (\<forall>u. finite_double u \<and> double_val u \<noteq> double_val b \<longrightarrow> \<bar>x - double_val b\<bar> < \<bar>x - double_val u\<bar>)"

definition canonical :: "nat \<Rightarrow> int \<Rightarrow> bool" where
  "canonical f e \<longleftrightarrow> f < 2 ^ 53 \<and> - 1074 \<le> e \<and> e \<le> 971 \<and> (e = - 1074 \<or> 2 ^ 52 \<le> f)"

lemma kDpExponentMask_fields: "kDpExponentMask = push_bit 52 (mask 11)"
  by (simp add: kDpExponentMask_def mask_eq_exp_minus_1)

lemma DiyFp_of_double_fields:
  "DiyFp_of_double x =
     (let biased_e = uint (take_bit 11 (drop_bit 52 x)); significand = take_bit 52 x in
      if biased_e \<noteq> 0 then \<lparr>df = significand + kDpHiddenBit, de = biased_e - 1075\<rparr> else \<lparr>df = significand, de = - 1075 + 1\<rparr>)"
proof -
  have "drop_bit 52 (x AND kDpExponentMask) = take_bit 11 (drop_bit 52 x)"
    unfolding kDpExponentMask_fields
    by (intro bit_eqI) (auto simp: bit_drop_bit_eq bit_take_bit_iff bit_and_iff bit_push_bit_iff bit_mask_iff dest: bit_imp_le_length)
  moreover have "x AND kDpSignificandMask = take_bit 52 x"
    by (simp add: kDpSignificandMask_def take_bit_eq_mask mask_eq_exp_minus_1)
  ultimately show ?thesis
    by (simp only: DiyFp_of_double_def)
qed

lemma significand_bound:
  fixes x :: u64
  shows "unat (take_bit 52 x) < 2 ^ 52" "unat (take_bit 52 x + kDpHiddenBit) = unat (take_bit 52 x) + 2 ^ 52"
proof -
  show lt: "unat (take_bit 52 x) < 2 ^ 52"
    unfolding unsigned_take_bit_eq by (rule take_bit_nat_less_exp)
  show "unat (take_bit 52 x + kDpHiddenBit) = unat (take_bit 52 x) + 2 ^ 52"
    using lt by (subst unat_plus_small) (simp_all add: kDpHiddenBit_def)
qed

lemma finite_exponent:
  assumes "finite_double x"
  shows "uint (take_bit 11 (drop_bit 52 x)) < 2047"
proof (rule ccontr)
  assume a: "\<not> uint (take_bit 11 (drop_bit 52 x)) < 2047"
  have "uint (take_bit 11 (drop_bit 52 x)) < 2 ^ 11"
    unfolding unsigned_take_bit_eq by (rule take_bit_int_less_exp)
  then have "uint (take_bit 11 (drop_bit 52 x)) = uint (mask 11 :: u64)"
    using a by (simp add: mask_eq_exp_minus_1)
  then have m: "take_bit 11 (drop_bit 52 x) = mask 11"
    by (simp only: word_uint_eq_iff)
  have "x AND push_bit 52 (mask 11) = push_bit 52 (take_bit 11 (drop_bit 52 x))"
    by (intro bit_eqI) (auto simp: bit_drop_bit_eq bit_take_bit_iff bit_and_iff bit_push_bit_iff bit_mask_iff)
  then show False
    using assms unfolding finite_double_def kDpExponentMask_fields m by simp
qed

lemma double_canonical:
  assumes "finite_double x"
  shows "canonical (unat (df (DiyFp_of_double x))) (de (DiyFp_of_double x))"
proof -
  obtain E where E: "uint (take_bit 11 (drop_bit 52 x)) = E" "0 \<le> E" by simp
  then show ?thesis
    using finite_exponent [OF assms] significand_bound [of x]
    by (auto simp: canonical_def DiyFp_of_double_fields Let_def)
qed

lemma double_nonzero:
  assumes "push_bit 1 x \<noteq> 0"
  shows "0 < unat (df (DiyFp_of_double x))"
proof (rule ccontr)
  assume "\<not> 0 < unat (df (DiyFp_of_double x))"
  then have "uint (take_bit 11 (drop_bit 52 x)) = 0" "unat (take_bit 52 x) = 0"
    using significand_bound [of x] by (auto simp: DiyFp_of_double_fields Let_def split: if_splits)
  then have "take_bit 11 (drop_bit 52 x) = 0" "take_bit 52 x = 0"
    by (simp_all only: uint_0_iff unat_eq_0)
  then have "\<not> bit (take_bit 11 (drop_bit 52 x)) (n - 52)" "\<not> bit (take_bit 52 x) n" for n
    by simp_all
  note n = this [unfolded bit_take_bit_iff bit_drop_bit_eq comp_def]
  have z: "\<not> bit x n" if "n < 63" for n
    using n(1) [of n] n(2) [of n] that by (cases "n < 52") simp_all
  have "push_bit 1 x = 0"
  proof (rule bit_eqI)
    fix n
    show "bit (push_bit 1 x) n \<longleftrightarrow> bit 0 n"
      unfolding bit_push_bit_iff using z [of "n - 1"] by (auto dest: bit_imp_le_length)
  qed
  then show False using assms by simp
qed

lemma DiyFp_of_double_sign:
  assumes "take_bit 63 x = take_bit 63 y"
  shows "DiyFp_of_double x = DiyFp_of_double y"
proof -
  have "bit x n = bit y n" if "n < 63" for n
    using arg_cong [OF assms, of "\<lambda>z. bit z n"] that by (simp add: bit_take_bit_iff)
  then have "take_bit 11 (drop_bit 52 x) = take_bit 11 (drop_bit 52 y)" "take_bit 52 x = take_bit 52 y"
    by (intro bit_eqI; auto simp: bit_take_bit_iff bit_drop_bit_eq)+
  then show ?thesis
    by (simp only: DiyFp_of_double_fields)
qed


section \<open>Neighbours\<close>

lemma powi_split: "e \<le> e' \<Longrightarrow> (2 :: real) powi e' = real (2 ^ nat (e' - e)) * 2 powi e"
  using power_int_add [of "2 :: real" "e' - e" e] by (simp add: power_int_def [of _ "e' - e"])

lemma lower_binade:
  assumes "d < e" and "g < 2 ^ 53"
  shows "real g * 2 powi d \<le> (2 ^ 52 - 1 / 2) * 2 powi e"
proof -
  have "real g \<le> real (2 ^ 53 - 1)"
    using assms(2) by (subst of_nat_le_iff) simp
  moreover have "(2 :: real) powi d \<le> 2 powi (e - 1)"
    using assms(1) by (intro power_int_increasing) simp_all
  ultimately have "real g * 2 powi d \<le> real (2 ^ 53 - 1) * 2 powi (e - 1)"
    by (intro mult_mono) simp_all
  then show ?thesis by (simp add: power_int_diff)
qed

lemma double_above:
  assumes "canonical f e" and "canonical g d" and "real f * 2 powi e < real g * 2 powi d"
  shows "(real f + 1) * 2 powi e \<le> real g * 2 powi d"
proof (cases "e \<le> d")
  case True
  let ?n = "g * 2 ^ nat (d - e)"
  have g: "real g * 2 powi d = real ?n * 2 powi e"
    using powi_split [OF True] by simp
  then have "real f < real ?n"
    using assms(3) by (simp only: mult_less_cancel_right) simp
  then have "real (f + 1) \<le> real ?n"
    by (simp only: of_nat_less_iff of_nat_le_iff)
  then have "real (f + 1) * 2 powi e \<le> real ?n * 2 powi e"
    by (rule mult_right_mono) simp
  then show ?thesis unfolding g by simp
next
  case False
  then have "real g * 2 powi d \<le> (2 ^ 52 - 1 / 2) * 2 powi e"
    using assms(2) by (intro lower_binade) (simp_all add: canonical_def)
  moreover have f: "2 ^ 52 \<le> f"
    using False assms(1,2) by (auto simp: canonical_def)
  moreover have "(2 ^ 52 - 1 / 2) * 2 powi e \<le> real f * 2 powi e"
    using f by (intro mult_right_mono) simp_all
  ultimately show ?thesis using assms(3) by linarith
qed

lemma double_below:
  assumes "canonical f e" and "canonical g d" and "real g * 2 powi d < real f * 2 powi e"
  shows "real g * 2 powi d \<le> (real f - 2 * (if f = 2 ^ 52 then 1 / 4 else 1 / 2)) * 2 powi e"
proof (cases "e \<le> d")
  case True
  let ?n = "g * 2 ^ nat (d - e)"
  have g: "real g * 2 powi d = real ?n * 2 powi e"
    using powi_split [OF True] by simp
  then have "real ?n < real f"
    using assms(3) by (simp only: mult_less_cancel_right) simp
  then have "real (?n + 1) \<le> real f"
    by (simp only: of_nat_less_iff of_nat_le_iff)
  then show ?thesis unfolding g by (intro mult_right_mono) auto
next
  case False
  then have le: "real g * 2 powi d \<le> (2 ^ 52 - 1 / 2) * 2 powi e"
    using assms(2) by (intro lower_binade) (simp_all add: canonical_def)
  have f: "2 ^ 52 \<le> f"
    using False assms(1,2) by (auto simp: canonical_def)
  have "(2 ^ 52 - 1 / 2) * 2 powi e \<le> (real f - 2 * (if f = 2 ^ 52 then 1 / 4 else 1 / 2)) * 2 powi e"
    using f by (intro mult_right_mono) auto
  then show ?thesis using le by linarith
qed

lemma nearest_magnitude:
  assumes "finite_double b" and "finite_double u" and "magnitude u \<noteq> magnitude b"
  defines "f \<equiv> unat (df (DiyFp_of_double b))" and "e \<equiv> de (DiyFp_of_double b)"
  assumes lo: "(real f - (if f = 2 ^ 52 then 1 / 4 else 1 / 2)) * 2 powi e < x" and hi: "x < (real f + 1 / 2) * 2 powi e"
  shows "\<bar>x - magnitude b\<bar> < \<bar>x - magnitude u\<bar>"
proof -
  let ?P = "2 powi e :: real"
  have P: "0 < ?P" by simp
  have b: "magnitude b = real f * ?P" by (simp add: magnitude_def f_def e_def)
  have u: "magnitude u \<le> (real f - 2 * (if f = 2 ^ 52 then 1 / 4 else 1 / 2)) * ?P \<or> (real f + 1) * ?P \<le> magnitude u"
    using double_above [OF double_canonical [OF assms(1)] double_canonical [OF assms(2)]]
      double_below [OF double_canonical [OF assms(1)] double_canonical [OF assms(2)]] assms(3)
    by (auto simp: magnitude_def f_def e_def neq_iff)
  show ?thesis
    using lo hi u P unfolding b by (cases "f = 2 ^ 52") (auto simp: algebra_simps abs_if)
qed


lemma reads_as_signed:
  fixes b :: u64
  defines "f \<equiv> unat (df (DiyFp_of_double b))" and "e \<equiv> de (DiyFp_of_double b)"
  assumes fin: "finite_double b" and f: "0 < f"
    and lo: "(real f - (if f = 2 ^ 52 then 1 / 4 else 1 / 2)) * 2 powi e < x" and hi: "x < (real f + 1 / 2) * 2 powi e"
  shows "reads_as (if bit b 63 then - x else x) b"
  unfolding reads_as_def
proof (intro allI impI, elim conjE)
  fix u
  assume u: "finite_double u" "double_val u \<noteq> double_val b"
  let ?m = "magnitude b"
  have m: "?m = real f * 2 powi e" by (simp add: magnitude_def f_def e_def)
  have "real f / 2 * 2 powi e \<le> (real f - (if f = 2 ^ 52 then 1 / 4 else 1 / 2)) * 2 powi e"
    using f by (intro mult_right_mono) auto
  then have "real f / 2 * 2 powi e < x"
    using lo by (rule le_less_trans)
  then have half: "?m < 2 * x" "0 < ?m" using f by (simp_all add: m)
  have pos: "0 \<le> magnitude u" unfolding magnitude_def by (intro mult_nonneg_nonneg) (rule of_nat_0_le_iff, simp)
  show "\<bar>(if bit b 63 then - x else x) - double_val b\<bar> < \<bar>(if bit b 63 then - x else x) - double_val u\<bar>"
  proof (cases "bit u 63 = bit b 63")
    case True
    then have "magnitude u \<noteq> ?m" using u(2) by (auto simp: double_val_def)
    then have "\<bar>x - ?m\<bar> < \<bar>x - magnitude u\<bar>"
      using nearest_magnitude [OF fin u(1)] lo hi by (simp add: f_def e_def)
    then show ?thesis using True by (auto simp: double_val_def abs_minus_commute)
  next
    case False
    have "\<bar>x - ?m\<bar> < x + magnitude u" using half pos by (auto simp: abs_if)
    then show ?thesis using False half pos by (auto simp: double_val_def abs_if)
  qed
qed

section \<open>The text\<close>

definition signed_value :: "string \<Rightarrow> real" where
  "signed_value s = (if s \<noteq> [] \<and> hd s = CHR ''-'' then - text_value (tl s) else text_value s)"

lemma Prettify_reads:
  assumes "0 < len" and "len \<le> 18" and "26 \<le> length b" and "\<forall>c\<in>set (take len b). is_digit c" and "\<bar>k\<bar> \<le> 400"
  shows "\<exists>b'. Prettify b len k = Inr b' \<and> text_value (cstr b') = real (read_nat (take len b)) * 10 powi k \<and> cstr b' \<noteq> [] \<and> is_digit (hd (cstr b'))"
proof -
  let ?ds = "take len b" and ?r = "drop len b"
  have ds: "?ds \<noteq> []" "length ?ds = len" using assms by auto
  have k: "\<bar>int (length ?ds) + k - 1\<bar> < 1000" using assms ds by simp
  have r: "8 \<le> length ?r" "24 \<le> length ?ds + length ?r" using assms(2,3) by simp_all
  obtain z where z: "Prettify (?ds @ ?r) (length ?ds) k = Inr (pretty ?ds k @ NUL # z)"
    using Prettify_text [OF ds(1) r, of k] by blast
  have c: "cstr (pretty ?ds k @ NUL # z) = pretty ?ds k"
    using pretty_chars(1) [OF assms(4) ds(1) k] by (auto simp: cstr_def takeWhile_append takeWhile_eq_all_conv)
  obtain d ds' where "?ds = d # ds'" using ds(1) by (meson neq_Nil_conv)
  then have "pretty ?ds k \<noteq> []" "is_digit (hd (pretty ?ds k))"
    using assms(4) by (auto simp: pretty_def Let_def hd_append take_Cons' split: if_splits)
  then show ?thesis
    using z c ds(2) text_value_pretty [OF assms(4) ds(1) k] by auto
qed

lemma magnitude_zero: "push_bit 1 x = 0 \<Longrightarrow> magnitude x = 0"
proof -
  assume "push_bit 1 x = 0"
  then have "\<not> bit (push_bit 1 x) (Suc n)" for n by simp
  then have n: "\<not> bit x n" if "n < 63" for n
    using that unfolding bit_push_bit_iff by force
  have "take_bit 63 x = take_bit 63 0"
    using n by (intro bit_eqI) (auto simp: bit_take_bit_iff)
  then have "DiyFp_of_double x = DiyFp_of_double 0"
    by (rule DiyFp_of_double_sign)
  then show ?thesis
    by (simp add: magnitude_def DiyFp_of_double_def)
qed

lemma DiyFp_of_double_positive: "DiyFp_of_double (x - push_bit 63 1) = DiyFp_of_double x"
proof (rule DiyFp_of_double_sign)
  have "(uint x - 2 ^ 63) mod 2 ^ 64 mod 2 ^ 63 = (uint x - 2 ^ 63) mod 2 ^ 63"
    by (rule mod_mod_cancel) simp
  then have "take_bit 63 (uint (x - push_bit 63 1)) = take_bit 63 (uint x)"
    unfolding take_bit_eq_mod by (simp add: uint_word_ariths)
  then show "take_bit 63 (x - push_bit 63 1) = take_bit 63 x"
    by (simp only: word_uint_eq_iff unsigned_take_bit_eq)
qed

lemma signed_value_text:
  assumes "cstr c \<noteq> []" and "is_digit (hd (cstr c))"
  shows "signed_value (cstr c) = text_value (cstr c)" "signed_value (cstr (CHR ''-'' # c)) = - text_value (cstr c)"
  using assms by (auto simp: signed_value_def cstr_def NUL_neq [symmetric] simp del: NUL_neq)

lemma dtoa_grisu2_zero:
  assumes "push_bit 1 value = 0" and "finite_double value" and "27 \<le> length b"
  shows "\<exists>b' n. dtoa_grisu2 b value = Inr (b', n) \<and> reads_as (signed_value (cstr b')) value"
proof -
  have "dtoa_grisu2 b value = Inr (''0.0'' @ NUL # drop 4 b, 4)"
    using assms unfolding finite_double_def by (simp add: dtoa_grisu2_def guardE_def bindE_def store_def numeral_eq_Suc)
  moreover have "cstr (''0.0'' @ NUL # drop 4 b) = ''0.0''"
    by (simp add: cstr_def NUL_neq [symmetric] del: NUL_neq)
  moreover have "signed_value ''0.0'' = 0"
    using text_value_plain(1) [of "''0''" "''0''"] by (simp add: signed_value_def)
  moreover have "reads_as 0 value"
    using magnitude_zero [OF assms(1)] by (auto simp: reads_as_def double_val_def)
  ultimately show ?thesis by auto
qed

lemma dtoa_grisu2_steps:
  assumes "push_bit 1 value \<noteq> 0" and "finite_double value" and "0 < length b"
  defines "bits \<equiv> (if bit value 63 then value - push_bit 63 1 else value)" and "s \<equiv> (if bit value 63 then ''-'' else [])"
  shows "dtoa_grisu2 b value =
    bindE (Grisu2 bits (drop (length s) b)) (\<lambda>(c, len, K). bindE (Prettify c len K) (\<lambda>c. Inr (s @ c, length s + len)))"
proof (cases b)
  case (Cons x xs)
  then show ?thesis
    using assms(1,2) unfolding finite_double_def
    by (simp add: dtoa_grisu2_def guardE_def bindE_def store_def bits_def s_def Let_def split: sum.split)
qed (use assms(3) in simp)

lemma grisu_text_reads:
  fixes v :: u64
  defines "f \<equiv> unat (df (DiyFp_of_double v))" and "e \<equiv> de (DiyFp_of_double v)"
  assumes g: "grisu_ok f e L (Inr (c, len, K))" and "26 \<le> L" and "finite_double v" and "0 < f"
  shows "\<exists>b'. Prettify c len K = Inr b' \<and> reads_as (signed_value (cstr ((if bit v 63 then ''-'' else []) @ b'))) v"
proof -
  let ?r = "real (read_nat (take len c)) * 10 powi K"
  have "0 < len" "len \<le> 18" "26 \<le> length c" "\<forall>a\<in>set (take len c). is_digit a" "\<bar>K\<bar> \<le> 400"
    using g assms(4) by auto
  then obtain b' where b': "Prettify c len K = Inr b'" "text_value (cstr b') = ?r" "cstr b' \<noteq> []" "is_digit (hd (cstr b'))"
    using Prettify_reads by blast
  have "reads_as (if bit v 63 then - ?r else ?r) v"
    using g assms(5,6) unfolding f_def e_def by (intro reads_as_signed) auto
  then have "reads_as (signed_value (cstr ((if bit v 63 then ''-'' else []) @ b'))) v"
    using signed_value_text [OF b'(3,4)] b'(2) by (auto split: if_splits)
  then show ?thesis using b'(1) by blast
qed

text \<open>C21.
  Printing a double loses nothing: for every finite double and a buffer of at least 27 characters, the text dtoa_grisu2
  writes denotes a number to which no other double is as close, so that a correctly rounding reader gets the same
  double back.  The only other outcome is the read outside kPow10 in the digit generator, and then no decimal
  with ten digits or fewer lies within an eighth of a unit in the last place of the double.
\<close>

theorem dtoa_grisu2_reads_back:
  assumes "finite_double value" and "27 \<le> length b"
  shows "(\<exists>b' n. dtoa_grisu2 b value = Inr (b', n) \<and> reads_as (signed_value (cstr b')) value) \<or>
    dtoa_grisu2 b value = Inl Out_of_bounds \<and>
    (\<forall>n j. n < (10 :: nat) ^ 10 \<longrightarrow> 2 powi de (DiyFp_of_double value) / 8 < \<bar>real n * 10 powi j - magnitude value\<bar>)"
proof (cases "push_bit 1 value = 0")
  case True
  then show ?thesis using dtoa_grisu2_zero [OF _ assms] by blast
next
  case False
  let ?f = "unat (df (DiyFp_of_double value))" and ?e = "de (DiyFp_of_double value)"
  let ?bits = "if bit value 63 then value - push_bit 63 1 else value" and ?s = "if bit value 63 then ''-'' else []"
  let ?b = "drop (length ?s) b"
  have v: "DiyFp_of_double ?bits = DiyFp_of_double value" by (simp only: DiyFp_of_double_positive split: if_split) simp
  have can: "canonical ?f ?e" and f: "0 < ?f"
    using double_canonical [OF assms(1)] double_nonzero [OF False] .
  have ok: "grisu_ok ?f ?e (length ?b) (Grisu2 ?bits ?b)"
    using Grisu2_ok [of ?bits ?b] can f assms(2) unfolding v canonical_def by auto
  have steps: "dtoa_grisu2 b value = bindE (Grisu2 ?bits ?b)
      (\<lambda>(c, len, K). bindE (Prettify c len K) (\<lambda>c. Inr (?s @ c, length ?s + len)))"
    using assms(2) by (intro dtoa_grisu2_steps [OF False assms(1)]) auto
  show ?thesis
  proof (cases "Grisu2 ?bits ?b")
    case (Inl x)
    then show ?thesis using ok unfolding steps Inl by (auto simp: bindE_def magnitude_def)
  next
    case (Inr y)
    obtain c len K where y: "y = (c, len, K)" by (cases y)
    have "26 \<le> length ?b" using assms(2) by auto
    then obtain b' where "Prettify c len K = Inr b'" "reads_as (signed_value (cstr (?s @ b'))) value"
      using grisu_text_reads [OF ok [unfolded Inr y] _ assms(1) f] by blast
    then show ?thesis unfolding steps Inr y by (simp add: bindE_def)
  qed
qed

theorem dtoa_grisu2_reads_back_witness:
  "\<exists>b' n. dtoa_grisu2 (replicate 27 NUL) 13836183955189006336 = Inr (b', n) \<and>
     reads_as (signed_value (cstr b')) 13836183955189006336"
proof -
  have "finite_double 13836183955189006336"
    by (simp add: finite_double_def kDpExponentMask_def)
  moreover have "DiyFp_of_double 13836183955189006336 = \<lparr>df = 5629499534213120, de = - 51\<rparr>"
    by (simp add: DiyFp_of_double_def Let_def kDpExponentMask_def kDpSignificandMask_def kDpHiddenBit_def)
  moreover have "real (25 :: nat) * 10 powi - 1 = real (5629499534213120 :: nat) * 2 powi - 51"
    by (simp add: power_int_minus)
  ultimately show ?thesis
    using dtoa_grisu2_reads_back [of 13836183955189006336 "replicate 27 NUL"]
    by (auto simp: magnitude_def power_int_minus dest!: spec [of _ 25] spec [of _ "- 1"])
qed

end
