(* ===== verification/Magic_Get.thy ===== *)
theory Magic_Get
  imports Prelude
begin

text \<open>
  Reflection of plain structs: the type identifiers and \<open>as_tuple\<close> of \<^verbatim>\<open>src/common/magic_get.hpp\<close>.

  The code runs in the compiler: a type is a term of the datatype \<open>mtype\<close>, an overload set is a case distinction, and a call that no
  overload accepts or that a \<open>static_assert\<close> refuses is the value \<open>None\<close>.  A struct is the list of the types of its members, all of
  them scalars.
\<close>

section \<open>Type identifiers\<close>

datatype native =
    Unsigned_short | Unsigned_int | Unsigned_long_long | Signed_char | Short | Int_t | Long_long | Unsigned_char | Char | Wchar_t
  | Long | Unsigned_long | Void_ptr | Const_void_ptr | Char16_t | Char32_t | Float | Double_t | Long_double

datatype mtype = Native native | Ptr mtype | Const_ptr mtype

text \<open>\<open>REGISTER_TYPE\<close>\<close>

primrec native_id :: "native \<Rightarrow> u64" where
  "native_id Unsigned_short = 1" | "native_id Unsigned_int = 2" | "native_id Unsigned_long_long = 3"
| "native_id Signed_char = 4" | "native_id Short = 5" | "native_id Int_t = 6" | "native_id Long_long = 7"
| "native_id Unsigned_char = 8" | "native_id Char = 9" | "native_id Wchar_t = 10" | "native_id Long = 11"
| "native_id Unsigned_long = 12" | "native_id Void_ptr = 13" | "native_id Const_void_ptr = 14" | "native_id Char16_t = 15"
| "native_id Char32_t = 16" | "native_id Float = 17" | "native_id Double_t = 18" | "native_id Long_double = 19"

definition native_types :: "native list" where
  "native_types = [Unsigned_short, Unsigned_int, Unsigned_long_long, Signed_char, Short, Int_t, Long_long, Unsigned_char, Char, Wchar_t,
     Long, Unsigned_long, Void_ptr, Const_void_ptr, Char16_t, Char32_t, Float, Double_t, Long_double]"

text \<open>The overloads of \<open>id_to_type\<close> that are not templates; 20 is \<open>size_t\<close>.\<close>

definition id_to_native :: "u64 \<Rightarrow> native option" where
  "id_to_native i = (if i = 20 then Some Unsigned_long else find (\<lambda>n. native_id n = i) native_types)"

definition native_types_mask :: u64 where "native_types_mask = 255"

definition bits_per_extension :: nat where "bits_per_extension = 2"

definition native_ptr_type :: u64 where "native_ptr_type = push_bit (64 - bits_per_extension) 1"

definition native_const_ptr_type :: u64 where "native_const_ptr_type = push_bit (64 - bits_per_extension) 2"

definition type_to_id_extension_apply :: "u64 \<Rightarrow> u64 \<Rightarrow> u64 option" where
  "type_to_id_extension_apply unptr ext =
     (let native = unptr AND native_types_mask; extensions = unptr AND NOT native_types_mask in
      if drop_bit bits_per_extension extensions AND native_types_mask = 0
      then Some (drop_bit bits_per_extension extensions OR native OR ext) else None)"

primrec type_to_id :: "mtype \<Rightarrow> u64 option" where
  "type_to_id (Native n) = Some (native_id n)"
| "type_to_id (Ptr t) = Option.bind (type_to_id t) (\<lambda>i. type_to_id_extension_apply i native_ptr_type)"
| "type_to_id (Const_ptr t) = Option.bind (type_to_id t) (\<lambda>i. type_to_id_extension_apply i native_const_ptr_type)"

definition strip_extension :: "u64 \<Rightarrow> u64" where
  "strip_extension i = push_bit 2 (i AND NOT native_types_mask) OR (i AND native_types_mask)"

text \<open>
  The templates for pointers; an identifier with both bits set fits both of them.  Each instantiation shifts the extensions by two
  bits, so that 32 of them leave none.
\<close>

primrec id_to_type_rec :: "nat \<Rightarrow> u64 \<Rightarrow> mtype option" where
  "id_to_type_rec 0 i = None"
| "id_to_type_rec (Suc n) i =
     (case id_to_native i of
        Some t \<Rightarrow> Some (Native t)
      | None \<Rightarrow>
          if i AND native_const_ptr_type \<noteq> 0 \<and> i AND native_ptr_type \<noteq> 0 then None
          else if i AND native_ptr_type \<noteq> 0 then map_option Ptr (id_to_type_rec n (strip_extension i))
          else if i AND native_const_ptr_type \<noteq> 0 then map_option Const_ptr (id_to_type_rec n (strip_extension i))
          else None)"

definition id_to_type :: "u64 \<Rightarrow> mtype option" where
  "id_to_type i = id_to_type_rec 33 i"

section \<open>Members of a struct\<close>

definition count_nonzeros :: "u64 list \<Rightarrow> nat" where
  "count_nonzeros a = length (takeWhile (\<lambda>x. x \<noteq> 0) a)"

text \<open>
  \<open>T{ubiq<0>{types}, \<dots>}\<close> with \<open>n\<close> initialisers: it is well-formed when \<open>T\<close> has at least \<open>n\<close> members, and the conversion of the
  \<open>i\<close>-th one stores the identifier of the \<open>i\<close>-th member's type.
\<close>

definition type_to_array_of_type_ids :: "nat \<Rightarrow> mtype list \<Rightarrow> u64 list \<Rightarrow> u64 list option" where
  "type_to_array_of_type_ids n fields types =
     (if list_all (\<lambda>t. type_to_id t \<noteq> None) (take n fields)
      then Some (map (\<lambda>t. the (type_to_id t)) (take n fields) @ drop n types) else None)"

primrec detect_fields_count_and_type_ids :: "nat \<Rightarrow> mtype list \<Rightarrow> u64 list \<Rightarrow> u64 list option" where
  "detect_fields_count_and_type_ids 0 fields types = Some types"
| "detect_fields_count_and_type_ids (Suc n) fields types =
     (if Suc n \<le> length fields then type_to_array_of_type_ids (Suc n) fields types
      else detect_fields_count_and_type_ids n fields types)"

definition fields_count_and_type_ids_with_zeros :: "nat \<Rightarrow> mtype list \<Rightarrow> u64 list option" where
  "fields_count_and_type_ids_with_zeros sz fields = detect_fields_count_and_type_ids sz fields (replicate sz 0)"

definition array_of_type_ids :: "nat \<Rightarrow> mtype list \<Rightarrow> u64 list option" where
  "array_of_type_ids sz fields =
     map_option (\<lambda>types. take (count_nonzeros types) types) (fields_count_and_type_ids_with_zeros sz fields)"

definition as_tuple :: "nat \<Rightarrow> mtype list \<Rightarrow> mtype list option" where
  "as_tuple sz fields =
     Option.bind (array_of_type_ids sz fields) (\<lambda>ids. those (map id_to_type ids))"

definition tuple_size :: "nat \<Rightarrow> mtype list \<Rightarrow> nat option" where
  "tuple_size sz fields = map_option length (as_tuple sz fields)"

section \<open>Identifiers and types\<close>

primrec levels :: "mtype \<Rightarrow> nat" where
  "levels (Native n) = 0"
| "levels (Ptr t) = Suc (levels t)"
| "levels (Const_ptr t) = Suc (levels t)"

text \<open>The constants by their bits.\<close>

lemma bit_types_mask: "bit native_types_mask n \<longleftrightarrow> n < 8"
proof -
  have eq: "native_types_mask = mask 8"
    by (simp add: native_types_mask_def mask_eq_exp_minus_1)
  show ?thesis unfolding eq by (auto simp: bit_mask_iff)
qed

lemma bit_ptr_type: "bit native_ptr_type n \<longleftrightarrow> n = 62"
proof -
  have eq: "native_ptr_type = 2 ^ 62"
    by (simp add: native_ptr_type_def bits_per_extension_def push_bit_eq_mult)
  show ?thesis unfolding eq bit_exp_iff by auto
qed

lemma bit_const_ptr_type: "bit native_const_ptr_type n \<longleftrightarrow> n = 63"
proof -
  have eq: "native_const_ptr_type = 2 ^ 63"
    by (simp add: native_const_ptr_type_def bits_per_extension_def push_bit_eq_mult)
  show ?thesis unfolding eq bit_exp_iff by auto
qed

lemmas bit_consts = bit_types_mask bit_ptr_type bit_const_ptr_type

lemma word_zero_iff: "(w :: u64) = 0 \<longleftrightarrow> (\<forall>n<64. \<not> bit w n)"
  using bit_word_eqI [of w 0] by auto

lemma and_ptr: "i AND native_ptr_type \<noteq> 0 \<longleftrightarrow> bit i 62"
  by (auto simp: word_zero_iff bit_and_iff bit_consts)

lemma and_const_ptr: "i AND native_const_ptr_type \<noteq> 0 \<longleftrightarrow> bit i 63"
  by (auto simp: word_zero_iff bit_and_iff bit_consts)

definition extended :: "u64 \<Rightarrow> u64 \<Rightarrow> u64" where
  "extended i e = drop_bit 2 (i AND NOT native_types_mask) OR (i AND native_types_mask) OR e"

lemma bit_extended:
  assumes "\<not> bit i 8" and "\<not> bit i 9" and "n < 64"
  shows "bit (extended i e) n \<longleftrightarrow> (if n < 8 then bit i n else bit i (n + 2)) \<or> bit e n"
proof -
  have "n + 2 = 8 \<or> n + 2 = 9" if "n < 8" "\<not> n + 2 < 8"
    using that by arith
  then show ?thesis
    using assms by (auto simp: extended_def bit_or_iff bit_and_iff bit_not_iff bit_drop_bit_eq bit_consts add.commute dest: bit_imp_le_length)
qed

lemma extension_apply:
  "type_to_id_extension_apply i e = (if bit i 8 \<or> bit i 9 then None else Some (extended i e))"
proof -
  have "drop_bit 2 (i AND NOT native_types_mask) AND native_types_mask = 0 \<longleftrightarrow> \<not> bit i 8 \<and> \<not> bit i 9"
  proof
    assume z: "drop_bit 2 (i AND NOT native_types_mask) AND native_types_mask = 0"
    have "\<not> bit (drop_bit 2 (i AND NOT native_types_mask) AND native_types_mask) n" for n
      unfolding z by simp
    from this [of 6] this [of 7] show "\<not> bit i 8 \<and> \<not> bit i 9"
      by (simp add: bit_and_iff bit_not_iff bit_drop_bit_eq bit_consts)
  next
    assume nb: "\<not> bit i 8 \<and> \<not> bit i 9"
    have "\<not> bit (drop_bit 2 (i AND NOT native_types_mask) AND native_types_mask) n" for n
    proof (cases "n = 6 \<or> n = 7")
      case True
      then show ?thesis using nb by (auto simp: bit_and_iff bit_not_iff bit_drop_bit_eq bit_consts)
    next
      case False
      then have "n < 8 \<Longrightarrow> 2 + n < 8" by arith
      then show ?thesis by (auto simp: bit_and_iff bit_not_iff bit_drop_bit_eq bit_consts)
    qed
    then show "drop_bit 2 (i AND NOT native_types_mask) AND native_types_mask = 0"
      unfolding word_zero_iff by blast
  qed
  then show ?thesis
    by (simp add: type_to_id_extension_apply_def extended_def Let_def bits_per_extension_def)
qed

lemma strip_extended:
  assumes "\<not> bit i 8" and "\<not> bit i 9" and "e = native_ptr_type \<or> e = native_const_ptr_type"
  shows "strip_extension (extended i e) = i"
proof (rule bit_word_eqI)
  fix n assume "n < LENGTH(64)"
  then have n: "n < 64" by simp
  show "bit (strip_extension (extended i e)) n \<longleftrightarrow> bit i n"
  proof (cases "n < 10")
    case True
    then have "n = 8 \<or> n = 9 \<or> n < 8" by arith
    then show ?thesis
      using assms bit_extended [OF assms(1,2), of "n - 2" e] bit_extended [OF assms(1,2), of n e] n
      by (auto simp: strip_extension_def bit_or_iff bit_and_iff bit_not_iff bit_push_bit_iff bit_consts)
  next
    case False
    then have "n - 2 + 2 = n" "\<not> n - 2 < 8" "n - 2 < 64" "n - 2 \<noteq> 62" "n - 2 \<noteq> 63"
      using n by arith+
    then show ?thesis
      using False n bit_extended [OF assms(1,2), of "n - 2" e] assms(3)
      by (auto simp: strip_extension_def bit_or_iff bit_and_iff bit_not_iff bit_push_bit_iff bit_consts)
  qed
qed

text \<open>
  A pointer type of \<open>d\<close> levels has its native identifier in the lowest eight bits and its levels in the highest \<open>2 d\<close> ones, the
  innermost lowest.
\<close>

definition id_shape :: "nat \<Rightarrow> u64 \<Rightarrow> bool" where
  "id_shape d i \<longleftrightarrow> (\<forall>n<64. 8 \<le> n \<and> bit i n \<longrightarrow> 64 \<le> n + 2 * d) \<and>
     (0 < d \<longrightarrow> 2 * d \<le> 56 \<and> (bit i (64 - 2 * d) \<or> bit i (65 - 2 * d)))"

lemma bit_native_id: "bit (native_id n) k \<Longrightarrow> k < 8"
proof -
  have "take_bit 8 (native_id n) = native_id n"
    by (cases n) simp_all
  then show "bit (native_id n) k \<Longrightarrow> k < 8"
    by (metis bit_take_bit_iff)
qed

lemma id_shape_native: "id_shape 0 (native_id n)"
  using bit_native_id [of n] by (force simp: id_shape_def)

lemma id_shape_bits_8_9:
  assumes "id_shape d i" and "d \<le> 28"
  shows "bit i 8 \<or> bit i 9 \<longleftrightarrow> d = 28"
proof
  assume "bit i 8 \<or> bit i 9"
  then have "64 \<le> 9 + 2 * d"
    using assms(1) unfolding id_shape_def by (elim conjE disjE) (drule spec [of _ 8] spec [of _ 9], simp)+
  then show "d = 28" using assms(2) by arith
next
  assume "d = 28"
  then show "bit i 8 \<or> bit i 9" using assms(1) by (simp add: id_shape_def)
qed

lemma id_shape_extended:
  assumes "id_shape d i" and "d < 28" and "e = native_ptr_type \<or> e = native_const_ptr_type"
  shows "id_shape (Suc d) (extended i e)"
proof -
  have nb: "\<not> bit i 8" "\<not> bit i 9"
    using id_shape_bits_8_9 [OF assms(1)] assms(2) by auto
  have "64 \<le> n + 2 * Suc d" if "n < 64" "8 \<le> n" "bit (extended i e) n" for n
  proof (cases "bit i (n + 2)")
    case True
    then have "n + 2 < 64" using bit_imp_le_length [OF True] by simp
    then show ?thesis using assms(1) True that(2) unfolding id_shape_def by (auto dest: spec [of _ "n + 2"])
  next
    case False
    then show ?thesis using bit_extended [OF nb that(1)] that(2,3) assms(3) by (auto simp: bit_consts)
  qed
  moreover have "bit (extended i e) (64 - 2 * Suc d) \<or> bit (extended i e) (65 - 2 * Suc d)"
  proof (cases d)
    case 0
    then show ?thesis using bit_extended [OF nb, of 62 e] bit_extended [OF nb, of 63 e] assms(3) by (auto simp: bit_consts)
  next
    case (Suc k)
    have "64 - 2 * Suc d + 2 = 64 - 2 * d" "65 - 2 * Suc d + 2 = 65 - 2 * d" "\<not> 64 - 2 * Suc d < 8" "\<not> 65 - 2 * Suc d < 8"
      using assms(2) by arith+
    then show ?thesis
      using bit_extended [OF nb, of "64 - 2 * Suc d" e] bit_extended [OF nb, of "65 - 2 * Suc d" e] assms(1) Suc
      unfolding id_shape_def by auto
  qed
  ultimately show ?thesis using assms(2) by (simp add: id_shape_def)
qed

lemma type_to_id_shape:
  "if levels t \<le> 28 then \<exists>i. type_to_id t = Some i \<and> id_shape (levels t) i else type_to_id t = None"
proof (induction t)
  case (Native n)
  then show ?case by (simp add: id_shape_native)
next
  case (Ptr t)
  show ?case
  proof (cases "levels t \<le> 28")
    case True
    then obtain i where i: "type_to_id t = Some i" "id_shape (levels t) i" using Ptr by auto
    then show ?thesis using True id_shape_bits_8_9 [OF i(2) True] id_shape_extended [OF i(2)] by (auto simp: extension_apply)
  qed (use Ptr in auto)
next
  case (Const_ptr t)
  show ?case
  proof (cases "levels t \<le> 28")
    case True
    then obtain i where i: "type_to_id t = Some i" "id_shape (levels t) i" using Const_ptr by auto
    then show ?thesis using True id_shape_bits_8_9 [OF i(2) True] id_shape_extended [OF i(2)] by (auto simp: extension_apply)
  qed (use Const_ptr in auto)
qed

lemma type_to_id_nonzero: "type_to_id t = Some i \<Longrightarrow> i \<noteq> 0"
proof (cases "levels t")
  case 0
  moreover assume "type_to_id t = Some i"
  ultimately obtain n where "i = native_id n" by (cases t) auto
  then show ?thesis by (cases n) simp_all
next
  case (Suc d)
  moreover assume "type_to_id t = Some i"
  ultimately show ?thesis using type_to_id_shape [of t] by (auto simp: id_shape_def split: if_splits)
qed

lemma id_to_native_bits: "id_to_native i = Some n \<Longrightarrow> bit i k \<Longrightarrow> k < 8"
proof -
  assume "id_to_native i = Some n" and b: "bit i k"
  then have "i = 20 \<or> i = native_id n"
    by (auto simp: id_to_native_def find_Some_iff split: if_splits)
  moreover have "take_bit 8 (20 :: u64) = 20" by simp
  ultimately show "k < 8" using b bit_native_id by (metis bit_take_bit_iff)
qed

lemma id_to_native_id: "id_to_native (native_id n) = Some n"
  by (cases n) (simp_all add: id_to_native_def native_types_def)

lemma id_to_type_rec_extended:
  assumes "\<not> bit i 8" and "\<not> bit i 9"
  shows "id_to_type_rec (Suc n) (extended i native_ptr_type) = map_option Ptr (id_to_type_rec n i)"
    and "id_to_type_rec (Suc n) (extended i native_const_ptr_type) = map_option Const_ptr (id_to_type_rec n i)"
proof -
  have bits: "bit (extended i native_ptr_type) 62" "\<not> bit (extended i native_ptr_type) 63"
      "\<not> bit (extended i native_const_ptr_type) 62" "bit (extended i native_const_ptr_type) 63"
    using bit_extended [OF assms, of 62] bit_extended [OF assms, of 63] by (auto simp: bit_consts dest: bit_imp_le_length)
  then have "id_to_native (extended i native_ptr_type) = None" "id_to_native (extended i native_const_ptr_type) = None"
    using id_to_native_bits by fastforce+
  then show "id_to_type_rec (Suc n) (extended i native_ptr_type) = map_option Ptr (id_to_type_rec n i)"
      "id_to_type_rec (Suc n) (extended i native_const_ptr_type) = map_option Const_ptr (id_to_type_rec n i)"
    using bits strip_extended [OF assms] by (simp_all add: and_ptr and_const_ptr)
qed

lemma id_to_type_rec_type_to_id: "type_to_id t = Some i \<Longrightarrow> levels t < n \<Longrightarrow> id_to_type_rec n i = Some t"
proof (induction t arbitrary: i n)
  case (Native x)
  then show ?case by (cases n) (auto simp: id_to_native_id)
next
  case (Ptr t)
  then obtain j m where "type_to_id t = Some j" "i = extended j native_ptr_type" "\<not> bit j 8" "\<not> bit j 9" "n = Suc m" "levels t < m"
    by (cases n) (auto simp: extension_apply bind_eq_Some_conv split: if_splits)
  then show ?case using Ptr.IH id_to_type_rec_extended(1) by simp
next
  case (Const_ptr t)
  then obtain j m where "type_to_id t = Some j" "i = extended j native_const_ptr_type" "\<not> bit j 8" "\<not> bit j 9" "n = Suc m" "levels t < m"
    by (cases n) (auto simp: extension_apply bind_eq_Some_conv split: if_splits)
  then show ?case using Const_ptr.IH id_to_type_rec_extended(2) by simp
qed

lemma id_to_type_type_to_id: "type_to_id t = Some i \<Longrightarrow> id_to_type i = Some t"
  using type_to_id_shape [of t] id_to_type_rec_type_to_id [of t i 33] by (auto simp: id_to_type_def split: if_splits)

section \<open>Properties\<close>

text \<open>C24.
  Type identifiers are a faithful code: a type made of registered types and up to 28 levels of pointers, to constant or non-constant
  targets, has an identifier, which \<open>id_to_type\<close> maps back to the type; with more levels the \<open>static_assert\<close> fails instead of
  giving an identifier that means another type.
\<close>

theorem type_id_roundtrip:
  "if levels t \<le> 28 then \<exists>i. type_to_id t = Some i \<and> i \<noteq> 0 \<and> id_to_type i = Some t else type_to_id t = None"
  using type_to_id_shape [of t] type_to_id_nonzero [of t] id_to_type_type_to_id [of t] by (auto split: if_splits)

lemma detect_fields:
  assumes "length fields \<le> n" and "\<forall>t\<in>set fields. levels t \<le> 28"
  shows "detect_fields_count_and_type_ids n fields types =
    Some (if fields = [] then types else map (\<lambda>t. the (type_to_id t)) fields @ drop (length fields) types)"
  using assms(1)
proof (induction n)
  case (Suc n)
  show ?case
  proof (cases "length fields = Suc n")
    case True
    have "list_all (\<lambda>t. type_to_id t \<noteq> None) fields"
      using assms(2) type_to_id_shape by (auto simp: list_all_iff) (metis option.distinct(1))
    then show ?thesis using True by (auto simp: type_to_array_of_type_ids_def)
  next
    case False
    then show ?thesis using Suc by simp
  qed
qed simp

text \<open>
  \<open>as_tuple\<close> recovers the member types of a plain struct, in order and with their number, from nothing but how the struct can be
  initialised: the struct's size bounds the number of members tried, and unused entries of the array end it.
\<close>

lemma as_tuple_same:
  assumes "length fields \<le> sz" and "\<forall>t\<in>set fields. levels t \<le> 28"
  shows "as_tuple sz fields = Some fields" and "tuple_size sz fields = Some (length fields)"
proof -
  let ?ids = "map (\<lambda>t. the (type_to_id t)) fields"
  have id: "id_to_type (the (type_to_id t)) = Some t" "the (type_to_id t) \<noteq> 0" if "t \<in> set fields" for t
    using assms(2) that type_to_id_shape [of t] type_to_id_nonzero [of t] id_to_type_type_to_id [of t] by auto
  have "fields_count_and_type_ids_with_zeros sz fields = Some (?ids @ replicate (sz - length fields) 0)"
    using detect_fields [OF assms] by (auto simp: fields_count_and_type_ids_with_zeros_def)
  moreover have "takeWhile (\<lambda>x. x \<noteq> 0) (?ids @ replicate (sz - length fields) 0) = ?ids"
    using id(2) by (subst takeWhile_append2) (auto simp: takeWhile_eq_Nil_iff)
  ultimately have "array_of_type_ids sz fields = Some ?ids"
    by (simp add: array_of_type_ids_def count_nonzeros_def)
  moreover have "map id_to_type ?ids = map Some fields"
    using id(1) by simp
  moreover have "those (map Some xs) = Some xs" for xs :: "mtype list"
    by (induction xs) simp_all
  ultimately show "as_tuple sz fields = Some fields" "tuple_size sz fields = Some (length fields)"
    by (simp_all add: as_tuple_def tuple_size_def del: map_map)
qed

end
