(* ===== verification/Magic_Tuple.thy ===== *)
theory Magic_Tuple
  imports Magic_Get
begin

text \<open>
  Access to the members of a struct through the tuple of \<^verbatim>\<open>src/common/magic_get.hpp\<close>: \<open>sequence_tuple\<close> and \<open>schema::get\<close>.

  \<open>get\<close> reads a struct's memory as if it were a tuple, so that what it returns depends on where the compiler puts the members of a
  struct and the bases of a tuple.  Both follow the rule of the System V ABI for x86-64: members and non-empty bases in the order of
  declaration, each at the next multiple of its alignment, the size rounded up to the greatest alignment.  An object is its bytes.
\<close>

section \<open>Layout\<close>

primrec native_size :: "native \<Rightarrow> nat" where
  "native_size Unsigned_short = 2" | "native_size Unsigned_int = 4" | "native_size Unsigned_long_long = 8"
| "native_size Signed_char = 1" | "native_size Short = 2" | "native_size Int_t = 4" | "native_size Long_long = 8"
| "native_size Unsigned_char = 1" | "native_size Char = 1" | "native_size Wchar_t = 4" | "native_size Long = 8"
| "native_size Unsigned_long = 8" | "native_size Void_ptr = 8" | "native_size Const_void_ptr = 8" | "native_size Char16_t = 2"
| "native_size Char32_t = 4" | "native_size Float = 4" | "native_size Double_t = 8" | "native_size Long_double = 16"

primrec type_size :: "mtype \<Rightarrow> nat" where
  "type_size (Native n) = native_size n"
| "type_size (Ptr t) = 8"
| "type_size (Const_ptr t) = 8"

text \<open>Every registered type is aligned to its size.\<close>

definition type_align :: "mtype \<Rightarrow> nat" where
  "type_align t = type_size t"

record class_layout =
  offsets :: "nat list"
  sizeof :: nat
  alignof :: nat

definition round_up :: "nat \<Rightarrow> nat \<Rightarrow> nat" where
  "round_up n a = (n + a - 1) div a * a"

primrec place :: "(nat \<times> nat) list \<Rightarrow> nat \<Rightarrow> nat list \<times> nat" where
  "place [] n = ([], n)"
| "place (x # xs) n =
     (let p = round_up n (snd x); (ps, e) = place xs (p + fst x) in (p # ps, e))"

text \<open>The parts of a class, given by size and alignment.  A class without members has size 1.\<close>

definition lay_out :: "(nat \<times> nat) list \<Rightarrow> class_layout" where
  "lay_out parts =
     (let (ps, e) = place parts 0; a = fold max (map snd parts) 1 in
      \<lparr>offsets = ps, sizeof = round_up (max 1 e) a, alignof = a\<rparr>)"

definition struct_layout :: "mtype list \<Rightarrow> class_layout" where
  "struct_layout mems = lay_out (map (\<lambda>t. (type_size t, type_align t)) mems)"

section \<open>The tuple\<close>

text \<open>\<open>struct base_from_member { T value; }\<close>\<close>

definition base_from_member :: "mtype \<Rightarrow> class_layout" where
  "base_from_member t = lay_out [(type_size t, type_align t)]"

definition as_part :: "class_layout \<Rightarrow> nat \<times> nat" where
  "as_part l = (sizeof l, alignof l)"

text \<open>\<open>tuple_base\<close> inherits from one \<open>base_from_member\<close> per type, and \<open>tuple\<close> from \<open>tuple_base\<close>.\<close>

definition tuple_base :: "mtype list \<Rightarrow> class_layout" where
  "tuple_base ts = lay_out (map (as_part \<circ> base_from_member) ts)"

definition tuple_t :: "mtype list \<Rightarrow> class_layout" where
  "tuple_t ts = lay_out [as_part (tuple_base ts)]"

text \<open>\<open>get_impl\<close>: the conversion to the base with index \<open>n\<close>, then its member \<open>value\<close>.\<close>

definition get_impl :: "nat \<Rightarrow> mtype list \<Rightarrow> nat" where
  "get_impl n ts = hd (offsets (tuple_t ts)) + offsets (tuple_base ts) ! n + hd (offsets (base_from_member (ts ! n)))"

definition tuple_get :: "nat \<Rightarrow> mtype list \<Rightarrow> nat option" where
  "tuple_get n ts = (if n < length ts then Some (get_impl n ts) else None)"

section \<open>Members through the tuple\<close>

text \<open>\<open>as_tuple\<close> with its assertions on the alignment and the size of the tuple; \<open>array\<close> has \<open>sizeof(T)\<close> entries.\<close>

definition as_tuple_checked :: "mtype list \<Rightarrow> mtype list option" where
  "as_tuple_checked mems =
     Option.bind (as_tuple (sizeof (struct_layout mems)) mems) (\<lambda>ts.
       if alignof (tuple_t ts) = alignof (struct_layout mems) \<and> sizeof (tuple_t ts) = sizeof (struct_layout mems)
       then Some ts else None)"

definition bytes_at :: "nat \<Rightarrow> nat \<Rightarrow> byte list \<Rightarrow> byte list" where
  "bytes_at p n obj = take n (drop p obj)"

text \<open>\<open>schema::get\<close>: the type of the result and its bytes.\<close>

definition get_member :: "nat \<Rightarrow> mtype list \<Rightarrow> byte list \<Rightarrow> (mtype \<times> byte list) option" where
  "get_member n mems obj =
     Option.bind (as_tuple_checked mems) (\<lambda>ts.
     Option.bind (tuple_get n ts) (\<lambda>p.
       Some (ts ! n, bytes_at p (type_size (ts ! n)) obj)))"

text \<open>The program's own stores to the members of a struct, at the offsets of the struct.\<close>

definition store_at :: "nat \<times> byte list \<Rightarrow> byte list \<Rightarrow> byte list" where
  "store_at x obj = take (fst x) obj @ snd x @ drop (fst x + length (snd x)) obj"

definition store_members :: "mtype list \<Rightarrow> byte list list \<Rightarrow> byte list \<Rightarrow> byte list" where
  "store_members mems vals obj = fold store_at (zip (offsets (struct_layout mems)) vals) obj"

section \<open>Lemmas\<close>

lemma type_size_pos: "0 < type_size t"
proof (cases t)
  case (Native n)
  then show ?thesis by (cases n) simp_all
qed simp_all

lemma le_round_up: "0 < a \<Longrightarrow> n \<le> round_up n a"
  using div_mult_mod_eq [of "n + a - 1" a] mod_less_divisor [of a "n + a - 1"]
  unfolding round_up_def by linarith

lemma round_up_0: "round_up 0 a = 0"
  by (cases a) (simp_all add: round_up_def)

lemma round_up_mult: "0 < a \<Longrightarrow> round_up (k * a) a = k * a"
proof -
  assume a: "0 < a"
  have "(k * a + a - 1) div a = k"
    by (rule div_nat_eqI) (use a in \<open>simp_all add: algebra_simps\<close>)
  then show "round_up (k * a) a = k * a" by (simp add: round_up_def)
qed

lemma round_up_idem: "0 < a \<Longrightarrow> round_up (round_up n a) a = round_up n a"
  using round_up_mult [of a "(n + a - 1) div a"] by (simp add: round_up_def)

lemma length_place: "length (fst (place xs n)) = length xs"
  by (induction xs arbitrary: n) (simp_all add: Let_def split_beta)

text \<open>Parts are placed one behind the other, and behind the given start.\<close>

lemma place_bounds:
  assumes "\<forall>x\<in>set xs. 0 < snd x"
  shows "n \<le> snd (place xs n) \<and>
    (\<forall>i<length xs. n \<le> fst (place xs n) ! i \<and> fst (place xs n) ! i + fst (xs ! i) \<le> snd (place xs n))"
  using assms
proof (induction xs arbitrary: n)
  case (Cons x xs)
  let ?p = "round_up n (snd x)"
  have p: "n \<le> ?p" using Cons.prems by (simp add: le_round_up)
  have ih: "?p + fst x \<le> snd (place xs (?p + fst x))"
    "\<And>i. i < length xs \<Longrightarrow> ?p + fst x \<le> fst (place xs (?p + fst x)) ! i \<and>
       fst (place xs (?p + fst x)) ! i + fst (xs ! i) \<le> snd (place xs (?p + fst x))"
    using Cons.IH [of "?p + fst x"] Cons.prems by auto
  show ?case
    using p ih by (auto simp: Let_def split_beta nth_Cons split: nat.splits intro: order_trans) (meson add_leE order_trans)+
qed simp

lemma place_disjoint:
  assumes "\<forall>x\<in>set xs. 0 < snd x"
  shows "sorted_wrt (\<lambda>x y. fst x + snd x \<le> fst y) (zip (fst (place xs n)) (map fst xs))"
  using assms
proof (induction xs arbitrary: n)
  case (Cons x xs)
  let ?p = "round_up n (snd x)"
  have "?p + fst x \<le> q" if "q \<in> set (fst (place xs (?p + fst x)))" for q
    using that place_bounds [of xs "?p + fst x"] Cons.prems by (auto simp: in_set_conv_nth length_place)
  moreover have "sorted_wrt (\<lambda>x y. fst x + snd x \<le> fst y) (zip (fst (place xs (?p + fst x))) (map fst xs))"
    using Cons by simp
  ultimately show ?case
    by (auto simp: Let_def split_beta dest: set_zip_leftD)
qed simp

lemma end_le_sizeof:
  assumes "\<forall>x\<in>set parts. 0 < snd x"
  shows "snd (place parts 0) \<le> sizeof (lay_out parts)"
proof -
  have "1 \<le> fold max xs n" if "1 \<le> n" for xs and n :: nat
    using that by (induction xs arbitrary: n) (auto simp: le_max_iff_disj)
  then have "0 < fold max (map snd parts) 1" by (metis less_eq_Suc_le One_nat_def order_refl)
  then show ?thesis
    using le_round_up [of "fold max (map snd parts) 1" "max 1 (snd (place parts 0))"]
    by (simp add: lay_out_def Let_def split_beta)
qed

lemma alignof_pos: "0 < alignof (lay_out parts)"
proof -
  have "n \<le> fold max xs n" for xs and n :: nat
    by (induction xs arbitrary: n) (auto, meson max.cobounded2 order_trans)
  from this [of 1 "map snd parts"] show ?thesis by (simp add: lay_out_def Let_def split_beta)
qed

lemma lay_out_one:
  assumes "0 < a"
  shows "lay_out [(k * a, a)] = \<lparr>offsets = [0], sizeof = (if k = 0 then a else k * a), alignof = a\<rparr>"
proof -
  have "max 1 (k * a) = k * a" if "0 < k" using assms that by (simp add: max_def)
  moreover have "round_up 1 a = a" using assms round_up_mult [of a 1] by (simp add: round_up_def)
  ultimately show ?thesis
    using assms round_up_mult [OF assms, of k]
    by (cases "a = 1") (auto simp: lay_out_def round_up_0 max_def)
qed

lemma base_from_member_eq:
  "base_from_member t = \<lparr>offsets = [0], sizeof = type_size t, alignof = type_align t\<rparr>"
  using lay_out_one [of "type_size t" 1] type_size_pos [of t] by (simp add: base_from_member_def type_align_def)

lemma tuple_base_struct: "tuple_base ts = struct_layout ts"
  by (simp add: tuple_base_def struct_layout_def base_from_member_eq as_part_def comp_def)

lemma sizeof_multiple: "\<exists>k>0. sizeof (lay_out parts) = k * alignof (lay_out parts)"
proof -
  let ?a = "alignof (lay_out parts)" and ?s = "sizeof (lay_out parts)"
  obtain k where k: "?s = k * ?a" by (auto simp: lay_out_def Let_def split_beta round_up_def)
  have "1 \<le> ?s"
    using le_round_up [OF alignof_pos [of parts], of "max 1 (snd (place parts 0))"] by (simp add: lay_out_def Let_def split_beta)
  with k show ?thesis by (cases k) auto
qed

lemma tuple_t_eq:
  "tuple_t ts = \<lparr>offsets = [0], sizeof = sizeof (struct_layout ts), alignof = alignof (struct_layout ts)\<rparr>"
proof -
  obtain k where "0 < k" "sizeof (struct_layout ts) = k * alignof (struct_layout ts)"
    using sizeof_multiple unfolding struct_layout_def by blast
  then show ?thesis
    using lay_out_one [of "alignof (struct_layout ts)" k] alignof_pos
    by (simp add: tuple_t_def as_part_def tuple_base_struct) (simp add: struct_layout_def alignof_pos)
qed

lemma tuple_get_offset: "n < length ts \<Longrightarrow> tuple_get n ts = Some (offsets (struct_layout ts) ! n)"
  by (simp add: tuple_get_def get_impl_def tuple_t_eq tuple_base_struct base_from_member_eq)

text \<open>A struct has at least as many bytes as members, so that the array of identifiers is long enough.\<close>

lemma place_length: "\<forall>x\<in>set xs. 0 < fst x \<and> 0 < snd x \<Longrightarrow> n + length xs \<le> snd (place xs n)"
proof (induction xs arbitrary: n)
  case (Cons x xs)
  have "round_up n (snd x) + fst x + length xs \<le> snd (place xs (round_up n (snd x) + fst x))"
    using Cons by simp
  moreover have "n \<le> round_up n (snd x)" "0 < fst x" using Cons.prems by (simp_all add: le_round_up)
  ultimately show ?case by (simp add: Let_def split_beta)
qed simp

lemma fields_le_sizeof: "length mems \<le> sizeof (struct_layout mems)"
  using place_length [of "map (\<lambda>t. (type_size t, type_align t)) mems" 0]
    end_le_sizeof [of "map (\<lambda>t. (type_size t, type_align t)) mems"] type_size_pos
  by (simp add: struct_layout_def type_align_def)

text \<open>Stores that do not overlap can all be read back.\<close>

lemma length_store_at: "fst x + length (snd x) \<le> length obj \<Longrightarrow> length (store_at x obj) = length obj"
  by (simp add: store_at_def)

lemma bytes_at_store_same: "fst x + length (snd x) \<le> length obj \<Longrightarrow> bytes_at (fst x) (length (snd x)) (store_at x obj) = snd x"
  by (simp add: bytes_at_def store_at_def)

lemma bytes_at_store_below:
  "p + n \<le> fst x \<Longrightarrow> fst x + length (snd x) \<le> length obj \<Longrightarrow> bytes_at p n (store_at x obj) = bytes_at p n obj"
  by (simp add: bytes_at_def store_at_def take_drop min_def)

lemma bytes_at_fold_below:
  "\<forall>x\<in>set xs. p + n \<le> fst x \<and> fst x + length (snd x) \<le> length obj \<Longrightarrow> bytes_at p n (fold store_at xs obj) = bytes_at p n obj"
  by (induction xs arbitrary: obj) (simp_all add: bytes_at_store_below length_store_at)

lemma bytes_at_fold_stores:
  assumes "sorted_wrt (\<lambda>x y. fst x + length (snd x) \<le> fst y) xs"
    and "\<forall>x\<in>set xs. fst x + length (snd x) \<le> length obj" and "x \<in> set xs"
  shows "bytes_at (fst x) (length (snd x)) (fold store_at xs obj) = snd x"
  using assms
proof (induction xs arbitrary: obj)
  case (Cons y ys)
  have l: "length (store_at y obj) = length obj" using Cons.prems(2) by (simp add: length_store_at)
  show ?case
  proof (cases "x \<in> set ys")
    case True
    then show ?thesis using Cons l by simp
  next
    case False
    then have "x = y" using Cons.prems(3) by simp
    then show ?thesis
      using Cons.prems l bytes_at_fold_below [of ys "fst y" "length (snd y)" "store_at y obj"] bytes_at_store_same [of y obj] by simp
  qed
qed simp

lemma store_members_read:
  assumes len: "map length vals = map type_size mems" and obj: "length obj = sizeof (struct_layout mems)"
    and n: "n < length mems"
  shows "bytes_at (offsets (struct_layout mems) ! n) (type_size (mems ! n)) (store_members mems vals obj) = vals ! n"
proof -
  let ?parts = "map (\<lambda>t. (type_size t, type_align t)) mems"
  have pos: "\<forall>x\<in>set ?parts. 0 < snd x" by (auto simp: type_align_def type_size_pos)
  have ps: "offsets (struct_layout mems) = fst (place ?parts 0)"
    by (simp add: struct_layout_def lay_out_def Let_def split_beta)
  have lv: "length vals = length mems" using len map_eq_imp_length_eq by fastforce
  have sz: "length (vals ! i) = type_size (mems ! i)" if "i < length mems" for i
    using len lv that by (metis nth_map)
  let ?xs = "zip (fst (place ?parts 0)) vals"
  have "zip (fst (place ?parts 0)) (map fst ?parts) = map (\<lambda>x. (fst x, length (snd x))) ?xs"
    using lv sz by (intro nth_equalityI) (auto simp: length_place)
  then have "sorted_wrt (\<lambda>x y. fst x + length (snd x) \<le> fst y) ?xs"
    using place_disjoint [OF pos, of 0] by (simp add: sorted_wrt_map)
  moreover have "fst x + length (snd x) \<le> length obj" if x: "x \<in> set ?xs" for x
  proof -
    obtain i where "i < length mems" "x = (fst (place ?parts 0) ! i, vals ! i)"
      using x lv by (auto simp: set_zip length_place)
    then show ?thesis
      using place_bounds [OF pos, of 0] end_le_sizeof [OF pos] sz obj by (fastforce simp: struct_layout_def)
  qed
  moreover have "(fst (place ?parts 0) ! n, vals ! n) \<in> set ?xs"
    using n lv by (auto simp: set_zip length_place)
  ultimately show ?thesis
    using bytes_at_fold_stores [of ?xs obj "(fst (place ?parts 0) ! n, vals ! n)"] sz [OF n] by (simp add: store_members_def ps)
qed

section \<open>Properties\<close>

text \<open>C25.
  Reflection reads what the program stored: for a plain struct of registered types and pointers of up to 28 levels the assertions on
  the tuple's size and alignment hold, the tuple has the types of the members, and after the members have been assigned
  \<open>get\<close> with the index of a member gives the type and the bytes of that member, whatever the padding holds; an index past the last
  member is refused by the compiler.
\<close>

theorem get_returns_member:
  assumes "\<forall>t\<in>set mems. levels t \<le> 28" and "map length vals = map type_size mems"
    and "length obj = sizeof (struct_layout mems)"
  shows "as_tuple_checked mems = Some mems \<and>
    get_member n mems (store_members mems vals obj) = (if n < length mems then Some (mems ! n, vals ! n) else None)"
proof -
  have "as_tuple_checked mems = Some mems"
    using as_tuple_same [OF fields_le_sizeof assms(1)] by (simp add: as_tuple_checked_def tuple_t_eq)
  then show ?thesis
    using store_members_read [OF assms(2,3)] by (simp add: get_member_def tuple_get_offset) (simp add: tuple_get_def)
qed

theorem get_returns_member_witness:
  "get_member 1 [Native Char, Native Int_t] (store_members [Native Char, Native Int_t] [[7], [1, 2, 3, 4]] (replicate 8 255)) =
     Some (Native Int_t, [1, 2, 3, 4]) \<and>
   store_members [Native Char, Native Int_t] [[7], [1, 2, 3, 4]] (replicate 8 255) = [7, 255, 255, 255, 1, 2, 3, 4]"
proof -
  have l: "offsets (struct_layout [Native Char, Native Int_t]) = [0, 4]" "sizeof (struct_layout [Native Char, Native Int_t]) = 8"
    by (simp_all add: struct_layout_def lay_out_def type_align_def round_up_def)
  show ?thesis
    using get_returns_member [of "[Native Char, Native Int_t]" "[[7], [1, 2, 3, 4]]" "replicate 8 255" 1]
    by (simp add: l store_members_def store_at_def) (simp add: numeral_nat)
qed

end
