(* ===== verification/Tuple_Util.thy ===== *)
theory Tuple_Util
  imports Prelude
begin

text \<open>
  Index sequences and loops over tuples (\<^verbatim>\<open>src/common/tuple_util.hpp\<close>) and the number of members of a struct
  (\<^verbatim>\<open>src/common/trait.hpp\<close>).

  Template recursion is recursion on the parameter pack; an instantiation that never ends, or a call without a matching overload, is
  \<open>None\<close>.  A tuple is the list of its elements; the callable gets an element by reference, so that it returns the element it leaves
  there and its own new state.
\<close>

section \<open>Index sequences\<close>

primrec make_indexes_impl :: "'t list \<Rightarrow> int \<Rightarrow> int list \<Rightarrow> int list" where
  "make_indexes_impl [] i indexes = indexes"
| "make_indexes_impl (t # types) i indexes = make_indexes_impl types (i + 1) (indexes @ [i])"

definition make_indexes :: "'t list \<Rightarrow> int list" where
  "make_indexes types = make_indexes_impl types 0 []"

primrec make_indexes_reverse_impl :: "'t list \<Rightarrow> int \<Rightarrow> int list \<Rightarrow> int list" where
  "make_indexes_reverse_impl [] i indexes = indexes"
| "make_indexes_reverse_impl (t # types) i indexes = make_indexes_reverse_impl types (i - 1) (indexes @ [i - 1])"

definition make_reverse_indexes :: "'t list \<Rightarrow> int list" where
  "make_reverse_indexes types = make_indexes_reverse_impl types (int (length types)) []"

function make_indexes2 :: "int \<Rightarrow> int list \<Rightarrow> int list option" where
  "make_indexes2 n indexes =
     (if n = 0 then Some indexes else if n < 0 then None else make_indexes2 (n - 1) ((n - 1) # indexes))"
  by pat_completeness auto
termination by (relation "measure (\<lambda>(n, indexes). nat n)") auto

function make_indexes3 :: "int \<Rightarrow> int \<Rightarrow> int list \<Rightarrow> int list option" where
  "make_indexes3 last_i cur indexes =
     (if cur = last_i then Some indexes else if last_i < cur then None else make_indexes3 last_i (cur + 1) (indexes @ [cur]))"
  by pat_completeness auto
termination by (relation "measure (\<lambda>(last_i, cur, indexes). nat (last_i - cur))") auto

declare make_indexes2.simps [simp del] make_indexes3.simps [simp del]

section \<open>Loops over a tuple\<close>

text \<open>\<open>details::for_each_impl\<close> has no overload without elements.\<close>

fun for_each_impl :: "('a \<Rightarrow> 's \<Rightarrow> 'a \<times> 's) \<Rightarrow> 'a list \<Rightarrow> 's \<Rightarrow> ('a list \<times> 's) option" where
  "for_each_impl f [] s = None"
| "for_each_impl f [x] s = (let (x, s) = f x s in Some ([x], s))"
| "for_each_impl f (x # y # rest) s =
     (let (x, s) = f x s in map_option (\<lambda>(rest, s). (x # rest, s)) (for_each_impl f (y # rest) s))"

definition for_each_helper :: "('a \<Rightarrow> 's \<Rightarrow> 'a \<times> 's) \<Rightarrow> int list \<Rightarrow> 'a list \<Rightarrow> 's \<Rightarrow> ('a list \<times> 's) option" where
  "for_each_helper f indexes tup s = for_each_impl f (map (\<lambda>i. tup ! nat i) indexes) s"

text \<open>\<open>tp_for_each\<close> of an lvalue works on a copy of the tuple.\<close>

definition tp_for_each :: "('a \<Rightarrow> 's \<Rightarrow> 'a \<times> 's) \<Rightarrow> 'a list \<Rightarrow> 's \<Rightarrow> ('a list \<times> 's) option" where
  "tp_for_each f tup s = map_option (\<lambda>(copy, s). (tup, s)) (for_each_helper f (make_indexes tup) tup s)"

definition tp_for_each_rvalue :: "('a \<Rightarrow> 's \<Rightarrow> 'a \<times> 's) \<Rightarrow> 'a list \<Rightarrow> 's \<Rightarrow> ('a list \<times> 's) option" where
  "tp_for_each_rvalue f tup s = for_each_helper f (make_indexes tup) tup s"

primrec tuple_for_each :: "('a \<Rightarrow> 's \<Rightarrow> 'a \<times> 's) \<Rightarrow> 'a list \<Rightarrow> 's \<Rightarrow> 'a list \<times> 's" where
  "tuple_for_each f [] s = ([], s)"
| "tuple_for_each f (x # tup) s = (let (x, s) = f x s; (tup, s) = tuple_for_each f tup s in (x # tup, s))"

section \<open>Members of a struct\<close>

text \<open>\<open>T{args...}\<close> is well-formed for an aggregate when there are at most as many arguments as members.\<close>

function CountMember :: "nat \<Rightarrow> nat \<Rightarrow> nat" where
  "CountMember members args = (if \<not> args \<le> members then args - 1 else CountMember members (args + 1))"
  by pat_completeness auto
termination by (relation "measure (\<lambda>(members, args). members + 1 - args)") auto

declare CountMember.simps [simp del]

section \<open>Properties\<close>

lemma make_indexes_impl_eq: "make_indexes_impl types i indexes = indexes @ map (\<lambda>k. i + int k) [0..<length types]"
proof (induction types arbitrary: i indexes)
  case (Cons t types)
  have "map (\<lambda>k. i + int k) [0..<Suc (length types)] = i # map (\<lambda>k. i + 1 + int k) [0..<length types]"
    by (simp add: map_upt_Suc algebra_simps del: upt_Suc)
  then show ?case by (simp add: Cons.IH del: upt_Suc)
qed simp

lemma make_indexes_eq: "make_indexes types = map int [0..<length types]"
  by (simp add: make_indexes_def make_indexes_impl_eq)

lemma make_indexes_reverse_impl_eq:
  "make_indexes_reverse_impl types (int (length types)) indexes = indexes @ rev (map int [0..<length types])"
  by (induction types arbitrary: indexes) simp_all

lemma make_indexes2_eq: "make_indexes2 (int n) indexes = Some (map int [0..<n] @ indexes)"
  by (induction n arbitrary: indexes) (simp_all add: make_indexes2.simps)

lemma make_indexes3_eq: "make_indexes3 (int (m + n)) (int m) indexes = Some (indexes @ map int [m..<m + n])"
proof (induction n arbitrary: m indexes)
  case (Suc n)
  have "make_indexes3 (int (m + Suc n)) (int m) indexes = make_indexes3 (int (Suc m + n)) (int (Suc m)) (indexes @ [int m])"
    by (subst make_indexes3.simps) (simp add: add.commute)
  also have "\<dots> = Some (indexes @ map int [m..<m + Suc n])"
    using Suc.IH [of "Suc m" "indexes @ [int m]"] by (simp add: upt_conv_Cons del: upt_Suc)
  finally show ?case .
qed (simp add: make_indexes3.simps)

lemma CountMember_eq: "args \<le> members + 1 \<Longrightarrow> CountMember members args = members"
  by (induction members args rule: CountMember.induct) (subst CountMember.simps, auto)

lemma for_each_impl_eq: "tup \<noteq> [] \<Longrightarrow> for_each_impl f tup s = Some (tuple_for_each f tup s)"
  by (induction f tup s rule: for_each_impl.induct) (auto simp: Let_def split: prod.splits)

text \<open>  The three ways of making an index sequence agree, and give the indices of a tuple in order (the reversed one in reverse); a loop over
  a tuple with such a sequence calls the function on every element once and in order, like the fold over
  \<open>std::index_sequence\<close>; \<open>tp_for_each\<close> of an lvalue makes the same calls and leaves the tuple as it was, whatever the function does to
  the elements; \<open>CountMember\<close> counts the members.
\<close>

theorem index_sequences_agree:
  "make_indexes tup = map int [0..<length tup] \<and> make_reverse_indexes tup = rev (make_indexes tup) \<and>
   make_indexes2 (int (length tup)) [] = Some (make_indexes tup) \<and>
   make_indexes3 (int (length tup)) 0 [] = Some (make_indexes tup) \<and>
   tp_for_each_rvalue f tup s = (if tup = [] then None else Some (tuple_for_each f tup s)) \<and>
   tp_for_each f tup s = (if tup = [] then None else Some (tup, snd (tuple_for_each f tup s))) \<and>
   CountMember (length tup) 0 = length tup"
proof (intro conjI)
  have elems: "map (\<lambda>i. tup ! nat i) (make_indexes tup) = tup"
    by (simp add: make_indexes_eq comp_def map_nth)
  show "tp_for_each_rvalue f tup s = (if tup = [] then None else Some (tuple_for_each f tup s))"
    by (simp add: tp_for_each_rvalue_def for_each_helper_def elems for_each_impl_eq)
  show "tp_for_each f tup s = (if tup = [] then None else Some (tup, snd (tuple_for_each f tup s)))"
    by (simp add: tp_for_each_def for_each_helper_def elems for_each_impl_eq split: prod.split)
  show "make_indexes3 (int (length tup)) 0 [] = Some (make_indexes tup)"
    using make_indexes3_eq [of 0 "length tup" "[]"] by (simp add: make_indexes_eq)
qed (simp_all add: make_indexes_eq make_reverse_indexes_def make_indexes_reverse_impl_eq make_indexes2_eq CountMember_eq)

end
