(* ===== verification/Net_Address.thy ===== *)
theory Net_Address
  imports Itoa
begin

text \<open>
  Socket addresses (\<^verbatim>\<open>src/net/net_address.cc\<close>): \<open>IPAddress\<close> and \<open>UnixDomainAddress\<close>.

  \<open>inet_addr\<close> and \<open>inet_ntoa\<close> are parameters.  The host is little-endian.
\<close>

section \<open>IPv4 addresses\<close>

record sockaddr_in =
  sin_family :: u16
  sin_port :: u16
  s_addr :: u32

record ip_address =
  ip :: string
  port :: u16
  ip_addr :: sockaddr_in

definition AF_INET :: u16 where "AF_INET = 2"

definition AF_UNIX :: u16 where "AF_UNIX = 1"

definition INADDR_ANY :: u32 where "INADDR_ANY = 0"

definition htons :: "u16 \<Rightarrow> u16" where
  "htons p = push_bit 8 p OR drop_bit 8 p"

definition new_IPAddress :: "(string \<Rightarrow> u32) \<Rightarrow> string \<Rightarrow> u16 \<Rightarrow> ip_address" where
  "new_IPAddress inet_addr ip' port' =
     \<lparr>ip = ip', port = port', ip_addr = \<lparr>sin_family = AF_INET, sin_port = htons port', s_addr = inet_addr ip'\<rparr>\<rparr>"

definition IPAddress_of_sockaddr :: "(u32 \<Rightarrow> string) \<Rightarrow> sockaddr_in \<Rightarrow> ip_address" where
  "IPAddress_of_sockaddr inet_ntoa addr = \<lparr>ip = inet_ntoa (s_addr addr), port = htons (sin_port addr), ip_addr = addr\<rparr>"

definition IPAddress_any :: "u16 \<Rightarrow> ip_address" where
  "IPAddress_any port' =
     \<lparr>ip = [], port = port', ip_addr = \<lparr>sin_family = AF_INET, sin_port = htons port', s_addr = INADDR_ANY\<rparr>\<rparr>"

definition ip_getFamily :: "ip_address \<Rightarrow> u16" where
  "ip_getFamily a = sin_family (ip_addr a)"

definition ip_getSockAddr :: "ip_address \<Rightarrow> sockaddr_in" where
  "ip_getSockAddr a = ip_addr a"

text \<open>The stream inserts a number in decimal, zero as \<open>0\<close>.\<close>

definition show_nat :: "nat \<Rightarrow> string" where
  "show_nat n = (if n = 0 then ''0'' else dec n)"

definition ip_toString :: "ip_address \<Rightarrow> string" where
  "ip_toString a = ip a @ '':'' @ show_nat (unat (port a))"

section \<open>Unix domain addresses\<close>

text \<open>\<open>sun_path\<close> has 108 characters.\<close>

record unix_address =
  path :: string
  sun_family :: u16
  sun_path :: string

definition c_str :: "string \<Rightarrow> string" where
  "c_str s = takeWhile (\<lambda>c. c \<noteq> CHR 0x00) s"

definition strcpy :: "string \<Rightarrow> string \<Rightarrow> string res" where
  "strcpy dst src =
     (if length (c_str src) < length dst then Inr (c_str src @ CHR 0x00 # drop (Suc (length (c_str src))) dst) else Inl Out_of_bounds)"

definition new_UnixDomainAddress :: "string \<Rightarrow> unix_address res" where
  "new_UnixDomainAddress path' =
     bindE (strcpy (replicate 108 (CHR 0x00)) path') (\<lambda>sp. Inr \<lparr>path = path', sun_family = AF_UNIX, sun_path = sp\<rparr>)"

definition UnixDomainAddress_of_sockaddr :: "u16 \<Rightarrow> string \<Rightarrow> unix_address" where
  "UnixDomainAddress_of_sockaddr family sp = \<lparr>path = c_str sp, sun_family = family, sun_path = sp\<rparr>"

definition unix_toString :: "unix_address \<Rightarrow> string" where
  "unix_toString a = path a"

section \<open>Properties\<close>

lemma htons_htons: "htons (htons p) = p"
proof (rule bit_word_eqI)
  fix n assume "n < LENGTH(16)"
  then have "n < 16" by simp
  then show "bit (htons (htons p)) n = bit p n"
    using bit_imp_le_length [of p "n + 8"] bit_imp_le_length [of p "16 + n"]
    by (cases "n < 8") (auto simp: htons_def bit_or_iff bit_push_bit_iff bit_drop_bit_eq dest: bit_imp_le_length)
qed

lemma show_nat_reads_back: "read_nat (show_nat n) = n"
  by (simp add: show_nat_def read_nat_dec) (simp add: read_nat_def digit_val_def)

lemma show_nat_no_colon: "CHR '':'' \<notin> set (show_nat n)"
proof -
  have "digit_char d \<noteq> CHR '':''" if "d < 10" for d
    using that by (auto simp: digit_char_def less_Suc_eq numeral_eq_Suc)
  moreover have "\<forall>d\<in>set (rev_digits 10 n). d < 10"
    using rev_digits_less [of 10 _ n] by simp
  ultimately have "CHR '':'' \<notin> digit_char ` set (rev_digits 10 n)" by fastforce
  then show ?thesis by (simp add: show_nat_def dec_def)
qed

text \<open>  An address survives the socket interface: the address made from the \<open>sockaddr\<close> of an \<open>IPAddress\<close> has its text, family and port,
  provided that \<open>inet_ntoa\<close> gives the text of what \<open>inet_addr\<close> read; the port is stored in network order, and the text of the
  address is split uniquely at its last colon into the host and a number that reads as the port.
\<close>

theorem ip_address_roundtrip:
  assumes "inet_ntoa (inet_addr host) = host"
  shows "let a = new_IPAddress inet_addr host p; b = IPAddress_of_sockaddr inet_ntoa (ip_getSockAddr a) in
    b = a \<and> ip_toString b = host @ '':'' @ show_nat (unat p) \<and> CHR '':'' \<notin> set (show_nat (unat p)) \<and>
    read_nat (show_nat (unat p)) = unat p \<and> sin_port (ip_getSockAddr a) = htons p \<and> ip_getFamily b = AF_INET"
  using assms
  by (simp add: new_IPAddress_def IPAddress_of_sockaddr_def ip_getSockAddr_def ip_getFamily_def ip_toString_def htons_htons
      show_nat_reads_back show_nat_no_colon)

theorem ip_address_roundtrip_witness:
  "IPAddress_of_sockaddr (\<lambda>a. ''127.0.0.1'') (ip_getSockAddr (new_IPAddress (\<lambda>s. 16777343) ''127.0.0.1'' 8080)) =
   new_IPAddress (\<lambda>s. 16777343) ''127.0.0.1'' 8080"
  using ip_address_roundtrip [of "\<lambda>a. ''127.0.0.1''" "\<lambda>s. 16777343" "''127.0.0.1''" 8080] by (simp add: Let_def)

text \<open>
  A path that, with its terminator, fits the 108 characters of \<open>sun_path\<close> is read back; a longer one is written past the end.
\<close>

lemma unix_address_roundtrip:
  assumes "CHR 0x00 \<notin> set p"
  shows "length p < 108 \<Longrightarrow> \<exists>a. new_UnixDomainAddress p = Inr a \<and> UnixDomainAddress_of_sockaddr (sun_family a) (sun_path a) = a"
    and "108 \<le> length p \<Longrightarrow> new_UnixDomainAddress p = Inl Out_of_bounds"
proof -
  have c: "c_str p = p"
    using assms by (auto simp: c_str_def takeWhile_eq_all_conv)
  have "takeWhile (\<lambda>c. c \<noteq> CHR 0x00) (p @ CHR 0x00 # xs) = p" for xs
    using assms by (subst takeWhile_append2) auto
  then show "length p < 108 \<Longrightarrow> \<exists>a. new_UnixDomainAddress p = Inr a \<and> UnixDomainAddress_of_sockaddr (sun_family a) (sun_path a) = a"
    by (simp add: new_UnixDomainAddress_def UnixDomainAddress_of_sockaddr_def strcpy_def c) (simp add: c_str_def)
  show "108 \<le> length p \<Longrightarrow> new_UnixDomainAddress p = Inl Out_of_bounds"
    by (simp add: new_UnixDomainAddress_def strcpy_def c)
qed

end
