(* ===== verification/Echo_Server.thy ===== *)
theory Echo_Server
  imports Sys
begin

text \<open>
  The echo server of \<^verbatim>\<open>src/lab1/echo_server.cc\<close>: the handlers of a ready descriptor and one pass of each of its two event loops.
  What the handlers log is left out.
\<close>

section \<open>Handlers\<close>

definition EPOLLRDHUP :: u32 where "EPOLLRDHUP = 8192"

definition OnPeerClose :: "'k sys \<Rightarrow> int \<Rightarrow> 'k \<Rightarrow> 'k" where
  "OnPeerClose S connfd k = sys_close S connfd k"

definition OnWrite :: "'k sys \<Rightarrow> int \<Rightarrow> 'k \<Rightarrow> 'k" where
  "OnWrite S connfd k = k"

definition OnRead :: "'k sys \<Rightarrow> int \<Rightarrow> 'k \<Rightarrow> 'k" where
  "OnRead S connfd k =
     (let ((r, buf), k) = sys_read S connfd 1024 k in
      if rt r = 0 \<or> rt r = -1 then sys_close S connfd k
      else snd (sys_write S connfd (take (nat (rt r)) buf) k))"

text \<open>\<open>data.fd\<close> is the signed lower half of the union.\<close>

definition event_fd :: "epoll_event \<Rightarrow> int" where
  "event_fd ev = sint (ucast (data ev) :: 32 word)"

definition worker_event :: "'k sys \<Rightarrow> epoll_event \<Rightarrow> 'k \<Rightarrow> 'k" where
  "worker_event S ev k =
     (if events ev = EPOLLRDHUP OR EPOLLIN then OnPeerClose S (event_fd ev) k
      else if events ev = EPOLLIN then OnRead S (event_fd ev) k
      else if events ev = EPOLLOUT then OnWrite S (event_fd ev) k
      else k)"

definition WorkerEventLoop_body :: "'k sys \<Rightarrow> int \<Rightarrow> 'k \<Rightarrow> 'k" where
  "WorkerEventLoop_body S workerEpfd k =
     (let ((nready, ev), k) = sys_epoll_wait S workerEpfd 1024 0 k in
      fold (worker_event S) (take (nat nready) ev) k)"

text \<open>The listener registers whatever \<open>accept\<close> returned, also \<open>-1\<close>.\<close>

definition listener_event :: "'k sys \<Rightarrow> int \<Rightarrow> int \<Rightarrow> 'k \<Rightarrow> 'k" where
  "listener_event S listen_fd workerEpfd k =
     (let (r, k) = sys_accept S listen_fd k; conn_fd = rt r in
      snd (sys_epoll_ctl S workerEpfd EPOLL_CTL_ADD conn_fd
        (Some \<lparr>events = EPOLLIN OR EPOLLRDHUP OR EPOLLET, data = ucast (word_of_int conn_fd :: 32 word)\<rparr>) k))"

definition ListenerEventLoop_body :: "'k sys \<Rightarrow> int \<Rightarrow> int \<Rightarrow> int \<Rightarrow> 'k \<Rightarrow> 'k" where
  "ListenerEventLoop_body S listenerEpfd listen_fd workerEpfd k =
     (let ((nready, ev), k) = sys_epoll_wait S listenerEpfd 1024 0 k in
      (listener_event S listen_fd workerEpfd ^^ nat nready) k)"

text \<open>\<open>running_\<close> is set by \<open>start\<close> and cleared nowhere: the loops repeat their pass, here \<open>n\<close> times.\<close>

definition WorkerEventLoop :: "nat \<Rightarrow> 'k sys \<Rightarrow> int \<Rightarrow> 'k \<Rightarrow> 'k" where
  "WorkerEventLoop n S workerEpfd = (WorkerEventLoop_body S workerEpfd ^^ n)"

definition ListenerEventLoop :: "nat \<Rightarrow> 'k sys \<Rightarrow> int \<Rightarrow> int \<Rightarrow> int \<Rightarrow> 'k \<Rightarrow> 'k" where
  "ListenerEventLoop n S listenerEpfd listen_fd workerEpfd = (ListenerEventLoop_body S listenerEpfd listen_fd workerEpfd ^^ n)"

section \<open>Construction and start\<close>

text \<open>The results of \<open>socket\<close> and \<open>bind\<close> decide; a failure aborts.\<close>

definition new_EchoServer :: "int \<Rightarrow> int \<Rightarrow> int res" where
  "new_EchoServer sock bind_rt =
     bindE (guardE (sock \<noteq> -1) Assert_failed) (\<lambda>_. bindE (guardE (bind_rt = 0) Assert_failed) (\<lambda>_. Inr sock))"

text \<open>\<open>start\<close> up to the two threads: its error, or the descriptors \<open>listenerEpfd_\<close> and \<open>workerEpfd_\<close> the loops use.\<close>

definition echo_start :: "'k sys \<Rightarrow> int \<Rightarrow> int \<Rightarrow> 'k \<Rightarrow> (int + int \<times> int) \<times> 'k" where
  "echo_start S fd listen_rt k =
     (if listen_rt \<noteq> 0 then (Inl listen_rt, k)
      else
        let (listenerEpfd, k) = sys_epoll_create S k;
            (err, k) = sys_epoll_ctl S listenerEpfd EPOLL_CTL_ADD fd
              (Some \<lparr>events = EPOLLIN, data = ucast (word_of_int fd :: 32 word)\<rparr>) k in
        if err \<noteq> 0 then (Inl err, k)
        else let (workerEpfd, k) = sys_epoll_create S k in (Inr (listenerEpfd, workerEpfd), k))"

section \<open>What is echoed\<close>

text \<open>
  Stream sockets: the bytes that have arrived on a descriptor and are not yet read, those that were sent, the descriptors that were closed.
\<close>

record 'k streams =
  arrived :: "'k \<Rightarrow> int \<Rightarrow> byte list"
  sent :: "'k \<Rightarrow> int \<Rightarrow> byte list"
  closed :: "'k \<Rightarrow> int set"

definition same_on :: "'k streams \<Rightarrow> int \<Rightarrow> 'k \<Rightarrow> 'k \<Rightarrow> bool" where
  "same_on T fd k k' \<longleftrightarrow> arrived T k' fd = arrived T k fd \<and> sent T k' fd = sent T k fd \<and> (fd \<in> closed T k' \<longleftrightarrow> fd \<in> closed T k)"

text \<open>
  After the manual pages: \<open>read\<close> takes a number of bytes from the front of what has arrived, or returns 0 or -1; \<open>write\<close> accepts a
  prefix of what it is given, possibly none of it, or fails with -1; \<open>close\<close> closes.  None of them concerns another descriptor.
\<close>

definition stream_spec :: "'k sys \<Rightarrow> 'k streams \<Rightarrow> bool" where
  "stream_spec S T \<longleftrightarrow>
     (\<forall>fd n k. case sys_read S fd n k of ((r, bs), k') \<Rightarrow>
        (\<forall>x. x \<noteq> fd \<longrightarrow> same_on T x k k') \<and> sent T k' fd = sent T k fd \<and> (fd \<in> closed T k' \<longleftrightarrow> fd \<in> closed T k) \<and> -1 \<le> rt r \<and>
        nat (rt r) \<le> n \<and> nat (rt r) \<le> length (arrived T k fd) \<and> bs = take (nat (rt r)) (arrived T k fd) \<and>
        arrived T k' fd = drop (nat (rt r)) (arrived T k fd)) \<and>
     (\<forall>fd bs k. case sys_write S fd bs k of (r, k') \<Rightarrow>
        (\<forall>x. x \<noteq> fd \<longrightarrow> same_on T x k k') \<and> arrived T k' fd = arrived T k fd \<and> (fd \<in> closed T k' \<longleftrightarrow> fd \<in> closed T k) \<and>
        -1 \<le> rt r \<and> nat (rt r) \<le> length bs \<and> sent T k' fd = sent T k fd @ take (nat (rt r)) bs) \<and>
     (\<forall>fd k. (\<forall>x. x \<noteq> fd \<longrightarrow> same_on T x k (sys_close S fd k)) \<and> sent T (sys_close S fd k) fd = sent T k fd \<and>
        fd \<in> closed T (sys_close S fd k))"

text \<open>
  A readable connection was served: some read took \<open>m\<close> bytes off it, and what a write of exactly these bytes accepts was sent; with no
  byte read it was closed.
\<close>

definition echoed :: "'k sys \<Rightarrow> 'k streams \<Rightarrow> int \<Rightarrow> 'k \<Rightarrow> 'k \<Rightarrow> bool" where
  "echoed S T fd k k' \<longleftrightarrow>
     (\<exists>k1 k2 m. m = nat (rt (fst (fst (sys_read S fd 1024 k1)))) \<and> m \<le> 1024 \<and> m \<le> length (arrived T k fd) \<and>
        (if m = 0 then sent T k' fd = sent T k fd \<and> fd \<in> closed T k'
         else arrived T k' fd = drop m (arrived T k fd) \<and> (fd \<in> closed T k' \<longleftrightarrow> fd \<in> closed T k) \<and>
           sent T k' fd = sent T k fd @
             take (nat (rt (fst (sys_write S fd (take m (arrived T k fd)) k2)))) (take m (arrived T k fd))))"

text \<open>What one event does to its own connection.\<close>

definition served :: "'k sys \<Rightarrow> 'k streams \<Rightarrow> u32 \<Rightarrow> int \<Rightarrow> 'k \<Rightarrow> 'k \<Rightarrow> bool" where
  "served S T evm fd k k' \<longleftrightarrow>
     (if evm = EPOLLRDHUP OR EPOLLIN then sent T k' fd = sent T k fd \<and> fd \<in> closed T k'
      else if evm = EPOLLIN then echoed S T fd k k' else same_on T fd k k')"

lemma stream_specD:
  assumes "stream_spec S T"
  shows "sys_read S fd n k = ((r, bs), k') \<Longrightarrow>
        (\<forall>x. x \<noteq> fd \<longrightarrow> same_on T x k k') \<and> sent T k' fd = sent T k fd \<and> (fd \<in> closed T k' \<longleftrightarrow> fd \<in> closed T k) \<and> -1 \<le> rt r \<and>
        nat (rt r) \<le> n \<and> nat (rt r) \<le> length (arrived T k fd) \<and> bs = take (nat (rt r)) (arrived T k fd) \<and>
        arrived T k' fd = drop (nat (rt r)) (arrived T k fd)"
    and "sys_write S fd bs k = (r, k') \<Longrightarrow>
        (\<forall>x. x \<noteq> fd \<longrightarrow> same_on T x k k') \<and> arrived T k' fd = arrived T k fd \<and> (fd \<in> closed T k' \<longleftrightarrow> fd \<in> closed T k) \<and>
        sent T k' fd = sent T k fd @ take (nat (rt r)) bs"
    and "(\<forall>x. x \<noteq> fd \<longrightarrow> same_on T x k (sys_close S fd k)) \<and> sent T (sys_close S fd k) fd = sent T k fd \<and> fd \<in> closed T (sys_close S fd k)"
proof -
  have rd: "\<forall>fd n k. case sys_read S fd n k of ((r, bs), k') \<Rightarrow>
        (\<forall>x. x \<noteq> fd \<longrightarrow> same_on T x k k') \<and> sent T k' fd = sent T k fd \<and> (fd \<in> closed T k' \<longleftrightarrow> fd \<in> closed T k) \<and> -1 \<le> rt r \<and>
        nat (rt r) \<le> n \<and> nat (rt r) \<le> length (arrived T k fd) \<and> bs = take (nat (rt r)) (arrived T k fd) \<and>
        arrived T k' fd = drop (nat (rt r)) (arrived T k fd)"
    and wr: "\<forall>fd bs k. case sys_write S fd bs k of (r, k') \<Rightarrow>
        (\<forall>x. x \<noteq> fd \<longrightarrow> same_on T x k k') \<and> arrived T k' fd = arrived T k fd \<and> (fd \<in> closed T k' \<longleftrightarrow> fd \<in> closed T k) \<and>
        -1 \<le> rt r \<and> nat (rt r) \<le> length bs \<and> sent T k' fd = sent T k fd @ take (nat (rt r)) bs"
    and cl: "\<forall>fd k. (\<forall>x. x \<noteq> fd \<longrightarrow> same_on T x k (sys_close S fd k)) \<and> sent T (sys_close S fd k) fd = sent T k fd \<and>
        fd \<in> closed T (sys_close S fd k)"
    using assms by (simp_all add: stream_spec_def)
  show "sys_read S fd n k = ((r, bs), k') \<Longrightarrow>
        (\<forall>x. x \<noteq> fd \<longrightarrow> same_on T x k k') \<and> sent T k' fd = sent T k fd \<and> (fd \<in> closed T k' \<longleftrightarrow> fd \<in> closed T k) \<and> -1 \<le> rt r \<and>
        nat (rt r) \<le> n \<and> nat (rt r) \<le> length (arrived T k fd) \<and> bs = take (nat (rt r)) (arrived T k fd) \<and>
        arrived T k' fd = drop (nat (rt r)) (arrived T k fd)"
    using spec [OF spec [OF spec [OF rd, of fd], of n], of k] by simp
  show "sys_write S fd bs k = (r, k') \<Longrightarrow>
        (\<forall>x. x \<noteq> fd \<longrightarrow> same_on T x k k') \<and> arrived T k' fd = arrived T k fd \<and> (fd \<in> closed T k' \<longleftrightarrow> fd \<in> closed T k) \<and>
        sent T k' fd = sent T k fd @ take (nat (rt r)) bs"
    using spec [OF spec [OF spec [OF wr, of fd], of bs], of k] by simp
  show "(\<forall>x. x \<noteq> fd \<longrightarrow> same_on T x k (sys_close S fd k)) \<and> sent T (sys_close S fd k) fd = sent T k fd \<and> fd \<in> closed T (sys_close S fd k)"
    using cl by blast
qed

lemma same_on_trans: "same_on T fd k1 k2 \<Longrightarrow> same_on T fd k2 k3 \<Longrightarrow> same_on T fd k1 k3"
  by (simp add: same_on_def)

lemma OnRead_echoes:
  assumes "stream_spec S T"
  shows "echoed S T fd k (OnRead S fd k)" and "x \<noteq> fd \<Longrightarrow> same_on T x k (OnRead S fd k)"
proof -
  obtain r bs k1 where rd: "sys_read S fd 1024 k = ((r, bs), k1)" by (metis prod.exhaust)
  note R = stream_specD(1) [OF assms rd] and C = stream_specD(3) [OF assms, of fd k1]
  let ?m = "nat (rt r)"
  have m: "?m = nat (rt (fst (fst (sys_read S fd 1024 k))))" using rd by simp
  have "echoed S T fd k (OnRead S fd k) \<and> (x \<noteq> fd \<longrightarrow> same_on T x k (OnRead S fd k))"
  proof (cases "rt r = 0 \<or> rt r = -1")
    case True
    then have "OnRead S fd k = sys_close S fd k1" using rd by (simp add: OnRead_def)
    then show ?thesis
      using R C True m same_on_trans [of T x k k1] unfolding echoed_def
      by (auto intro!: exI [of _ k])
  next
    case False
    then have pos: "?m \<noteq> 0" using R by auto
    obtain r' k2 where wr: "sys_write S fd (take ?m bs) k1 = (r', k2)" by fastforce
    have bs: "take ?m bs = take ?m (arrived T k fd)" using R by simp
    have "OnRead S fd k = k2" using rd wr False by (simp add: OnRead_def)
    moreover have "echoed S T fd k k2"
      unfolding echoed_def
      by (rule exI [of _ k], rule exI [of _ k1], rule exI [of _ ?m])
        (use R stream_specD(2) [OF assms wr] m pos wr bs in simp)
    ultimately show ?thesis using R stream_specD(2) [OF assms wr] same_on_trans [of T x k k1 k2] by auto
  qed
  then show "echoed S T fd k (OnRead S fd k)" and "x \<noteq> fd \<Longrightarrow> same_on T x k (OnRead S fd k)" by simp_all
qed

lemma worker_event_serves:
  assumes "stream_spec S T"
  shows "served S T (events ev) (event_fd ev) k (worker_event S ev k)"
    and "x \<noteq> event_fd ev \<Longrightarrow> same_on T x k (worker_event S ev k)"
  using OnRead_echoes(1) [OF assms, of "event_fd ev" k] OnRead_echoes(2) [OF assms, of x "event_fd ev" k] stream_specD(3) [OF assms, of "event_fd ev" k]
  by (auto simp: served_def worker_event_def OnPeerClose_def OnWrite_def same_on_def)

lemma echoed_same:
  "same_on T fd k k1 \<Longrightarrow> echoed S T fd k1 k' = echoed S T fd k k'" "same_on T fd k1 k' \<Longrightarrow> echoed S T fd k k' = echoed S T fd k k1"
  by (simp_all add: echoed_def same_on_def)

lemma served_same_before:
  "same_on T fd k k1 \<Longrightarrow> served S T evm fd k1 k' \<Longrightarrow> served S T evm fd k k'"
  unfolding served_def using echoed_same(1) [of T fd k k1 S k'] same_on_trans [of T fd k k1 k']
  by (simp add: same_on_def split: if_splits)

lemma served_same_after:
  "served S T evm fd k k1 \<Longrightarrow> same_on T fd k1 k' \<Longrightarrow> served S T evm fd k k'"
  unfolding served_def using echoed_same(2) [of T fd k1 k' S k] same_on_trans [of T fd k k1 k']
  by (simp add: same_on_def split: if_splits)

lemma worker_events_serve:
  assumes "stream_spec S T"
  shows "distinct (map event_fd evs) \<Longrightarrow>
    (\<forall>ev\<in>set evs. served S T (events ev) (event_fd ev) k (fold (worker_event S) evs k)) \<and>
    (\<forall>fd. fd \<notin> event_fd ` set evs \<longrightarrow> same_on T fd k (fold (worker_event S) evs k))"
proof (induction evs arbitrary: k)
  case (Cons ev evs)
  let ?k = "worker_event S ev k" let ?k' = "fold (worker_event S) evs ?k"
  have ev: "event_fd ev \<notin> event_fd ` set evs" and d: "distinct (map event_fd evs)" using Cons.prems by simp_all
  note w = worker_event_serves(1) [OF assms, of ev k] worker_event_serves(2) [OF assms, where ev = ev and k = k]
  have ih: "\<forall>e\<in>set evs. served S T (events e) (event_fd e) ?k ?k'" "\<forall>fd. fd \<notin> event_fd ` set evs \<longrightarrow> same_on T fd ?k ?k'"
    using Cons.IH [OF d, of ?k] by simp_all
  have "served S T (events ev) (event_fd ev) k ?k'" using served_same_after [OF w(1)] ih(2) ev by blast
  moreover have "\<forall>e\<in>set evs. served S T (events e) (event_fd e) k ?k'"
  proof
    fix e assume "e \<in> set evs"
    then have "event_fd e \<noteq> event_fd ev" using ev by (metis image_eqI)
    then show "served S T (events e) (event_fd e) k ?k'"
      using served_same_before [OF w(2)] ih(1) \<open>e \<in> set evs\<close> by blast
  qed
  moreover have "\<forall>fd. fd \<notin> event_fd ` set (ev # evs) \<longrightarrow> same_on T fd k ?k'"
    using w(2) ih(2) by (auto intro: same_on_trans [OF w(2)])
  ultimately show ?case by simp
qed (simp add: same_on_def)

text \<open>C33.
  One pass of the worker, whatever events \<open>epoll_wait\<close> reports, each for another connection, and whatever reads and writes fail or are cut short.  A
  connection reported as readable (\<open>EPOLLIN\<close> and nothing else) has at most 1024 bytes taken off what had arrived, and a write of exactly these bytes is made:
  what it accepts is appended to what was sent there, and the rest is dropped, as the result of \<open>write\<close> is ignored; when no byte could be read the connection is closed.  A
  connection reported as readable and shut down by its peer is closed.  Every other connection, reported with other events or not at all, is left alone.
\<close>

theorem worker_pass_echoes:
  assumes "stream_spec S T" and "sys_epoll_wait S ep 1024 0 k = ((int (length evs), evs), k')"
    and "distinct (map event_fd evs)"
  shows "(\<forall>ev\<in>set evs. served S T (events ev) (event_fd ev) k' (WorkerEventLoop_body S ep k)) \<and>
    (\<forall>fd. fd \<notin> event_fd ` set evs \<longrightarrow> same_on T fd k' (WorkerEventLoop_body S ep k))"
  using worker_events_serve [OF assms(1,3), of k'] assms(2) by (simp add: WorkerEventLoop_body_def)

text \<open>A kernel with the connection 7 readable, whose writes take at most one byte.\<close>

record echo_kernel =
  ek_arrived :: "int \<Rightarrow> byte list"
  ek_sent :: "int \<Rightarrow> byte list"
  ek_closed :: "int list"

definition echo_sys :: "echo_kernel sys" where
  "echo_sys =
     \<lparr>sys_gettid = (\<lambda>k. 1), sys_gettimeofday = (\<lambda>k. ((0, 0), k)), sys_epoll_create = (\<lambda>k. (3, k)), sys_eventfd = (\<lambda>k. (4, k)),
      sys_epoll_ctl = (\<lambda>ep oper fd e k. (0, k)),
      sys_epoll_wait = (\<lambda>ep n t k. ((1, [\<lparr>events = EPOLLIN, data = 7\<rparr>]), k)),
      sys_read = (\<lambda>fd n k. ((\<lparr>rt = int (min n (length (ek_arrived k fd))), errno = 0\<rparr>, take n (ek_arrived k fd)),
        k\<lparr>ek_arrived := (ek_arrived k)(fd := drop n (ek_arrived k fd))\<rparr>)),
      sys_write = (\<lambda>fd bs k. (\<lparr>rt = int (min 1 (length bs)), errno = 0\<rparr>, k\<lparr>ek_sent := (ek_sent k)(fd := ek_sent k fd @ take 1 bs)\<rparr>)),
      sys_timerfd_create = (\<lambda>k. (5, k)), sys_timerfd_settime = (\<lambda>fd t k. (0, k)), sys_fcntl_get = (\<lambda>fd k. (0, k)),
      sys_fcntl_set = (\<lambda>fd f k. k), sys_accept = (\<lambda>fd k. (\<lparr>rt = 7, errno = 0\<rparr>, k)), sys_connect = (\<lambda>fd k. (\<lparr>rt = 0, errno = 0\<rparr>, k)),
      sys_close = (\<lambda>fd k. k\<lparr>ek_closed := fd # ek_closed k\<rparr>), sys_shutdown = (\<lambda>fd k. k)\<rparr>"

definition echo_streams :: "echo_kernel streams" where
  "echo_streams = \<lparr>arrived = ek_arrived, sent = ek_sent, closed = (\<lambda>k. set (ek_closed k))\<rparr>"

lemma echo_stream_spec: "stream_spec echo_sys echo_streams"
  by (auto simp: stream_spec_def echo_sys_def echo_streams_def same_on_def min_def)

theorem worker_pass_echoes_witness:
  "served echo_sys echo_streams EPOLLIN 7 \<lparr>ek_arrived = (\<lambda>_. [])(7 := [104, 105]), ek_sent = \<lambda>_. [], ek_closed = []\<rparr>
     (WorkerEventLoop_body echo_sys 3 \<lparr>ek_arrived = (\<lambda>_. [])(7 := [104, 105]), ek_sent = \<lambda>_. [], ek_closed = []\<rparr>) \<and>
   ek_sent (WorkerEventLoop_body echo_sys 3 \<lparr>ek_arrived = (\<lambda>_. [])(7 := [104, 105]), ek_sent = \<lambda>_. [], ek_closed = []\<rparr>) 7 = [104]"
proof -
  let ?k = "\<lparr>ek_arrived = (\<lambda>_. [])(7 := [104, 105]), ek_sent = \<lambda>_. [], ek_closed = []\<rparr>"
  let ?evs = "[\<lparr>events = EPOLLIN, data = 7\<rparr>]"
  have w: "sys_epoll_wait echo_sys 3 1024 0 ?k = ((int (length ?evs), ?evs), ?k)" by (simp add: echo_sys_def)
  have "event_fd \<lparr>events = EPOLLIN, data = 7\<rparr> = 7" by (simp add: event_fd_def)
  with worker_pass_echoes [OF echo_stream_spec w]
  have "served echo_sys echo_streams EPOLLIN 7 ?k (WorkerEventLoop_body echo_sys 3 ?k)" by simp
  moreover have "ek_sent (WorkerEventLoop_body echo_sys 3 ?k) 7 = [104]"
    by (simp add: WorkerEventLoop_body_def worker_event_def OnRead_def event_fd_def echo_sys_def EPOLLIN_def EPOLLRDHUP_def)
  ultimately show ?thesis by simp
qed

section \<open>Events that are ignored\<close>

text \<open>
  The mask is compared as a whole: an event with another combination of bits, such as a reset connection
  (\<open>EPOLLIN | EPOLLERR | EPOLLHUP | EPOLLRDHUP\<close>), is ignored, and its descriptor stays open; data that arrives together with the end
  of the stream is closed over unread.
\<close>

lemma reset_ignored: "events ev = 8217 \<Longrightarrow> worker_event S ev k = k"
  by (simp add: worker_event_def EPOLLIN_def EPOLLOUT_def EPOLLRDHUP_def)

lemma last_data_dropped: "events ev = EPOLLRDHUP OR EPOLLIN \<Longrightarrow> worker_event S ev k = sys_close S (event_fd ev) k"
  by (simp add: worker_event_def OnPeerClose_def)

end
