(* ===== verification/Event.thy ===== *)
theory Event
  imports Prelude
begin

text \<open>
  \<open>async::event\<close> of \<^verbatim>\<open>src/async/event.hpp\<close> and \<^verbatim>\<open>src/async/event.cc\<close>: a flag on which coroutines wait.

  The \<open>void*\<close> in \<open>state_\<close> is \<open>this\<close> when the event is set and otherwise the head of a list of awaiters linked
  through \<open>next_\<close>.  Awaiters are addresses in a memory; the operations are the atomic accesses of the code, so
  that the step relation at the end can interleave any number of threads.  What resuming a coroutine does is a
  parameter of \<open>set\<close>.  The list loops take fuel, since a cyclic list would keep them running.
\<close>

section \<open>State\<close>

type_synonym awaiter_addr = nat

datatype ptr = This | Null | Aw awaiter_addr

datatype resume_order_policy = Lifo | Fifo

record awaiter =
  awaiting_coroutine :: nat
  nextp :: ptr

record event =
  ev_state :: ptr
  mem :: "awaiter_addr \<Rightarrow> awaiter"

definition set_next :: "awaiter_addr \<Rightarrow> ptr \<Rightarrow> 'e event_scheme \<Rightarrow> 'e event_scheme" where
  "set_next w p s = s\<lparr>mem := (mem s)(w := (mem s w)\<lparr>nextp := p\<rparr>)\<rparr>"

section \<open>Operations\<close>

definition event_init :: "bool \<Rightarrow> ptr" where
  "event_init initially_set = (if initially_set then This else Null)"

definition is_set :: "'e event_scheme \<Rightarrow> bool" where
  "is_set s \<longleftrightarrow> ev_state s = This"

primrec reverse_loop :: "nat \<Rightarrow> ptr \<Rightarrow> ptr \<Rightarrow> 'e event_scheme \<Rightarrow> (ptr \<times> 'e event_scheme) res" where
  "reverse_loop 0 prev cur s = Inl Out_of_fuel"
| "reverse_loop (Suc n) prev cur s =
     (case cur of
        Null \<Rightarrow> Inr (prev, s)
      | This \<Rightarrow> Inl Bad_pointer
      | Aw w \<Rightarrow> let nxt = nextp (mem s w) in reverse_loop n (Aw w) nxt (set_next w prev s))"

definition event_reverse :: "nat \<Rightarrow> ptr \<Rightarrow> 'e event_scheme \<Rightarrow> (ptr \<times> 'e event_scheme) res" where
  "event_reverse n cur s =
     (case cur of
        Null \<Rightarrow> Inr (cur, s)
      | This \<Rightarrow> Inl Bad_pointer
      | Aw w \<Rightarrow> if nextp (mem s w) = Null then Inr (cur, s) else reverse_loop n Null cur s)"

text \<open>The loop of \<open>set\<close>: \<open>next_\<close> is read before the coroutine, in whose frame the awaiter lives, is resumed.\<close>

primrec resume_waiters ::
  "nat \<Rightarrow> (nat \<Rightarrow> 'e event_scheme \<Rightarrow> 'e event_scheme) \<Rightarrow> ptr \<Rightarrow> 'e event_scheme \<Rightarrow> 'e event_scheme res" where
  "resume_waiters 0 resume waiters s = Inl Out_of_fuel"
| "resume_waiters (Suc n) resume waiters s =
     (case waiters of
        Null \<Rightarrow> Inr s
      | This \<Rightarrow> Inl Bad_pointer
      | Aw w \<Rightarrow>
          let nxt = nextp (mem s w) in
          resume_waiters n resume nxt (resume (awaiting_coroutine (mem s w)) s))"

definition event_set ::
  "nat \<Rightarrow> (nat \<Rightarrow> 'e event_scheme \<Rightarrow> 'e event_scheme) \<Rightarrow> resume_order_policy \<Rightarrow> 'e event_scheme \<Rightarrow>
   'e event_scheme res" where
  "event_set n resume policy s =
     (let old_value = ev_state s; s = s\<lparr>ev_state := This\<rparr> in
      if old_value = This then Inr s
      else bindE (if policy = Fifo then event_reverse n old_value s else Inr (old_value, s))
             (\<lambda>(waiters, s). resume_waiters n resume waiters s))"

definition event_reset :: "'e event_scheme \<Rightarrow> 'e event_scheme" where
  "event_reset s = (if ev_state s = This then s\<lparr>ev_state := Null\<rparr> else s)"

text \<open>
  \<open>await_suspend\<close> in its atomic steps: the load; the test and the store to \<open>next_\<close>; the
  compare-and-exchange, whose weak form may fail although the values agree (\<open>spurious\<close>).  A step
  gives the next program point.
\<close>

datatype await_pc =
    Await_load
  | Await_test ptr
  | Await_cas ptr
  | Await_done bool

definition await_begin :: "awaiter_addr \<Rightarrow> nat \<Rightarrow> 'e event_scheme \<Rightarrow> 'e event_scheme" where
  "await_begin w h s = s\<lparr>mem := (mem s)(w := (mem s w)\<lparr>awaiting_coroutine := h\<rparr>)\<rparr>"

definition await_step ::
  "bool \<Rightarrow> awaiter_addr \<Rightarrow> await_pc \<Rightarrow> 'e event_scheme \<Rightarrow> await_pc \<times> 'e event_scheme" where
  "await_step spurious w pc s =
     (case pc of
        Await_load \<Rightarrow> (Await_test (ev_state s), s)
      | Await_test old_value \<Rightarrow>
          if old_value = This then (Await_done False, s) else (Await_cas old_value, set_next w old_value s)
      | Await_cas old_value \<Rightarrow>
          if ev_state s = old_value \<and> \<not> spurious then (Await_done True, s\<lparr>ev_state := Aw w\<rparr>)
          else (Await_test (ev_state s), s)
      | Await_done r \<Rightarrow> (Await_done r, s))"

text \<open>The whole of \<open>await_suspend\<close> when nothing intervenes.\<close>

definition await_suspend :: "awaiter_addr \<Rightarrow> nat \<Rightarrow> 'e event_scheme \<Rightarrow> await_pc \<times> 'e event_scheme" where
  "await_suspend w h s =
     (let s = await_begin w h s;
          (pc, s) = await_step False w Await_load s;
          (pc, s) = await_step False w pc s in
      await_step False w pc s)"

section \<open>Lists of awaiters\<close>

primrec linked :: "(awaiter_addr \<Rightarrow> ptr) \<Rightarrow> ptr \<Rightarrow> awaiter_addr list \<Rightarrow> bool" where
  "linked nx p [] \<longleftrightarrow> p = Null"
| "linked nx p (w # ws) \<longleftrightarrow> p = Aw w \<and> linked nx (nx w) ws"

abbreviation nexts :: "'e event_scheme \<Rightarrow> awaiter_addr \<Rightarrow> ptr" where
  "nexts s \<equiv> (\<lambda>w. nextp (mem s w))"

lemma linked_cong: "(\<And>w. w \<in> set ws \<Longrightarrow> nx w = nx' w) \<Longrightarrow> linked nx p ws = linked nx' p ws"
  by (induction ws arbitrary: p) auto

lemma linked_Null [simp]: "linked nx Null ws \<longleftrightarrow> ws = []"
  by (cases ws) auto

lemma linked_This [simp]: "\<not> linked nx This ws"
  by (cases ws) auto

lemma linked_Aw: "linked nx (Aw w) ws \<longleftrightarrow> (\<exists>vs. ws = w # vs \<and> linked nx (nx w) vs)"
  by (cases ws) auto

lemma linked_unique: "linked nx p ws \<Longrightarrow> linked nx p vs \<Longrightarrow> ws = vs"
  by (induction ws arbitrary: p vs) (auto simp: linked_Aw)

lemma linked_suffix: "linked nx p (us @ ws) \<Longrightarrow> \<exists>q. linked nx q ws"
  by (induction us arbitrary: p) auto

lemma linked_notin: "linked nx (nx w) ws \<Longrightarrow> w \<notin> set ws"
proof
  assume l: "linked nx (nx w) ws" and "w \<in> set ws"
  then obtain us vs where ws: "ws = us @ w # vs"
    by (meson split_list)
  then have "linked nx (nx w) vs"
    using linked_suffix [of nx "nx w" us "w # vs"] l by auto
  then have "ws = vs"
    using linked_unique l by blast
  then have "length ws = length us + Suc (length ws)"
    using ws by (metis length_append length_Cons)
  then show False by simp
qed

lemma linked_distinct: "linked nx p ws \<Longrightarrow> distinct ws"
  by (induction ws arbitrary: p) (auto dest: linked_notin)

lemma linked_fun_upd: "w \<notin> set ws \<Longrightarrow> linked (nx(w := q)) p ws = linked nx p ws"
  by (rule linked_cong) auto

lemma nexts_set_next [simp]: "nexts (set_next w p s) = (nexts s)(w := p)"
  by (auto simp: set_next_def)

lemma set_next_simps [simp]: "ev_state (set_next w p s) = ev_state s"
  "awaiting_coroutine (mem (set_next w p s) v) = awaiting_coroutine (mem s v)"
  "v \<noteq> w \<Longrightarrow> mem (set_next w p s) v = mem s v"
  by (simp_all add: set_next_def)

section \<open>Setting the event\<close>

text \<open>\<open>s'\<close> differs from \<open>s\<close> at most in the \<open>next_\<close> of the awaiters in \<open>ws\<close>.\<close>

definition relinked :: "awaiter_addr set \<Rightarrow> 'e event_scheme \<Rightarrow> 'e event_scheme \<Rightarrow> bool" where
  "relinked W s s' \<longleftrightarrow> (\<exists>m. s' = s\<lparr>mem := m\<rparr> \<and> (\<forall>v. v \<notin> W \<longrightarrow> m v = mem s v) \<and>
     (\<forall>v. awaiting_coroutine (m v) = awaiting_coroutine (mem s v)))"

lemma relinked_refl [simp]: "relinked W s s"
  unfolding relinked_def by (rule exI [of _ "mem s"]) simp

lemma relinked_set_next: "relinked W (set_next w p s) s' \<Longrightarrow> relinked (insert w W) s s'"
  unfolding relinked_def set_next_def by (auto split: if_splits)

lemma relinkedD:
  assumes "relinked W s s'"
  shows "ev_state s' = ev_state s" "event.more s' = event.more s"
    "v \<notin> W \<Longrightarrow> mem s' v = mem s v" "awaiting_coroutine (mem s' v) = awaiting_coroutine (mem s v)"
  using assms by (auto simp: relinked_def)

lemma reverse_loop_rev:
  assumes "linked (nexts s) cur ws" and "linked (nexts s) prev vs" and "set ws \<inter> set vs = {}" and "length ws < n"
  shows "\<exists>p s'. reverse_loop n prev cur s = Inr (p, s') \<and> linked (nexts s') p (rev ws @ vs) \<and> relinked (set ws) s s'"
  using assms
proof (induction n arbitrary: prev cur s ws vs)
  case (Suc n)
  show ?case
  proof (cases ws)
    case Nil
    then show ?thesis using Suc.prems by auto
  next
    case (Cons w us)
    let ?s = "set_next w prev s"
    have w: "cur = Aw w" "linked (nexts s) (nextp (mem s w)) us" "w \<notin> set us" "w \<notin> set vs"
      using Suc.prems Cons linked_distinct [OF Suc.prems(1)] by auto
    have "linked (nexts ?s) (nextp (mem s w)) us" "linked (nexts ?s) (Aw w) (w # vs)"
      using w Suc.prems(2) by (simp_all add: linked_fun_upd)
    moreover have "set us \<inter> set (w # vs) = {}" "length us < n"
      using Suc.prems(3,4) w Cons by auto
    ultimately obtain p s' where "reverse_loop n (Aw w) (nextp (mem s w)) ?s = Inr (p, s')"
      "linked (nexts s') p (rev us @ w # vs)" "relinked (set us) ?s s'"
      using Suc.IH [of ?s "nextp (mem s w)" us "Aw w" "w # vs"] by blast
    then show ?thesis
      using w Cons relinked_set_next by fastforce
  qed
qed simp

lemma reverse_loop_mono: "reverse_loop n prev cur s = Inr r \<Longrightarrow> n \<le> m \<Longrightarrow> reverse_loop m prev cur s = Inr r"
proof (induction n arbitrary: m prev cur s)
  case (Suc n)
  then show ?case by (cases m) (auto simp: Let_def split: ptr.splits)
qed simp

lemma event_reverse_mono: "event_reverse n p s = Inr r \<Longrightarrow> n \<le> m \<Longrightarrow> event_reverse m p s = Inr r"
  by (cases p) (auto simp: event_reverse_def intro: reverse_loop_mono split: if_splits)

lemma event_reverse_rev:
  assumes "linked (nexts s) p ws" and "length ws < n"
  shows "\<exists>q s'. event_reverse n p s = Inr (q, s') \<and> linked (nexts s') q (rev ws) \<and> relinked (set ws) s s'"
proof (cases "\<exists>w vs. ws = w # vs \<and> vs \<noteq> []")
  case True
  then obtain w v vs where "ws = w # v # vs"
    by (metis list.exhaust)
  then show ?thesis
    using assms reverse_loop_rev [OF assms(1), of Null "[]" n] by (auto simp: event_reverse_def)
next
  case False
  then show ?thesis
    using assms by (cases ws) (auto simp: event_reverse_def)
qed

lemma resume_waiters_all:
  assumes "linked (nexts s) p ws" and "length ws < n" and "inj_on cs (set ws)"
    and "\<forall>v\<in>set ws. awaiting_coroutine (mem s v) = cs v"
    and "\<forall>h s. \<forall>v\<in>set ws. cs v \<noteq> h \<longrightarrow> mem (resume h s) v = mem s v"
  shows "resume_waiters n resume p s = Inr (fold resume (map cs ws) s)"
  using assms
proof (induction n arbitrary: p s ws)
  case (Suc n)
  show ?case
  proof (cases ws)
    case Nil
    then show ?thesis using Suc.prems by simp
  next
    case (Cons w us)
    let ?s = "resume (cs w) s"
    have d: "w \<notin> set us"
      using linked_distinct [OF Suc.prems(1)] Cons by simp
    have same: "mem ?s v = mem s v" if "v \<in> set us" for v
    proof -
      have "cs v \<noteq> cs w"
        using Suc.prems(3) Cons d that by (auto simp: inj_on_def)
      then show ?thesis
        using Suc.prems(5) Cons that by simp
    qed
    have "linked (nexts ?s) (nextp (mem s w)) us"
      using Suc.prems(1) Cons linked_cong [of us "nexts ?s" "nexts s"] same by simp
    then have "resume_waiters n resume (nextp (mem s w)) ?s = Inr (fold resume (map cs us) ?s)"
      using Suc.prems Cons same by (intro Suc.IH) (auto simp: inj_on_def)
    then show ?thesis
      using Suc.prems Cons by simp
  qed
qed simp

lemma event_set_result:
  assumes "linked (nexts s) (ev_state s) ws" and "length ws < n"
    and "inj_on (\<lambda>v. awaiting_coroutine (mem s v)) (set ws)"
    and "\<forall>h s'. \<forall>v\<in>set ws. awaiting_coroutine (mem s v) \<noteq> h \<longrightarrow> mem (resume h s') v = mem s' v"
  shows "\<exists>s'. relinked (set ws) (s\<lparr>ev_state := This\<rparr>) s' \<and>
    event_set n resume policy s =
      Inr (fold resume (map (\<lambda>v. awaiting_coroutine (mem s v)) (if policy = Fifo then rev ws else ws)) s')"
proof -
  let ?s = "s\<lparr>ev_state := This\<rparr>" and ?cs = "\<lambda>v. awaiting_coroutine (mem s v)"
  have l: "linked (nexts ?s) (ev_state s) ws" and old: "ev_state s \<noteq> This"
    using assms(1) by auto
  show ?thesis
  proof (cases policy)
    case Lifo
    have "resume_waiters n resume (ev_state s) ?s = Inr (fold resume (map ?cs ws) ?s)"
      using assms l by (intro resume_waiters_all) simp_all
    then show ?thesis
      using Lifo old by (auto simp: event_set_def Let_def intro!: exI [of _ ?s])
  next
    case Fifo
    obtain q s' where r: "event_reverse n (ev_state s) ?s = Inr (q, s')" "linked (nexts s') q (rev ws)" "relinked (set ws) ?s s'"
      using event_reverse_rev [OF l assms(2)] by blast
    have "resume_waiters n resume q s' = Inr (fold resume (map ?cs (rev ws)) s')"
      using assms r relinkedD(4) [OF r(3)] by (intro resume_waiters_all) simp_all
    then show ?thesis
      using Fifo old r by (auto simp: event_set_def Let_def)
  qed
qed

text \<open>C14.
  set resumes every awaiting coroutine exactly once, in the order opposite to that in which they began
  to wait (lifo) or in that order (fifo), after the event has become set: no waiter is skipped although the
  resumed coroutine may destroy or reuse its own awaiter, and the list has been reversed in place.  \<open>ws\<close> is the
  list of awaiters, last one first; a coroutine touches no awaiter but its own.
\<close>

theorem event_set_resumes:
  assumes "linked (nexts s) (ev_state s) ws" and "length ws < n"
    and "inj_on (\<lambda>v. awaiting_coroutine (mem s v)) (set ws)"
    and "\<forall>h s'. \<forall>v\<in>set ws. awaiting_coroutine (mem s v) \<noteq> h \<longrightarrow> mem (resume h s') v = mem s' v"
  shows "\<exists>s'. relinked (set ws) (s\<lparr>ev_state := This\<rparr>) s' \<and>
    event_set n resume policy s =
      Inr (fold resume (map (\<lambda>v. awaiting_coroutine (mem s v)) (if policy = Fifo then rev ws else ws)) s')"
  by (rule event_set_result [OF assms])

definition two_waiting :: "nat list event_scheme" where
  "two_waiting =
     snd (await_suspend 2 20 (snd (await_suspend 1 10
       \<lparr>ev_state = Null, mem = (\<lambda>_. \<lparr>awaiting_coroutine = 0, nextp = Null\<rparr>), \<dots> = []\<rparr>)))"

lemma two_waiting_simps [simp]:
  "ev_state two_waiting = Aw 2" "nextp (mem two_waiting 2) = Aw 1" "nextp (mem two_waiting (Suc 0)) = Null"
  "awaiting_coroutine (mem two_waiting 2) = 20" "awaiting_coroutine (mem two_waiting (Suc 0)) = 10"
  by (simp_all add: two_waiting_def await_suspend_def await_begin_def await_step_def set_next_def Let_def)

theorem event_set_resumes_witness:
  "\<exists>s'. relinked (set [2, 1]) (two_waiting\<lparr>ev_state := This\<rparr>) s' \<and>
    event_set 5 (\<lambda>h. event.more_update (\<lambda>l. l @ [h])) Fifo two_waiting =
      Inr (fold (\<lambda>h. event.more_update (\<lambda>l. l @ [h]))
             (map (\<lambda>v. awaiting_coroutine (mem two_waiting v)) (if Fifo = Fifo then rev [2, 1] else [2, 1])) s')"
  by (rule event_set_resumes) (simp_all add: inj_on_def)

section \<open>Executors\<close>

text \<open>
  What \<open>set\<close> with an executor relies on (the concept \<open>executor\<close> of \<^verbatim>\<open>src/async/executor.hpp\<close>): \<open>resume\<close> hands
  the coroutine over to be run later, after those handed over before.
\<close>

locale executor =
  fixes resume_on :: "nat \<Rightarrow> 'p \<Rightarrow> 'p"
    and queued :: "'p \<Rightarrow> nat list"
  assumes resume_queues: "queued (resume_on h p) = queued p @ [h]"
begin

lemma fold_resume: "queued (fold resume_on hs p) = queued p @ hs"
  by (induction hs arbitrary: p) (simp_all add: resume_queues)

lemma fold_more:
  "fold (\<lambda>h. event.more_update (resume_on h)) hs s = event.more_update (fold resume_on hs) s"
  by (induction hs arbitrary: s) (simp_all add: comp_def)

lemma set_queues:
  assumes "linked (nexts s) (ev_state s) ws" and "length ws < n"
    and "inj_on (\<lambda>v. awaiting_coroutine (mem s v)) (set ws)"
  shows "\<exists>s'. event_set n (\<lambda>h. event.more_update (resume_on h)) policy s = Inr s' \<and> is_set s' \<and>
    queued (event.more s') =
      queued (event.more s) @ map (\<lambda>v. awaiting_coroutine (mem s v)) (if policy = Fifo then rev ws else ws)"
proof -
  obtain s' where r: "relinked (set ws) (s\<lparr>ev_state := This\<rparr>) s'"
    and e: "event_set n (\<lambda>h. event.more_update (resume_on h)) policy s =
      Inr (fold (\<lambda>h. event.more_update (resume_on h))
        (map (\<lambda>v. awaiting_coroutine (mem s v)) (if policy = Fifo then rev ws else ws)) s')"
    using event_set_result [OF assms, where resume = "\<lambda>h. event.more_update (resume_on h)"] by auto
  show ?thesis
    using relinkedD(1,2) [OF r] unfolding e by (simp add: fold_more fold_resume is_set_def)
qed

end

section \<open>Any number of threads\<close>

text \<open>
  \<open>pcs\<close> is where each awaiter is in \<open>await_suspend\<close>; \<open>None\<close> is an awaiter that is not in use, so that the same
  address can serve again after its coroutine was resumed.  \<open>cursors\<close> is the variable \<open>waiters\<close> of each
  thread in \<open>set\<close>, null outside of it.
\<close>

record shared_event = event +
  pcs :: "awaiter_addr \<Rightarrow> await_pc option"
  cursors :: "nat \<Rightarrow> ptr"

inductive event_step :: "shared_event \<Rightarrow> shared_event \<Rightarrow> bool" where
  start: "pcs s w = None \<Longrightarrow> event_step s ((await_begin w h s)\<lparr>pcs := (pcs s)(w \<mapsto> Await_load)\<rparr>)"
| step: "pcs s w = Some pc \<Longrightarrow> await_step spurious w pc s = (pc', s') \<Longrightarrow>
     event_step s (s'\<lparr>pcs := (pcs s)(w \<mapsto> pc')\<rparr>)"
| ready: "pcs s w = Some (Await_done False) \<Longrightarrow> event_step s (s\<lparr>pcs := (pcs s)(w := None)\<rparr>)"
| set_lifo: "cursors s t = Null \<Longrightarrow> ev_state s \<noteq> This \<Longrightarrow>
     event_step s (s\<lparr>ev_state := This, cursors := (cursors s)(t := ev_state s)\<rparr>)"
| set_fifo: "cursors s t = Null \<Longrightarrow> ev_state s \<noteq> This \<Longrightarrow>
     event_reverse n (ev_state s) (s\<lparr>ev_state := This\<rparr>) = Inr (p, s') \<Longrightarrow>
     event_step s (s'\<lparr>cursors := (cursors s)(t := p)\<rparr>)"
| resume: "cursors s t = Aw w \<Longrightarrow>
     event_step s (s\<lparr>cursors := (cursors s)(t := nextp (mem s w)), pcs := (pcs s)(w := None)\<rparr>)"
| reset: "event_step s (event_reset s)"

definition event_start :: "bool \<Rightarrow> shared_event \<Rightarrow> bool" where
  "event_start b s \<longleftrightarrow> ev_state s = event_init b \<and> (\<forall>w. pcs s w = None) \<and> (\<forall>t. cursors s t = Null)"

definition event_reachable :: "shared_event \<Rightarrow> bool" where
  "event_reachable s \<longleftrightarrow> (\<exists>b s0. event_start b s0 \<and> event_step\<^sup>*\<^sup>* s0 s)"

text \<open>
  Every suspended awaiter is on exactly one list: that of the event or that of one thread in \<open>set\<close>.
\<close>

definition waiting_list :: "shared_event \<Rightarrow> ptr" where
  "waiting_list s = (if ev_state s = This then Null else ev_state s)"

definition event_inv :: "shared_event \<Rightarrow> awaiter_addr list \<Rightarrow> (nat \<Rightarrow> awaiter_addr list) \<Rightarrow> bool" where
  "event_inv s ws L \<longleftrightarrow>
     linked (nexts s) (waiting_list s) ws \<and> (\<forall>t. linked (nexts s) (cursors s t) (L t)) \<and>
     (\<forall>w t. w \<in> set ws \<longrightarrow> w \<notin> set (L t)) \<and> (\<forall>w t u. w \<in> set (L t) \<longrightarrow> w \<in> set (L u) \<longrightarrow> t = u) \<and>
     (\<forall>w. pcs s w = Some (Await_done True) \<longleftrightarrow> w \<in> set ws \<or> (\<exists>t. w \<in> set (L t))) \<and>
     (\<forall>w p. pcs s w = Some (Await_cas p) \<longrightarrow> nextp (mem s w) = p \<and> p \<noteq> This)"

lemma event_inv_next:
  assumes "event_inv s ws L" and "pcs s w \<noteq> Some (Await_done True)"
  shows "w \<notin> set ws" "w \<notin> set (L t)"
  using assms by (auto simp: event_inv_def)

text \<open>A store to the awaiter of a thread that is not suspended leaves all the lists alone.\<close>

lemma event_inv_frame:
  assumes i: "event_inv s ws L" and w: "pcs s w \<noteq> Some (Await_done True)"
    and s': "\<And>v. v \<noteq> w \<Longrightarrow> mem s' v = mem s v" "ev_state s' = ev_state s" "cursors s' = cursors s"
    and pc: "pcs s' = (pcs s)(w := pc)" "pc \<noteq> Some (Await_done True)"
      "\<And>p. pc = Some (Await_cas p) \<Longrightarrow> nextp (mem s' w) = p \<and> p \<noteq> This"
  shows "event_inv s' ws L"
proof -
  have n: "w \<notin> set ws" "\<And>t. w \<notin> set (L t)"
    using event_inv_next [OF i w] by auto
  have ws: "linked (nexts s') q ws = linked (nexts s) q ws" for q
    using n s'(1) by (intro linked_cong) (metis (full_types))
  have Ls: "linked (nexts s') q (L t) = linked (nexts s) q (L t)" for q t
    using n s'(1) by (intro linked_cong) (metis (full_types))
  show ?thesis
    using i n pc s'(2,3) unfolding event_inv_def waiting_list_def ws Ls by (auto simp: s'(1))
qed

lemma event_inv_cas:
  assumes i: "event_inv s ws L" and w: "pcs s w = Some (Await_cas (ev_state s))"
  shows "event_inv (s\<lparr>ev_state := Aw w, pcs := (pcs s)(w \<mapsto> Await_done True)\<rparr>) (w # ws) L"
proof -
  have n: "w \<notin> set ws" "\<And>t. w \<notin> set (L t)"
    using event_inv_next [OF i, of w] w by auto
  have "nextp (mem s w) = ev_state s" "ev_state s \<noteq> This"
    using i w by (auto simp: event_inv_def)
  then show ?thesis
    using i n w by (auto simp: event_inv_def waiting_list_def)
qed

lemma event_inv_set:
  assumes i: "event_inv s ws L" and t: "cursors s t = Null" and set: "ev_state s \<noteq> This"
    and s': "linked (nexts s') p ws'" "set ws' = set ws" "relinked (set ws) (s\<lparr>ev_state := This\<rparr>) s'"
  shows "event_inv (s'\<lparr>cursors := (cursors s)(t := p)\<rparr>) [] (L(t := ws'))"
proof -
  have Lt: "L t = []"
    using i t unfolding event_inv_def by (metis linked_Null)
  note r = relinkedD [OF s'(3)]
  have more: "pcs s' = pcs s"
    using s'(3) by (auto simp: relinked_def)
  have frame: "linked (nexts s') q (L u) = linked (nexts s) q (L u)" for q u
  proof (rule linked_cong)
    fix w assume "w \<in> set (L u)"
    then have "w \<notin> set ws" using i unfolding event_inv_def by blast
    then show "nextp (mem s' w) = nextp (mem s w)" using r(3) by simp
  qed
  have cas: "w \<notin> set ws" if "pcs s w = Some (Await_cas q)" for w q
    using event_inv_next [OF i, of w] that by auto
  have m: "(\<exists>u. v \<in> set ((L(t := ws')) u)) \<longleftrightarrow> v \<in> set ws \<or> (\<exists>u. v \<in> set (L u))" for v
    using s'(2) Lt by (metis empty_iff fun_upd_other fun_upd_same list.set(1))
  show ?thesis
    using i s'(1,2) Lt r set cas unfolding event_inv_def waiting_list_def m
    by (auto simp: frame more)
qed

lemma event_inv_resume:
  assumes i: "event_inv s ws L" and t: "cursors s t = Aw w"
  shows "event_inv (s\<lparr>cursors := (cursors s)(t := nextp (mem s w)), pcs := (pcs s)(w := None)\<rparr>) ws (L(t := tl (L t)))"
proof -
  obtain vs where L: "L t = w # vs" "linked (nexts s) (nextp (mem s w)) vs"
    using i t unfolding event_inv_def by (metis linked_Aw)
  have w: "w \<notin> set vs"
    using linked_notin [of "nexts s" w] L(2) by simp
  have n: "w \<notin> set ws" "u \<noteq> t \<Longrightarrow> w \<notin> set (L u)" for u
    using i L(1) unfolding event_inv_def by (metis list.set_intros(1))+
  have m: "v \<in> set ((L(t := vs)) u) \<longleftrightarrow> v \<noteq> w \<and> v \<in> set (L u)" for v u
    using n(2) w L(1) by auto
  show ?thesis
    using i n(1) L m unfolding event_inv_def waiting_list_def
    by (simp only: event.simps shared_event.simps list.sel fun_upd_apply m) (auto simp: m)
qed

lemma event_step_inv:
  assumes "event_step s s'" and "event_inv s ws L"
  shows "\<exists>ws' L'. event_inv s' ws' L'"
  using assms
proof cases
  case (start w h)
  have "event_inv s' ws L"
    using start assms by (intro event_inv_frame [OF assms(2), of w s' "Some Await_load"]) (auto simp: await_begin_def)
  then show ?thesis by blast
next
  case (step w pc spurious pc' u)
  show ?thesis
  proof (cases "\<exists>p. pc = Await_cas p \<and> pc' = Await_done True")
    case True
    then have "event_inv s' (w # ws) L"
      using step event_inv_cas [OF assms(2), of w] by (auto simp: await_step_def split: if_splits)
    then show ?thesis by blast
  next
    case False
    show ?thesis
    proof (cases "pc = Await_done True")
      case True
      then show ?thesis using step assms(2) by (auto simp: await_step_def fun_upd_idem)
    next
      case pc: False
      have "event_inv s' ws L"
        using step pc False
        by (intro event_inv_frame [OF assms(2), of w s' "Some pc'"])
          (auto simp: await_step_def set_next_def split: await_pc.splits if_splits)
      then show ?thesis by blast
    qed
  qed
next
  case (ready w)
  have "event_inv s' ws L"
    using ready by (intro event_inv_frame [OF assms(2), of w s' None]) auto
  then show ?thesis by blast
next
  case (set_lifo t)
  have "linked (nexts s) (ev_state s) ws"
    using assms(2) set_lifo by (auto simp: event_inv_def waiting_list_def)
  then have "event_inv s' [] (L(t := ws))"
    using set_lifo event_inv_set [OF assms(2), of t "s\<lparr>ev_state := This\<rparr>" "ev_state s" ws] by auto
  then show ?thesis by blast
next
  case (set_fifo t n p u)
  have l: "linked (nexts (s\<lparr>ev_state := This\<rparr>)) (ev_state s) ws"
    using assms(2) set_fifo by (auto simp: event_inv_def waiting_list_def)
  have "linked (nexts u) p (rev ws) \<and> relinked (set ws) (s\<lparr>ev_state := This\<rparr>) u"
    using event_reverse_rev [OF l, of "n + length ws + 1"] event_reverse_mono [OF set_fifo(4), of "n + length ws + 1"]
    by auto
  then have "event_inv s' [] (L(t := rev ws))"
    using set_fifo event_inv_set [OF assms(2), of t u p "rev ws"] by auto
  then show ?thesis by blast
next
  case (resume t w)
  then show ?thesis using event_inv_resume [OF assms(2)] by blast
next
  case reset
  then have "event_inv s' ws L"
    using assms(2) by (auto simp: event_inv_def event_reset_def waiting_list_def)
  then show ?thesis by blast
qed

lemma event_reachable_inv:
  assumes "event_reachable s"
  shows "\<exists>ws L. event_inv s ws L"
proof -
  obtain b s0 where s0: "event_start b s0" and "event_step\<^sup>*\<^sup>* s0 s"
    using assms by (auto simp: event_reachable_def)
  from this(2) show ?thesis
  proof induction
    case base
    have "event_inv s0 [] (\<lambda>_. [])"
      using s0 by (auto simp: event_start_def event_init_def event_inv_def waiting_list_def)
    then show ?case by blast
  next
    case (step s s')
    then show ?case using event_step_inv by blast
  qed
qed

text \<open>C4.
  No wakeup is lost and none happens twice, under every interleaving of any number of threads in await_suspend, set
  (of either order) and reset, with awaiters reused as soon as their coroutine was resumed: a thread in
  set is always about to resume a coroutine that is suspended, no two threads are about to resume the same one,
  and once the event is set and every set has returned no coroutine is left suspended.
\<close>

theorem event_no_lost_wakeup:
  assumes "event_reachable s"
  shows "(\<forall>t w. cursors s t = Aw w \<longrightarrow> pcs s w = Some (Await_done True) \<and> (\<forall>u. cursors s u = Aw w \<longrightarrow> u = t)) \<and>
    (is_set s \<and> (\<forall>t. cursors s t = Null) \<longrightarrow> (\<forall>w. pcs s w \<noteq> Some (Await_done True)))"
proof -
  obtain ws L where i: "event_inv s ws L"
    using event_reachable_inv [OF assms] by blast
  have hd: "w \<in> set (L t)" if "cursors s t = Aw w" for t w
    using i that unfolding event_inv_def by (metis linked_Aw list.set_intros(1))
  have e: "ws = []" "L t = []" if "is_set s" "\<forall>t. cursors s t = Null" for t
    using i that unfolding event_inv_def is_set_def waiting_list_def by simp_all
  have p: "pcs s w = Some (Await_done True) \<longleftrightarrow> w \<in> set ws \<or> (\<exists>t. w \<in> set (L t))" for w
    using i by (simp add: event_inv_def)
  have d: "u = t" if "w \<in> set (L t)" "w \<in> set (L u)" for w t u
    using i that by (auto simp: event_inv_def)
  show ?thesis
    unfolding p by (auto simp: e dest: hd intro: d [OF hd hd])
qed

definition demo_start :: shared_event where
  "demo_start = \<lparr>ev_state = Null, mem = (\<lambda>_. \<lparr>awaiting_coroutine = 0, nextp = Null\<rparr>), pcs = (\<lambda>_. None), cursors = (\<lambda>_. Null)\<rparr>"

definition demo_await :: "await_pc \<Rightarrow> ptr \<Rightarrow> shared_event" where
  "demo_await pc p = \<lparr>ev_state = p, mem = (\<lambda>_. \<lparr>awaiting_coroutine = 0, nextp = Null\<rparr>)(1 := \<lparr>awaiting_coroutine = 10, nextp = Null\<rparr>),
     pcs = [1 \<mapsto> pc], cursors = (\<lambda>_. Null)\<rparr>"

lemma demo_reachable: "event_reachable ((demo_await (Await_done True) This)\<lparr>cursors := (\<lambda>_. Null)(0 := Aw 1)\<rparr>)"
proof -
  have "event_step\<^sup>*\<^sup>* demo_start (demo_await Await_load Null)"
    using r_into_rtranclp [of event_step, OF event_step.start [of demo_start 1 10]] by (simp add: demo_start_def demo_await_def await_begin_def)
  also have "event_step\<^sup>*\<^sup>* (demo_await Await_load Null) (demo_await (Await_test Null) Null)"
    using r_into_rtranclp [of event_step, OF event_step.step [of "demo_await Await_load Null" 1 Await_load False]] by (simp add: demo_await_def await_step_def)
  also have "event_step\<^sup>*\<^sup>* (demo_await (Await_test Null) Null) (demo_await (Await_cas Null) Null)"
    using r_into_rtranclp [of event_step, OF event_step.step [of "demo_await (Await_test Null) Null" 1 "Await_test Null" False]]
    by (simp add: demo_await_def await_step_def set_next_def)
  also have "event_step\<^sup>*\<^sup>* (demo_await (Await_cas Null) Null) (demo_await (Await_done True) (Aw 1))"
    using r_into_rtranclp [of event_step, OF event_step.step [of "demo_await (Await_cas Null) Null" 1 "Await_cas Null" False]]
    by (simp add: demo_await_def await_step_def)
  also have "event_step\<^sup>*\<^sup>* (demo_await (Await_done True) (Aw 1)) ((demo_await (Await_done True) This)\<lparr>cursors := (\<lambda>_. Null)(0 := Aw 1)\<rparr>)"
    using r_into_rtranclp [of event_step, OF event_step.set_lifo [of "demo_await (Await_done True) (Aw 1)" 0]] by (simp add: demo_await_def)
  finally show ?thesis
    unfolding event_reachable_def
    by (intro exI [of _ False] exI [of _ demo_start] conjI) (auto simp: event_start_def demo_start_def event_init_def)
qed

theorem event_no_lost_wakeup_witness:
  "pcs ((demo_await (Await_done True) This)\<lparr>cursors := (\<lambda>_. Null)(0 := Aw 1)\<rparr>) 1 = Some (Await_done True)"
  using event_no_lost_wakeup [OF demo_reachable] by (simp add: demo_await_def)

end
