(* ===== verification/Thread_Pool.thy ===== *)
theory Thread_Pool
  imports Event
begin

text \<open>
  \<open>async::thread_pool\<close> of \<^verbatim>\<open>src/async/thread_pool.hpp\<close> and \<^verbatim>\<open>src/async/thread_pool.cc\<close>.

  Each operation is what it does to the shared state: \<open>size_\<close> and \<open>shutdown_\<close> are atomic, \<open>queue_\<close> is accessed under
  \<open>wait_mutex_\<close>.  The workers are program points in \<open>executor\<close>.  What a coroutine does once resumed happens in
  other steps: it can only reach the pool through these operations.
\<close>

section \<open>State\<close>

type_synonym handle = "nat option"  \<comment> \<open>\<open>std::coroutine_handle<>\<close>, \<open>None\<close> is null\<close>

record pool =
  pqueue :: "nat list"
  psize :: u64
  pshutdown :: bool

definition pool_init :: pool where
  "pool_init = \<lparr>pqueue = [], psize = 0, pshutdown = False\<rparr>"

section \<open>Operations\<close>

definition schedule_impl :: "handle \<Rightarrow> 'a pool_scheme \<Rightarrow> 'a pool_scheme" where
  "schedule_impl h p = (case h of None \<Rightarrow> p | Some h \<Rightarrow> p\<lparr>pqueue := pqueue p @ [h]\<rparr>)"

text \<open>\<open>schedule\<close> returns an operation; awaiting it queues the awaiting coroutine.\<close>

definition schedule :: "'a pool_scheme \<Rightarrow> 'a pool_scheme res" where
  "schedule p = (if \<not> pshutdown p then Inr (p\<lparr>psize := psize p + 1\<rparr>) else Inl Shutting_down)"

definition pool_yield :: "'a pool_scheme \<Rightarrow> 'a pool_scheme res" where
  "pool_yield p = schedule p"

definition operation_await_suspend :: "handle \<Rightarrow> 'a pool_scheme \<Rightarrow> 'a pool_scheme" where
  "operation_await_suspend h p = schedule_impl h p"

definition pool_resume :: "handle \<Rightarrow> 'a pool_scheme \<Rightarrow> 'a pool_scheme" where
  "pool_resume h p = (if h = None then p else schedule_impl h (p\<lparr>psize := psize p + 1\<rparr>))"

primrec push_handles :: "handle list \<Rightarrow> nat list \<times> nat \<Rightarrow> nat list \<times> nat" where
  "push_handles [] acc = acc"
| "push_handles (h # hs) acc =
     push_handles hs (case h of Some c \<Rightarrow> (fst acc @ [c], snd acc) | None \<Rightarrow> (fst acc, Suc (snd acc)))"

definition resume_range :: "handle list \<Rightarrow> 'a pool_scheme \<Rightarrow> 'a pool_scheme" where
  "resume_range handles p =
     (let p = p\<lparr>psize := psize p + of_nat (length handles)\<rparr>;
          (q, null_handles) = push_handles handles (pqueue p, 0);
          p = p\<lparr>pqueue := q\<rparr> in
      if null_handles > 0 then p\<lparr>psize := psize p - of_nat null_handles\<rparr> else p)"

definition pool_size :: "'a pool_scheme \<Rightarrow> u64" where
  "pool_size p = psize p"

definition pool_empty :: "'a pool_scheme \<Rightarrow> bool" where
  "pool_empty p \<longleftrightarrow> pool_size p = 0"

definition queue_size :: "'a pool_scheme \<Rightarrow> nat" where
  "queue_size p = length (pqueue p)"

section \<open>Workers\<close>

text \<open>
  \<open>executor\<close>: \<open>W_begin\<close> is before the start functor, \<open>W_outer\<close> the test of the outer loop, \<open>W_inner\<close> the wait of the inner loop,
  \<open>W_run\<close> while \<open>handle.resume()\<close> runs, \<open>W_end\<close> before the stop functor.  \<open>pcalls\<close> records the calls of the functors.
  A worker that waits with an empty queue and no stop request has no step.
\<close>

datatype worker_pc = W_begin | W_outer | W_inner | W_run nat | W_end | W_exited

record pool_sys = pool +
  workers :: "worker_pc list"
  stop :: bool
  pending :: nat             \<comment> \<open>operations that \<open>schedule\<close> returned and nobody has awaited yet\<close>
  enqueued :: "nat list"     \<comment> \<open>every handle ever put into the queue\<close>
  resumed :: "nat list"      \<comment> \<open>every handle ever resumed by a worker\<close>
  pcalls :: "(bool \<times> nat) list"

definition thread_pool_init :: "nat \<Rightarrow> pool_sys" where
  "thread_pool_init thread_count =
     \<lparr>pqueue = [], psize = 0, pshutdown = False, workers = replicate thread_count W_begin, stop = False,
      pending = 0, enqueued = [], resumed = [], pcalls = []\<rparr>"

definition set_pc :: "nat \<Rightarrow> worker_pc \<Rightarrow> pool_sys \<Rightarrow> pool_sys" where
  "set_pc i pc s = s\<lparr>workers := (workers s)[i := pc]\<rparr>"

definition executor_step :: "nat \<Rightarrow> pool_sys \<Rightarrow> pool_sys option" where
  "executor_step i s =
     (if i < length (workers s) then
        case workers s ! i of
          W_begin \<Rightarrow> Some (set_pc i W_outer (s\<lparr>pcalls := pcalls s @ [(True, i)]\<rparr>))
        | W_outer \<Rightarrow> Some (set_pc i (if \<not> stop s then W_inner else W_end) s)
        | W_inner \<Rightarrow>
            (case pqueue s of
               [] \<Rightarrow> if stop s then Some (set_pc i W_outer s) else None
             | h # q \<Rightarrow> Some (set_pc i (W_run h) (s\<lparr>pqueue := q, resumed := resumed s @ [h]\<rparr>)))
        | W_run h \<Rightarrow> Some (set_pc i W_inner (s\<lparr>psize := psize s - 1\<rparr>))
        | W_end \<Rightarrow> Some (set_pc i W_exited (s\<lparr>pcalls := pcalls s @ [(False, i)]\<rparr>))
        | W_exited \<Rightarrow> None
      else None)"

text \<open>\<open>shutdown\<close>: only the first caller asks the workers to stop; it then waits until all have exited.\<close>

definition shutdown :: "pool_sys \<Rightarrow> pool_sys" where
  "shutdown s = (if \<not> pshutdown s then s\<lparr>pshutdown := True, stop := True\<rparr> else s)"

definition shutdown_joined :: "pool_sys \<Rightarrow> bool" where
  "shutdown_joined s \<longleftrightarrow> list_all (\<lambda>pc. pc = W_exited) (workers s)"

text \<open>
  The steps of any number of threads.  \<open>count\<close> is the first half of a \<open>resume\<close> that another thread interrupts before it has
  queued its handle; \<open>await\<close> is then its second half.
\<close>

inductive pool_step :: "pool_sys \<Rightarrow> pool_sys \<Rightarrow> bool" where
  schedule: "schedule s = Inr s' \<Longrightarrow> pool_step s (s'\<lparr>pending := Suc (pending s)\<rparr>)"
| await: "0 < pending s \<Longrightarrow>
     pool_step s ((operation_await_suspend (Some h) s)\<lparr>pending := pending s - 1, enqueued := enqueued s @ [h]\<rparr>)"
| resume: "pool_step s ((pool_resume h s)\<lparr>enqueued := enqueued s @ (case h of None \<Rightarrow> [] | Some c \<Rightarrow> [c])\<rparr>)"
| resume_range: "pool_step s ((resume_range hs s)\<lparr>enqueued := enqueued s @ List.map_filter id hs\<rparr>)"
| count: "pool_step s (s\<lparr>psize := psize s + 1, pending := Suc (pending s)\<rparr>)"
| worker: "executor_step i s = Some s' \<Longrightarrow> pool_step s s'"
| shutdown: "pool_step s (shutdown s)"

inductive worker_step :: "pool_sys \<Rightarrow> pool_sys \<Rightarrow> bool" where
  "executor_step i s = Some s' \<Longrightarrow> worker_step s s'"

definition pool_reachable :: "nat \<Rightarrow> pool_sys \<Rightarrow> bool" where
  "pool_reachable n s \<longleftrightarrow> pool_step\<^sup>*\<^sup>* (thread_pool_init n) s"

section \<open>Accounting and order\<close>

definition is_run :: "worker_pc \<Rightarrow> bool" where
  "is_run pc \<longleftrightarrow> (\<exists>h. pc = W_run h)"

definition running :: "pool_sys \<Rightarrow> nat" where
  "running s = length (filter is_run (workers s))"

definition pool_inv :: "pool_sys \<Rightarrow> bool" where
  "pool_inv s \<longleftrightarrow>
     psize s = of_nat (pending s + length (pqueue s) + running s) \<and> enqueued s = resumed s @ pqueue s \<and>
     stop s = pshutdown s \<and> (\<not> stop s \<longrightarrow> (\<forall>pc\<in>set (workers s). pc \<noteq> W_end \<and> pc \<noteq> W_exited))"

lemma is_run_simps [simp]:
  "is_run (W_run h)" "\<not> is_run W_begin" "\<not> is_run W_outer" "\<not> is_run W_inner" "\<not> is_run W_end" "\<not> is_run W_exited"
  by (simp_all add: is_run_def)

lemma running_set_pc:
  "i < length (workers s) \<Longrightarrow> running (set_pc i pc s) + (if is_run (workers s ! i) then 1 else 0) = running s + (if is_run pc then 1 else 0)"
  unfolding running_def set_pc_def by (simp add: filter_list_update)

lemma push_handles_eq:
  "push_handles hs acc = (fst acc @ List.map_filter id hs, snd acc + length (filter (\<lambda>h. h = None) hs))"
  by (induction hs arbitrary: acc) (auto simp: List.map_filter_simps split: option.splits)

lemma length_handles: "length hs = length (List.map_filter id hs) + length (filter (\<lambda>h. h = None) hs)"
  by (induction hs) (auto simp: List.map_filter_simps split: option.splits)

lemma resume_range_eq:
  "resume_range hs s = s\<lparr>pqueue := pqueue s @ List.map_filter id hs, psize := psize s + of_nat (length (List.map_filter id hs))\<rparr>"
  using length_handles [of hs] by (auto simp: resume_range_def push_handles_eq Let_def)

lemma pool_inv_set_pc:
  assumes "pool_inv s" and "i < length (workers s)" and "workers t = workers s" and "stop t = stop s" and "pshutdown t = pshutdown s"
    and "enqueued t = resumed t @ pqueue t" and "stop s \<or> pc \<noteq> W_end \<and> pc \<noteq> W_exited"
    and "psize t = of_nat (pending t + length (pqueue t) + running (set_pc i pc s))"
  shows "pool_inv (set_pc i pc t)"
proof -
  have "x = pc \<or> x \<in> set (workers s)" if "x \<in> set ((workers s)[i := pc])" for x
    using that set_update_subset_insert [of "workers s" i pc] by auto
  then show ?thesis
    using assms by (auto simp: pool_inv_def set_pc_def running_def)
qed

lemma executor_step_inv:
  assumes "executor_step i s = Some s'" and inv: "pool_inv s"
  shows "pool_inv s'"
proof -
  have i: "i < length (workers s)"
    using assms(1) by (simp add: executor_step_def split: if_splits)
  note r = running_set_pc [OF i]
  have size: "psize s = of_nat (pending s + length (pqueue s) + running s)" and fifo: "enqueued s = resumed s @ pqueue s"
    using inv by (simp_all add: pool_inv_def)
  show ?thesis
  proof (cases "workers s ! i")
    case W_inner
    then show ?thesis
      using assms(1) i size fifo r [of "W_run _"] r [of W_outer]
      by (cases "pqueue s")
        (auto simp: executor_step_def split: if_splits intro!: pool_inv_set_pc [OF inv i])
  next
    case (W_run h)
    have "running s = Suc (running (set_pc i W_inner s))"
      using r [of W_inner] W_run by simp
    then show ?thesis
      using assms(1) i size fifo W_run by (auto simp: executor_step_def intro!: pool_inv_set_pc [OF inv i])
  next
    case W_end
    then have "stop s"
      using inv i by (auto simp: pool_inv_def dest: nth_mem)
    then show ?thesis
      using assms(1) i size fifo r [of W_exited] W_end
      by (auto simp: executor_step_def intro!: pool_inv_set_pc [OF inv i])
  qed (use assms(1) i size fifo r [of W_outer] r [of W_inner] r [of W_end] in
      \<open>auto simp: executor_step_def split: if_splits intro!: pool_inv_set_pc [OF inv i]\<close>)
qed

lemma pool_step_inv: "pool_step s s' \<Longrightarrow> pool_inv s \<Longrightarrow> pool_inv s'"
proof (induction rule: pool_step.induct)
  case (schedule s s')
  then show ?case by (auto simp: schedule_def pool_inv_def running_def split: if_splits)
next
  case (await s h)
  then have "pending s = Suc (pending s - 1)" by simp
  with await show ?case
    by (auto simp: operation_await_suspend_def schedule_impl_def pool_inv_def running_def of_nat_diff)
next
  case (resume s h)
  then show ?case by (cases h) (auto simp: pool_resume_def schedule_impl_def pool_inv_def running_def)
next
  case (resume_range s hs)
  then show ?case by (auto simp: resume_range_eq pool_inv_def running_def)
next
  case (worker i s s')
  then show ?case using executor_step_inv by blast
qed (auto simp: shutdown_def pool_inv_def running_def)

lemma pool_reachable_inv:
  assumes "pool_reachable n s"
  shows "pool_inv s"
  using assms unfolding pool_reachable_def
proof induction
  case base
  then show ?case by (auto simp: pool_inv_def thread_pool_init_def running_def)
next
  case (step s s')
  then show ?case using pool_step_inv by blast
qed


text \<open>A pool with one worker, at different moments.\<close>

definition one_worker :: "worker_pc \<Rightarrow> bool \<Rightarrow> nat list \<Rightarrow> pool_sys" where
  "one_worker pc st q =
     \<lparr>pqueue = q, psize = of_nat (length q), pshutdown = st, workers = [pc], stop = st, pending = 0, enqueued = q, resumed = [],
      pcalls = (if pc = W_begin then [] else if pc = W_exited then [(True, 0), (False, 0)] else [(True, 0)])\<rparr>"

lemma one_worker_init: "thread_pool_init 1 = one_worker W_begin False []"
  by (simp add: thread_pool_init_def one_worker_def)

lemma one_worker_queue: "pool_step (one_worker pc st q) (one_worker pc st (q @ [h]))"
  using pool_step.resume [of "one_worker pc st q" "Some h"] by (simp add: one_worker_def pool_resume_def schedule_impl_def add.commute)

lemma one_worker_shutdown: "pool_step (one_worker pc False q) (one_worker pc True q)"
  using pool_step.shutdown [of "one_worker pc False q"] by (simp add: one_worker_def shutdown_def)

lemma one_worker_steps:
  "pool_step (one_worker W_begin st q) (one_worker W_outer st q)"
  "pool_step (one_worker W_outer st q) (one_worker (if st then W_end else W_inner) st q)"
  "pool_step (one_worker W_end st q) (one_worker W_exited st q)"
  using pool_step.worker [of 0 "one_worker W_begin st q"] pool_step.worker [of 0 "one_worker W_outer st q"]
    pool_step.worker [of 0 "one_worker W_end st q"]
  by (cases st; simp add: one_worker_def executor_step_def set_pc_def)+

lemma one_worker_reachable:
  "pool_reachable 1 (one_worker W_begin False [7])" "pool_reachable 1 (one_worker W_inner True [7])"
  "pool_reachable 1 (one_worker W_exited True [7])"
proof -
  have q: "pool_reachable 1 (one_worker W_begin False [7])"
    using one_worker_queue [of W_begin False "[]" 7] by (simp add: pool_reachable_def one_worker_init [simplified] r_into_rtranclp)
  then show "pool_reachable 1 (one_worker W_begin False [7])" .
  have "pool_step\<^sup>*\<^sup>* (one_worker W_begin False [7]) (one_worker W_outer False [7])"
    "pool_step\<^sup>*\<^sup>* (one_worker W_outer False [7]) (one_worker W_inner False [7])"
    "pool_step\<^sup>*\<^sup>* (one_worker W_inner False [7]) (one_worker W_inner True [7])"
    using one_worker_steps [of False "[7]"] one_worker_shutdown [of W_inner "[7]"] by (simp_all add: r_into_rtranclp)
  then show "pool_reachable 1 (one_worker W_inner True [7])"
    using q unfolding pool_reachable_def by (meson rtranclp_trans)
  have "pool_step\<^sup>*\<^sup>* (one_worker W_begin False [7]) (one_worker W_begin True [7])"
    "pool_step\<^sup>*\<^sup>* (one_worker W_begin True [7]) (one_worker W_outer True [7])"
    "pool_step\<^sup>*\<^sup>* (one_worker W_outer True [7]) (one_worker W_end True [7])"
    "pool_step\<^sup>*\<^sup>* (one_worker W_end True [7]) (one_worker W_exited True [7])"
    using one_worker_steps [of True "[7]"] one_worker_shutdown [of W_begin "[7]"] by (simp_all add: r_into_rtranclp)
  then show "pool_reachable 1 (one_worker W_exited True [7])"
    using q unfolding pool_reachable_def by (meson rtranclp_trans)
qed


section \<open>Shutting down\<close>

text \<open>A stopping pool whose queue is not empty still has a worker in the inner loop.\<close>

definition draining :: "pool_sys \<Rightarrow> bool" where
  "draining s \<longleftrightarrow> stop s \<and> (pqueue s = [] \<or> (\<exists>j<length (workers s). workers s ! j = W_inner \<or> is_run (workers s ! j)))"

lemma executor_step_pc:
  assumes "executor_step i s = Some s'"
  obtains pc where "i < length (workers s)" "workers s' = (workers s)[i := pc]" "stop s' = stop s" "enqueued s' = enqueued s"
    "pqueue s' = (if workers s ! i = W_inner then tl (pqueue s) else pqueue s)"
    "workers s ! i = W_inner \<longrightarrow> pqueue s \<noteq> [] \<longrightarrow> is_run pc" "is_run (workers s ! i) \<longrightarrow> pc = W_inner"
  using assms by (auto simp: executor_step_def set_pc_def split: if_splits worker_pc.splits list.splits)

lemma draining_step:
  assumes "executor_step i s = Some s'" and "draining s"
  shows "draining s'"
proof -
  obtain pc where pc: "i < length (workers s)" "workers s' = (workers s)[i := pc]" "stop s' = stop s" "enqueued s' = enqueued s"
    "pqueue s' = (if workers s ! i = W_inner then tl (pqueue s) else pqueue s)"
    "workers s ! i = W_inner \<longrightarrow> pqueue s \<noteq> [] \<longrightarrow> is_run pc" "is_run (workers s ! i) \<longrightarrow> pc = W_inner"
    using executor_step_pc [OF assms(1)] .
  show ?thesis
  proof (cases "pqueue s = []")
    case True
    then show ?thesis using pc assms(2) by (simp add: draining_def)
  next
    case False
    then obtain j where j: "j < length (workers s)" "workers s ! j = W_inner \<or> is_run (workers s ! j)"
      using assms(2) by (auto simp: draining_def)
    then have "workers s' ! j = W_inner \<or> is_run (workers s' ! j)"
      using pc False by (cases "j = i") auto
    then show ?thesis
      using pc j assms(2) by (auto simp: draining_def)
  qed
qed

text \<open>The number of steps the workers of a stopping pool can still make.\<close>

primrec pc_work :: "worker_pc \<Rightarrow> nat" where
  "pc_work W_begin = 3"
| "pc_work W_outer = 2"
| "pc_work W_inner = 3"
| "pc_work (W_run h) = 4"
| "pc_work W_end = 1"
| "pc_work W_exited = 0"

definition pool_work :: "pool_sys \<Rightarrow> nat" where
  "pool_work s = sum_list (map pc_work (workers s)) + 2 * length (pqueue s)"

lemma executor_step_work:
  assumes "executor_step i s = Some s'" and "stop s"
  shows "pool_work s' < pool_work s"
proof -
  have "i < length (workers s)"
    using assms(1) by (simp add: executor_step_def split: if_splits)
  note u = sum_list_update_less [OF this, of pc_work]
  show ?thesis
    using assms u [of W_outer] u [of W_inner] u [of "W_run (hd (pqueue s))"] u [of W_end] u [of W_exited]
    by (cases "workers s ! i"; cases "pqueue s")
      (auto simp: executor_step_def set_pc_def pool_work_def split: if_splits)
qed

lemma worker_steps_stopping:
  assumes "(worker_step ^^ k) s s'" and "stop s"
  shows "stop s' \<and> enqueued s' = enqueued s \<and> (draining s \<longrightarrow> draining s') \<and> k + pool_work s' \<le> pool_work s"
  using assms(1)
proof (induction k arbitrary: s')
  case 0
  then show ?case using assms(2) by simp
next
  case (Suc k)
  then obtain u i where u: "(worker_step ^^ k) s u" "executor_step i u = Some s'"
    by (auto elim: worker_step.cases)
  have "stop s' = stop u" "enqueued s' = enqueued u"
    using executor_step_pc [OF u(2)] by auto
  then show ?case
    using Suc.IH [OF u(1)] draining_step [OF u(2)] executor_step_work [OF u(2)] by auto
qed

lemma worker_stuck:
  assumes "stop s" and "\<nexists>s'. worker_step s s'"
  shows "shutdown_joined s"
proof -
  have "workers s ! i = W_exited" if "i < length (workers s)" for i
  proof (rule ccontr)
    assume "workers s ! i \<noteq> W_exited"
    then have "executor_step i s \<noteq> None"
      using that assms(1) by (cases "workers s ! i"; cases "pqueue s") (auto simp: executor_step_def)
    then show False
      using assms(2) worker_step.intros by blast
  qed
  then show ?thesis
    by (simp add: shutdown_joined_def list_all_length)
qed


definition drained :: "worker_pc \<Rightarrow> u64 \<Rightarrow> pool_sys" where
  "drained pc n = (one_worker pc True [7])\<lparr>pqueue := [], psize := n, resumed := [7]\<rparr>"

lemma drained_steps:
  "worker_step (one_worker W_inner True [7]) (drained (W_run 7) 1)" "worker_step (drained (W_run 7) 1) (drained W_inner 0)"
  "worker_step (drained W_inner 0) (drained W_outer 0)" "worker_step (drained W_outer 0) (drained W_end 0)"
  "worker_step (drained W_end 0) (drained W_exited 0)"
  by (intro worker_step.intros [where i = 0], simp add: executor_step_def drained_def one_worker_def set_pc_def)+


lemma joined_step:
  assumes "pool_step s s'" and "shutdown_joined s"
  shows "shutdown_joined s' \<and> resumed s' = resumed s \<and> (\<exists>q. pqueue s' = pqueue s @ q)"
  using assms
proof cases
  case (worker i)
  then show ?thesis using assms(2) by (auto simp: executor_step_def shutdown_joined_def list_all_length split: if_splits)
qed (auto simp: schedule_def operation_await_suspend_def schedule_impl_def pool_resume_def resume_range_eq shutdown_def
      shutdown_joined_def split: option.splits if_splits)

text \<open>  Once every worker has exited, no handle is resumed any more and the queue only grows: a handle given to resume after the
  shutdown, and one queued before it when no worker had reached its inner loop yet, stays in the queue for ever.
\<close>

theorem handles_left_after_shutdown:
  assumes "shutdown_joined s" and "pool_step\<^sup>*\<^sup>* s s'"
  shows "resumed s' = resumed s \<and> (\<exists>q. pqueue s' = pqueue s @ q)"
proof -
  have "shutdown_joined s' \<and> resumed s' = resumed s \<and> (\<exists>q. pqueue s' = pqueue s @ q)"
    using assms(2)
  proof induction
    case base
    then show ?case using assms(1) by simp
  next
    case (step u v)
    then show ?case using joined_step [of u v] by auto
  qed
  then show ?thesis by simp
qed

theorem handles_left_after_shutdown_witness:
  "pool_reachable 1 (one_worker W_exited True [7]) \<and>
   resumed (one_worker W_exited True ([7] @ [9])) = resumed (one_worker W_exited True [7]) \<and>
   (\<exists>q. pqueue (one_worker W_exited True ([7] @ [9])) = pqueue (one_worker W_exited True [7]) @ q)"
  using handles_left_after_shutdown [of "one_worker W_exited True [7]" "one_worker W_exited True ([7] @ [9])"]
    one_worker_queue [of W_exited True "[7]" 9] one_worker_reachable(3)
  by (simp add: shutdown_joined_def one_worker_def r_into_rtranclp)

section \<open>The pool as an executor\<close>

interpretation tp: executor "\<lambda>h p. pool_resume (Some h) p" "pqueue :: 'a pool_scheme \<Rightarrow> nat list"
  by unfold_locales (simp add: pool_resume_def schedule_impl_def)

text \<open>  An event set with a thread pool as executor puts the coroutines that wait for it into the pool's queue, behind what is there, in
  the order of the policy, each once, and leaves the event set.
\<close>

theorem event_set_on_pool:
  assumes "linked (nexts s) (ev_state s) ws" and "length ws < n"
    and "inj_on (\<lambda>v. awaiting_coroutine (mem s v)) (set ws)"
  shows "\<exists>s'. event_set n (\<lambda>h. event.more_update (pool_resume (Some h))) policy s = Inr s' \<and> is_set s' \<and>
    pqueue (event.more s') =
      pqueue (event.more s) @ map (\<lambda>v. awaiting_coroutine (mem s v)) (if policy = Fifo then rev ws else ws)"
  by (rule tp.set_queues [OF assms])

definition pool_waiting :: "pool event_scheme" where
  "pool_waiting =
     snd (await_suspend 2 20 (snd (await_suspend 1 10
       \<lparr>ev_state = Null, mem = (\<lambda>_. \<lparr>awaiting_coroutine = 0, nextp = Null\<rparr>), \<dots> = pool_init\<rparr>)))"

lemma pool_waiting_simps [simp]:
  "ev_state pool_waiting = Aw 2" "nextp (mem pool_waiting 2) = Aw 1" "nextp (mem pool_waiting (Suc 0)) = Null"
  "awaiting_coroutine (mem pool_waiting 2) = 20" "awaiting_coroutine (mem pool_waiting (Suc 0)) = 10"
  by (simp_all add: pool_waiting_def await_suspend_def await_begin_def await_step_def set_next_def Let_def)

theorem event_set_on_pool_witness:
  "\<exists>s'. event_set 3 (\<lambda>h. event.more_update (pool_resume (Some h))) Fifo pool_waiting = Inr s' \<and> is_set s' \<and>
    pqueue (event.more s') =
      pqueue (event.more pool_waiting) @
        map (\<lambda>v. awaiting_coroutine (mem pool_waiting v)) (if Fifo = Fifo then rev [2, 1] else [2, 1])"
  by (rule event_set_on_pool) (simp_all add: inj_on_def)

end
