(* ===== verification/Io_Context.thy ===== *)
theory Io_Context
  imports Sys Thread_Pool
begin

text \<open>
  \<open>io_awaitable\<close> and \<open>io_context\<close> of \<^verbatim>\<open>src/async/io_context.hpp\<close>.

  \<open>epoll_data_t\<close> is a union: its 64 bits hold either the pointer \<open>ptr\<close> or, in the lower half, the descriptor \<open>fd\<close>.
\<close>

section \<open>Operations\<close>

definition data_of_fd :: "int \<Rightarrow> u64" where
  "data_of_fd fd = ucast (word_of_int fd :: 32 word)"

definition fd_of_data :: "u64 \<Rightarrow> int" where
  "fd_of_data d = sint (ucast d :: 32 word)"

definition new_io_awaitable :: "u32 \<Rightarrow> int \<Rightarrow> epoll_event" where
  "new_io_awaitable ev fd = \<lparr>events = ev, data = data_of_fd fd\<rparr>"

definition io_await_suspend :: "'k sys \<Rightarrow> int \<Rightarrow> u64 \<Rightarrow> epoll_event \<Rightarrow> 'k \<Rightarrow> epoll_event \<times> 'k" where
  "io_await_suspend S epfd h ev k =
     (let ev = ev\<lparr>data := h\<rparr> in (ev, snd (sys_epoll_ctl S epfd EPOLL_CTL_ADD (fd_of_data (data ev)) (Some ev) k)))"

definition io_await_resume :: "epoll_event \<Rightarrow> int" where
  "io_await_resume ev = fd_of_data (data ev)"

text \<open>
  One ready event in \<open>run\<close>: the handle is default-constructed, and \<open>from_address\<close>, a static function, returns another one that is
  dropped.
\<close>

definition run_event :: "epoll_event \<Rightarrow> 'p \<Rightarrow> 'p res" where
  "run_event ev p =
     (let h = (None :: handle) in case h of None \<Rightarrow> Inl Null_deref | Some h \<Rightarrow> Inr p)"

primrec run_events :: "epoll_event list \<Rightarrow> 'p \<Rightarrow> 'p res" where
  "run_events [] p = Inr p"
| "run_events (ev # evs) p = bindE (run_event ev p) (run_events evs)"

definition io_stop :: "'k sys \<Rightarrow> int \<Rightarrow> pool_sys \<times> 'k \<Rightarrow> pool_sys \<times> 'k" where
  "io_stop S epfd = (\<lambda>(p, k). (shutdown p, sys_close S epfd k))"

text \<open>
  The coroutines \<open>accept\<close>, \<open>send\<close> and \<open>recv\<close>, after they have been scheduled on the pool: the part up to the suspension, in which the event is
  registered, and the part after it, which calls the kernel.  \<open>send\<close> and \<open>recv\<close> return \<open>size_t\<close>.
\<close>

definition io_accept_suspend :: "'k sys \<Rightarrow> int \<Rightarrow> u64 \<Rightarrow> int \<Rightarrow> 'k \<Rightarrow> 'k" where
  "io_accept_suspend S epfd h fd k = snd (io_await_suspend S epfd h (new_io_awaitable EPOLLIN fd) k)"

definition io_accept_resumed :: "'k sys \<Rightarrow> int \<Rightarrow> 'k \<Rightarrow> int \<times> 'k" where
  "io_accept_resumed S fd k = (let (r, k) = sys_accept S fd k in (rt r, k))"

definition io_send_suspend :: "'k sys \<Rightarrow> int \<Rightarrow> u64 \<Rightarrow> int \<Rightarrow> 'k \<Rightarrow> 'k" where
  "io_send_suspend S epfd h fd k = snd (io_await_suspend S epfd h (new_io_awaitable EPOLLOUT fd) k)"

definition io_send_resumed :: "'k sys \<Rightarrow> int \<Rightarrow> byte list \<Rightarrow> 'k \<Rightarrow> u64 \<times> 'k" where
  "io_send_resumed S fd buf k = (let (r, k) = sys_write S fd buf k in (word_of_int (rt r), k))"

definition io_recv_suspend :: "'k sys \<Rightarrow> int \<Rightarrow> u64 \<Rightarrow> int \<Rightarrow> 'k \<Rightarrow> 'k" where
  "io_recv_suspend S epfd h fd k = snd (io_await_suspend S epfd h (new_io_awaitable EPOLLIN fd) k)"

definition io_recv_resumed :: "'k sys \<Rightarrow> int \<Rightarrow> nat \<Rightarrow> 'k \<Rightarrow> (u64 \<times> byte list) \<times> 'k" where
  "io_recv_resumed S fd len k = (let ((r, buf), k) = sys_read S fd len k in ((word_of_int (rt r), buf), k))"

text \<open>The constructor, and one round of the endless loop of \<open>run\<close> with the default limits.\<close>

definition new_io_context :: "'k sys \<Rightarrow> 'k \<Rightarrow> int \<times> 'k" where
  "new_io_context S k = sys_epoll_create S k"

definition io_run_round :: "nat \<Rightarrow> int \<Rightarrow> 'k sys \<Rightarrow> int \<Rightarrow> 'p \<Rightarrow> 'k \<Rightarrow> ('p \<times> 'k) res" where
  "io_run_round kMaxEvent kTimeout S epfd p k =
     (let ((num_ready, ready), k) = sys_epoll_wait S epfd kMaxEvent kTimeout k in
      bindE (run_events (take (nat num_ready) ready) p) (\<lambda>p. Inr (p, k)))"

section \<open>Properties\<close>

text \<open>
  Waiting for a descriptor through \<open>io_context\<close> does not work: \<open>await_suspend\<close> overwrites the descriptor with the address of the
  coroutine before it registers it, so that the descriptor handed to the kernel is the lower half of that address, whatever the
  descriptor was; and the first ready event makes \<open>run\<close> follow a null handle.
\<close>

lemma io_context_cannot_wait:
  "io_await_suspend S epfd h (new_io_awaitable ev fd) k =
     (\<lparr>events = ev, data = h\<rparr>,
      snd (sys_epoll_ctl S epfd EPOLL_CTL_ADD (sint (ucast h :: 32 word)) (Some \<lparr>events = ev, data = h\<rparr>) k)) \<and>
   io_await_resume (fst (io_await_suspend S epfd h (new_io_awaitable ev fd) k)) = sint (ucast h :: 32 word) \<and>
   run_events (e # es) p = Inl Null_deref"
  by (simp add: io_await_suspend_def new_io_awaitable_def fd_of_data_def io_await_resume_def run_event_def Let_def)

text \<open>Waiting for two descriptors from one coroutine registers the same wrong descriptor.\<close>

lemma io_waits_alike: "io_accept_suspend S epfd h fd k = io_recv_suspend S epfd h fd' k"
  by (simp add: io_accept_suspend_def io_recv_suspend_def io_context_cannot_wait)

text \<open>A failed \<open>send\<close> or \<open>recv\<close> is reported as the largest size.\<close>

lemma io_send_error:
  assumes "sys_write S fd buf k = (r, k')" and "rt r = -1"
  shows "io_send_resumed S fd buf k = (- 1, k')" and "unat (fst (io_send_resumed S fd buf k)) = 2 ^ 64 - 1"
proof -
  show eq: "io_send_resumed S fd buf k = (- 1, k')" using assms by (simp add: io_send_resumed_def)
  show "unat (fst (io_send_resumed S fd buf k)) = 2 ^ 64 - 1"
    unfolding eq by (simp add: unsigned_minus_1_eq_mask mask_eq_exp_minus_1)
qed

lemma io_run_stops_at_event:
  assumes "sys_epoll_wait S epfd m t k = ((n, e # es), k')" and "0 < n"
  shows "io_run_round m t S epfd p k = Inl Null_deref"
  using assms by (cases "nat n") (simp_all add: io_run_round_def run_event_def Let_def)

end
