(* ===== verification/Promise.thy ===== *)
theory Promise
  imports Prelude
begin

text \<open>
  The promise objects of \<^verbatim>\<open>src/async/task.hpp\<close>, \<^verbatim>\<open>src/async/when_all.hpp\<close> and \<^verbatim>\<open>src/async/sync_wait.hpp\<close>: where a coroutine
  leaves its result or its exception and whom it tells.  The locale \<open>result_slot\<close> is what the awaiting side relies on; each of the
  three promises is an instance.  An exception is a value of type \<open>'e\<close>; a result of type \<open>void\<close> is \<open>unit\<close>.
\<close>

section \<open>What the awaiting side relies on\<close>

locale result_slot =
  fixes put_value :: "'r \<Rightarrow> 'p \<Rightarrow> 'p"
    and put_exception :: "'e \<Rightarrow> 'p \<Rightarrow> 'p"
    and get_result :: "'p \<Rightarrow> ('e + 'r) res"
    and unset :: "'p \<Rightarrow> bool"
  assumes get_value: "unset p \<Longrightarrow> get_result (put_value r p) = Inr (Inr r)"
    and get_exception: "unset p \<Longrightarrow> get_result (put_exception e p) = Inr (Inl e)"
begin

definition finish_with :: "'e + 'r \<Rightarrow> 'p \<Rightarrow> 'p" where
  "finish_with out p = (case out of Inl e \<Rightarrow> put_exception e p | Inr r \<Rightarrow> put_value r p)"

lemma get_finish: "unset p \<Longrightarrow> get_result (finish_with out p) = Inr out"
  by (cases out) (simp_all add: finish_with_def get_value get_exception)

end

section \<open>Promise of a task\<close>

text \<open>\<open>continuation_\<close> is the coroutine that awaits the task; \<open>None\<close> is a null handle or exception pointer.\<close>

record ('e, 'r) task_promise =
  continuation_of :: "nat option"
  except_ptr :: "'e option"
  return_val :: 'r

definition tp_unhandled_exception :: "'e \<Rightarrow> ('e, 'r) task_promise \<Rightarrow> ('e, 'r) task_promise" where
  "tp_unhandled_exception e p = p\<lparr>except_ptr := Some e\<rparr>"

definition tp_continuation :: "nat option \<Rightarrow> ('e, 'r) task_promise \<Rightarrow> ('e, 'r) task_promise" where
  "tp_continuation c p = p\<lparr>continuation_of := c\<rparr>"

definition tp_return_value :: "'r \<Rightarrow> ('e, 'r) task_promise \<Rightarrow> ('e, 'r) task_promise" where
  "tp_return_value r p = p\<lparr>return_val := r\<rparr>"

definition tp_result :: "('e, 'r) task_promise \<Rightarrow> 'e + 'r" where
  "tp_result p = (case except_ptr p of Some e \<Rightarrow> Inl e | None \<Rightarrow> Inr (return_val p))"

text \<open>The coroutine that control passes to at the final suspension; \<open>None\<close> is \<open>noop_coroutine\<close>.\<close>

definition final_await_suspend :: "('e, 'r) task_promise \<Rightarrow> nat option" where
  "final_await_suspend p = (if continuation_of p \<noteq> None then continuation_of p else None)"

interpretation task_slot: result_slot tp_return_value tp_unhandled_exception "\<lambda>p. Inr (tp_result p)"
    "\<lambda>p. except_ptr p = None"
  by unfold_locales (simp_all add: tp_return_value_def tp_unhandled_exception_def tp_result_def)

section \<open>Promise of a \<open>when_all\<close> task\<close>

text \<open>\<open>return_value_\<close> is a pointer to the awaited value, which stays alive in the suspended coroutine.\<close>

record ('e, 'r) when_all_promise =
  wp_except :: "'e option"
  wp_return :: "'r option"

definition wp_init :: "('e, 'r) when_all_promise" where
  "wp_init = \<lparr>wp_except = None, wp_return = None\<rparr>"

definition wp_unhandled_exception :: "'e \<Rightarrow> ('e, 'r) when_all_promise \<Rightarrow> ('e, 'r) when_all_promise" where
  "wp_unhandled_exception e p = p\<lparr>wp_except := Some e\<rparr>"

definition wp_yield_value :: "'r \<Rightarrow> ('e, 'r) when_all_promise \<Rightarrow> ('e, 'r) when_all_promise" where
  "wp_yield_value r p = p\<lparr>wp_return := Some r\<rparr>"

definition wp_return_value :: "('e, 'r) when_all_promise \<Rightarrow> ('e + 'r) res" where
  "wp_return_value p =
     (case wp_except p of
        Some e \<Rightarrow> Inr (Inl e)
      | None \<Rightarrow> (case wp_return p of Some r \<Rightarrow> Inr (Inr r) | None \<Rightarrow> Inl Null_deref))"

interpretation when_all_slot: result_slot wp_yield_value wp_unhandled_exception wp_return_value
    "\<lambda>p. wp_except p = None"
  by unfold_locales (simp_all add: wp_yield_value_def wp_unhandled_exception_def wp_return_value_def)

section \<open>Promise of a \<open>sync_wait\<close> task\<close>

record ('e, 'r) sync_promise =
  sp_except :: "'e option"
  sp_return :: "'r option"

definition sp_init :: "('e, 'r) sync_promise" where
  "sp_init = \<lparr>sp_except = None, sp_return = None\<rparr>"

definition sp_unhandled_exception :: "'e \<Rightarrow> ('e, 'r) sync_promise \<Rightarrow> ('e, 'r) sync_promise" where
  "sp_unhandled_exception e p = p\<lparr>sp_except := Some e\<rparr>"

definition sp_yield_value :: "'r \<Rightarrow> ('e, 'r) sync_promise \<Rightarrow> ('e, 'r) sync_promise" where
  "sp_yield_value r p = p\<lparr>sp_return := Some r\<rparr>"

definition sp_result :: "('e, 'r) sync_promise \<Rightarrow> ('e + 'r) res" where
  "sp_result p =
     (case sp_except p of
        Some e \<Rightarrow> Inr (Inl e)
      | None \<Rightarrow> (case sp_return p of Some r \<Rightarrow> Inr (Inr r) | None \<Rightarrow> Inl Null_deref))"

interpretation sync_slot: result_slot sp_yield_value sp_unhandled_exception sp_result "\<lambda>p. sp_except p = None"
  by unfold_locales (simp_all add: sp_yield_value_def sp_unhandled_exception_def sp_result_def)

end
