(* ===== verification/When_All.thy ===== *)
theory When_All
  imports Promise
begin

text \<open>
  \<open>async::when_all\<close> and \<open>async::sync_wait\<close> (\<^verbatim>\<open>src/async/when_all.hpp\<close>, \<^verbatim>\<open>src/async/sync_wait.hpp\<close>).

  The latch counts the tasks that have not finished and the awaiting coroutine itself; whoever brings it to zero lets the
  awaiting coroutine go on.  The tasks run in any threads: a step of the system is a step of the awaiting thread or of one task.
  What an awaited operation returns or throws is the parameter \<open>out\<close>.
\<close>

section \<open>Latch\<close>

record latch =
  lcount :: u64
  awaiting_co :: "nat option"

definition new_latch :: "nat \<Rightarrow> latch" where
  "new_latch n = \<lparr>lcount = of_nat n + 1, awaiting_co = None\<rparr>"

text \<open>The new latch and what is left of the other.\<close>

definition latch_move :: "latch \<Rightarrow> latch \<times> latch" where
  "latch_move other =
     (\<lparr>lcount = lcount other, awaiting_co = awaiting_co other\<rparr>, other\<lparr>awaiting_co := None\<rparr>)"

definition latch_assign :: "latch \<Rightarrow> latch \<Rightarrow> latch \<times> latch" where
  "latch_assign l other =
     (l\<lparr>lcount := lcount other, awaiting_co := awaiting_co other\<rparr>, other\<lparr>awaiting_co := None\<rparr>)"

definition latch_is_ready :: "(nat \<Rightarrow> bool) \<Rightarrow> latch \<Rightarrow> bool" where
  "latch_is_ready co_done l \<longleftrightarrow> (case awaiting_co l of None \<Rightarrow> False | Some h \<Rightarrow> co_done h)"

text \<open>The result says whether the awaiting coroutine stays suspended.\<close>

definition latch_try_await :: "nat \<Rightarrow> 'a latch_scheme \<Rightarrow> bool \<times> 'a latch_scheme" where
  "latch_try_await h l = (1 < lcount l, l\<lparr>awaiting_co := Some h, lcount := lcount l - 1\<rparr>)"

text \<open>The result is the coroutine that is resumed, if any.\<close>

definition notify_awaitable_completed :: "'a latch_scheme \<Rightarrow> (nat option \<times> 'a latch_scheme) res" where
  "notify_awaitable_completed l =
     (let old = lcount l; l = l\<lparr>lcount := lcount l - 1\<rparr> in
      if old = 1 then (case awaiting_co l of None \<Rightarrow> Inl Null_deref | Some h \<Rightarrow> Inr (Some h, l)) else Inr (None, l))"

section \<open>Awaiting all tasks\<close>

datatype task_pc = T_suspended | T_started | T_finished | T_notified

datatype await_all_pc = A_start nat | A_suspended | A_continued

record ('e, 'r) when_all_sys = latch +
  tasks :: "task_pc list"
  promises :: "('e, 'r) when_all_promise list"
  apc :: await_all_pc
  co_resumes :: nat

text \<open>\<open>when_all\<close> makes one suspended task for each awaitable.\<close>

definition when_all_init :: "nat \<Rightarrow> ('e, 'r) when_all_sys" where
  "when_all_init n =
     \<lparr>lcount = lcount (new_latch n), awaiting_co = awaiting_co (new_latch n), tasks = replicate n T_suspended,
      promises = replicate n wp_init, apc = A_start 0, co_resumes = 0\<rparr>"

text \<open>
  \<open>try_await\<close> of the awaitable: it starts the tasks in order and then awaits the latch.  \<open>task.start\<close> runs the task until it
  first suspends or finishes; what it does from then on are steps of its own.
\<close>

definition try_await_step :: "nat \<Rightarrow> ('e, 'r) when_all_sys \<Rightarrow> ('e, 'r) when_all_sys option" where
  "try_await_step h s =
     (case apc s of
        A_start i \<Rightarrow>
          if i < length (tasks s) then Some (s\<lparr>tasks := (tasks s)[i := T_started], apc := A_start (Suc i)\<rparr>)
          else
            let (suspended, s) = latch_try_await h s in
            Some (s\<lparr>apc := (if suspended then A_suspended else A_continued)\<rparr>)
      | _ \<Rightarrow> None)"

text \<open>
  \<open>make_when_all_task\<close>: the awaited value is yielded, an exception is kept in the promise; the final suspension
  notifies the latch, which resumes the awaiting coroutine when it is the last.
\<close>

definition task_finish :: "(nat \<Rightarrow> 'e + 'r) \<Rightarrow> nat \<Rightarrow> ('e, 'r) when_all_sys \<Rightarrow> ('e, 'r) when_all_sys option" where
  "task_finish out i s =
     (if i < length (tasks s) \<and> tasks s ! i = T_started
      then Some (s\<lparr>promises := (promises s)[i :=
             (case out i of Inl e \<Rightarrow> wp_unhandled_exception e (promises s ! i)
              | Inr r \<Rightarrow> wp_yield_value r (promises s ! i))],
             tasks := (tasks s)[i := T_finished]\<rparr>)
      else None)"

definition task_notify :: "nat \<Rightarrow> ('e, 'r) when_all_sys \<Rightarrow> ('e, 'r) when_all_sys res option" where
  "task_notify i s =
     (if i < length (tasks s) \<and> tasks s ! i = T_finished
      then Some (bindE (notify_awaitable_completed s) (\<lambda>(h, s).
             let s = s\<lparr>tasks := (tasks s)[i := T_notified]\<rparr> in
             case h of
               None \<Rightarrow> Inr s
             | Some h \<Rightarrow> if apc s = A_suspended then Inr (s\<lparr>apc := A_continued, co_resumes := Suc (co_resumes s)\<rparr>)
                         else Inl Bad_handle))
      else None)"

inductive when_all_step :: "(nat \<Rightarrow> 'e + 'r) \<Rightarrow> ('e, 'r) when_all_sys \<Rightarrow> ('e, 'r) when_all_sys \<Rightarrow> bool"
  for out where
  await: "try_await_step h s = Some s' \<Longrightarrow> when_all_step out s s'"
| finish: "task_finish out i s = Some s' \<Longrightarrow> when_all_step out s s'"
| notify: "task_notify i s = Some (Inr s') \<Longrightarrow> when_all_step out s s'"

definition when_all_results :: "('e, 'r) when_all_sys \<Rightarrow> ('e + 'r) res list" where
  "when_all_results s = map wp_return_value (promises s)"

section \<open>Every task is waited for and the awaiting coroutine goes on once\<close>

definition unnotified :: "('e, 'r) when_all_sys \<Rightarrow> nat" where
  "unnotified s = length (filter (\<lambda>t. t \<noteq> T_notified) (tasks s))"

definition slots_ok :: "(nat \<Rightarrow> 'e + 'r) \<Rightarrow> ('e, 'r) when_all_sys \<Rightarrow> bool" where
  "slots_ok out s \<longleftrightarrow> length (promises s) = length (tasks s) \<and>
     (\<forall>i<length (tasks s).
        (tasks s ! i \<in> {T_suspended, T_started} \<longrightarrow> promises s ! i = wp_init) \<and>
        (tasks s ! i \<in> {T_finished, T_notified} \<longrightarrow> wp_return_value (promises s ! i) = Inr (out i)))"

definition pc_ok :: "('e, 'r) when_all_sys \<Rightarrow> bool" where
  "pc_ok s \<longleftrightarrow>
     (case apc s of
        A_start k \<Rightarrow> k \<le> length (tasks s) \<and> co_resumes s = 0 \<and> lcount s = of_nat (unnotified s + 1) \<and>
          (\<forall>i<length (tasks s). tasks s ! i = T_suspended \<longleftrightarrow> k \<le> i)
      | A_suspended \<Rightarrow> 0 < unnotified s \<and> awaiting_co s \<noteq> None \<and> co_resumes s = 0 \<and> lcount s = of_nat (unnotified s) \<and>
          (\<forall>i<length (tasks s). tasks s ! i \<noteq> T_suspended)
      | A_continued \<Rightarrow> unnotified s = 0 \<and> co_resumes s \<le> 1)"

lemma unnotified_update:
  assumes "i < length (tasks s)"
  shows "length (filter (\<lambda>t. t \<noteq> T_notified) ((tasks s)[i := t])) + (if tasks s ! i \<noteq> T_notified then 1 else 0)
       = unnotified s + (if t \<noteq> T_notified then 1 else 0)"
  using filter_list_update [OF assms, of "\<lambda>t. t \<noteq> T_notified" t] by (simp add: unnotified_def)

lemma unnotified_le: "unnotified s \<le> length (tasks s)"
  by (simp add: unnotified_def)

lemma unnotified_0: "unnotified s = 0 \<longleftrightarrow> (\<forall>i<length (tasks s). tasks s ! i = T_notified)"
  by (simp add: unnotified_def filter_empty_conv all_set_conv_all_nth)

lemma unat_of_nat64: "m < 2 ^ 64 \<Longrightarrow> unat (of_nat m :: u64) = m"
  by (simp add: unsigned_of_nat take_bit_nat_eq_self)

lemma try_await_inv:
  assumes "try_await_step h s = Some s'" and "pc_ok s" and "slots_ok out s" and "length (tasks s) < 2 ^ 64 - 1"
  shows "pc_ok s' \<and> slots_ok out s' \<and> length (tasks s') = length (tasks s)"
proof (cases "apc s")
  case (A_start k)
  show ?thesis
  proof (cases "k < length (tasks s)")
    case True
    moreover have "tasks s ! k = T_suspended"
      using assms(2) A_start True by (simp add: pc_ok_def)
    ultimately show ?thesis
      using assms A_start unnotified_update [OF True, of T_started]
      by (auto simp: try_await_step_def pc_ok_def slots_ok_def unnotified_def nth_list_update split: if_splits)
  next
    case False
    have "1 < lcount s \<longleftrightarrow> 0 < unnotified s"
      using assms(2,4) A_start unnotified_le [of s]
      by (simp add: pc_ok_def word_less_nat_alt unat_of_nat64 del: of_nat_Suc of_nat_add)
    then show ?thesis
      using assms A_start False
      by (auto simp: try_await_step_def latch_try_await_def pc_ok_def slots_ok_def unnotified_def)
  qed
qed (use assms in \<open>auto simp: try_await_step_def\<close>)

lemma still_started:
  assumes "tasks s ! i \<noteq> T_suspended" and "t \<noteq> T_suspended"
  shows "(tasks s)[i := t] ! j = T_suspended \<longleftrightarrow> tasks s ! j = T_suspended"
  using assms by (cases "i < length (tasks s)") (auto simp: nth_list_update list_update_beyond)

lemma task_finish_inv:
  assumes "task_finish out i s = Some s'" and "pc_ok s" and "slots_ok out s"
  shows "pc_ok s' \<and> slots_ok out s' \<and> length (tasks s') = length (tasks s)"
proof -
  have i: "i < length (tasks s)" "tasks s ! i = T_started"
    using assms(1) by (auto simp: task_finish_def split: if_splits)
  then have p: "promises s ! i = wp_init"
    using assms(3) by (simp add: slots_ok_def)
  have r: "wp_return_value (case out i of Inl e \<Rightarrow> wp_unhandled_exception e (promises s ! i)
      | Inr r \<Rightarrow> wp_yield_value r (promises s ! i)) = Inr (out i)"
    unfolding p when_all_slot.finish_with_def [symmetric] by (rule when_all_slot.get_finish) (simp add: wp_init_def)
  have u: "unnotified s' = unnotified s"
    using assms(1) i unnotified_update [OF i(1), of T_finished] by (auto simp: task_finish_def unnotified_def)
  have "unnotified s \<noteq> 0"
    using i by (auto simp: unnotified_0)
  then have "pc_ok s'"
    using assms i u still_started [of s i T_finished]
    by (auto simp: task_finish_def pc_ok_def split: await_all_pc.splits)
  moreover have "slots_ok out s' \<and> length (tasks s') = length (tasks s)"
    using assms i r by (auto simp: task_finish_def slots_ok_def nth_list_update)
  ultimately show ?thesis by simp
qed

lemma task_notify_ok:
  assumes "task_notify i s = Some r" and "pc_ok s" and "slots_ok out s" and "length (tasks s) < 2 ^ 64 - 1"
  shows "\<exists>s'. r = Inr s' \<and> pc_ok s' \<and> slots_ok out s' \<and> length (tasks s') = length (tasks s)"
proof -
  have i: "i < length (tasks s)" "tasks s ! i = T_finished"
    using assms(1) by (auto simp: task_notify_def split: if_splits)
  have u: "length (filter (\<lambda>t. t \<noteq> T_notified) ((tasks s)[i := T_notified])) + 1 = unnotified s"
    using i unnotified_update [OF i(1), of T_notified] by simp
  have n: "unnotified s \<noteq> 0" "unnotified s + 1 < 2 ^ 64"
    using u unnotified_le [of s] assms(4) by simp_all
  have one: "(of_nat (unnotified s) :: u64) = 1 \<longleftrightarrow> unnotified s = 1" "(of_nat (unnotified s + 1) :: u64) = 1 \<longleftrightarrow> unnotified s = 0"
    using n unat_of_nat64 [of "unnotified s"] unat_of_nat64 [of "unnotified s + 1"] by (metis Suc_eq_plus1 One_nat_def nat.inject unat_1 of_nat_1 add_lessD1)+
  let ?s = "s\<lparr>lcount := lcount s - 1, tasks := (tasks s)[i := T_notified]\<rparr>"
  have u': "unnotified (s\<lparr>lcount := c, tasks := (tasks s)[i := T_notified]\<rparr>) = unnotified s - 1"
    "unnotified (s\<lparr>lcount := c, tasks := (tasks s)[i := T_notified], apc := a, co_resumes := k\<rparr>) = unnotified s - 1" for a k c
    using u by (simp_all add: unnotified_def)
  have slots: "slots_ok out ?s" "slots_ok out (?s\<lparr>apc := a, co_resumes := k\<rparr>)" for a k
    using assms(3) i by (auto simp: slots_ok_def nth_list_update)
  note susp = still_started [of s i T_notified]
  show ?thesis
  proof (cases "apc s")
    case (A_start k)
    then have "r = Inr ?s"
      using assms(1,2) i n one by (auto simp: task_notify_def notify_awaitable_completed_def pc_ok_def)
    then show ?thesis
      using assms(2) A_start i(2) slots(1) n(1) susp by (auto simp: pc_ok_def u'(1) of_nat_diff)
  next
    case A_suspended
    then have c: "lcount s = of_nat (unnotified s)" "awaiting_co s \<noteq> None" "co_resumes s = 0"
      using assms(2) by (simp_all add: pc_ok_def)
    show ?thesis
    proof (cases "unnotified s = 1")
      case True
      then have "r = Inr (?s\<lparr>apc := A_continued, co_resumes := 1\<rparr>)"
        using assms(1) i c A_suspended by (auto simp: task_notify_def notify_awaitable_completed_def Let_def)
      then show ?thesis
        using slots(2) u'(2) True by (simp add: pc_ok_def)
    next
      case False
      then have "lcount s \<noteq> 1"
        unfolding c(1) one(1) .
      then have "r = Inr ?s"
        using assms(1) i by (simp add: task_notify_def notify_awaitable_completed_def)
      moreover have "tasks s ! j \<noteq> T_suspended" if "j < length (tasks s)" for j
        using assms(2) A_suspended that by (simp add: pc_ok_def)
      ultimately have "pc_ok ?s"
        using False n(1) by (simp add: pc_ok_def A_suspended u'(1) c susp i(2) of_nat_diff)
      moreover note \<open>r = Inr ?s\<close>
      ultimately show ?thesis
        using slots(1) by simp
    qed
  next
    case A_continued
    then show ?thesis using assms(2) n by (simp add: pc_ok_def)
  qed
qed

lemma when_all_step_inv:
  assumes "when_all_step out s s'" and "pc_ok s" and "slots_ok out s" and "length (tasks s) < 2 ^ 64 - 1"
  shows "pc_ok s' \<and> slots_ok out s' \<and> length (tasks s') = length (tasks s)"
  using assms(1)
proof cases
  case (await h)
  then show ?thesis using try_await_inv assms(2-4) by blast
next
  case (finish i)
  then show ?thesis using task_finish_inv assms(2,3) by blast
next
  case (notify i)
  then show ?thesis using task_notify_ok [OF notify assms(2-4)] by auto
qed

lemma when_all_reachable_inv:
  assumes "(when_all_step out)\<^sup>*\<^sup>* (when_all_init n) s" and "n < 2 ^ 64 - 1"
  shows "pc_ok s \<and> slots_ok out s \<and> length (tasks s) = n"
  using assms(1)
proof induction
  case base
  show ?case
    by (auto simp: when_all_init_def pc_ok_def slots_ok_def unnotified_def new_latch_def add.commute)
next
  case (step s s')
  then show ?case using when_all_step_inv assms(2) by metis
qed

lemma when_all_stuck:
  assumes "\<nexists>s'. when_all_step out s s'" and "pc_ok s" and "slots_ok out s" and "length (tasks s) < 2 ^ 64 - 1"
  shows "apc s = A_continued"
proof (cases "apc s")
  case (A_start k)
  then have "try_await_step 0 s \<noteq> None"
    by (simp add: try_await_step_def latch_try_await_def)
  then show ?thesis
    using assms(1) when_all_step.await by blast
next
  case A_suspended
  then obtain i where i: "i < length (tasks s)" "tasks s ! i \<noteq> T_notified" "tasks s ! i \<noteq> T_suspended"
    using assms(2) unnotified_0 [of s] by (auto simp: pc_ok_def)
  then consider "task_finish out i s \<noteq> None" | "task_notify i s \<noteq> None"
    by (cases "tasks s ! i") (auto simp: task_finish_def task_notify_def)
  then show ?thesis
  proof cases
    case 1
    then show ?thesis using assms(1) when_all_step.finish by blast
  next
    case 2
    then obtain s' where "task_notify i s = Some (Inr s')"
      using task_notify_ok [OF _ assms(2-4)] by blast
    then show ?thesis using assms(1) when_all_step.notify by blast
  qed
qed simp

text \<open>C6.
  For any number of tasks and every interleaving of their completions with the awaiting thread: no notification resumes a coroutine that is
  not suspended, the awaiting coroutine is resumed at most once, it goes on only when every task has finished and then finds
  in each task the value or the exception of its awaitable, and as long as it has not gone on somebody can make a
  step: it is never left waiting.
\<close>

theorem when_all_completes:
  assumes "(when_all_step out)\<^sup>*\<^sup>* (when_all_init n) s" and "n < 2 ^ 64 - 1"
  shows "(\<forall>i e. task_notify i s \<noteq> Some (Inl e)) \<and> co_resumes s \<le> 1 \<and>
    (apc s = A_continued \<longrightarrow> when_all_results s = map (\<lambda>i. Inr (out i)) [0..<n]) \<and>
    ((\<nexists>s'. when_all_step out s s') \<longrightarrow> apc s = A_continued)"
proof (intro conjI allI impI)
  have inv: "pc_ok s" "slots_ok out s" "length (tasks s) = n" and n: "length (tasks s) < 2 ^ 64 - 1"
    using when_all_reachable_inv [OF assms] assms(2) by auto
  show "task_notify i s \<noteq> Some (Inl e)" for i e
    using task_notify_ok [OF _ inv(1,2) n, of i "Inl e"] by auto
  show "co_resumes s \<le> 1"
    using inv(1) by (auto simp: pc_ok_def split: await_all_pc.splits)
  show "when_all_results s = map (\<lambda>i. Inr (out i)) [0..<n]" if "apc s = A_continued"
    using inv that by (auto simp: pc_ok_def unnotified_0 slots_ok_def when_all_results_def intro!: nth_equalityI)
  show "apc s = A_continued" if "\<nexists>s'. when_all_step out s s'"
    using when_all_stuck [OF that inv(1,2) n] .
qed

definition demo_out :: "nat \<Rightarrow> string + nat" where
  "demo_out i = Inr 42"

definition demo_last :: "(string, nat) when_all_sys" where
  "demo_last =
     \<lparr>lcount = 0, awaiting_co = Some 5, tasks = [T_notified], promises = [\<lparr>wp_except = None, wp_return = Some 42\<rparr>],
      apc = A_continued, co_resumes = 1\<rparr>"

lemma demo_last_reachable: "(when_all_step demo_out)\<^sup>*\<^sup>* (when_all_init 1) demo_last"
proof -
  let ?s = "\<lambda>c a t p pc k. \<lparr>lcount = c, awaiting_co = a, tasks = [t], promises = [\<lparr>wp_except = None, wp_return = p\<rparr>], apc = pc, co_resumes = k\<rparr>"
  have "(when_all_step demo_out)\<^sup>*\<^sup>* (when_all_init 1) (?s 2 None T_started None (A_start 1) 0)"
    by (rule r_into_rtranclp, rule when_all_step.await [of 5])
      (simp add: try_await_step_def when_all_init_def new_latch_def wp_init_def)
  also have "(when_all_step demo_out)\<^sup>*\<^sup>* \<dots> (?s 1 (Some 5) T_started None A_suspended 0)"
    by (rule r_into_rtranclp, rule when_all_step.await [of 5]) (simp add: try_await_step_def latch_try_await_def)
  also have "(when_all_step demo_out)\<^sup>*\<^sup>* \<dots> (?s 1 (Some 5) T_finished (Some 42) A_suspended 0)"
    by (rule r_into_rtranclp, rule when_all_step.finish [of _ 0]) (simp add: task_finish_def demo_out_def wp_yield_value_def)
  also have "(when_all_step demo_out)\<^sup>*\<^sup>* \<dots> (?s 0 (Some 5) T_notified (Some 42) A_continued 1)"
    by (rule r_into_rtranclp, rule when_all_step.notify [of 0]) (simp add: task_notify_def notify_awaitable_completed_def)
  finally show ?thesis by (simp add: demo_last_def)
qed

theorem when_all_completes_witness:
  "when_all_results demo_last = map (\<lambda>i. Inr (demo_out i)) [0..<1]"
proof -
  have "apc demo_last = A_continued"
    by (simp add: demo_last_def)
  then show ?thesis
    using when_all_completes [OF demo_last_reachable] by (auto simp: demo_last_def)
qed

section \<open>Waiting in a thread\<close>

text \<open>
  \<open>sync_wait\<close>: the waiting thread starts the task and blocks in \<open>wait\<close> until the flag is set; \<open>set\<close> sets it under the mutex and then,
  after releasing the mutex, notifies the condition variable.  When \<open>sync_wait\<close> returns, the event, a local variable, is gone.
\<close>

datatype sync_main = S_start | S_wait | S_returned

datatype sync_task = K_suspended | K_started | K_finished | K_flagged | K_notified

record ('e, 'r) sync_sys =
  set_flag :: bool
  event_alive :: bool
  sync_prom :: "('e, 'r) sync_promise"
  smain :: sync_main
  stask :: sync_task

definition sync_wait_init :: "bool \<Rightarrow> ('e, 'r) sync_sys" where
  "sync_wait_init initially_set =
     \<lparr>set_flag = initially_set, event_alive = True, sync_prom = sp_init, smain = S_start, stask = K_suspended\<rparr>"

definition sync_event_set :: "('e, 'r) sync_sys \<Rightarrow> ('e, 'r) sync_sys res" where
  "sync_event_set s = bindE (guardE (event_alive s) Bad_pointer) (\<lambda>_. Inr (s\<lparr>set_flag := True\<rparr>))"

definition sync_event_notify :: "('e, 'r) sync_sys \<Rightarrow> ('e, 'r) sync_sys res" where
  "sync_event_notify s = bindE (guardE (event_alive s) Bad_pointer) (\<lambda>_. Inr s)"

definition sync_event_reset :: "('e, 'r) sync_sys \<Rightarrow> ('e, 'r) sync_sys" where
  "sync_event_reset s = s\<lparr>set_flag := False\<rparr>"

definition sync_main_step :: "('e, 'r) sync_sys \<Rightarrow> ('e, 'r) sync_sys option" where
  "sync_main_step s =
     (case smain s of
        S_start \<Rightarrow> Some (s\<lparr>smain := S_wait, stask := K_started\<rparr>)
      | S_wait \<Rightarrow> if set_flag s then Some (s\<lparr>smain := S_returned, event_alive := False\<rparr>) else None
      | S_returned \<Rightarrow> None)"

definition sync_task_step :: "'e + 'r \<Rightarrow> ('e, 'r) sync_sys \<Rightarrow> ('e, 'r) sync_sys res option" where
  "sync_task_step out s =
     (case stask s of
        K_started \<Rightarrow>
          Some (Inr (s\<lparr>stask := K_finished, sync_prom :=
            (case out of Inl e \<Rightarrow> sp_unhandled_exception e (sync_prom s) | Inr r \<Rightarrow> sp_yield_value r (sync_prom s))\<rparr>))
      | K_finished \<Rightarrow> Some (bindE (sync_event_set s) (\<lambda>s. Inr (s\<lparr>stask := K_flagged\<rparr>)))
      | K_flagged \<Rightarrow> Some (bindE (sync_event_notify s) (\<lambda>s. Inr (s\<lparr>stask := K_notified\<rparr>)))
      | _ \<Rightarrow> None)"

inductive sync_step :: "'e + 'r \<Rightarrow> ('e, 'r) sync_sys \<Rightarrow> ('e, 'r) sync_sys \<Rightarrow> bool" for out where
  main: "sync_main_step s = Some s' \<Longrightarrow> sync_step out s s'"
| task: "sync_task_step out s = Some (Inr s') \<Longrightarrow> sync_step out s s'"

definition sync_inv :: "'e + 'r \<Rightarrow> ('e, 'r) sync_sys \<Rightarrow> bool" where
  "sync_inv out s \<longleftrightarrow>
     (smain s = S_start \<longleftrightarrow> stask s = K_suspended) \<and> (set_flag s \<longleftrightarrow> stask s \<in> {K_flagged, K_notified}) \<and>
     (event_alive s \<longleftrightarrow> smain s \<noteq> S_returned) \<and> (smain s = S_returned \<longrightarrow> set_flag s) \<and>
     (stask s \<in> {K_suspended, K_started} \<longrightarrow> sync_prom s = sp_init) \<and>
     (stask s \<in> {K_finished, K_flagged, K_notified} \<longrightarrow> sp_result (sync_prom s) = Inr out)"

lemma sync_step_inv:
  assumes "sync_step out s s'" and "sync_inv out s"
  shows "sync_inv out s'"
  using assms
proof cases
  case main
  then show ?thesis using assms(2) by (auto simp: sync_main_step_def sync_inv_def split: sync_main.splits if_splits)
next
  case task
  have f: "sp_result (case out of Inl e \<Rightarrow> sp_unhandled_exception e (sync_prom s)
      | Inr r \<Rightarrow> sp_yield_value r (sync_prom s)) = Inr out" if "sync_prom s = sp_init"
    unfolding sync_slot.finish_with_def [symmetric] using that by (intro sync_slot.get_finish) (simp add: sp_init_def)
  show ?thesis
    using task assms(2) f
    by (auto simp: sync_task_step_def sync_inv_def sync_event_set_def sync_event_notify_def bindE_Inr_iff guardE_def
        split: sync_task.splits if_splits)
qed

lemma sync_reachable_inv: "(sync_step out)\<^sup>*\<^sup>* (sync_wait_init False) s \<Longrightarrow> sync_inv out s"
proof (induction rule: rtranclp_induct)
  case base
  then show ?case by (simp add: sync_inv_def sync_wait_init_def)
next
  case (step s s')
  then show ?case using sync_step_inv by blast
qed


text \<open>A run in which the waiting thread sees the flag before the task has notified the condition variable.\<close>

definition sync_done :: "'e + 'r \<Rightarrow> sync_main \<Rightarrow> sync_task \<Rightarrow> ('e, 'r) sync_sys" where
  "sync_done out m k =
     \<lparr>set_flag = (k = K_flagged), event_alive = (m \<noteq> S_returned), sync_prom = (if k = K_started then sp_init else
        (case out of Inl e \<Rightarrow> sp_unhandled_exception e sp_init | Inr r \<Rightarrow> sp_yield_value r sp_init)), smain = m, stask = k\<rparr>"

lemma sync_done_reachable: "(sync_step out)\<^sup>*\<^sup>* (sync_wait_init False) (sync_done out S_returned K_flagged)"
proof -
  have "(sync_step out)\<^sup>*\<^sup>* (sync_wait_init False) (sync_done out S_wait K_started)"
    by (rule r_into_rtranclp, rule sync_step.main) (simp add: sync_main_step_def sync_wait_init_def sync_done_def)
  also have "(sync_step out)\<^sup>*\<^sup>* \<dots> (sync_done out S_wait K_finished)"
    by (rule r_into_rtranclp, rule sync_step.task) (simp add: sync_task_step_def sync_done_def split: sum.split)
  also have "(sync_step out)\<^sup>*\<^sup>* \<dots> (sync_done out S_wait K_flagged)"
    by (rule r_into_rtranclp, rule sync_step.task) (simp add: sync_task_step_def sync_done_def sync_event_set_def)
  also have "(sync_step out)\<^sup>*\<^sup>* \<dots> (sync_done out S_returned K_flagged)"
    by (rule r_into_rtranclp, rule sync_step.main) (simp add: sync_main_step_def sync_done_def)
  finally show ?thesis .
qed


text \<open>
  The event may be gone before it is notified: \<open>set\<close> calls \<open>notify_all\<close> after it has released the mutex, and by then the waiting
  thread may have returned from \<open>sync_wait\<close> and destroyed it.
\<close>

lemma sync_event_notified_after_destruction:
  "\<exists>s. (sync_step out)\<^sup>*\<^sup>* (sync_wait_init False) s \<and> sync_task_step out s = Some (Inl Bad_pointer)"
  using sync_done_reachable [of out]
  by (auto intro!: exI [of _ "sync_done out S_returned K_flagged"] simp: sync_task_step_def sync_event_notify_def sync_done_def)

end
