(* ===== verification/When_All_Await.thy ===== *)
theory When_All_Await
  imports When_All
begin

text \<open>
  The objects of \<^verbatim>\<open>src/async/when_all.hpp\<close>: the tasks that \<open>when_all\<close> makes of its arguments, the awaitable that owns them with its latch, and the
  awaiters of its \<open>co_await\<close> operators.  A coroutine made by \<open>make_when_all_task\<close> is a frame; how often its awaitable suspends it and what it gives in
  the end are parameters.  Objects have addresses, because the promise of a started task points to the latch inside the awaitable.

  \<open>When_All\<close> treats the same protocol as steps of several threads; \<open>wa_rep\<close> relates the two.
\<close>

section \<open>Tasks\<close>

record ('e, 'r) wa_frame =
  wf_left :: nat
  wf_out :: "'e + 'r"
  wf_final :: bool
  wf_prom :: "('e, 'r) when_all_promise"
  wf_latch :: "nat option"

text \<open>\<open>wa_resumed\<close> lists the coroutines that latches have resumed.\<close>

record ('e, 'r) wa_world =
  wa_frames :: "('e, 'r) wa_frame list"
  wa_latches :: "nat \<rightharpoonup> latch"
  wa_resumed :: "nat list"

text \<open>
  The frame of \<open>make_when_all_task\<close>, suspended at its start: it awaits its argument, which suspends it \<open>left\<close> times.
  The result is the handle.
\<close>

definition make_when_all_task :: "nat \<times> ('e + 'r) \<Rightarrow> ('e, 'r) wa_world \<Rightarrow> nat \<times> ('e, 'r) wa_world" where
  "make_when_all_task aw w =
     (length (wa_frames w),
      w\<lparr>wa_frames := wa_frames w @ [\<lparr>wf_left = fst aw, wf_out = snd aw, wf_final = False, wf_prom = wp_init, wf_latch = None\<rparr>]\<rparr>)"

text \<open>\<open>completion_notifier::await_suspend\<close>\<close>

definition completion_notify :: "nat \<Rightarrow> ('e, 'r) wa_world \<Rightarrow> ('e, 'r) wa_world res" where
  "completion_notify h w =
     (case wf_latch (wa_frames w ! h) of
        None \<Rightarrow> Inl Null_deref
      | Some a \<Rightarrow>
          (case wa_latches w a of
             None \<Rightarrow> Inl Bad_pointer
           | Some l \<Rightarrow>
               bindE (notify_awaitable_completed l) (\<lambda>(c, l).
                 Inr (w\<lparr>wa_latches := (wa_latches w)(a \<mapsto> l),
                        wa_resumed := wa_resumed w @ (case c of None \<Rightarrow> [] | Some c \<Rightarrow> [c])\<rparr>))))"

text \<open>Resuming a frame: it runs to its next suspension, or stores the value or exception and suspends for the last time.\<close>

definition wa_resume :: "nat \<Rightarrow> ('e, 'r) wa_world \<Rightarrow> ('e, 'r) wa_world res" where
  "wa_resume h w =
     (if h < length (wa_frames w) \<and> \<not> wf_final (wa_frames w ! h)
      then let f = wa_frames w ! h in
        if 0 < wf_left f then Inr (w\<lparr>wa_frames := (wa_frames w)[h := f\<lparr>wf_left := wf_left f - 1\<rparr>]\<rparr>)
        else
          let f = f\<lparr>wf_final := True, wf_prom :=
                (case wf_out f of Inl e \<Rightarrow> wp_unhandled_exception e (wf_prom f) | Inr r \<Rightarrow> wp_yield_value r (wf_prom f))\<rparr> in
          completion_notify h (w\<lparr>wa_frames := (wa_frames w)[h := f]\<rparr>)
      else Inl Bad_handle)"

definition promise_start :: "nat \<Rightarrow> nat \<Rightarrow> ('e, 'r) wa_world \<Rightarrow> ('e, 'r) wa_world res" where
  "promise_start a h w = wa_resume h (w\<lparr>wa_frames := (wa_frames w)[h := (wa_frames w ! h)\<lparr>wf_latch := Some a\<rparr>]\<rparr>)"

text \<open>A \<open>when_all_task\<close> is its handle, null after it was moved from.\<close>

definition wtask_start :: "nat \<Rightarrow> nat option \<Rightarrow> ('e, 'r) wa_world \<Rightarrow> ('e, 'r) wa_world res" where
  "wtask_start a t w = (case t of None \<Rightarrow> Inl Null_deref | Some h \<Rightarrow> promise_start a h w)"

definition wtask_return_value :: "nat option \<Rightarrow> ('e, 'r) wa_world \<Rightarrow> ('e + 'r) res" where
  "wtask_return_value t w = (case t of None \<Rightarrow> Inl Null_deref | Some h \<Rightarrow> wp_return_value (wf_prom (wa_frames w ! h)))"

section \<open>The awaitable\<close>

record awaitable_all =
  wa_addr :: nat
  wa_task :: "nat option list"

text \<open>The constructors for a tuple of tasks and for a container of tasks.\<close>

definition wa_new_tuple :: "nat \<Rightarrow> nat option list \<Rightarrow> ('e, 'r) wa_world \<Rightarrow> awaitable_all \<times> ('e, 'r) wa_world" where
  "wa_new_tuple a ts w =
     (\<lparr>wa_addr = a, wa_task = ts\<rparr>, w\<lparr>wa_latches := (wa_latches w)(a \<mapsto> new_latch (length ts))\<rparr>)"

definition wa_new_container :: "nat \<Rightarrow> nat option list \<Rightarrow> ('e, 'r) wa_world \<Rightarrow> awaitable_all \<times> ('e, 'r) wa_world" where
  "wa_new_container a ts w =
     (let n = length ts; w = w\<lparr>wa_latches := (wa_latches w)(a \<mapsto> new_latch n)\<rparr> in (\<lparr>wa_addr = a, wa_task = ts\<rparr>, w))"

text \<open>
  The move constructor for tuples: the new object at \<open>b\<close>, what is left of the other, and the world.  The one for containers, which
  initialises \<open>task_\<close> from itself, has no defined result.
\<close>

definition wa_move_tuple ::
  "nat \<Rightarrow> awaitable_all \<Rightarrow> ('e, 'r) wa_world \<Rightarrow> (awaitable_all \<times> awaitable_all \<times> ('e, 'r) wa_world) res" where
  "wa_move_tuple b other w =
     (case wa_latches w (wa_addr other) of
        None \<Rightarrow> Inl Bad_pointer
      | Some l \<Rightarrow>
          let (l', rest) = latch_move l in
          Inr (\<lparr>wa_addr = b, wa_task = wa_task other\<rparr>, other\<lparr>wa_task := map (\<lambda>_. None) (wa_task other)\<rparr>,
               w\<lparr>wa_latches := (wa_latches w)(wa_addr other \<mapsto> rest, b \<mapsto> l')\<rparr>))"

definition wa_is_ready :: "(nat \<Rightarrow> bool) \<Rightarrow> awaitable_all \<Rightarrow> ('e, 'r) wa_world \<Rightarrow> bool res" where
  "wa_is_ready co_done x w =
     (case wa_latches w (wa_addr x) of None \<Rightarrow> Inl Bad_pointer | Some l \<Rightarrow> Inr (latch_is_ready co_done l))"

primrec start_all :: "nat \<Rightarrow> nat option list \<Rightarrow> ('e, 'r) wa_world \<Rightarrow> ('e, 'r) wa_world res" where
  "start_all a [] w = Inr w"
| "start_all a (t # ts) w = bindE (wtask_start a t w) (start_all a ts)"

definition wa_try_await :: "nat \<Rightarrow> awaitable_all \<Rightarrow> ('e, 'r) wa_world \<Rightarrow> (bool \<times> ('e, 'r) wa_world) res" where
  "wa_try_await c x w =
     bindE (start_all (wa_addr x) (wa_task x) w) (\<lambda>w.
       case wa_latches w (wa_addr x) of
         None \<Rightarrow> Inl Bad_pointer
       | Some l \<Rightarrow>
           let (suspended, l) = latch_try_await c l in
           Inr (suspended, w\<lparr>wa_latches := (wa_latches w)(wa_addr x \<mapsto> l)\<rparr>))"

text \<open>
  Awaiting: \<open>Await_now\<close> carries what \<open>await_resume\<close> returns, a reference to the tasks; \<open>Await_later\<close> means the awaiting coroutine \<open>c\<close> stays suspended.
\<close>

datatype await_result = Await_now "nat option list" | Await_later

definition co_await_tuple ::
  "(nat \<Rightarrow> bool) \<Rightarrow> nat \<Rightarrow> awaitable_all \<Rightarrow> ('e, 'r) wa_world \<Rightarrow> (await_result \<times> ('e, 'r) wa_world) res" where
  "co_await_tuple co_done c x w =
     bindE (wa_is_ready co_done x w) (\<lambda>r.
     if r then Inr (Await_now (wa_task x), w)
     else bindE (wa_try_await c x w) (\<lambda>(suspended, w).
       Inr (if suspended then Await_later else Await_now (wa_task x), w)))"

definition co_await_tuple_move ::
  "(nat \<Rightarrow> bool) \<Rightarrow> nat \<Rightarrow> awaitable_all \<Rightarrow> ('e, 'r) wa_world \<Rightarrow> (await_result \<times> ('e, 'r) wa_world) res" where
  "co_await_tuple_move co_done c x w =
     bindE (wa_is_ready co_done x w) (\<lambda>r.
     if r then Inr (Await_now (wa_task x), w)
     else bindE (wa_try_await c x w) (\<lambda>(suspended, w).
       if suspended then Inr (Await_later, w) else Inr (Await_now (wa_task x), w)))"

definition co_await_container ::
  "(nat \<Rightarrow> bool) \<Rightarrow> nat \<Rightarrow> awaitable_all \<Rightarrow> ('e, 'r) wa_world \<Rightarrow> (await_result \<times> ('e, 'r) wa_world) res" where
  "co_await_container co_done c x w =
     bindE (wa_is_ready co_done x w) (\<lambda>r.
     if r then Inr (Await_now (wa_task x), w)
     else bindE (wa_try_await c x w) (\<lambda>(suspended, w).
       Inr (if suspended then Await_later else Await_now (wa_task x), w)))"

definition co_await_container_move ::
  "(nat \<Rightarrow> bool) \<Rightarrow> nat \<Rightarrow> awaitable_all \<Rightarrow> ('e, 'r) wa_world \<Rightarrow> (await_result \<times> ('e, 'r) wa_world) res" where
  "co_await_container_move co_done c x w =
     bindE (wa_is_ready co_done x w) (\<lambda>r.
     if r then Inr (Await_now (wa_task x), w)
     else bindE (wa_try_await c x w) (\<lambda>(suspended, w).
       if suspended then Inr (Await_later, w) else Inr (Await_now (wa_task x), w)))"

text \<open>The specialisation for no tasks is always ready and gives the empty tuple.\<close>

definition co_await_empty :: "await_result" where
  "co_await_empty = Await_now []"

section \<open>when_all\<close>

primrec make_tasks ::
  "(nat \<times> ('e + 'r)) list \<Rightarrow> ('e, 'r) wa_world \<Rightarrow> nat option list \<times> ('e, 'r) wa_world" where
  "make_tasks [] w = ([], w)"
| "make_tasks (aw # aws) w =
     (let (h, w) = make_when_all_task aw w; (ts, w) = make_tasks aws w in (Some h # ts, w))"

definition when_all :: "nat \<Rightarrow> (nat \<times> ('e + 'r)) list \<Rightarrow> ('e, 'r) wa_world \<Rightarrow> awaitable_all \<times> ('e, 'r) wa_world" where
  "when_all a aws w = (let (ts, w) = make_tasks aws w in wa_new_tuple a ts w)"

primrec range_loop ::
  "(nat \<times> ('e + 'r)) list \<Rightarrow> nat option list \<Rightarrow> ('e, 'r) wa_world \<Rightarrow> nat option list \<times> ('e, 'r) wa_world" where
  "range_loop [] out w = (out, w)"
| "range_loop (aw # aws) out w = (let (h, w) = make_when_all_task aw w in range_loop aws (out @ [Some h]) w)"

definition when_all_range :: "nat \<Rightarrow> (nat \<times> ('e + 'r)) list \<Rightarrow> ('e, 'r) wa_world \<Rightarrow> awaitable_all \<times> ('e, 'r) wa_world" where
  "when_all_range a aws w = (let (ts, w) = range_loop aws [] w in wa_new_container a ts w)"


section \<open>Simulation\<close>

definition frame_pc :: "('e, 'r) wa_frame \<Rightarrow> task_pc" where
  "frame_pc f = (if wf_final f then T_notified else if wf_latch f = None then T_suspended else T_started)"

text \<open>The objects of the awaitable at \<open>a\<close> with the tasks \<open>hs\<close> stand for the state \<open>s\<close>; \<open>c\<close> awaits it, and before it \<open>done\<close> had been resumed.\<close>

definition wa_rep ::
  "nat \<Rightarrow> nat list \<Rightarrow> (nat \<Rightarrow> 'e + 'r) \<Rightarrow> nat \<Rightarrow> nat list \<Rightarrow> ('e, 'r) wa_world \<Rightarrow> ('e, 'r) when_all_sys \<Rightarrow> bool" where
  "wa_rep a hs out c done w s \<longleftrightarrow>
     (\<exists>l. wa_latches w a = Some l \<and> lcount s = lcount l \<and> awaiting_co s = awaiting_co l) \<and>
     (awaiting_co s = None \<or> awaiting_co s = Some c) \<and> wa_resumed w = done @ replicate (co_resumes s) c \<and>
     distinct hs \<and> length (tasks s) = length hs \<and> length (promises s) = length hs \<and>
     (\<forall>i<length hs. hs ! i < length (wa_frames w) \<and>
        (let f = wa_frames w ! (hs ! i) in
         tasks s ! i = frame_pc f \<and> promises s ! i = wf_prom f \<and> wf_out f = out i \<and>
         (wf_latch f = None \<or> wf_latch f = Some a) \<and> (wf_final f \<longrightarrow> wf_latch f \<noteq> None)))"

lemma wa_repD:
  assumes "wa_rep a hs out c done w s" and "i < length hs"
  shows "hs ! i < length (wa_frames w)" "tasks s ! i = frame_pc (wa_frames w ! (hs ! i))"
    "promises s ! i = wf_prom (wa_frames w ! (hs ! i))" "wf_out (wa_frames w ! (hs ! i)) = out i"
    "wf_latch (wa_frames w ! (hs ! i)) = None \<or> wf_latch (wa_frames w ! (hs ! i)) = Some a"
    "i < length (tasks s)"
  using assms by (auto simp: wa_rep_def Let_def)

text \<open>Changing one frame.\<close>

lemma wa_rep_frame:
  assumes rep: "wa_rep a hs out c done w s" and i: "i < length hs" and f: "wf_out f = out i" "wf_latch f = Some a"
  shows "wa_rep a hs out c done (w\<lparr>wa_frames := (wa_frames w)[hs ! i := f]\<rparr>)
           (s\<lparr>tasks := (tasks s)[i := frame_pc f], promises := (promises s)[i := wf_prom f]\<rparr>)"
proof -
  have eq: "hs ! i = hs ! j \<longleftrightarrow> i = j" if "j < length hs" for j
    using rep i that by (simp add: wa_rep_def nth_eq_iff_index_eq)
  show ?thesis
    using rep i f by (auto simp: wa_rep_def Let_def nth_list_update eq)
qed

lemma wa_rep_left:
  assumes rep: "wa_rep a hs out c done w s" and i: "i < length hs"
    and "f = (wa_frames w ! (hs ! i))\<lparr>wf_left := k\<rparr>" and "wf_latch f = Some a"
  shows "wa_rep a hs out c done (w\<lparr>wa_frames := (wa_frames w)[hs ! i := f]\<rparr>) s"
proof -
  have "frame_pc f = tasks s ! i" "wf_prom f = promises s ! i"
    using wa_repD [OF rep i] assms(3) by (simp_all add: frame_pc_def)
  then show ?thesis
    using wa_rep_frame [OF rep i _ assms(4)] wa_repD(4) [OF rep i] assms(3) by simp
qed


lemma notify_simulates:
  assumes rep: "wa_rep a hs out c done w (s\<lparr>tasks := (tasks s)[i := T_notified], promises := ps\<rparr>)"
    and "wf_latch (wa_frames w ! h) = Some a" and i: "i < length (tasks s)"
    and not: "task_notify i (s\<lparr>promises := ps, tasks := (tasks s)[i := T_finished]\<rparr>) = Some (Inr s')"
  shows "\<exists>w'. completion_notify h w = Inr w' \<and> wa_rep a hs out c done w' s' \<and>
    (apc s' = apc s \<and> co_resumes s' = co_resumes s \<or> apc s = A_suspended \<and> apc s' = A_continued \<and> co_resumes s' = Suc (co_resumes s))"
proof -
  obtain l where l: "wa_latches w a = Some l" "lcount s = lcount l" "awaiting_co s = awaiting_co l"
    using rep by (auto simp: wa_rep_def)
  show ?thesis
  proof (cases "lcount l = 1")
    case True
    then have "awaiting_co l = Some c" "apc s = A_suspended"
      "s' = s\<lparr>promises := ps, lcount := lcount l - 1, tasks := (tasks s)[i := T_notified], apc := A_continued, co_resumes := Suc (co_resumes s)\<rparr>"
      using not i l rep by (auto simp: task_notify_def notify_awaitable_completed_def Let_def wa_rep_def split: option.splits if_splits)
    then show ?thesis
      using True l rep assms(2)
      by (auto simp: completion_notify_def notify_awaitable_completed_def Let_def wa_rep_def replicate_append_same)
  next
    case False
    then have "s' = s\<lparr>promises := ps, lcount := lcount l - 1, tasks := (tasks s)[i := T_notified]\<rparr>"
      using not i l by (auto simp: task_notify_def notify_awaitable_completed_def Let_def)
    then show ?thesis
      using False l rep assms(2) by (auto simp: completion_notify_def notify_awaitable_completed_def Let_def wa_rep_def)
  qed
qed

text \<open>A frame that has been started is resumed: nothing happens to the protocol, or the task finishes and notifies the latch.\<close>

lemma resume_simulates:
  assumes rep: "wa_rep a hs out c done w s" and i: "i < length hs"
    and f: "\<not> wf_final (wa_frames w ! (hs ! i))" "wf_latch (wa_frames w ! (hs ! i)) = Some a"
    and inv: "pc_ok s" "slots_ok out s" "length (tasks s) < 2 ^ 64 - 1"
  shows "\<exists>w' s'. wa_resume (hs ! i) w = Inr w' \<and> (when_all_step out)\<^sup>*\<^sup>* s s' \<and> wa_rep a hs out c done w' s' \<and>
    (apc s' = apc s \<and> co_resumes s' = co_resumes s \<or> apc s = A_suspended \<and> apc s' = A_continued \<and> co_resumes s' = Suc (co_resumes s))"
proof (cases "wf_left (wa_frames w ! (hs ! i)) = 0")
  case False
  then show ?thesis
    using f wa_repD(1) [OF rep i] wa_rep_left [OF rep i refl, of "wf_left (wa_frames w ! (hs ! i)) - 1"]
    by (auto simp: wa_resume_def Let_def)
next
  case True
  let ?f = "wa_frames w ! (hs ! i)"
  define g where "g = ?f\<lparr>wf_final := True, wf_prom :=
      (case wf_out ?f of Inl e \<Rightarrow> wp_unhandled_exception e (wf_prom ?f) | Inr r \<Rightarrow> wp_yield_value r (wf_prom ?f))\<rparr>"
  note r = wa_repD [OF rep i]
  have t: "tasks s ! i = T_started"
    using f r(2) by (simp add: frame_pc_def)
  define s1 where "s1 = s\<lparr>promises := (promises s)[i := wf_prom g], tasks := (tasks s)[i := T_finished]\<rparr>"
  have fin: "task_finish out i s = Some s1"
    using t r(3,4,6) by (simp add: task_finish_def s1_def g_def split: sum.split)
  have inv1: "pc_ok s1" "slots_ok out s1" "length (tasks s1) < 2 ^ 64 - 1"
    using task_finish_inv [OF fin inv(1,2)] inv(3) by simp_all
  have "task_notify i s1 \<noteq> None"
    using r(6) by (simp add: task_notify_def s1_def)
  then obtain s2 where not: "task_notify i s1 = Some (Inr s2)"
    using task_notify_ok [OF _ inv1, of i] by blast
  define w1 where "w1 = w\<lparr>wa_frames := (wa_frames w)[hs ! i := g]\<rparr>"
  have rep1: "wa_rep a hs out c done w1 (s\<lparr>tasks := (tasks s)[i := T_notified], promises := (promises s)[i := wf_prom g]\<rparr>)"
    using wa_rep_frame [OF rep i, of g] r(4) f by (simp add: g_def w1_def frame_pc_def)
  have run: "wa_resume (hs ! i) w = completion_notify (hs ! i) w1"
    using f True r(1) by (simp add: wa_resume_def Let_def g_def w1_def)
  have "wf_latch (wa_frames w1 ! (hs ! i)) = Some a"
    using f r(1) by (simp add: w1_def g_def)
  then obtain w2 where "completion_notify (hs ! i) w1 = Inr w2" "wa_rep a hs out c done w2 s2"
      "apc s2 = apc s \<and> co_resumes s2 = co_resumes s \<or> apc s = A_suspended \<and> apc s2 = A_continued \<and> co_resumes s2 = Suc (co_resumes s)"
    using notify_simulates [OF rep1, of "hs ! i" s2] not r(6) by (auto simp: s1_def)
  moreover have "(when_all_step out)\<^sup>*\<^sup>* s s2"
    using when_all_step.finish [OF fin] when_all_step.notify [OF not] by (meson converse_rtranclp_into_rtranclp r_into_rtranclp)
  ultimately show ?thesis unfolding run by blast
qed


lemma when_all_steps_inv:
  assumes "(when_all_step out)\<^sup>*\<^sup>* s s'" and "pc_ok s" and "slots_ok out s" and "length (tasks s) < 2 ^ 64 - 1"
  shows "pc_ok s' \<and> slots_ok out s' \<and> length (tasks s') = length (tasks s)"
  using assms(1)
proof induction
  case (step s1 s2)
  then show ?case using when_all_step_inv [of out s1 s2] assms(4) by simp
qed (use assms in simp)

lemma start_simulates:
  assumes rep: "wa_rep a hs out c done w s" and pc: "apc s = A_start i" and i: "i < length hs"
    and inv: "pc_ok s" "slots_ok out s" "length (tasks s) < 2 ^ 64 - 1"
  shows "\<exists>w' s'. wtask_start a (Some (hs ! i)) w = Inr w' \<and> (when_all_step out)\<^sup>*\<^sup>* s s' \<and> wa_rep a hs out c done w' s' \<and>
    apc s' = A_start (Suc i)"
proof -
  note r = wa_repD [OF rep i]
  define f where "f = (wa_frames w ! (hs ! i))\<lparr>wf_latch := Some a\<rparr>"
  define w1 where "w1 = w\<lparr>wa_frames := (wa_frames w)[hs ! i := f]\<rparr>"
  define s1 where "s1 = s\<lparr>tasks := (tasks s)[i := T_started], apc := A_start (Suc i)\<rparr>"
  have "tasks s ! i = T_suspended"
    using inv(1) pc r(6) by (simp add: pc_ok_def)
  then have nf: "\<not> wf_final f"
    using r(2) by (auto simp: frame_pc_def f_def split: if_splits)
  have "try_await_step c s = Some s1"
    using pc i rep by (simp add: try_await_step_def s1_def wa_rep_def)
  then have st: "when_all_step out s s1"
    by (rule when_all_step.await)
  have inv1: "pc_ok s1" "slots_ok out s1" "length (tasks s1) < 2 ^ 64 - 1"
    using when_all_step_inv [OF st inv] inv(3) by simp_all
  have "(promises s)[i := wf_prom f] = promises s"
    by (simp add: f_def flip: r(3))
  then have "wa_rep a hs out c done w1 (s\<lparr>tasks := (tasks s)[i := T_started]\<rparr>)"
    using wa_rep_frame [OF rep i, of f] r(4) nf by (simp add: f_def w1_def frame_pc_def)
  then have rep1: "wa_rep a hs out c done w1 s1"
    by (simp add: wa_rep_def s1_def)
  have f1: "wa_frames w1 ! (hs ! i) = f"
    using r(1) by (simp add: w1_def)
  obtain w' s' where "wa_resume (hs ! i) w1 = Inr w'" "(when_all_step out)\<^sup>*\<^sup>* s1 s'" "wa_rep a hs out c done w' s'"
    "apc s' = apc s1 \<or> apc s1 = A_suspended \<and> apc s' = A_continued"
    using resume_simulates [OF rep1 i _ _ inv1] f1 nf by (auto simp: f_def)
  moreover have "wtask_start a (Some (hs ! i)) w = wa_resume (hs ! i) w1"
    by (simp add: wtask_start_def promise_start_def w1_def f_def)
  ultimately show ?thesis
    using st by (auto simp: s1_def intro: converse_rtranclp_into_rtranclp)
qed

lemma start_all_simulates:
  assumes "wa_rep a hs out c done w s" and "apc s = A_start i" and "i \<le> length hs"
    and "pc_ok s" "slots_ok out s" "length (tasks s) < 2 ^ 64 - 1"
  shows "\<exists>w' s'. start_all a (map Some (drop i hs)) w = Inr w' \<and> (when_all_step out)\<^sup>*\<^sup>* s s' \<and> wa_rep a hs out c done w' s' \<and>
    apc s' = A_start (length hs)"
  using assms
proof (induction "length hs - i" arbitrary: i w s)
  case 0
  then show ?case by auto
next
  case (Suc n)
  then have i: "i < length hs" and n: "n = length hs - Suc i" by simp_all
  obtain w1 s1 where 1: "wtask_start a (Some (hs ! i)) w = Inr w1" "(when_all_step out)\<^sup>*\<^sup>* s s1" "wa_rep a hs out c done w1 s1"
    "apc s1 = A_start (Suc i)"
    using start_simulates [OF Suc.prems(1,2) i Suc.prems(4-6)] by blast
  have "pc_ok s1" "slots_ok out s1" "length (tasks s1) < 2 ^ 64 - 1"
    using when_all_steps_inv [OF 1(2) Suc.prems(4-6)] Suc.prems(6) by simp_all
  then obtain w' s' where 2: "start_all a (map Some (drop (Suc i) hs)) w1 = Inr w'" "(when_all_step out)\<^sup>*\<^sup>* s1 s'"
    "wa_rep a hs out c done w' s'" "apc s' = A_start (length hs)"
    using Suc.hyps(1) [OF n 1(3,4)] i by auto
  have "start_all a (map Some (drop i hs)) w = Inr w'"
    using 1(1) 2(1) i by (simp add: Cons_nth_drop_Suc [symmetric])
  then show ?case using 1(2) 2 by (meson rtranclp_trans)
qed

lemma await_simulates:
  assumes rep: "wa_rep a hs out c done w s" and pc: "apc s = A_start 0"
    and inv: "pc_ok s" "slots_ok out s" "length (tasks s) < 2 ^ 64 - 1"
  shows "\<exists>susp w' s'. wa_try_await c \<lparr>wa_addr = a, wa_task = map Some hs\<rparr> w = Inr (susp, w') \<and> (when_all_step out)\<^sup>*\<^sup>* s s' \<and>
    wa_rep a hs out c done w' s' \<and> apc s' = (if susp then A_suspended else A_continued) \<and> co_resumes s' = 0"
proof -
  obtain w1 s1 where 1: "start_all a (map Some hs) w = Inr w1" "(when_all_step out)\<^sup>*\<^sup>* s s1" "wa_rep a hs out c done w1 s1"
    "apc s1 = A_start (length hs)"
    using start_all_simulates [OF rep pc _ inv] by auto
  obtain l where l: "wa_latches w1 a = Some l" "lcount s1 = lcount l" "awaiting_co s1 = awaiting_co l"
    using 1(3) by (auto simp: wa_rep_def)
  define s' where "s' = s1\<lparr>awaiting_co := Some c, lcount := lcount l - 1, apc := (if 1 < lcount l then A_suspended else A_continued)\<rparr>"
  define w' where "w' = w1\<lparr>wa_latches := (wa_latches w1)(a \<mapsto> l\<lparr>awaiting_co := Some c, lcount := lcount l - 1\<rparr>)\<rparr>"
  have "try_await_step c s1 = Some s'"
    using 1(3,4) l by (simp add: try_await_step_def latch_try_await_def s'_def wa_rep_def)
  then have "(when_all_step out)\<^sup>*\<^sup>* s s'"
    using 1(2) when_all_step.await by (meson rtranclp.rtrancl_into_rtrancl)
  moreover have "wa_rep a hs out c done w' s'"
    using 1(3) by (auto simp: wa_rep_def s'_def w'_def)
  moreover have "wa_try_await c \<lparr>wa_addr = a, wa_task = map Some hs\<rparr> w = Inr (1 < lcount l, w')"
    using 1(1) l by (simp add: wa_try_await_def latch_try_await_def w'_def)
  moreover have "co_resumes s' = 0"
    using when_all_steps_inv [OF 1(2) inv] 1(4) by (simp add: pc_ok_def s'_def)
  ultimately show ?thesis by (auto simp: s'_def intro!: exI)
qed


section \<open>Overloads\<close>

lemma co_await_overloads:
  "co_await_tuple_move = co_await_tuple" "co_await_container = co_await_tuple" "co_await_container_move = co_await_tuple"
proof -
  show "co_await_container = co_await_tuple"
    by (simp add: fun_eq_iff co_await_container_def co_await_tuple_def)
  show "co_await_tuple_move = co_await_tuple" "co_await_container_move = co_await_tuple"
    unfolding fun_eq_iff co_await_tuple_move_def co_await_container_move_def co_await_tuple_def
    by (auto simp: bindE_def split: sum.split)
qed

lemma range_loop_eq: "range_loop aws out w = (case make_tasks aws w of (ts, w) \<Rightarrow> (out @ ts, w))"
  by (induction aws arbitrary: out w) (simp_all add: make_when_all_task_def split: prod.split)

lemma when_all_range_eq: "when_all_range = when_all"
  by (auto simp: fun_eq_iff when_all_range_def when_all_def range_loop_eq wa_new_container_def wa_new_tuple_def split: prod.split)

section \<open>Every task is awaited\<close>

definition new_frame_of :: "nat \<times> ('e + 'r) \<Rightarrow> ('e, 'r) wa_frame" where
  "new_frame_of aw = \<lparr>wf_left = fst aw, wf_out = snd aw, wf_final = False, wf_prom = wp_init, wf_latch = None\<rparr>"

lemma make_tasks_eq:
  "make_tasks aws w =
     (map Some [length (wa_frames w)..<length (wa_frames w) + length aws], w\<lparr>wa_frames := wa_frames w @ map new_frame_of aws\<rparr>)"
  by (induction aws arbitrary: w) (simp_all add: make_when_all_task_def new_frame_of_def upt_rec)

text \<open>The awaitables resume the tasks they have suspended, in any order.\<close>

inductive wa_run :: "nat option list \<Rightarrow> ('e, 'r) wa_world \<Rightarrow> ('e, 'r) wa_world \<Rightarrow> bool" for ts where
  "Some h \<in> set ts \<Longrightarrow> \<not> wf_final (wa_frames w ! h) \<Longrightarrow> wa_resume h w = Inr w' \<Longrightarrow> wa_run ts w w'"

definition all_final :: "nat option list \<Rightarrow> ('e, 'r) wa_world \<Rightarrow> bool" where
  "all_final ts w \<longleftrightarrow> (\<forall>t\<in>set ts. case t of None \<Rightarrow> False | Some h \<Rightarrow> wf_final (wa_frames w ! h))"

lemma fresh_rep:
  assumes "when_all a aws w0 = (x, w)"
  defines "hs \<equiv> [length (wa_frames w0)..<length (wa_frames w0) + length aws]"
  shows "x = \<lparr>wa_addr = a, wa_task = map Some hs\<rparr>"
    "wa_rep a hs (\<lambda>i. snd (aws ! i)) c (wa_resumed w0) w (when_all_init (length aws))"
    "wa_is_ready co_done x w = Inr False"
proof -
  have "x = \<lparr>wa_addr = a, wa_task = map Some hs\<rparr>"
    "w = w0\<lparr>wa_frames := wa_frames w0 @ map new_frame_of aws, wa_latches := (wa_latches w0)(a \<mapsto> new_latch (length aws))\<rparr>"
    using assms(1) by (auto simp: when_all_def make_tasks_eq wa_new_tuple_def hs_def)
  then show "x = \<lparr>wa_addr = a, wa_task = map Some hs\<rparr>" "wa_is_ready co_done x w = Inr False"
    "wa_rep a hs (\<lambda>i. snd (aws ! i)) c (wa_resumed w0) w (when_all_init (length aws))"
    by (auto simp: hs_def wa_rep_def when_all_init_def new_latch_def new_frame_of_def frame_pc_def nth_append wa_is_ready_def latch_is_ready_def)
qed


definition awaited :: "nat \<Rightarrow> nat list \<Rightarrow> (nat \<Rightarrow> 'e + 'r) \<Rightarrow> nat \<Rightarrow> nat list \<Rightarrow> bool \<Rightarrow> ('e, 'r) wa_world \<Rightarrow> bool" where
  "awaited a hs out c done later w \<longleftrightarrow>
     (\<exists>s. wa_rep a hs out c done w s \<and> pc_ok s \<and> slots_ok out s \<and> length (tasks s) < 2 ^ 64 - 1 \<and>
        (apc s = A_suspended \<and> later \<and> co_resumes s = 0 \<or> apc s = A_continued \<and> co_resumes s = (if later then 1 else 0)))"

lemma awaited_resume:
  assumes "awaited a hs out c done later w" and "h \<in> set hs" and "\<not> wf_final (wa_frames w ! h)"
  shows "\<exists>w'. wa_resume h w = Inr w' \<and> awaited a hs out c done later w'"
proof -
  obtain s where s: "wa_rep a hs out c done w s" "pc_ok s" "slots_ok out s" "length (tasks s) < 2 ^ 64 - 1"
    "apc s = A_suspended \<and> later \<and> co_resumes s = 0 \<or> apc s = A_continued \<and> co_resumes s = (if later then 1 else 0)"
    using assms(1) by (auto simp: awaited_def)
  obtain i where i: "i < length hs" "h = hs ! i"
    using assms(2) by (auto simp: in_set_conv_nth)
  note r = wa_repD [OF s(1) i(1)]
  have "tasks s ! i \<noteq> T_suspended"
    using s(2,5) r(2,6) assms(3) i(2) unnotified_0 [of s] by (auto simp: pc_ok_def)
  then have f: "wf_latch (wa_frames w ! (hs ! i)) = Some a"
    using r(2,5) assms(3) i(2) by (auto simp: frame_pc_def)
  obtain w' s' where 1: "wa_resume h w = Inr w'" "(when_all_step out)\<^sup>*\<^sup>* s s'" "wa_rep a hs out c done w' s'"
    "apc s' = apc s \<and> co_resumes s' = co_resumes s \<or> apc s = A_suspended \<and> apc s' = A_continued \<and> co_resumes s' = Suc (co_resumes s)"
    using resume_simulates [OF s(1) i(1) _ f s(2-4)] assms(3) i(2) by blast
  have "pc_ok s' \<and> slots_ok out s' \<and> length (tasks s') < 2 ^ 64 - 1"
    using when_all_steps_inv [OF 1(2) s(2-4)] s(4) by simp
  then have "awaited a hs out c done later w'"
    using 1(3,4) s(5) unfolding awaited_def by (intro exI [of _ s']) auto
  then show ?thesis using 1(1) by blast
qed

lemma awaited_run:
  assumes "(wa_run (map Some hs))\<^sup>*\<^sup>* w w'" and "awaited a hs out c done later w"
  shows "awaited a hs out c done later w'"
  using assms
proof (induction rule: rtranclp_induct)
  case (step w1 w2)
  then show ?case using awaited_resume by (fastforce elim: wa_run.cases)
qed

lemma awaited_final:
  assumes "awaited a hs out c done later w"
  shows "wa_resumed w = done @ (if later \<and> all_final (map Some hs) w then [c] else [])"
    "all_final (map Some hs) w \<Longrightarrow> map (\<lambda>t. wtask_return_value t w) (map Some hs) = map (\<lambda>i. Inr (out i)) [0..<length hs]"
    "\<not> later \<Longrightarrow> all_final (map Some hs) w"
proof -
  obtain s where s: "wa_rep a hs out c done w s" "pc_ok s" "slots_ok out s"
    "apc s = A_suspended \<and> later \<and> co_resumes s = 0 \<or> apc s = A_continued \<and> co_resumes s = (if later then 1 else 0)"
    using assms by (auto simp: awaited_def)
  have len: "length (tasks s) = length hs"
    using s(1) by (simp add: wa_rep_def)
  have n: "wf_final (wa_frames w ! (hs ! i)) \<longleftrightarrow> tasks s ! i = T_notified" if "i < length hs" for i
    using wa_repD(2) [OF s(1) that] by (simp add: frame_pc_def)
  have "all_final (map Some hs) w \<longleftrightarrow> (\<forall>i<length hs. wf_final (wa_frames w ! (hs ! i)))"
    by (simp add: all_final_def all_set_conv_all_nth)
  also have "\<dots> \<longleftrightarrow> (\<forall>i<length hs. tasks s ! i = T_notified)"
    using n by simp
  finally have fin: "all_final (map Some hs) w \<longleftrightarrow> unnotified s = 0"
    by (simp add: unnotified_0 len)
  then show "wa_resumed w = done @ (if later \<and> all_final (map Some hs) w then [c] else [])"
    "\<not> later \<Longrightarrow> all_final (map Some hs) w"
    using s by (auto simp: wa_rep_def pc_ok_def)
  show "map (\<lambda>t. wtask_return_value t w) (map Some hs) = map (\<lambda>i. Inr (out i)) [0..<length hs]" if "all_final (map Some hs) w"
    using that s(3) wa_repD(3) [OF s(1)] unfolding fin unnotified_0 len
    by (intro nth_equalityI) (auto simp: wtask_return_value_def slots_ok_def len)
qed

lemma await_awaited:
  fixes aws :: "(nat \<times> ('e + 'r)) list"
  assumes "when_all a aws w0 = (x, w)" and "length aws < 2 ^ 64 - 1"
  defines "hs \<equiv> [length (wa_frames w0)..<length (wa_frames w0) + length aws]"
  shows "\<exists>later w1. co_await_tuple_move co_done c x w = Inr (if later then Await_later else Await_now (wa_task x), w1) \<and>
    awaited a hs (\<lambda>i. snd (aws ! i)) c (wa_resumed w0) later w1 \<and> wa_resumed w1 = wa_resumed w0"
proof -
  let ?out = "\<lambda>i. snd (aws ! i)" and ?s = "when_all_init (length aws) :: ('e, 'r) when_all_sys"
  note fresh = fresh_rep [OF assms(1), folded hs_def]
  have init: "pc_ok ?s" "slots_ok ?out ?s" "length (tasks ?s) < 2 ^ 64 - 1"
    using when_all_reachable_inv [OF rtranclp.rtrancl_refl assms(2), of ?out] assms(2) by simp_all
  have start: "apc ?s = A_start 0"
    by (simp add: when_all_init_def)
  obtain later w1 s1 where 1: "wa_try_await c x w = Inr (later, w1)" "(when_all_step ?out)\<^sup>*\<^sup>* ?s s1"
    "wa_rep a hs ?out c (wa_resumed w0) w1 s1" "apc s1 = (if later then A_suspended else A_continued)" "co_resumes s1 = 0"
    using await_simulates [OF fresh(2) start init] fresh(1) by blast
  have "pc_ok s1 \<and> slots_ok ?out s1 \<and> length (tasks s1) < 2 ^ 64 - 1"
    using when_all_steps_inv [OF 1(2) init] init(3) by simp
  then have "awaited a hs ?out c (wa_resumed w0) later w1"
    using 1(3-5) unfolding awaited_def by (intro exI [of _ s1]) (auto split: if_splits)
  moreover have "co_await_tuple_move co_done c x w = Inr (if later then Await_later else Await_now (wa_task x), w1)"
    unfolding co_await_overloads using 1(1) fresh(3) [of co_done] by (simp add: co_await_tuple_def)
  moreover have "wa_resumed w1 = wa_resumed w0"
    using 1(3,5) by (simp add: wa_rep_def)
  ultimately show ?thesis by blast
qed

lemma awaitable_outs: "map (\<lambda>i. Inr (snd (aws ! i))) [0..<length aws] = map (\<lambda>aw. Inr (snd aw)) aws"
  by (rule nth_equalityI) simp_all

text \<open>C22.
  Awaiting when_all of any number of awaitables, whether each gives its result at once or suspends its task any number of times: nothing fails; as long
  as a task is unfinished it can be resumed; when co_await does not suspend, all tasks have finished and nobody is resumed; when it suspends, the
  awaiting coroutine is resumed exactly once, by the task that finishes last, whatever the order; and once all have finished each task
  returns the value, or throws the exception, of its awaitable.
\<close>

theorem when_all_awaits:
  assumes "when_all a aws w0 = (x, w)" and "length aws < 2 ^ 64 - 1"
  shows "\<exists>res w1. co_await_tuple_move co_done c x w = Inr (res, w1) \<and>
    (\<forall>w2. (wa_run (wa_task x))\<^sup>*\<^sup>* w1 w2 \<longrightarrow>
       (\<forall>h. Some h \<in> set (wa_task x) \<and> \<not> wf_final (wa_frames w2 ! h) \<longrightarrow> is_ok (wa_resume h w2)) \<and>
       (res \<noteq> Await_later \<longrightarrow> res = Await_now (wa_task x) \<and> all_final (wa_task x) w2) \<and>
       wa_resumed w2 = wa_resumed w0 @ (if res = Await_later \<and> all_final (wa_task x) w2 then [c] else []) \<and>
       (all_final (wa_task x) w2 \<longrightarrow> map (\<lambda>t. wtask_return_value t w2) (wa_task x) = map (\<lambda>aw. Inr (snd aw)) aws))"
proof -
  define hs where "hs = [length (wa_frames w0)..<length (wa_frames w0) + length aws]"
  have task: "wa_task x = map Some hs" and len: "length hs = length aws"
    using fresh_rep(1) [OF assms(1)] by (simp_all add: hs_def)
  obtain later w1 where res: "co_await_tuple_move co_done c x w = Inr (if later then Await_later else Await_now (wa_task x), w1)"
    and aw: "awaited a hs (\<lambda>i. snd (aws ! i)) c (wa_resumed w0) later w1"
    using await_awaited [OF assms, folded hs_def] by blast
  let ?res = "if later then Await_later else Await_now (wa_task x)"
  show ?thesis
  proof (intro exI [of _ ?res] exI [of _ w1] conjI res allI impI)
    fix w2 assume run: "(wa_run (wa_task x))\<^sup>*\<^sup>* w1 w2"
    have aw2: "awaited a hs (\<lambda>i. snd (aws ! i)) c (wa_resumed w0) later w2"
      using awaited_run [OF run [unfolded task] aw] .
    note fin = awaited_final [OF aw2]
    show "is_ok (wa_resume h w2)" if "Some h \<in> set (wa_task x) \<and> \<not> wf_final (wa_frames w2 ! h)" for h
      using awaited_resume [OF aw2, of h] that by (auto simp: task is_ok_def)
    show "?res = Await_now (wa_task x)" "all_final (wa_task x) w2" if "?res \<noteq> Await_later"
      using that fin(3) by (auto simp: task split: if_splits)
    show "wa_resumed w2 = wa_resumed w0 @ (if ?res = Await_later \<and> all_final (wa_task x) w2 then [c] else [])"
      using fin(1) by (auto simp: task)
    show "map (\<lambda>t. wtask_return_value t w2) (wa_task x) = map (\<lambda>aw. Inr (snd aw)) aws" if "all_final (wa_task x) w2"
      using fin(2) that unfolding task len awaitable_outs .
  qed
qed

definition demo_world :: "(string, nat) wa_world" where
  "demo_world = \<lparr>wa_frames = [], wa_latches = Map.empty, wa_resumed = []\<rparr>"

definition demo_awaitables :: "(nat \<times> (string + nat)) list" where
  "demo_awaitables = [(1, Inr 42), (0, Inl ''failed'')]"

theorem when_all_awaits_witness:
  "\<exists>w1 w2. co_await_tuple_move (\<lambda>_. False) 5 (fst (when_all 9 demo_awaitables demo_world)) (snd (when_all 9 demo_awaitables demo_world))
       = Inr (Await_later, w1) \<and> wa_resume 0 w1 = Inr w2 \<and> wa_resumed w2 = [5] \<and>
     map (\<lambda>t. wtask_return_value t w2) [Some 0, Some 1] = [Inr (Inr 42), Inr (Inl ''failed'')]"
proof -
  let ?x = "fst (when_all 9 demo_awaitables demo_world)" and ?w = "snd (when_all 9 demo_awaitables demo_world)"
  note eval = when_all_def make_tasks_eq new_frame_of_def wa_new_tuple_def demo_awaitables_def demo_world_def new_latch_def
    co_await_tuple_move_def wa_is_ready_def latch_is_ready_def wa_try_await_def wtask_start_def promise_start_def wa_resume_def
    completion_notify_def notify_awaitable_completed_def latch_try_await_def wp_unhandled_exception_def wp_yield_value_def Let_def bindE_def
  have t: "wa_task ?x = [Some 0, Some 1]" by (simp add: eval upt_rec)
  obtain w1 where w1: "co_await_tuple_move (\<lambda>_. False) 5 ?x ?w = Inr (Await_later, w1)"
    "\<exists>w2. wa_resume 0 w1 = Inr w2 \<and> all_final [Some 0, Some 1] w2" "\<not> wf_final (wa_frames w1 ! 0)"
    by (simp add: eval upt_rec all_final_def)
  then obtain w2 where w2: "wa_resume 0 w1 = Inr w2" "all_final [Some 0, Some 1] w2"
    by blast
  have len: "length demo_awaitables < 2 ^ 64 - 1"
    by (simp add: demo_awaitables_def)
  have "(wa_run (wa_task ?x))\<^sup>*\<^sup>* w1 w2"
    unfolding t using w1(3) w2(1) by (intro r_into_rtranclp wa_run.intros [of 0]) simp_all
  then have "wa_resumed w2 = wa_resumed demo_world @ [5]"
    "map (\<lambda>t. wtask_return_value t w2) [Some 0, Some 1] = map (\<lambda>aw. Inr (snd aw)) demo_awaitables"
    using when_all_awaits [where a = 9 and ?w0.0 = demo_world and x = ?x and w = ?w and co_done = "\<lambda>_. False" and c = 5, OF _ len] w1(1) w2(2)
    by (auto simp: t)
  then show ?thesis
    using w1(1) w2(1) by (auto simp: demo_world_def demo_awaitables_def)
qed

text \<open>
  The awaitable cannot be awaited again: \<open>is_ready\<close> asks whether the coroutine that awaited it has ended, not whether the tasks have, so a second
  \<open>co_await\<close> of the same object starts the tasks once more and resumes a coroutine that is at its end.
\<close>

theorem await_again_resumes_finished:
  assumes "wa_task x = Some h # ts" and "h < length (wa_frames w)" and "wf_final (wa_frames w ! h)" and "wa_is_ready co_done x w = Inr False"
  shows "co_await_tuple co_done c x w = Inl Bad_handle"
  using assms by (simp add: co_await_tuple_def wa_try_await_def wtask_start_def promise_start_def wa_resume_def bindE_def)

end
