(* ===== verification/Sync_Wait.thy ===== *)
theory Sync_Wait
  imports When_All_Await
begin

text \<open>
  \<open>sync_wait\<close> of \<^verbatim>\<open>src/async/sync_wait.hpp\<close> applied to \<open>when_all\<close>: the coroutine of \<open>make_sync_wait_task\<close> awaits the awaitable of
  \<open>When_All_Await\<close> and sets the event at its end.  \<open>When_All\<close> treats the race between \<open>set\<close> and \<open>wait\<close>; here the objects are put together.
\<close>

section \<open>Objects\<close>

text \<open>The coroutine is at its start, awaits, or is at its end; its promise points to the event once it has been started.\<close>

datatype sync_co = Y_initial | Y_awaiting | Y_final

record ('e, 'r) sync_world =
  yw :: "('e, 'r) wa_world"
  yco :: sync_co
  yprom :: "('e, nat option list) sync_promise"
  yevent :: "bool option"
  yevent_ptr :: bool

text \<open>\<open>sync_wait_event e{}\<close>\<close>

definition new_sync_event :: "bool \<Rightarrow> ('e, 'r) sync_world \<Rightarrow> ('e, 'r) sync_world" where
  "new_sync_event initially_set y = y\<lparr>yevent := Some initially_set\<rparr>"

text \<open>The frame of \<open>make_sync_wait_task\<close>.\<close>

definition make_sync_wait_task :: "('e, 'r) wa_world \<Rightarrow> ('e, 'r) sync_world" where
  "make_sync_wait_task w = \<lparr>yw = w, yco = Y_initial, yprom = sp_init, yevent = None, yevent_ptr = False\<rparr>"

text \<open>\<open>completion_notifier::await_suspend\<close>\<close>

definition sync_notify :: "('e, 'r) sync_world \<Rightarrow> ('e, 'r) sync_world res" where
  "sync_notify y =
     (if \<not> yevent_ptr y then Inl Null_deref
      else case yevent y of None \<Rightarrow> Inl Bad_pointer | Some b \<Rightarrow> Inr (y\<lparr>yevent := Some True\<rparr>))"

text \<open>What \<open>await_resume\<close> gives is yielded; the coroutine stays suspended for ever.\<close>

definition sync_yield :: "nat option list \<Rightarrow> ('e, 'r) sync_world \<Rightarrow> ('e, 'r) sync_world res" where
  "sync_yield ts y = sync_notify (y\<lparr>yco := Y_final, yprom := sp_yield_value ts (yprom y)\<rparr>)"

text \<open>Resuming the coroutine \<open>c\<close> whose awaitable is \<open>x\<close>.\<close>

definition sync_resume :: "(nat \<Rightarrow> bool) \<Rightarrow> nat \<Rightarrow> awaitable_all \<Rightarrow> ('e, 'r) sync_world \<Rightarrow> ('e, 'r) sync_world res" where
  "sync_resume co_done c x y =
     (case yco y of
        Y_initial \<Rightarrow>
          bindE (co_await_tuple_move co_done c x (yw y)) (\<lambda>(r, w).
            case r of
              Await_later \<Rightarrow> Inr (y\<lparr>yw := w, yco := Y_awaiting\<rparr>)
            | Await_now ts \<Rightarrow> sync_yield ts (y\<lparr>yw := w\<rparr>))
      | Y_awaiting \<Rightarrow> sync_yield (wa_task x) y
      | Y_final \<Rightarrow> Inl Bad_handle)"

definition sync_task_start :: "(nat \<Rightarrow> bool) \<Rightarrow> nat \<Rightarrow> awaitable_all \<Rightarrow> ('e, 'r) sync_world \<Rightarrow> ('e, 'r) sync_world res" where
  "sync_task_start co_done c x y = sync_resume co_done c x (y\<lparr>yevent_ptr := True\<rparr>)"

text \<open>\<open>wait\<close> goes on when the flag is set.\<close>

definition sync_event_wait :: "('e, 'r) sync_world \<Rightarrow> bool" where
  "sync_event_wait y \<longleftrightarrow> yevent y = Some True"

definition sync_return_value :: "('e, 'r) sync_world \<Rightarrow> ('e + nat option list) res" where
  "sync_return_value y = sp_result (yprom y)"

text \<open>\<open>sync_wait\<close> up to \<open>e.wait()\<close>, on a world that holds the awaitable.\<close>

definition sync_wait_begin :: "(nat \<Rightarrow> bool) \<Rightarrow> nat \<Rightarrow> awaitable_all \<Rightarrow> ('e, 'r) wa_world \<Rightarrow> ('e, 'r) sync_world res" where
  "sync_wait_begin co_done c x w = sync_task_start co_done c x (new_sync_event False (make_sync_wait_task w))"

text \<open>
  Meanwhile the awaitables resume the tasks of \<open>when_all\<close>; the one that brings the latch to zero resumes the coroutine \<open>c\<close> inside its own
  resumption.
\<close>

definition task_resume_in :: "(nat \<Rightarrow> bool) \<Rightarrow> nat \<Rightarrow> awaitable_all \<Rightarrow> nat \<Rightarrow> ('e, 'r) sync_world \<Rightarrow> ('e, 'r) sync_world res" where
  "task_resume_in co_done c x h y =
     bindE (wa_resume h (yw y)) (\<lambda>w.
       if c \<in> set (drop (length (wa_resumed (yw y))) (wa_resumed w)) then sync_resume co_done c x (y\<lparr>yw := w\<rparr>)
       else Inr (y\<lparr>yw := w\<rparr>))"

inductive sync_run :: "(nat \<Rightarrow> bool) \<Rightarrow> nat \<Rightarrow> awaitable_all \<Rightarrow> ('e, 'r) sync_world \<Rightarrow> ('e, 'r) sync_world \<Rightarrow> bool"
  for co_done c x where
  "Some h \<in> set (wa_task x) \<Longrightarrow> \<not> wf_final (wa_frames (yw y) ! h) \<Longrightarrow> task_resume_in co_done c x h y = Inr y' \<Longrightarrow>
   sync_run co_done c x y y'"

section \<open>Waiting for all\<close>

definition sync_ok :: "nat \<Rightarrow> nat list \<Rightarrow> (nat \<Rightarrow> 'e + 'r) \<Rightarrow> nat \<Rightarrow> ('e, 'r) sync_world \<Rightarrow> bool" where
  "sync_ok a hs out c y \<longleftrightarrow>
     (\<exists>d later. awaited a hs out c d later (yw y)) \<and> yevent_ptr y \<and>
     (if all_final (map Some hs) (yw y)
      then yco y = Y_final \<and> yevent y = Some True \<and> sync_return_value y = Inr (Inr (map Some hs))
      else yco y = Y_awaiting \<and> yevent y = Some False \<and> yprom y = sp_init)"


lemma sync_ok_start:
  assumes "when_all a aws w0 = (x, w)" and "length aws < 2 ^ 64 - 1"
  defines "hs \<equiv> [length (wa_frames w0)..<length (wa_frames w0) + length aws]"
  shows "\<exists>y. sync_wait_begin co_done c x w = Inr y \<and> sync_ok a hs (\<lambda>i. snd (aws ! i)) c y"
proof -
  have task: "wa_task x = map Some hs"
    using fresh_rep(1) [OF assms(1)] by (simp add: hs_def)
  obtain later w1 where res: "co_await_tuple_move co_done c x w = Inr (if later then Await_later else Await_now (wa_task x), w1)"
    and aw: "awaited a hs (\<lambda>i. snd (aws ! i)) c (wa_resumed w0) later w1" "wa_resumed w1 = wa_resumed w0"
    using await_awaited [OF assms(1,2), folded hs_def] by blast
  have "later \<longleftrightarrow> \<not> all_final (map Some hs) w1"
    using awaited_final(1,3) [OF aw(1)] aw(2) by (auto split: if_splits)
  then show ?thesis
    using res aw(1) task
    by (auto simp: sync_wait_begin_def sync_task_start_def new_sync_event_def make_sync_wait_task_def sync_resume_def sync_yield_def
        sync_notify_def sync_ok_def bindE_def sync_return_value_def sp_yield_value_def sp_init_def sp_result_def)
qed

lemma sync_ok_step:
  assumes ok: "sync_ok a hs out c y" and h: "h \<in> set hs" "\<not> wf_final (wa_frames (yw y) ! h)" and x: "wa_task x = map Some hs"
  shows "\<exists>y'. task_resume_in co_done c x h y = Inr y' \<and> sync_ok a hs out c y'"
proof -
  have nf: "\<not> all_final (map Some hs) (yw y)"
    using h by (auto simp: all_final_def)
  then have y: "yco y = Y_awaiting" "yevent y = Some False" "yprom y = sp_init" "yevent_ptr y"
    using ok by (simp_all add: sync_ok_def)
  obtain d later where aw: "awaited a hs out c d later (yw y)"
    using ok by (auto simp: sync_ok_def)
  then obtain w' where w': "wa_resume h (yw y) = Inr w'" "awaited a hs out c d later w'"
    using awaited_resume [OF _ h] by blast
  have "wa_resumed (yw y) = d" "wa_resumed w' = d @ (if all_final (map Some hs) w' then [c] else [])"
    using awaited_final(1,3) [OF aw] awaited_final(1) [OF w'(2)] nf by auto
  then show ?thesis
    using w' y x by (auto simp: task_resume_in_def sync_resume_def sync_yield_def sync_notify_def sync_ok_def bindE_def
        sync_return_value_def sp_yield_value_def sp_init_def sp_result_def)
qed


lemma sync_ok_run:
  assumes "(sync_run co_done c x)\<^sup>*\<^sup>* y y'" and "sync_ok a hs out c y" and "wa_task x = map Some hs"
  shows "sync_ok a hs out c y'"
  using assms(1,2)
proof (induction rule: rtranclp_induct)
  case (step y1 y2)
  obtain h where h: "Some h \<in> set (wa_task x)" "\<not> wf_final (wa_frames (yw y1) ! h)" "task_resume_in co_done c x h y1 = Inr y2"
    using step.hyps(2) by (auto elim: wa_run.cases sync_run.cases)
  then show ?case
    using sync_ok_step [OF step.IH [OF step.prems] _ h(2) assms(3), of co_done] assms(3) by auto
qed

text \<open>C23.
  sync_wait(when_all(...)): started in a thread, with the awaitables resuming the tasks from elsewhere in any order, nothing fails; the thread is
  blocked exactly as long as a task is unfinished, since the resumption that finishes the last task sets the event; and
  when wait lets it go on, the value of sync_wait is the tasks, each of which returns the value or throws the exception of
  its awaitable.
\<close>

theorem sync_wait_when_all:
  assumes "when_all a aws w0 = (x, w)" and "length aws < 2 ^ 64 - 1"
  shows "\<exists>y. sync_wait_begin co_done c x w = Inr y \<and>
    (\<forall>y'. (sync_run co_done c x)\<^sup>*\<^sup>* y y' \<longrightarrow>
       (\<forall>h. Some h \<in> set (wa_task x) \<and> \<not> wf_final (wa_frames (yw y') ! h) \<longrightarrow> is_ok (task_resume_in co_done c x h y')) \<and>
       (sync_event_wait y' \<longleftrightarrow> all_final (wa_task x) (yw y')) \<and>
       (sync_event_wait y' \<longrightarrow> sync_return_value y' = Inr (Inr (wa_task x)) \<and>
          map (\<lambda>t. wtask_return_value t (yw y')) (wa_task x) = map (\<lambda>aw. Inr (snd aw)) aws))"
proof -
  define hs where "hs = [length (wa_frames w0)..<length (wa_frames w0) + length aws]"
  have task: "wa_task x = map Some hs" and len: "length hs = length aws"
    using fresh_rep(1) [OF assms(1)] by (simp_all add: hs_def)
  obtain y where y: "sync_wait_begin co_done c x w = Inr y" "sync_ok a hs (\<lambda>i. snd (aws ! i)) c y"
    using sync_ok_start [OF assms, folded hs_def] by blast
  show ?thesis
  proof (intro exI [of _ y] conjI y(1) allI impI)
    fix y' assume "(sync_run co_done c x)\<^sup>*\<^sup>* y y'"
    then have ok: "sync_ok a hs (\<lambda>i. snd (aws ! i)) c y'"
      using sync_ok_run y(2) task by blast
    show "is_ok (task_resume_in co_done c x h y')" if "Some h \<in> set (wa_task x) \<and> \<not> wf_final (wa_frames (yw y') ! h)" for h
      using sync_ok_step [OF ok _ _ task, of h co_done] that by (auto simp: task is_ok_def)
    show wait: "sync_event_wait y' \<longleftrightarrow> all_final (wa_task x) (yw y')"
      using ok by (auto simp: sync_ok_def sync_event_wait_def task split: if_splits)
    assume "sync_event_wait y'"
    then have fin: "all_final (map Some hs) (yw y')"
      using wait by (simp add: task)
    then show "sync_return_value y' = Inr (Inr (wa_task x))"
      using ok by (simp add: sync_ok_def task)
    obtain d later where "awaited a hs (\<lambda>i. snd (aws ! i)) c d later (yw y')"
      using ok by (auto simp: sync_ok_def)
    then show "map (\<lambda>t. wtask_return_value t (yw y')) (wa_task x) = map (\<lambda>aw. Inr (snd aw)) aws"
      using awaited_final(2) fin unfolding task len awaitable_outs [symmetric] by (metis len)
  qed
qed

theorem sync_wait_when_all_witness:
  "\<exists>y y'. sync_wait_begin (\<lambda>_. False) 5 (fst (when_all 9 demo_awaitables demo_world)) (snd (when_all 9 demo_awaitables demo_world)) = Inr y \<and>
     \<not> sync_event_wait y \<and> task_resume_in (\<lambda>_. False) 5 (fst (when_all 9 demo_awaitables demo_world)) 0 y = Inr y' \<and>
     sync_event_wait y' \<and> sync_return_value y' = Inr (Inr [Some 0, Some 1])"
proof -
  let ?x = "fst (when_all 9 demo_awaitables demo_world)" and ?w = "snd (when_all 9 demo_awaitables demo_world)"
  note eval = when_all_def make_tasks_eq new_frame_of_def wa_new_tuple_def demo_awaitables_def demo_world_def new_latch_def
    co_await_tuple_move_def wa_is_ready_def latch_is_ready_def wa_try_await_def wtask_start_def promise_start_def wa_resume_def
    completion_notify_def notify_awaitable_completed_def latch_try_await_def wp_unhandled_exception_def wp_yield_value_def Let_def bindE_def
    sync_wait_begin_def sync_task_start_def new_sync_event_def make_sync_wait_task_def sync_resume_def sync_yield_def sync_notify_def
    sync_event_wait_def task_resume_in_def
  have t: "wa_task ?x = [Some 0, Some 1]" by (simp add: eval upt_rec)
  have len: "length demo_awaitables < 2 ^ 64 - 1"
    by (simp add: demo_awaitables_def)
  obtain y where y: "sync_wait_begin (\<lambda>_. False) 5 ?x ?w = Inr y" "\<not> sync_event_wait y" "\<not> wf_final (wa_frames (yw y) ! 0)"
    "\<exists>y'. task_resume_in (\<lambda>_. False) 5 ?x 0 y = Inr y' \<and> sync_event_wait y'"
    by (simp add: eval upt_rec)
  then obtain y' where y': "task_resume_in (\<lambda>_. False) 5 ?x 0 y = Inr y'" "sync_event_wait y'"
    by blast
  have "(sync_run (\<lambda>_. False) 5 ?x)\<^sup>*\<^sup>* y y'"
    using y(3) y'(1) by (intro r_into_rtranclp sync_run.intros [of 0]) (simp_all add: t)
  then have "sync_return_value y' = Inr (Inr [Some 0, Some 1])"
    using sync_wait_when_all [where a = 9 and ?w0.0 = demo_world and x = ?x and w = ?w and co_done = "\<lambda>_. False" and c = 5, OF _ len] y(1) y'(2)
    by (auto simp: t)
  then show ?thesis using y y' by blast
qed

end
