(* ===== verification/Generator.thy ===== *)
theory Generator
  imports Prelude
begin

text \<open>
  \<open>async::generator\<close> of \<^verbatim>\<open>src/async/generator.hpp\<close>.

  Coroutine frames live in a heap and a generator or an iterator is a handle, null when it is \<open>None\<close>.  What the body of a generator does
  from one suspension to the next is the parameter \<open>body\<close>: from the state of its local variables it yields a value, returns or
  throws.
\<close>

section \<open>Frames and promises\<close>

datatype ('e, 'v) gen_event = Yield 'v | Return | Throw 'e

text \<open>\<open>g_value\<close> and \<open>g_except\<close> are \<open>value_\<close> and \<open>except_\<close> of the promise; null pointers are \<open>None\<close>.\<close>

record ('s, 'e, 'v) gframe =
  g_locals :: 's
  g_value :: "'v option"
  g_except :: "'e option"
  g_done :: bool

type_synonym ('s, 'e, 'v) gheap = "nat \<rightharpoonup> ('s, 'e, 'v) gframe"

text \<open>An operation can throw the generator's exception (\<open>Inr (Inl e)\<close>) beside having undefined behaviour (\<open>Inl f\<close>).\<close>

type_synonym ('e, 'a) throws = "('e + 'a) res"

definition yield_value :: "'v \<Rightarrow> ('s, 'e, 'v) gframe \<Rightarrow> ('s, 'e, 'v) gframe" where
  "yield_value v f = f\<lparr>g_value := Some v\<rparr>"

definition g_unhandled_exception :: "'e \<Rightarrow> ('s, 'e, 'v) gframe \<Rightarrow> ('s, 'e, 'v) gframe" where
  "g_unhandled_exception e f = f\<lparr>g_except := Some e\<rparr>"

definition promise_value :: "('s, 'e, 'v) gframe \<Rightarrow> 'v res" where
  "promise_value f = (case g_value f of Some v \<Rightarrow> Inr v | None \<Rightarrow> Inl Null_deref)"

definition rethrow_if_exception :: "('s, 'e, 'v) gframe \<Rightarrow> 'e + unit" where
  "rethrow_if_exception f = (case g_except f of Some e \<Rightarrow> Inl e | None \<Rightarrow> Inr ())"

text \<open>A new generator is suspended before its body (\<open>initial_suspend\<close> is \<open>suspend_always\<close>).\<close>

definition make_generator :: "nat \<Rightarrow> 's \<Rightarrow> ('s, 'e, 'v) gheap \<Rightarrow> ('s, 'e, 'v) gheap" where
  "make_generator a s h = h(a \<mapsto> \<lparr>g_locals = s, g_value = None, g_except = None, g_done = False\<rparr>)"

definition run_body ::
  "('s \<Rightarrow> ('e, 'v) gen_event \<times> 's) \<Rightarrow> ('s, 'e, 'v) gframe \<Rightarrow> ('s, 'e, 'v) gframe" where
  "run_body body f =
     (let (ev, s) = body (g_locals f); f = f\<lparr>g_locals := s\<rparr> in
      case ev of
        Yield v \<Rightarrow> yield_value v f
      | Return \<Rightarrow> f\<lparr>g_done := True\<rparr>
      | Throw e \<Rightarrow> (g_unhandled_exception e f)\<lparr>g_done := True\<rparr>)"

definition co_resume ::
  "('s \<Rightarrow> ('e, 'v) gen_event \<times> 's) \<Rightarrow> nat \<Rightarrow> ('s, 'e, 'v) gheap \<Rightarrow> ('s, 'e, 'v) gheap res" where
  "co_resume body a h =
     (case h a of
        None \<Rightarrow> Inl Bad_handle
      | Some f \<Rightarrow> if g_done f then Inl Bad_handle else Inr (h(a \<mapsto> run_body body f)))"

section \<open>Iterators\<close>

definition iter_at_end :: "nat option \<Rightarrow> ('s, 'e, 'v) gheap \<Rightarrow> bool res" where
  "iter_at_end it h =
     (case it of
        None \<Rightarrow> Inr True
      | Some a \<Rightarrow> (case h a of None \<Rightarrow> Inl Bad_handle | Some f \<Rightarrow> Inr (g_done f)))"

text \<open>Resuming the coroutine and throwing its exception if that was its end.\<close>

definition advance ::
  "('s \<Rightarrow> ('e, 'v) gen_event \<times> 's) \<Rightarrow> nat \<Rightarrow> ('s, 'e, 'v) gheap \<Rightarrow> ('e, ('s, 'e, 'v) gheap) throws" where
  "advance body a h =
     bindE (co_resume body a h) (\<lambda>h.
       let f = the (h a) in
       if g_done f then Inr (bindE (rethrow_if_exception f) (\<lambda>_. Inr h)) else Inr (Inr h))"

definition iter_incr ::
  "('s \<Rightarrow> ('e, 'v) gen_event \<times> 's) \<Rightarrow> nat option \<Rightarrow> ('s, 'e, 'v) gheap \<Rightarrow> ('e, ('s, 'e, 'v) gheap) throws" where
  "iter_incr body it h = (case it of None \<Rightarrow> Inl Null_deref | Some a \<Rightarrow> advance body a h)"

definition iter_deref :: "nat option \<Rightarrow> ('s, 'e, 'v) gheap \<Rightarrow> 'v res" where
  "iter_deref it h =
     (case it of
        None \<Rightarrow> Inl Null_deref
      | Some a \<Rightarrow> (case h a of None \<Rightarrow> Inl Bad_handle | Some f \<Rightarrow> promise_value f))"

section \<open>Generators\<close>

definition gen_begin ::
  "('s \<Rightarrow> ('e, 'v) gen_event \<times> 's) \<Rightarrow> nat option \<Rightarrow> ('s, 'e, 'v) gheap \<Rightarrow> ('e, nat option \<times> ('s, 'e, 'v) gheap) throws" where
  "gen_begin body g h =
     (case g of
        None \<Rightarrow> Inr (Inr (None, h))
      | Some a \<Rightarrow> bindE (advance body a h) (\<lambda>r. Inr (bindE r (\<lambda>h. Inr (Some a, h)))))"

text \<open>The moved-to and the moved-from generator.\<close>

definition gen_move :: "nat option \<Rightarrow> nat option \<times> nat option" where
  "gen_move other = (other, None)"

definition gen_assign :: "nat option \<Rightarrow> nat option \<Rightarrow> nat option \<times> nat option" where
  "gen_assign g other = (other, None)"

definition gen_destroy :: "nat option \<Rightarrow> ('s, 'e, 'v) gheap \<Rightarrow> ('s, 'e, 'v) gheap" where
  "gen_destroy g h = (case g of None \<Rightarrow> h | Some a \<Rightarrow> h(a := None))"

text \<open>
  \<open>for (auto v : gen)\<close> with a body that collects the values and breaks at the \<open>n\<close>-th of them: the values, and the exception or the heap at the
  end.
\<close>

primrec for_loop ::
  "('s \<Rightarrow> ('e, 'v) gen_event \<times> 's) \<Rightarrow> nat \<Rightarrow> nat option \<Rightarrow> 'v list \<Rightarrow> ('s, 'e, 'v) gheap \<Rightarrow>
   ('v list \<times> ('e + ('s, 'e, 'v) gheap)) res" where
  "for_loop body 0 it acc h = Inr (acc, Inr h)"
| "for_loop body (Suc n) it acc h =
     bindE (iter_at_end it h) (\<lambda>e.
       if e then Inr (acc, Inr h)
       else
         bindE (iter_deref it h) (\<lambda>v.
           if n = 0 then Inr (acc @ [v], Inr h)
           else
             bindE (iter_incr body it h) (\<lambda>r.
               case r of Inl ex \<Rightarrow> Inr (acc @ [v], Inl ex) | Inr h \<Rightarrow> for_loop body n it (acc @ [v]) h)))"

definition for_each_value ::
  "('s \<Rightarrow> ('e, 'v) gen_event \<times> 's) \<Rightarrow> nat \<Rightarrow> nat option \<Rightarrow> ('s, 'e, 'v) gheap \<Rightarrow>
   ('v list \<times> ('e + ('s, 'e, 'v) gheap)) res" where
  "for_each_value body n g h =
     bindE (gen_begin body g h) (\<lambda>r.
       case r of Inl ex \<Rightarrow> Inr ([], Inl ex) | Inr (it, h) \<Rightarrow> for_loop body n it [] h)"

section \<open>What a loop sees\<close>

text \<open>
  The values the body yields from a state on and how it ends: \<open>Some (Inr s)\<close> returns, \<open>Some (Inl e)\<close> throws, \<open>None\<close> has yielded \<open>n\<close> values.
\<close>

primrec gen_trace :: "('s \<Rightarrow> ('e, 'v) gen_event \<times> 's) \<Rightarrow> nat \<Rightarrow> 's \<Rightarrow> 'v list \<times> ('e + unit) option" where
  "gen_trace body 0 s = ([], None)"
| "gen_trace body (Suc n) s =
     (case body s of
        (Yield v, s) \<Rightarrow> let (vs, e) = gen_trace body n s in (v # vs, e)
      | (Return, s) \<Rightarrow> ([], Some (Inr ()))
      | (Throw e, s) \<Rightarrow> ([], Some (Inl e)))"

definition loop_ends :: "('e + unit) option \<Rightarrow> 'e + 'h \<Rightarrow> bool" where
  "loop_ends e r \<longleftrightarrow> (case e of Some (Inl ex) \<Rightarrow> r = Inl ex | _ \<Rightarrow> \<exists>h. r = Inr h)"

lemma advance_body:
  assumes "h a = Some f" and "\<not> g_done f" and "g_except f = None"
  shows "advance body a h =
    (case body (g_locals f) of
       (Yield v, s) \<Rightarrow> Inr (Inr (h(a \<mapsto> f\<lparr>g_locals := s, g_value := Some v\<rparr>)))
     | (Return, s) \<Rightarrow> Inr (Inr (h(a \<mapsto> f\<lparr>g_locals := s, g_done := True\<rparr>)))
     | (Throw e, s) \<Rightarrow> Inr (Inl e))"
  using assms
  by (auto simp: advance_def co_resume_def run_body_def yield_value_def g_unhandled_exception_def rethrow_if_exception_def
      Let_def split: prod.splits gen_event.splits)

lemma for_loop_trace:
  assumes "h a = Some f" and "\<not> g_done f" and "g_except f = None" and "g_value f = Some v"
  shows "\<exists>r. for_loop body (Suc n) (Some a) acc h = Inr (acc @ v # fst (gen_trace body n (g_locals f)), r) \<and>
    loop_ends (snd (gen_trace body n (g_locals f))) r"
  using assms
proof (induction n arbitrary: h f v acc)
  case 0
  then show ?case by (simp add: iter_at_end_def iter_deref_def promise_value_def loop_ends_def)
next
  case (Suc n)
  have step: "for_loop body (Suc (Suc n)) (Some a) acc h =
    bindE (advance body a h) (\<lambda>r. case r of Inl ex \<Rightarrow> Inr (acc @ [v], Inl ex) | Inr h \<Rightarrow> for_loop body (Suc n) (Some a) (acc @ [v]) h)"
    using Suc.prems
    by (subst for_loop.simps(2)) (simp add: iter_at_end_def iter_deref_def promise_value_def iter_incr_def del: for_loop.simps)
  obtain ev s where b: "body (g_locals f) = (ev, s)"
    by (cases "body (g_locals f)")
  show ?case
  proof (cases ev)
    case (Yield w)
    let ?f = "f\<lparr>g_locals := s, g_value := Some w\<rparr>"
    have "\<exists>r. for_loop body (Suc n) (Some a) (acc @ [v]) (h(a \<mapsto> ?f)) = Inr ((acc @ [v]) @ w # fst (gen_trace body n (g_locals ?f)), r) \<and>
      loop_ends (snd (gen_trace body n (g_locals ?f))) r"
      using Suc.prems by (intro Suc.IH) simp_all
    then show ?thesis
      unfolding step using advance_body [of h a f body, OF Suc.prems(1-3)] b Yield
      by (simp add: case_prod_beta del: for_loop.simps)
  next
    case Return
    then show ?thesis
      unfolding step using advance_body [of h a f body, OF Suc.prems(1-3)] b
      by (auto simp: loop_ends_def iter_at_end_def)
  next
    case (Throw e)
    then show ?thesis
      unfolding step using advance_body [of h a f body, OF Suc.prems(1-3)] b by (auto simp: loop_ends_def)
  qed
qed

text \<open>C17.
  A range-for over a fresh generator sees exactly the values its body yields, in order, each once; when the body returns the loop ends,
  when it throws the loop throws that exception after the values yielded before, and a loop that breaks at the
  \<open>n\<close>-th value has not run the body beyond it, so that endless generators are fine.
\<close>

theorem for_each_sees_yields:
  assumes "0 < n"
  shows "\<exists>r. for_each_value body n (Some a) (make_generator a s h) = Inr (fst (gen_trace body n s), r) \<and>
    loop_ends (snd (gen_trace body n s)) r"
proof -
  let ?f = "\<lparr>g_locals = s, g_value = None, g_except = None, g_done = False\<rparr>"
  obtain m where n: "n = Suc m"
    using assms by (cases n) auto
  obtain ev s' where b: "body s = (ev, s')"
    by (cases "body s")
  have adv: "advance body a (make_generator a s h) =
    (case body s of
       (Yield v, s) \<Rightarrow> Inr (Inr ((make_generator a s h)(a \<mapsto> ?f\<lparr>g_locals := s, g_value := Some v\<rparr>)))
     | (Return, s) \<Rightarrow> Inr (Inr ((make_generator a s h)(a \<mapsto> ?f\<lparr>g_locals := s, g_done := True\<rparr>)))
     | (Throw e, s) \<Rightarrow> Inr (Inl e))"
    using advance_body [of "make_generator a s h" a ?f body]
    by (auto simp: make_generator_def split: prod.splits gen_event.splits)
  show ?thesis
  proof (cases ev)
    case (Yield v)
    then show ?thesis
      using for_loop_trace [of "(make_generator a s h)(a \<mapsto> ?f\<lparr>g_locals := s', g_value := Some v\<rparr>)" a
          "?f\<lparr>g_locals := s', g_value := Some v\<rparr>" v body m "[]"] adv b n
      by (simp add: for_each_value_def gen_begin_def case_prod_beta make_generator_def del: for_loop.simps)
  next
    case Return
    then show ?thesis
      using adv b n by (auto simp: for_each_value_def gen_begin_def iter_at_end_def loop_ends_def)
  next
    case (Throw e)
    then show ?thesis
      using adv b n by (auto simp: for_each_value_def gen_begin_def loop_ends_def)
  qed
qed

theorem for_each_sees_yields_witness:
  "\<exists>r. for_each_value (\<lambda>i :: nat. if i = 3 then (Throw ''end'', i) else (Yield (10 * i), Suc i)) 5 (Some 1)
          (make_generator 1 0 Map.empty) = Inr ([0, 10, 20], r) \<and> loop_ends (Some (Inl ''end'')) r"
  using for_each_sees_yields [of 5 "\<lambda>i :: nat. if i = 3 then (Throw ''end'', i) else (Yield (10 * i), Suc i)" 1 0 Map.empty]
  by (simp add: numeral_eq_Suc)

text \<open>
  The move assignment forgets the generator it overwrites: after both generators are destroyed its frame is still allocated.
\<close>

lemma gen_assign_leaks:
  assumes "h a = Some f" and "a \<noteq> b"
  shows "(case gen_assign (Some a) (Some b) of (g, other) \<Rightarrow> gen_destroy other (gen_destroy g h)) a = Some f"
  using assms by (simp add: gen_assign_def gen_destroy_def)

text \<open>Calling \<open>begin\<close> a second time resumes the generator again, so that a second loop misses the first value it could have seen.\<close>

lemma begin_twice_skips:
  assumes "h a = Some f" and "\<not> g_done f" and "g_except f = None"
    and "body (g_locals f) = (Yield v, s)" and "body s = (Yield w, s')"
  shows "bindE (gen_begin body (Some a) h) (\<lambda>r. bindE (gen_begin body (Some a) (snd (projr r))) (\<lambda>r. iter_deref (fst (projr r)) (snd (projr r)))) = Inr w"
  using assms advance_body [of h a f body] advance_body [of "h(a \<mapsto> f\<lparr>g_locals := s, g_value := Some v\<rparr>)" a
      "f\<lparr>g_locals := s, g_value := Some v\<rparr>" body]
  by (simp add: gen_begin_def iter_deref_def promise_value_def)

end
