(* ===== verification/Task.thy ===== *)
theory Task
  imports Promise Thread_Pool
begin

text \<open>
  \<open>async::task\<close> of \<^verbatim>\<open>src/async/task.hpp\<close> on a thread pool.

  The body of a coroutine is its remaining code: what it does up to the next point where the library decides who runs, and how it goes
  on.  \<open>Await t k\<close> is \<open>co_await\<close> of the task whose coroutine is \<open>t\<close>, \<open>Awaiting t k\<close> the same coroutine suspended there,
  \<open>Sched k\<close> is \<open>co_await pool.schedule()\<close>, \<open>Locked i k\<close> a section under a mutex with effect \<open>i\<close>, \<open>Emit i k\<close> any other visible
  action.  \<open>run_co\<close> executes a coroutine and those to which control passes by symmetric transfer, until control returns
  to whoever called \<open>resume\<close>.
\<close>

section \<open>Frames\<close>

datatype ('e, 'r) code =
    Emit nat "('e, 'r) code"
  | Await nat "('e + 'r) \<Rightarrow> ('e, 'r) code"
  | Awaiting nat "('e + 'r) \<Rightarrow> ('e, 'r) code"
  | Sched "('e, 'r) code"
  | Locked nat "('e, 'r) code"
  | Co_return 'r
  | Co_throw 'e

record ('e, 'r) frame =
  fcode :: "('e, 'r) code"
  fpromise :: "('e, 'r) task_promise"
  fdone :: bool

record ('e, 'r) tsys = pool +
  frames :: "nat \<rightharpoonup> ('e, 'r) frame"
  mutex_held :: bool
  trace :: "nat list"

definition set_code :: "nat \<Rightarrow> ('e, 'r) code \<Rightarrow> ('e, 'r, 'x) tsys_scheme \<Rightarrow> ('e, 'r, 'x) tsys_scheme" where
  "set_code h c s = s\<lparr>frames := (frames s)(h \<mapsto> (the (frames s h))\<lparr>fcode := c\<rparr>)\<rparr>"

section \<open>Awaiting a task\<close>

definition task_await_ready :: "nat \<Rightarrow> ('e, 'r, 'x) tsys_scheme \<Rightarrow> bool res" where
  "task_await_ready t s = (case frames s t of None \<Rightarrow> Inl Bad_handle | Some f \<Rightarrow> Inr (fdone f))"

text \<open>The awaited task becomes the coroutine that runs next.\<close>

definition task_await_suspend :: "nat \<Rightarrow> nat \<Rightarrow> ('e, 'r, 'x) tsys_scheme \<Rightarrow> nat \<times> ('e, 'r, 'x) tsys_scheme" where
  "task_await_suspend t awaiting s =
     (let f = the (frames s t) in
      (t, s\<lparr>frames := (frames s)(t \<mapsto> f\<lparr>fpromise := tp_continuation (Some awaiting) (fpromise f)\<rparr>)\<rparr>))"

definition task_await_resume :: "nat \<Rightarrow> ('e, 'r, 'x) tsys_scheme \<Rightarrow> ('e + 'r) res" where
  "task_await_resume t s = (case frames s t of None \<Rightarrow> Inl Bad_handle | Some f \<Rightarrow> Inr (tp_result (fpromise f)))"

text \<open>The end of a body: the promise keeps the outcome and the final suspension names the coroutine to run next.\<close>

definition co_finish :: "nat \<Rightarrow> 'e + 'r \<Rightarrow> ('e, 'r, 'x) tsys_scheme \<Rightarrow> nat option \<times> ('e, 'r, 'x) tsys_scheme" where
  "co_finish h out s =
     (let f = the (frames s h);
          p = (case out of Inl e \<Rightarrow> tp_unhandled_exception e (fpromise f) | Inr r \<Rightarrow> tp_return_value r (fpromise f)) in
      (final_await_suspend p, s\<lparr>frames := (frames s)(h \<mapsto> f\<lparr>fpromise := p, fdone := True\<rparr>)\<rparr>))"

section \<open>Execution\<close>

primrec run_co ::
  "(nat \<Rightarrow> ('e, 'r, 'x) tsys_scheme \<Rightarrow> ('e, 'r, 'x) tsys_scheme) \<Rightarrow> nat \<Rightarrow> nat \<Rightarrow> ('e, 'r, 'x) tsys_scheme \<Rightarrow>
   ('e, 'r, 'x) tsys_scheme res" where
  "run_co eff 0 h s = Inl Out_of_fuel"
| "run_co eff (Suc n) h s =
     (case frames s h of
        None \<Rightarrow> Inl Bad_handle
      | Some f \<Rightarrow>
          if fdone f then Inl Bad_handle
          else
            case fcode f of
              Emit i k \<Rightarrow> run_co eff n h (set_code h k (s\<lparr>trace := trace s @ [i]\<rparr>))
            | Await t k \<Rightarrow>
                bindE (task_await_ready t s) (\<lambda>ready.
                  if ready then bindE (task_await_resume t s) (\<lambda>out. run_co eff n h (set_code h (k out) s))
                  else
                    let (next, s) = task_await_suspend t h (set_code h (Awaiting t k) s) in
                    run_co eff n next s)
            | Awaiting t k \<Rightarrow> bindE (task_await_resume t s) (\<lambda>out. run_co eff n h (set_code h (k out) s))
            | Sched k \<Rightarrow>
                bindE (schedule s) (\<lambda>s. Inr (operation_await_suspend (Some h) (set_code h k s)))
            | Locked i k \<Rightarrow> if mutex_held s then Inl Deadlock else run_co eff n h (set_code h k (eff i s))
            | Co_return r \<Rightarrow>
                (case co_finish h (Inr r) s of (None, s) \<Rightarrow> Inr s | (Some c, s) \<Rightarrow> run_co eff n c s)
            | Co_throw e \<Rightarrow>
                (case co_finish h (Inl e) s of (None, s) \<Rightarrow> Inr s | (Some c, s) \<Rightarrow> run_co eff n c s))"

text \<open>Calling a coroutine: \<open>initial_suspend\<close> is \<open>suspend_never\<close>, the body starts at once.\<close>

definition new_frame :: "('e, 'r) code \<Rightarrow> 'r \<Rightarrow> ('e, 'r) frame" where
  "new_frame c r = \<lparr>fcode = c, fpromise = \<lparr>continuation_of = None, except_ptr = None, return_val = r\<rparr>, fdone = False\<rparr>"

definition call_task ::
  "(nat \<Rightarrow> ('e, 'r, 'x) tsys_scheme \<Rightarrow> ('e, 'r, 'x) tsys_scheme) \<Rightarrow> nat \<Rightarrow> nat \<Rightarrow> ('e, 'r) code \<Rightarrow> 'r \<Rightarrow>
   ('e, 'r, 'x) tsys_scheme \<Rightarrow> ('e, 'r, 'x) tsys_scheme res" where
  "call_task eff n h c r s = run_co eff n h (s\<lparr>frames := (frames s)(h \<mapsto> new_frame c r)\<rparr>)"

text \<open>\<open>task::is_ready\<close>, \<open>done\<close>, \<open>resume\<close>, \<open>destroy\<close>, the destructor and the move operations; a task is its handle.\<close>

definition task_is_ready :: "nat option \<Rightarrow> ('e, 'r, 'x) tsys_scheme \<Rightarrow> bool res" where
  "task_is_ready t s = (case t of None \<Rightarrow> Inr True | Some h \<Rightarrow> task_await_ready h s)"

definition task_done :: "nat option \<Rightarrow> ('e, 'r, 'x) tsys_scheme \<Rightarrow> bool res" where
  "task_done t s = (case t of None \<Rightarrow> Inl Null_deref | Some h \<Rightarrow> task_await_ready h s)"

definition task_resume ::
  "(nat \<Rightarrow> ('e, 'r, 'x) tsys_scheme \<Rightarrow> ('e, 'r, 'x) tsys_scheme) \<Rightarrow> nat \<Rightarrow> nat option \<Rightarrow> ('e, 'r, 'x) tsys_scheme \<Rightarrow>
   (bool \<times> ('e, 'r, 'x) tsys_scheme) res" where
  "task_resume eff n t s =
     bindE (task_done t s) (\<lambda>d.
     bindE (if \<not> d then run_co eff n (the t) s else Inr s) (\<lambda>s.
     bindE (task_done t s) (\<lambda>d. Inr (\<not> d, s))))"

definition task_destroy :: "nat option \<Rightarrow> ('e, 'r, 'x) tsys_scheme \<Rightarrow> bool \<times> nat option \<times> ('e, 'r, 'x) tsys_scheme" where
  "task_destroy t s =
     (case t of None \<Rightarrow> (False, None, s) | Some h \<Rightarrow> (True, None, s\<lparr>frames := (frames s)(h := None)\<rparr>))"

definition task_move :: "nat option \<Rightarrow> nat option \<times> nat option" where
  "task_move other = (other, None)"

definition task_assign ::
  "nat option \<Rightarrow> nat option \<Rightarrow> ('e, 'r, 'x) tsys_scheme \<Rightarrow> nat option \<times> nat option \<times> ('e, 'r, 'x) tsys_scheme" where
  "task_assign t other s = (other, None, (case t of None \<Rightarrow> s | Some h \<Rightarrow> s\<lparr>frames := (frames s)(h := None)\<rparr>))"

text \<open>A worker of the pool: \<open>handle.resume()\<close> and the decrement of \<open>size_\<close>.\<close>

definition run_worker ::
  "(nat \<Rightarrow> ('e, 'r, 'x) tsys_scheme \<Rightarrow> ('e, 'r, 'x) tsys_scheme) \<Rightarrow> nat \<Rightarrow> ('e, 'r, 'x) tsys_scheme \<Rightarrow>
   ('e, 'r, 'x) tsys_scheme res" where
  "run_worker eff n s =
     (case pqueue s of
        [] \<Rightarrow> Inr s
      | h # q \<Rightarrow> bindE (run_co eff n h (s\<lparr>pqueue := q\<rparr>)) (\<lambda>s. Inr (s\<lparr>psize := psize s - 1\<rparr>)))"

section \<open>Delivering results\<close>

text \<open>Code that ends without awaiting anything: its visible actions and its outcome.\<close>

primrec straight :: "('e, 'r) code \<Rightarrow> (nat list \<times> ('e + 'r)) option" where
  "straight (Emit i c) = map_option (\<lambda>(ls, out). (i # ls, out)) (straight c)"
| "straight (Await t k) = None"
| "straight (Awaiting t k) = None"
| "straight (Sched c) = None"
| "straight (Locked i c) = None"
| "straight (Co_return r) = Some ([], Inr r)"
| "straight (Co_throw e) = Some ([], Inl e)"

text \<open>The promise after \<open>out\<close>, and the state in which \<open>h\<close> has ended with it.\<close>

definition finished :: "'e + 'r \<Rightarrow> ('e, 'r) frame \<Rightarrow> ('e, 'r) frame" where
  "finished out f = f\<lparr>fcode := (case out of Inl e \<Rightarrow> Co_throw e | Inr r \<Rightarrow> Co_return r),
     fpromise := task_slot.finish_with out (fpromise f), fdone := True\<rparr>"

definition end_co :: "nat \<Rightarrow> nat list \<Rightarrow> 'e + 'r \<Rightarrow> ('e, 'r, 'x) tsys_scheme \<Rightarrow> ('e, 'r, 'x) tsys_scheme" where
  "end_co h ls out s = s\<lparr>trace := trace s @ ls, frames := (frames s)(h \<mapsto> finished out (the (frames s h)))\<rparr>"

lemma finished_simps [simp]:
  "fdone (finished out f)" "continuation_of (fpromise (finished out f)) = continuation_of (fpromise f)"
  by (auto simp: finished_def task_slot.finish_with_def tp_unhandled_exception_def tp_return_value_def split: sum.split)

lemma finished_result: "except_ptr (fpromise f) = None \<Longrightarrow> tp_result (fpromise (finished out f)) = out"
  using task_slot.get_finish [of "fpromise f" out] by (simp add: finished_def)

lemma run_straight:
  assumes "frames s h = Some f" and "\<not> fdone f" and "straight (fcode f) = Some (ls, out)"
  shows "run_co eff (Suc (length ls + n)) h s =
    (case continuation_of (fpromise f) of None \<Rightarrow> Inr (end_co h ls out s) | Some c \<Rightarrow> run_co eff n c (end_co h ls out s))"
  using assms
proof (induction ls arbitrary: s f)
  case Nil
  then show ?case
    by (cases f; cases "fcode f")
      (auto simp: end_co_def finished_def co_finish_def final_await_suspend_def task_slot.finish_with_def
        tp_return_value_def tp_unhandled_exception_def Let_def split: option.splits)
next
  case (Cons i ls)
  obtain c where c: "fcode f = Emit i c" "straight c = Some (ls, out)"
    using Cons.prems(3) by (cases "fcode f") auto
  let ?s = "set_code h c (s\<lparr>trace := trace s @ [i]\<rparr>)"
  have f: "frames ?s h = Some (f\<lparr>fcode := c\<rparr>)"
    using Cons.prems(1) by (simp add: set_code_def)
  have e: "end_co h ls out ?s = end_co h (i # ls) out s"
    using Cons.prems(1) by (simp add: end_co_def set_code_def finished_def)
  have "run_co eff (Suc (length (i # ls) + n)) h s = run_co eff (Suc (length ls + n)) h ?s"
    using Cons.prems(1,2) c(1) by (subst run_co.simps(2)) (simp del: run_co.simps)
  also have "\<dots> = (case continuation_of (fpromise (f\<lparr>fcode := c\<rparr>)) of None \<Rightarrow> Inr (end_co h ls out ?s)
      | Some d \<Rightarrow> run_co eff n d (end_co h ls out ?s))"
    using Cons.prems(2) c(2) by (intro Cons.IH [OF f]) simp_all
  finally show ?case
    unfolding e by simp
qed

text \<open>The state after \<open>h\<close> has awaited \<open>t\<close> and \<open>t\<close> has run to its end.\<close>

definition awaited :: "nat \<Rightarrow> nat \<Rightarrow> ('e, 'r) frame \<Rightarrow> ('e, 'r) frame \<Rightarrow> (('e + 'r) \<Rightarrow> ('e, 'r) code) \<Rightarrow> nat list \<Rightarrow> 'e + 'r \<Rightarrow>
    ('e, 'r, 'x) tsys_scheme \<Rightarrow> ('e, 'r, 'x) tsys_scheme" where
  "awaited h t f g k ls out s =
     set_code h (k out) (end_co t ls out (s\<lparr>frames := (frames s)(h \<mapsto> f\<lparr>fcode := Awaiting t k\<rparr>,
       t \<mapsto> g\<lparr>fpromise := tp_continuation (Some h) (fpromise g)\<rparr>)\<rparr>))"

lemma awaited_simps:
  assumes "t \<noteq> h"
  shows "frames (awaited h t f g k ls out s) h = Some (f\<lparr>fcode := k out\<rparr>)"
    "frames (awaited h t f g k ls out s) t = Some (finished out (g\<lparr>fpromise := tp_continuation (Some h) (fpromise g)\<rparr>))"
    "trace (awaited h t f g k ls out s) = trace s @ ls" "mutex_held (awaited h t f g k ls out s) = mutex_held s"
    "pqueue (awaited h t f g k ls out s) = pqueue s"
  using assms by (simp_all add: awaited_def set_code_def end_co_def)

lemma await_run:
  assumes f: "frames s h = Some f" "\<not> fdone f" "fcode f = Await t k" and t: "t \<noteq> h"
    and g: "frames s t = Some g" "except_ptr (fpromise g) = None" "\<not> fdone g" "straight (fcode g) = Some (ls, out)"
  shows "run_co eff (Suc (Suc (length ls + Suc n))) h s = run_co eff n h (awaited h t f g k ls out s)"
proof -
  let ?g = "g\<lparr>fpromise := tp_continuation (Some h) (fpromise g)\<rparr>"
  let ?f = "f\<lparr>fcode := Awaiting t k\<rparr>"
  define s1 where "s1 = s\<lparr>frames := (frames s)(h \<mapsto> ?f, t \<mapsto> ?g)\<rparr>"
  define s2 where "s2 = end_co t ls out s1"
  have "run_co eff (Suc (Suc (length ls + Suc n))) h s = run_co eff (Suc (length ls + Suc n)) t s1"
    using f t g(1,3) by (subst run_co.simps(2))
      (simp add: task_await_ready_def task_await_suspend_def set_code_def s1_def del: run_co.simps)
  also have "\<dots> = run_co eff (Suc n) h s2"
    using run_straight [of s1 t ?g ls out eff "Suc n"] g(3,4) by (simp add: s1_def s2_def tp_continuation_def del: run_co.simps)
  also have "\<dots> = run_co eff n h (set_code h (k out) s2)"
  proof -
    have "frames s2 h = Some ?f" "frames s2 t = Some (finished out ?g)"
      using t by (simp_all add: s2_def s1_def end_co_def)
    moreover have "tp_result (fpromise (finished out ?g)) = out"
      using g(2) by (intro finished_result) (simp add: tp_continuation_def)
    ultimately show ?thesis
      using f(2) by (subst run_co.simps(2)) (simp add: task_await_resume_def del: run_co.simps)
  qed
  finally show ?thesis
    by (simp add: awaited_def s2_def s1_def)
qed

lemma await_done:
  assumes "frames s h = Some f" "\<not> fdone f" "fcode f = Await t k" "frames s t = Some g" "fdone g"
  shows "run_co eff (Suc n) h s = run_co eff n h (set_code h (k (tp_result (fpromise g))) s)"
  using assms by (simp add: task_await_ready_def task_await_resume_def)


definition two_tasks :: "(string, nat) tsys" where
  "two_tasks =
     \<lparr>pqueue = [], psize = 0, pshutdown = False,
      frames = [1 \<mapsto> new_frame (Await 2 (\<lambda>out. case out of Inl e \<Rightarrow> Co_throw e | Inr r \<Rightarrow> Co_return (Suc r))) 0,
                2 \<mapsto> new_frame (Emit 5 (Co_return 41)) 0],
      mutex_held = False, trace = []\<rparr>"


section \<open>A scheduled task is resumed twice\<close>

lemma call_scheduled:
  assumes "\<not> pshutdown s"
  shows "call_task eff (Suc n) t (Sched c) r s =
    Inr (s\<lparr>psize := psize s + 1, pqueue := pqueue s @ [t], frames := (frames s)(t \<mapsto> new_frame c r)\<rparr>)"
  using assms by (simp add: call_task_def new_frame_def schedule_def operation_await_suspend_def schedule_impl_def set_code_def)

text \<open>  A task that moves itself to the pool is resumed twice.  Its body starts when it is called and suspends in schedule, which queues it; the
  coroutine that then awaits it resumes it again, since await_suspend passes control to the task, so that the rest of it runs in the
  awaiting thread; the worker that takes it from the queue resumes a coroutine that has ended.
\<close>

theorem scheduled_task_resumed_twice:
  assumes "\<not> pshutdown s" and "pqueue s = []" and "frames s h = Some f" and "\<not> fdone f" and "fcode f = Await t k" and "t \<noteq> h"
    and "continuation_of (fpromise f) = None" and "straight c = Some (ls, out)" and "straight (k out) = Some (ls', out')"
  shows "\<exists>s1 s2. call_task eff 1 t (Sched c) r s = Inr s1 \<and>
    run_co eff (Suc (Suc (length ls + Suc (Suc (length ls'))))) h s1 = Inr s2 \<and> trace s2 = trace s @ ls @ ls' \<and>
    run_worker eff 1 s2 = Inl Bad_handle"
proof -
  define s1 where "s1 = s\<lparr>psize := psize s + 1, pqueue := pqueue s @ [t], frames := (frames s)(t \<mapsto> new_frame c r)\<rparr>"
  define s2 where "s2 = awaited h t f (new_frame c r) k ls out s1"
  note a = awaited_simps [OF assms(6), of f "new_frame c r" k ls out s1, folded s2_def]
  have call: "call_task eff 1 t (Sched c) r s = Inr s1"
    using call_scheduled [OF assms(1), of eff 0] by (simp add: s1_def)
  have "run_co eff (Suc (Suc (length ls + Suc (Suc (length ls'))))) h s1 = run_co eff (Suc (length ls')) h s2"
    unfolding s2_def using assms(3-6,8) by (intro await_run) (simp_all add: s1_def new_frame_def)
  also have "\<dots> = Inr (end_co h ls' out' s2)"
    using run_straight [of s2 h "f\<lparr>fcode := k out\<rparr>" ls' out' eff 0] a(1) assms(4,7,9) by (simp del: run_co.simps)
  finally have run: "run_co eff (Suc (Suc (length ls + Suc (Suc (length ls'))))) h s1 = Inr (end_co h ls' out' s2)" .
  have "pqueue (end_co h ls' out' s2) = [t]" "trace (end_co h ls' out' s2) = trace s @ ls @ ls'"
    "frames (end_co h ls' out' s2) t = frames s2 t"
    using a assms(2,6) by (simp_all add: end_co_def s1_def)
  then show ?thesis
    using call run a(2) by (simp add: run_worker_def)
qed

theorem scheduled_task_resumed_twice_witness:
  "\<exists>s1 s2. call_task (\<lambda>_ s. s) 1 2 (Sched (Emit 5 (Co_return 41))) 0 two_tasks = Inr s1 \<and>
    run_co (\<lambda>_ s. s) (Suc (Suc (length [5 :: nat] + Suc (Suc (length ([] :: nat list)))))) 1 s1 = Inr s2 \<and> trace s2 = trace two_tasks @ [5] @ [] \<and>
    run_worker (\<lambda>_ s. s) 1 s2 = Inl Bad_handle"
  by (rule scheduled_task_resumed_twice [of two_tasks 1 "new_frame (Await 2 (\<lambda>out. case out of Inl e \<Rightarrow> Co_throw e | Inr r \<Rightarrow> Co_return (Suc r))) 0"
      2 "\<lambda>out. case out of Inl e \<Rightarrow> Co_throw e | Inr r \<Rightarrow> Co_return (Suc r)" _ _ "Inr 41" _ "Inr 42"])
    (simp_all add: two_tasks_def new_frame_def)

end
