(* ===== verification/Task_Container.thy ===== *)
theory Task_Container
  imports Task Complex_Main
begin

text \<open>
  \<open>async::task_container\<close> of \<^verbatim>\<open>src/async/task_container.hpp\<close>.

  A node of the list \<open>task_idx_\<close> is named by the index stored in it, which is different for every node, so that an iterator is that index,
  or \<open>None\<close> for \<open>end()\<close>.  The slots hold the handles of the cleanup tasks; the coroutines are those of \<open>Task\<close>.  The growth factor, a
  \<open>double\<close>, is a rational number.
\<close>

section \<open>State\<close>

record 'e container = "('e, unit) tsys" +
  csize :: u64
  slots :: "nat option list"
  task_idx :: "nat list"
  task_to_del :: "nat list"
  free_pos :: "nat option"
  growth_factor :: rat

section \<open>Operations\<close>

definition container_init :: "nat \<Rightarrow> ('e, 'x) container_scheme \<Rightarrow> ('e, 'x) container_scheme" where
  "container_init reserve_size s =
     s\<lparr>slots := replicate reserve_size None, task_idx := [0..<reserve_size], free_pos := (if reserve_size = 0 then None else Some 0)\<rparr>"

text \<open>\<open>std::next\<close> of an iterator into the list.\<close>

fun next_pos :: "nat list \<Rightarrow> nat \<Rightarrow> nat option" where
  "next_pos (x # y # xs) i = (if x = i then Some y else next_pos (y # xs) i)"
| "next_pos xs i = None"

definition grow :: "('e, 'x) container_scheme \<Rightarrow> ('e, 'x) container_scheme res" where
  "grow s =
     (if task_idx s = [] then Inl Bad_iterator
      else
        let last_pos = last (task_idx s);
            new_size = nat \<lfloor>of_nat (length (slots s)) * growth_factor s\<rfloor>;
            s = s\<lparr>task_idx := task_idx s @ [length (slots s)..<new_size]\<rparr>;
            s = s\<lparr>slots := take new_size (slots s) @ replicate (new_size - length (slots s)) None\<rparr> in
        Inr (s\<lparr>free_pos := next_pos (task_idx s) last_pos\<rparr>))"

text \<open>\<open>splice\<close> moves one node to the end of its own list.\<close>

definition splice_end :: "nat \<Rightarrow> nat list \<Rightarrow> nat list" where
  "splice_end pos xs = removeAll pos xs @ [pos]"

definition gc_internal :: "('e, 'x) container_scheme \<Rightarrow> nat \<times> ('e, 'x) container_scheme" where
  "gc_internal s =
     (if task_to_del s \<noteq> []
      then (length (task_to_del s), s\<lparr>task_idx := fold splice_end (task_to_del s) (task_idx s), task_to_del := []\<rparr>)
      else (0, s))"

definition garbage_collect :: "('e, 'x) container_scheme \<Rightarrow> (nat \<times> ('e, 'x) container_scheme) res" where
  "garbage_collect s = (if mutex_held s then Inl Deadlock else Inr (gc_internal s))"

text \<open>
  The cleanup coroutine; an exception of the user task is caught and printed.  \<open>slot_done\<close> is its section under the mutex: the position is
  pushed, and the task counted out.
\<close>

definition make_cleanup_task :: "nat \<Rightarrow> nat \<Rightarrow> ('e, unit) code" where
  "make_cleanup_task user_task pos = Sched (Await user_task (\<lambda>_. Locked pos (Co_return ())))"

definition slot_push :: "nat \<Rightarrow> ('e, 'x) container_scheme \<Rightarrow> ('e, 'x) container_scheme" where
  "slot_push pos s = s\<lparr>task_to_del := task_to_del s @ [pos]\<rparr>"

definition slot_count :: "('e, 'x) container_scheme \<Rightarrow> ('e, 'x) container_scheme" where
  "slot_count s = s\<lparr>csize := csize s - 1\<rparr>"

definition slot_done :: "nat \<Rightarrow> ('e, 'x) container_scheme \<Rightarrow> ('e, 'x) container_scheme" where
  "slot_done pos s = slot_count (slot_push pos s)"

text \<open>The part of \<open>start\<close> that finds a slot: collect, grow when there is no free position, and read the index.\<close>

definition find_slot :: "bool \<Rightarrow> ('e, 'x) container_scheme \<Rightarrow> (nat \<times> ('e, 'x) container_scheme) res" where
  "find_slot cleanup s =
     (let s = (if cleanup then snd (gc_internal s) else s) in
      bindE (if free_pos s = None then grow s else Inr s) (\<lambda>s.
        case free_pos s of None \<Rightarrow> Inl Bad_iterator | Some index \<Rightarrow> Inr (index, s)))"

text \<open>
  \<open>start\<close> counts the task before it waits for the mutex; the rest is under the mutex, up to and including \<open>task_[index].resume()\<close>.
\<close>

definition start_count :: "('e, 'x) container_scheme \<Rightarrow> ('e, 'x) container_scheme" where
  "start_count s = s\<lparr>csize := csize s + 1\<rparr>"

definition start_locked ::
  "nat \<Rightarrow> nat \<Rightarrow> nat \<Rightarrow> bool \<Rightarrow> ('e, 'x) container_scheme \<Rightarrow> ('e, 'x) container_scheme res" where
  "start_locked n h user_task cleanup s =
     (if mutex_held s then Inl Deadlock
      else
        bindE (find_slot cleanup (s\<lparr>mutex_held := True\<rparr>)) (\<lambda>(index, s).
        bindE (guardE (index < length (slots s)) Out_of_bounds) (\<lambda>_.
        bindE (call_task slot_done n h (make_cleanup_task user_task index) () s) (\<lambda>s.
        let (slot, _, s) = task_assign (slots s ! index) (Some h) s;
            s = s\<lparr>slots := (slots s)[index := slot]\<rparr>;
            s = s\<lparr>free_pos := next_pos (task_idx s) index\<rparr> in
        bindE (task_resume slot_done n (slots s ! index) s) (\<lambda>(_, s). Inr (s\<lparr>mutex_held := False\<rparr>))))))"

definition container_start ::
  "nat \<Rightarrow> nat \<Rightarrow> nat \<Rightarrow> bool \<Rightarrow> ('e, 'x) container_scheme \<Rightarrow> ('e, 'x) container_scheme res" where
  "container_start n h user_task cleanup s = start_locked n h user_task cleanup (start_count s)"

definition container_size :: "('e, 'x) container_scheme \<Rightarrow> u64" where
  "container_size s = csize s"

definition container_empty :: "('e, 'x) container_scheme \<Rightarrow> bool" where
  "container_empty s \<longleftrightarrow> container_size s = 0"

definition delete_task_size :: "('e, 'x) container_scheme \<Rightarrow> nat" where
  "delete_task_size s = length (task_to_del s)"

definition delete_tasks_empty :: "('e, 'x) container_scheme \<Rightarrow> bool" where
  "delete_tasks_empty s \<longleftrightarrow> task_to_del s = []"

definition capacity :: "('e, 'x) container_scheme \<Rightarrow> nat" where
  "capacity s = length (slots s)"

section \<open>Starting a task deadlocks\<close>

text \<open>  \<open>start\<close> locks the mutex it already holds: the cleanup task has suspended in schedule when \<open>task_[index].resume()\<close> resumes it in the
  calling thread, and when the user task is done, or ends without waiting for anything more, it goes on to the section under
  \<open>mutex_\<close>, which \<open>start\<close> still holds.
\<close>

theorem start_deadlocks:
  fixes s :: "('e, 'x) container_scheme"
  assumes "\<not> mutex_held s" and "\<not> pshutdown s" and "free_pos s = Some index" and "index < length (slots s)"
    and "slots s ! index = None" and "user \<noteq> h" and "frames s user = Some g" and "except_ptr (fpromise g) = None"
    and "fdone g \<and> ls = [] \<or> \<not> fdone g \<and> straight (fcode g) = Some (ls, out)"
  shows "container_start (length ls + 5) h user False s = Inl Deadlock"
proof -
  let ?n = "length ls + 4"
  define c :: "('e, unit) code" where "c = Await user (\<lambda>_. Locked index (Co_return ()))"
  define s1 where "s1 = s\<lparr>csize := csize s + 1, mutex_held := True\<rparr>"
  define s2 where "s2 = s1\<lparr>psize := psize s1 + 1, pqueue := pqueue s1 @ [h], frames := (frames s1)(h \<mapsto> new_frame c ())\<rparr>"
  define s3 where "s3 = s2\<lparr>slots := (slots s2)[index := Some h], free_pos := next_pos (task_idx s2) index\<rparr>"
  have call: "call_task slot_done (length ls + 5) h (make_cleanup_task user index) () s1 = Inr s2"
    using call_scheduled [of s1 slot_done ?n h c "()"] assms(2)
    by (simp add: make_cleanup_task_def c_def s2_def s1_def numeral_eq_Suc)
  have fr: "frames s3 h = Some (new_frame c ())" "frames s3 user = Some g" "mutex_held s3"
    using assms(6,7) by (simp_all add: s3_def s2_def s1_def)
  have "run_co slot_done (length ls + 5) h s3 = Inl Deadlock"
  proof (cases "fdone g")
    case True
    then show ?thesis
      using assms(9) await_done [OF fr(1) _ _ fr(2), of "\<lambda>_. Locked index (Co_return ())" slot_done ?n] fr(3) fr(1)
      by (simp add: new_frame_def c_def set_code_def numeral_eq_Suc)
  next
    case False
    have "run_co slot_done (Suc (Suc (length ls + Suc 2))) h s3 =
        run_co slot_done 2 h (awaited h user (new_frame c ()) g (\<lambda>_. Locked index (Co_return ())) ls out s3)"
      using assms(6,8,9) False fr by (intro await_run) (simp_all add: new_frame_def c_def)
    also have "\<dots> = Inl Deadlock"
      using awaited_simps(1,4) [OF assms(6), of "new_frame c ()" g "\<lambda>_. Locked index (Co_return ())" ls out s3] fr(3)
      by (simp add: numeral_2_eq_2 new_frame_def)
    finally show ?thesis by (simp add: numeral_eq_Suc)
  qed
  then have "task_resume slot_done (length ls + 5) (Some h) s3 = Inl Deadlock"
    using fr(1) by (simp add: task_resume_def task_done_def task_await_ready_def new_frame_def)
  then show ?thesis
    using assms(1,3,4,5) call
    by (simp add: container_start_def start_locked_def start_count_def find_slot_def Let_def task_assign_def flip: s1_def)
      (simp add: s3_def s2_def s1_def)
qed

text \<open>Its hypotheses hold in a container of eight slots whose user task is about to return.\<close>

definition demo_container :: "unit container" where
  "demo_container = container_init 8
     \<lparr>pqueue = [], psize = 0, pshutdown = False, frames = [1 \<mapsto> new_frame (Co_return ()) ()], mutex_held = False, trace = [],
      csize = 0, slots = [], task_idx = [], task_to_del = [], free_pos = None, growth_factor = 2\<rparr>"

theorem start_deadlocks_witness: "container_start 5 2 1 False demo_container = Inl Deadlock"
  using start_deadlocks [of demo_container 0 1 2 "new_frame (Co_return ()) ()" "[]" "Inr ()"]
  by (simp add: demo_container_def container_init_def new_frame_def)

section \<open>Slots in use are never handed out again\<close>

text \<open>
  The threads that use a container, step by step.  Beside the container the state has the number of calls of \<open>start\<close> that have counted
  their task and not yet taken the mutex, the positions of the tasks that were started and have not run their section under the mutex,
  and the number of tasks in that section that are not yet counted out (at most one, which holds the mutex).  A call of \<open>start\<close> under the
  mutex is one step, with all it runs of the coroutines; coroutines run at any time, and reach the container only through their
  section.
\<close>

record 'e slot_sys =
  held_by :: "'e container"
  starting :: nat
  started :: "nat set"
  leaving :: nat

definition book :: "'e container \<Rightarrow> u64 \<times> nat option list \<times> nat list \<times> nat list \<times> nat option \<times> rat" where
  "book s = (csize s, slots s, task_idx s, task_to_del s, free_pos s, growth_factor s)"

inductive slot_step :: "'e slot_sys \<Rightarrow> 'e slot_sys \<Rightarrow> bool" where
  count: "slot_step u (u\<lparr>held_by := start_count (held_by u), starting := Suc (starting u)\<rparr>)"
| start: "\<lbrakk>starting u = Suc m; start_locked n h user_task cleanup (held_by u) = Inr s;
     find_slot cleanup ((held_by u)\<lparr>mutex_held := True\<rparr>) = Inr (i, s1)\<rbrakk> \<Longrightarrow>
     slot_step u (u\<lparr>held_by := s, starting := m, started := insert i (started u)\<rparr>)"
| push: "\<lbrakk>i \<in> started u; \<not> mutex_held (held_by u)\<rbrakk> \<Longrightarrow>
     slot_step u (u\<lparr>held_by := slot_push i ((held_by u)\<lparr>mutex_held := True\<rparr>), started := started u - {i}, leaving := Suc (leaving u)\<rparr>)"
| leave: "leaving u = Suc m \<Longrightarrow>
     slot_step u (u\<lparr>held_by := (slot_count (held_by u))\<lparr>mutex_held := False\<rparr>, leaving := m\<rparr>)"
| collect: "garbage_collect (held_by u) = Inr (m, s) \<Longrightarrow> slot_step u (u\<lparr>held_by := s\<rparr>)"
| others: "book s = book (held_by u) \<Longrightarrow> mutex_held s = mutex_held (held_by u) \<Longrightarrow> slot_step u (u\<lparr>held_by := s\<rparr>)"

text \<open>The positions: those in use and those to be collected come before the free ones.\<close>

definition positions_ok :: "'e container \<Rightarrow> nat set \<Rightarrow> bool" where
  "positions_ok s R \<longleftrightarrow>
     distinct (task_idx s) \<and> set (task_idx s) = {..<length (slots s)} \<and> slots s \<noteq> [] \<and> 2 \<le> growth_factor s \<and>
     (\<exists>us fs. task_idx s = us @ fs \<and> free_pos s = (if fs = [] then None else Some (hd fs)) \<and>
       R \<subseteq> set us \<and> set (task_to_del s) \<subseteq> set us) \<and>
     R \<inter> set (task_to_del s) = {} \<and> distinct (task_to_del s)"

definition slots_ok :: "'e slot_sys \<Rightarrow> bool" where
  "slots_ok u \<longleftrightarrow> positions_ok (held_by u) (started u) \<and>
     csize (held_by u) = of_nat (starting u + card (started u) + leaving u) \<and> leaving u = of_bool (mutex_held (held_by u))"

lemma positions_okD:
  assumes "positions_ok s R"
  shows "distinct (task_idx s)" "set (task_idx s) = {..<length (slots s)}" "slots s \<noteq> []" "2 \<le> growth_factor s"
    "R \<inter> set (task_to_del s) = {}" "distinct (task_to_del s)" "finite R" "R \<subseteq> {..<length (slots s)}"
proof -
  obtain us fs where "task_idx s = us @ fs" "R \<subseteq> set us"
    using assms unfolding positions_ok_def by blast
  then have "R \<subseteq> set (task_idx s)" by auto
  moreover have "set (task_idx s) = {..<length (slots s)}"
    using assms unfolding positions_ok_def by blast
  ultimately show "finite R" "R \<subseteq> {..<length (slots s)}"
    using finite_subset [of R "set (task_idx s)"] by simp_all
qed (use assms in \<open>unfold positions_ok_def, blast+\<close>)

lemma positions_ok_split:
  assumes "positions_ok s R"
  obtains us fs where "task_idx s = us @ fs" "free_pos s = (if fs = [] then None else Some (hd fs))"
    "R \<subseteq> set us" "set (task_to_del s) \<subseteq> set us"
  using assms unfolding positions_ok_def by blast

lemma positions_okI:
  assumes "task_idx s = us @ fs" "free_pos s = (if fs = [] then None else Some (hd fs))"
    "R \<subseteq> set us" "set (task_to_del s) \<subseteq> set us"
    "distinct (task_idx s)" "set (task_idx s) = {..<length (slots s)}" "slots s \<noteq> []" "2 \<le> growth_factor s"
    "R \<inter> set (task_to_del s) = {}" "distinct (task_to_del s)"
  shows "positions_ok s R"
  using assms unfolding positions_ok_def by blast

lemma positions_ok_book:
  assumes "book s' = book s"
  shows "positions_ok s' R = positions_ok s R"
  using assms unfolding book_def positions_ok_def by simp

lemma next_pos_split:
  "distinct (us @ i # fs) \<Longrightarrow> next_pos (us @ i # fs) i = (if fs = [] then None else Some (hd fs))"
proof (induction us)
  case Nil
  then show ?case by (cases fs) auto
next
  case (Cons u us)
  then show ?case by (cases us) auto
qed

lemma fold_splice_end:
  "\<lbrakk>distinct ds; set ds \<subseteq> set us; distinct (us @ fs)\<rbrakk> \<Longrightarrow>
    fold splice_end ds (us @ fs) = filter (\<lambda>x. x \<notin> set ds) us @ fs @ ds"
proof (induction ds arbitrary: us fs)
  case (Cons d ds)
  have fs: "removeAll d fs = fs"
    using Cons.prems by (intro removeAll_id) auto
  have "fold splice_end (d # ds) (us @ fs) = fold splice_end ds (removeAll d us @ (fs @ [d]))"
    by (simp add: splice_end_def fs)
  also have "\<dots> = filter (\<lambda>x. x \<notin> set ds) (removeAll d us) @ (fs @ [d]) @ ds"
    using Cons.prems by (intro Cons.IH) (auto simp: distinct_removeAll)
  also have "filter (\<lambda>x. x \<notin> set ds) (removeAll d us) = filter (\<lambda>x. x \<notin> set (d # ds)) us"
    by (induction us) auto
  finally show ?case by simp
qed simp

lemma positions_ok_gc: "positions_ok s R \<Longrightarrow> positions_ok (snd (gc_internal s)) R"
proof -
  assume ok: "positions_ok s R"
  then obtain us fs where split: "task_idx s = us @ fs" "free_pos s = (if fs = [] then None else Some (hd fs))"
      "R \<subseteq> set us" "set (task_to_del s) \<subseteq> set us"
    by (rule positions_ok_split)
  define keep where "keep = filter (\<lambda>x. x \<notin> set (task_to_del s)) us"
  have eq: "fold splice_end (task_to_del s) (task_idx s) = keep @ fs @ task_to_del s"
    using ok split by (simp add: keep_def fold_splice_end positions_ok_def)
  have sets: "set keep = set us - set (task_to_del s)" "R \<subseteq> set keep" "distinct (keep @ fs @ task_to_del s)"
    using ok split by (auto simp: keep_def positions_ok_def)
  define part where "part = (if fs = [] then (keep @ task_to_del s, []) else (keep, fs @ task_to_del s))"
  have "keep @ fs @ task_to_del s = fst part @ snd part" "R \<subseteq> set (fst part)"
      "free_pos s = (if snd part = [] then None else Some (hd (snd part)))"
    using sets split(2) by (auto simp: part_def)
  moreover have "set (keep @ fs @ task_to_del s) = {..<length (slots s)}"
    using ok split sets by (auto simp: positions_ok_def)
  moreover have "gc_internal s = (if task_to_del s = [] then (0, s) else
      (length (task_to_del s), s\<lparr>task_idx := keep @ fs @ task_to_del s, task_to_del := []\<rparr>))"
    by (simp add: gc_internal_def eq)
  ultimately show ?thesis
    using ok sets unfolding positions_ok_def
    by (cases "task_to_del s = []") (simp, simp, blast)
qed

lemma positions_ok_grow:
  assumes "positions_ok s R" and "free_pos s = None"
  obtains s' where "grow s = Inr s'" and "positions_ok s' R" and "free_pos s' = Some (length (slots s))"
proof -
  let ?n = "length (slots s)"
  define new_size where "new_size = nat \<lfloor>of_nat ?n * growth_factor s\<rfloor>"
  obtain us where us: "task_idx s = us" "R \<subseteq> set us" "set (task_to_del s) \<subseteq> set us"
  proof -
    from assms(1) obtain us fs where "task_idx s = us @ fs" "free_pos s = (if fs = [] then None else Some (hd fs))"
        "R \<subseteq> set us" "set (task_to_del s) \<subseteq> set us"
      by (rule positions_ok_split)
    then show thesis using assms(2) that by (cases "fs = []") simp_all
  qed
  have set_us: "set us = {..<?n}" "distinct us" "0 < ?n" "2 \<le> growth_factor s"
    using positions_okD [OF assms(1)] us(1) by simp_all
  have "0 \<in> set us"
    unfolding set_us(1) using set_us(3) by (rule lessThan_iff [THEN iffD2])
  then have ne: "us \<noteq> []" by (cases us) simp_all
  have "of_nat ?n * (2 :: rat) \<le> of_nat ?n * growth_factor s"
    using set_us(4) by (intro mult_left_mono) auto
  then have "int ?n * 2 \<le> \<lfloor>of_nat ?n * growth_factor s\<rfloor>"
    by (simp add: le_floor_iff)
  then have large: "?n < new_size"
    using set_us(3) unfolding new_size_def by linarith
  have up: "[?n..<new_size] = ?n # [Suc ?n..<new_size]"
    using large by (rule upt_conv_Cons)
  have dist: "distinct (us @ [?n..<new_size])"
    using set_us(1,2) by (simp add: set_eq_iff disjoint_iff)
  have eq: "us @ [?n..<new_size] = butlast us @ last us # [?n..<new_size]"
    using ne by simp
  have nxt: "next_pos (us @ [?n..<new_size]) (last us) = Some ?n"
    unfolding eq using next_pos_split [OF dist [unfolded eq]] up by (simp del: upt_conv_Cons)
  define s' where "s' = s\<lparr>task_idx := us @ [?n..<new_size],
      slots := take new_size (slots s) @ replicate (new_size - ?n) None, free_pos := Some ?n\<rparr>"
  have "grow s = Inr s'"
    using ne nxt by (simp add: grow_def us(1) s'_def Let_def flip: new_size_def)
  moreover have "positions_ok s' R"
  proof (rule positions_okI [of _ us "[?n..<new_size]"])
    show "set (task_idx s') = {..<length (slots s')}"
      using large by (simp add: s'_def set_us(1) ivl_disj_un_one(2))
  qed (use positions_okD [OF assms(1)] us dist large up in \<open>auto simp: s'_def\<close>)
  ultimately show thesis
    using that by (simp add: s'_def)
qed

text \<open>Looking for a slot finds one, within \<open>task_\<close> and not in use, and keeps the coroutines of all slots in use.\<close>

lemma positions_ok_take:
  assumes "positions_ok s R"
  obtains i s' where "find_slot cleanup s = Inr (i, s')" and "i \<notin> R" and "i < length (slots s')"
    and "positions_ok (s'\<lparr>free_pos := next_pos (task_idx s') i\<rparr>) (insert i R)"
    and "csize s' = csize s" and "\<And>j. j \<in> R \<Longrightarrow> slots s' ! j = slots s ! j"
proof -
  define s1 where "s1 = (if cleanup then snd (gc_internal s) else s)"
  have ok1: "positions_ok s1 R" "csize s1 = csize s" "slots s1 = slots s"
    using assms by (simp_all add: s1_def positions_ok_gc) (simp_all add: gc_internal_def)
  obtain s2 i where s2: "(if free_pos s1 = None then grow s1 else Inr s1) = Inr s2" "positions_ok s2 R" "free_pos s2 = Some i"
  proof (cases "free_pos s1")
    case None
    then show thesis using positions_ok_grow [OF ok1(1)] that by metis
  next
    case (Some i)
    then show thesis using that ok1(1) by simp
  qed
  have kept: "slots s2 ! j = slots s ! j" if "j \<in> R" for j
  proof -
    have "j < length (slots s)" "j < length (slots s2)"
      using positions_okD(8) [OF ok1(1)] positions_okD(8) [OF s2(2)] ok1(3) that by auto
    then show ?thesis
      using s2(1) ok1(3) by (auto simp: grow_def Let_def nth_append min_def split: if_splits)
  qed
  have cs: "csize s2 = csize s"
    using s2(1) ok1 by (auto simp: grow_def Let_def split: if_splits)
  have found: "find_slot cleanup s = Inr (i, s2)"
    using s2 by (simp add: find_slot_def s1_def [symmetric])
  obtain us fs where split: "task_idx s2 = us @ i # fs" "R \<subseteq> set us" "set (task_to_del s2) \<subseteq> set us"
  proof -
    from s2(2) obtain us fs where "task_idx s2 = us @ fs" "free_pos s2 = (if fs = [] then None else Some (hd fs))"
        "R \<subseteq> set us" "set (task_to_del s2) \<subseteq> set us"
      by (rule positions_ok_split)
    then show thesis using s2(3) that by (cases fs) simp_all
  qed
  have dist: "distinct (us @ i # fs)" and "i \<in> set (task_idx s2)"
    using positions_okD(1) [OF s2(2)] split(1) by simp_all
  then have "i \<notin> R" "i < length (slots s2)"
    using split positions_okD(2) [OF s2(2)] by auto
  moreover have "positions_ok (s2\<lparr>free_pos := next_pos (task_idx s2) i\<rparr>) (insert i R)"
  proof (rule positions_okI [of _ "us @ [i]" fs])
    show "free_pos (s2\<lparr>free_pos := next_pos (task_idx s2) i\<rparr>) = (if fs = [] then None else Some (hd fs))"
      using next_pos_split [OF dist] by (simp add: split(1))
    show "insert i R \<inter> set (task_to_del (s2\<lparr>free_pos := next_pos (task_idx s2) i\<rparr>)) = {}"
      using dist split positions_okD(5) [OF s2(2)] by auto
  qed (use positions_okD [OF s2(2)] split in auto)
  ultimately show thesis
    using that found cs kept by blast
qed

lemma positions_ok_push:
  assumes "positions_ok s R" and "i \<in> R"
  shows "positions_ok (slot_push i s) (R - {i})"
proof -
  obtain us fs where "task_idx s = us @ fs" "free_pos s = (if fs = [] then None else Some (hd fs))"
      "R \<subseteq> set us" "set (task_to_del s) \<subseteq> set us"
    using assms(1) by (rule positions_ok_split)
  then show ?thesis
    by (intro positions_okI [of _ us fs])
      (use assms(2) positions_okD [OF assms(1)] in \<open>auto simp: slot_push_def\<close>)
qed

text \<open>Coroutines that run while the mutex is held do not reach the container: their section would have to take the mutex.\<close>

lemma book_more [simp]:
  "book (s\<lparr>frames := F\<rparr>) = book s" "book (s\<lparr>trace := l\<rparr>) = book s" "book (s\<lparr>pqueue := q\<rparr>) = book s"
  "book (s\<lparr>psize := z\<rparr>) = book s" "book (s\<lparr>mutex_held := b\<rparr>) = book s"
  by (simp_all add: book_def)

lemma run_co_locked:
  "run_co slot_done n h s = Inr s' \<Longrightarrow> mutex_held s \<Longrightarrow> mutex_held s' \<and> book s' = book s"
proof (induction n arbitrary: h s)
  case (Suc n)
  then show ?case
    by (auto simp: set_code_def task_await_suspend_def co_finish_def Let_def bindE_def schedule_def operation_await_suspend_def
        schedule_impl_def split: option.splits if_splits code.splits sum.splits dest!: Suc.IH)
qed simp

lemma start_locked_book:
  assumes "start_locked n h user_task cleanup s = Inr s'" and "find_slot cleanup (s\<lparr>mutex_held := True\<rparr>) = Inr (i, s1)"
  shows "\<not> mutex_held s" "\<not> mutex_held s'" "i < length (slots s1)"
    "book s' = book (s1\<lparr>slots := (slots s1)[i := Some h], free_pos := next_pos (task_idx s1) i\<rparr>)"
proof -
  let ?t = "s1\<lparr>slots := (slots s1)[i := Some h], free_pos := next_pos (task_idx s1) i\<rparr>"
  have held: "mutex_held s1"
    using assms(2) by (auto simp: find_slot_def gc_internal_def grow_def Let_def bindE_def split: if_splits option.splits sum.splits)
  from assms obtain s2 where run: "\<not> mutex_held s" "i < length (slots s1)"
      "call_task slot_done n h (make_cleanup_task user_task i) () s1 = Inr s2"
    by (auto simp: start_locked_def bindE_def guardE_def split: if_splits sum.splits)
  define s3 where "s3 = snd (snd (task_assign (slots s2 ! i) (Some h) s2))"
  have c: "mutex_held s2" "book s2 = book s1"
    using run_co_locked [OF run(3) [unfolded call_task_def]] held by simp_all
  have s3: "mutex_held s3" "book s3 = book s1" "length (slots s2) = length (slots s1)"
    using c by (auto simp: s3_def task_assign_def book_def split: option.splits)
  have assign: "task_assign (slots s2 ! i) (Some h) s2 = (Some h, None, s3)"
    by (simp add: task_assign_def s3_def)
  from assms(1) obtain s4 where s4: "s' = s4\<lparr>mutex_held := False\<rparr>"
      "s4 = s3\<lparr>slots := (slots s3)[i := Some h], free_pos := next_pos (task_idx s3) i\<rparr> \<or>
       run_co slot_done n h (s3\<lparr>slots := (slots s3)[i := Some h], free_pos := next_pos (task_idx s3) i\<rparr>) = Inr s4"
    using s3(2,3) run by (auto simp: start_locked_def assms(2) assign task_resume_def bindE_def guardE_def Let_def book_def
        split: if_splits sum.splits)
  show "\<not> mutex_held s" "\<not> mutex_held s'" "i < length (slots s1)"
    using run s4(1) by simp_all
  have "book s4 = book (s3\<lparr>slots := (slots s3)[i := Some h], free_pos := next_pos (task_idx s3) i\<rparr>)"
    using s4(2) run_co_locked [of n h "s3\<lparr>slots := (slots s3)[i := Some h], free_pos := next_pos (task_idx s3) i\<rparr>" s4] s3(1) by auto
  then show "book s' = book ?t"
    using s3(2) by (simp add: s4(1)) (simp add: book_def)
qed

lemma slots_ok_start:
  assumes ok: "slots_ok u" and "starting u = Suc m" and "start_locked n h user_task cleanup (held_by u) = Inr s"
    and "find_slot cleanup ((held_by u)\<lparr>mutex_held := True\<rparr>) = Inr (i, s1)"
  shows "slots_ok (u\<lparr>held_by := s, starting := m, started := insert i (started u)\<rparr>)"
proof -
  note b = start_locked_book [OF assms(3,4)]
  have pos: "positions_ok ((held_by u)\<lparr>mutex_held := True\<rparr>) (started u)"
    using ok positions_ok_book [of "(held_by u)\<lparr>mutex_held := True\<rparr>" "held_by u"] by (simp add: slots_ok_def)
  have found: "i \<notin> started u" "positions_ok (s1\<lparr>free_pos := next_pos (task_idx s1) i\<rparr>) (insert i (started u))"
      "csize s1 = csize (held_by u)"
    using positions_ok_take [OF pos, of cleanup] assms(4) by auto
  have "positions_ok (s1\<lparr>slots := (slots s1)[i := Some h], free_pos := next_pos (task_idx s1) i\<rparr>) (insert i (started u))"
    using found(2) by (simp add: positions_ok_def)
  then have "positions_ok s (insert i (started u))"
    using positions_ok_book [OF b(4)] by simp
  then show ?thesis
    using ok b(1,2,4) found(1,3) assms(2) positions_okD(7) [OF pos] by (simp add: slots_ok_def book_def)
qed

lemma slot_step_ok: "slot_step u u' \<Longrightarrow> slots_ok u \<Longrightarrow> slots_ok u'"
proof (induction rule: slot_step.induct)
  case (count u)
  then show ?case by (simp add: slots_ok_def start_count_def positions_ok_def)
next
  case start
  then show ?case by (intro slots_ok_start)
next
  case (push i u)
  then have "positions_ok ((held_by u)\<lparr>mutex_held := True\<rparr>) (started u)"
    using positions_ok_book [of "(held_by u)\<lparr>mutex_held := True\<rparr>" "held_by u"] by (simp add: slots_ok_def)
  then have "positions_ok (slot_push i ((held_by u)\<lparr>mutex_held := True\<rparr>)) (started u - {i})" "finite (started u)"
    using push positions_ok_push positions_okD(7) by blast+
  then show ?case
    using push card_Suc_Diff1 [of "started u" i] by (simp add: slots_ok_def) (simp add: slot_push_def)
next
  case (leave u m)
  then show ?case 
    by (cases "mutex_held (held_by u)") (simp_all add: slots_ok_def slot_count_def positions_ok_def)
next
  case (collect u m s)
  then have "s = snd (gc_internal (held_by u))" by (auto simp: garbage_collect_def split: if_splits)
  moreover have "csize (snd (gc_internal (held_by u))) = csize (held_by u)"
    "mutex_held (snd (gc_internal (held_by u))) = mutex_held (held_by u)"
    by (simp_all add: gc_internal_def)
  ultimately show ?case using collect by (simp add: slots_ok_def positions_ok_gc)
next
  case (others s u)
  then show ?case using positions_ok_book [OF others(1)] by (simp add: slots_ok_def book_def)
qed

lemma slots_ok_reachable: "slot_step\<^sup>*\<^sup>* u0 u \<Longrightarrow> slots_ok u0 \<Longrightarrow> slots_ok u"
  by (induction rule: rtranclp_induct) (auto intro: slot_step_ok)

lemma slots_ok_init:
  "\<lbrakk>0 < n; 2 \<le> growth_factor s; csize s = 0; task_to_del s = []; \<not> mutex_held s\<rbrakk> \<Longrightarrow>
    slots_ok \<lparr>held_by = container_init n s, starting = 0, started = {}, leaving = 0\<rparr>"
  unfolding slots_ok_def
  by (intro conjI positions_okI [of _ "[]" "[0..<n]"]) (auto simp: container_init_def atLeast0LessThan)


text \<open>A container of eight slots whose user task suspends when it is resumed: the first start returns.\<close>

definition demo_waiting :: "unit container" where
  "demo_waiting = demo_container\<lparr>frames := [1 \<mapsto> new_frame (Sched (Co_return ())) ()]\<rparr>"


section \<open>Slots that are lost\<close>

text \<open>
  Slots collected while \<open>free_pos_\<close> is \<open>end()\<close> are spliced in front of it: no position is free after the collection, so that the next
  \<open>start\<close> grows the container although every slot but the new ones may be unused.
\<close>

lemma collected_when_full_is_lost:
  assumes "free_pos s = None" and "task_idx s \<noteq> []"
  shows "find_slot True s = bindE (grow (snd (gc_internal s)))
    (\<lambda>s. case free_pos s of None \<Rightarrow> Inl Bad_iterator | Some index \<Rightarrow> Inr (index, s))"
  using assms by (simp add: find_slot_def gc_internal_def)

text \<open>A container without slots, or one whose growth factor is below two slots, dereferences \<open>end()\<close>.\<close>

lemma grow_without_slots: "task_idx s = [] \<Longrightarrow> free_pos s = None \<Longrightarrow> find_slot False s = Inl Bad_iterator"
  by (simp add: find_slot_def grow_def)

lemma grow_by_one:
  assumes "distinct (task_idx s)" and "task_idx s \<noteq> []" and "free_pos s = None" and "growth_factor s = 1"
  shows "find_slot False s = Inl Bad_iterator"
proof -
  have "next_pos (task_idx s) (last (task_idx s)) = None"
    using next_pos_split [of "butlast (task_idx s)" "last (task_idx s)" "[]"] assms(1,2) by simp
  then show ?thesis
    using assms by (simp add: find_slot_def grow_def Let_def)
qed

end
