(* ===== verification/Container_End.thy ===== *)
theory Container_End
  imports Task_Container
begin

text \<open>
  Construction and destruction of \<open>async::task_container\<close> (\<^verbatim>\<open>src/async/task_container.hpp\<close>), and waiting until it is empty.

  In \<open>Task_Container\<close> no thread reads \<open>size_\<close> to decide anything.  Here the section of the cleanup coroutine is cut at every call, since the
  destructor reads \<open>size_\<close> without the mutex.
\<close>

section \<open>Construction\<close>

text \<open>\<open>t0\<close> is the state of the executor; the first constructor throws for a null executor, the second takes a reference.\<close>

definition new_container :: "bool \<Rightarrow> nat \<Rightarrow> rat \<Rightarrow> ('e, unit) tsys \<Rightarrow> 'e container res" where
  "new_container have_executor reserve_size growth t0 =
     bindE (guardE have_executor Null_deref) (\<lambda>_.
       Inr (container_init reserve_size
         \<lparr>pqueue = pqueue t0, psize = psize t0, pshutdown = pshutdown t0, frames = frames t0, mutex_held = False, trace = trace t0,
          csize = 0, slots = [], task_idx = [], task_to_del = [], free_pos = None, growth_factor = growth\<rparr>))"

definition new_container_ref :: "nat \<Rightarrow> rat \<Rightarrow> ('e, unit) tsys \<Rightarrow> 'e container" where
  "new_container_ref reserve_size growth t0 =
     container_init reserve_size
       \<lparr>pqueue = pqueue t0, psize = psize t0, pshutdown = pshutdown t0, frames = frames t0, mutex_held = False, trace = trace t0,
        csize = 0, slots = [], task_idx = [], task_to_del = [], free_pos = None, growth_factor = growth\<rparr>"

section \<open>Waiting for the end\<close>

text \<open>One round of the destructor's loop, and of \<open>garbage_collect_and_yield_until_empty\<close>; \<open>None\<close>: the loop ends.\<close>

definition drain_round :: "('e, 'x) container_scheme \<Rightarrow> ('e, 'x) container_scheme option res" where
  "drain_round s =
     (if container_empty s then Inr None else bindE (garbage_collect s) (\<lambda>(n, s). Inr (Some s)))"

text \<open>The coroutine puts itself into the executor's queue between the rounds (\<open>co_await executor_ptr_->yield()\<close>).\<close>

definition yield_round :: "nat \<Rightarrow> ('e, 'x) container_scheme \<Rightarrow> ('e, 'x) container_scheme option res" where
  "yield_round h s =
     bindE (drain_round s) (\<lambda>r. case r of None \<Rightarrow> Inr None
       | Some s \<Rightarrow> if pshutdown s then Inl Shutting_down else Inr (Some (s\<lparr>psize := psize s + 1, pqueue := pqueue s @ [h]\<rparr>)))"

section \<open>The last cleanup and the destructor\<close>

datatype cleanup_pc = C_run | C_lock | C_pushed | C_counted | C_end

record 'e end_st = "'e container" +
  cpc :: cleanup_pc
  destroyed :: bool

text \<open>The section of the cleanup coroutine of slot \<open>pos\<close>, call by call; \<open>None\<close>: it waits, or has ended.\<close>

definition cleanup_push :: "nat \<Rightarrow> 'e end_st \<Rightarrow> 'e end_st" where
  "cleanup_push pos s = s\<lparr>task_to_del := task_to_del s @ [pos], cpc := C_pushed\<rparr>"

definition cleanup_count :: "'e end_st \<Rightarrow> 'e end_st" where
  "cleanup_count s = s\<lparr>csize := csize s - 1, cpc := C_counted\<rparr>"

definition cleanup_step :: "nat \<Rightarrow> 'e end_st \<Rightarrow> 'e end_st res option" where
  "cleanup_step pos s =
     (case cpc s of
        C_run \<Rightarrow> if mutex_held s then None else Some (Inr (s\<lparr>mutex_held := True, cpc := C_lock\<rparr>))
      | C_lock \<Rightarrow> Some (Inr (cleanup_push pos s))
      | C_pushed \<Rightarrow> Some (Inr (cleanup_count s))
      | C_counted \<Rightarrow> Some (if destroyed s then Inl Bad_pointer else Inr (s\<lparr>mutex_held := False, cpc := C_end\<rparr>))
      | C_end \<Rightarrow> None)"

text \<open>The destructor in another thread: a round, waiting for the mutex, or the end.\<close>

definition destroy_step :: "'e end_st \<Rightarrow> 'e end_st option" where
  "destroy_step s =
     (if destroyed s then None
      else if container_empty s then Some (s\<lparr>destroyed := True\<rparr>)
      else case garbage_collect s of Inl e \<Rightarrow> None | Inr (n, s) \<Rightarrow> Some s)"

inductive end_step :: "nat \<Rightarrow> 'e end_st \<Rightarrow> 'e end_st \<Rightarrow> bool" for pos where
  cleanup: "cleanup_step pos s = Some (Inr s') \<Longrightarrow> end_step pos s s'"
| destroy: "destroy_step s = Some s' \<Longrightarrow> end_step pos s s'"

inductive_cases end_stepE: "end_step pos s s'"

text \<open>Together the calls do what the one step of \<open>Task_Container\<close> does.\<close>

lemma cleanup_is_slot_done: "(cleanup_count (cleanup_push pos s)) = (slot_done pos s)\<lparr>cpc := C_counted\<rparr>"
  by (simp add: cleanup_count_def cleanup_push_def slot_done_def slot_push_def slot_count_def)

section \<open>Properties\<close>

text \<open>
  With one task left: the count stays at one until the coroutine has counted itself out, so that the container outlives every part of the
  section before that, and the destructor ends after it.
\<close>

definition end_inv :: "'e end_st \<Rightarrow> bool" where
  "end_inv s \<longleftrightarrow> csize s = (if cpc s \<in> {C_counted, C_end} then 0 else 1) \<and> (mutex_held s \<longleftrightarrow> cpc s \<in> {C_lock, C_pushed, C_counted}) \<and>
     (destroyed s \<longrightarrow> cpc s \<in> {C_counted, C_end})"

lemma end_step_inv: "end_step pos s s' \<Longrightarrow> end_inv s \<Longrightarrow> end_inv s'"
proof (erule end_stepE)
  assume "cleanup_step pos s = Some (Inr s')" "end_inv s"
  then show "end_inv s'"
    by (cases "cpc s") (auto simp: cleanup_step_def cleanup_push_def cleanup_count_def end_inv_def split: if_splits)
next
  assume "destroy_step s = Some s'" "end_inv s"
  then show "end_inv s'"
    by (auto simp: destroy_step_def garbage_collect_def gc_internal_def end_inv_def container_empty_def container_size_def
        split: if_splits sum.splits)
qed

lemma end_steps_inv: "(end_step pos)\<^sup>*\<^sup>* s s' \<Longrightarrow> end_inv s \<Longrightarrow> end_inv s'"
  by (induction rule: rtranclp_induct) (use end_step_inv in blast)+

text \<open>Once the coroutine has counted itself out the destructor ends at its next test.\<close>

lemma destructor_ends: "end_inv s \<Longrightarrow> cpc s \<in> {C_counted, C_end} \<Longrightarrow> \<not> destroyed s \<Longrightarrow> destroy_step s = Some (s\<lparr>destroyed := True\<rparr>)"
  by (auto simp: destroy_step_def container_empty_def container_size_def end_inv_def)

text \<open>The container may be destroyed while its last task is in its slot's section: exactly after counting itself out the coroutine
  still holds the mutex, and unlocks it when the destructor has ended.  Up to that point no step of the coroutine touches a destroyed
  container.\<close>

theorem destroyed_under_lock:
  assumes "end_inv s"
  shows "(\<forall>s'. (end_step pos)\<^sup>*\<^sup>* s s' \<and> cleanup_step pos s' = Some (Inl e) \<longrightarrow> cpc s' = C_counted \<and> destroyed s') \<and>
    (cpc s = C_run \<and> \<not> mutex_held s \<longrightarrow> (\<exists>s'. (end_step pos)\<^sup>*\<^sup>* s s' \<and> cleanup_step pos s' = Some (Inl Bad_pointer)))"
proof (intro conjI allI impI)
  fix s' assume "(end_step pos)\<^sup>*\<^sup>* s s' \<and> cleanup_step pos s' = Some (Inl e)"
  then show "cpc s' = C_counted" "destroyed s'"
    by (cases "cpc s'"; auto simp: cleanup_step_def split: if_splits)+
next
  assume pc: "cpc s = C_run \<and> \<not> mutex_held s"
  let ?s1 = "s\<lparr>mutex_held := True, cpc := C_lock\<rparr>"
  let ?s2 = "cleanup_push pos ?s1"
  let ?s3 = "cleanup_count ?s2"
  let ?s4 = "?s3\<lparr>destroyed := True\<rparr>"
  have 1: "end_step pos s ?s1" by (rule end_step.cleanup) (use pc in \<open>simp add: cleanup_step_def\<close>)
  have 2: "end_step pos ?s1 ?s2" by (rule end_step.cleanup) (simp add: cleanup_step_def)
  have 3: "end_step pos ?s2 ?s3" by (rule end_step.cleanup) (simp add: cleanup_step_def cleanup_push_def)
  have run: "(end_step pos)\<^sup>*\<^sup>* s ?s3" using 1 2 3 by (meson converse_rtranclp_into_rtranclp r_into_rtranclp)
  have inv: "end_inv ?s3" using end_steps_inv [OF run assms] .
  have "\<not> destroyed s" using assms pc by (auto simp: end_inv_def)
  then have "\<not> destroyed ?s3" by (simp add: cleanup_count_def cleanup_push_def)
  with inv have "destroy_step ?s3 = Some ?s4" by (intro destructor_ends) (simp_all add: cleanup_count_def)
  then have "end_step pos ?s3 ?s4" by (rule end_step.destroy)
  with run have "(end_step pos)\<^sup>*\<^sup>* s ?s4" by (rule rtranclp.rtrancl_into_rtrancl)
  moreover have "cleanup_step pos ?s4 = Some (Inl Bad_pointer)" by (simp add: cleanup_step_def cleanup_count_def)
  ultimately show "\<exists>s'. (end_step pos)\<^sup>*\<^sup>* s s' \<and> cleanup_step pos s' = Some (Inl Bad_pointer)" by blast
qed

end
