(* ===== verification/Co_Handle.thy ===== *)
theory Co_Handle
  imports Promise
begin

text \<open>
  Objects that own a coroutine: \<open>async::task\<close>, \<open>async::generator\<close>, \<open>sync_wait_task\<close> and \<open>when_all_task\<close> (\<^verbatim>\<open>src/async/task.hpp\<close>, \<^verbatim>\<open>generator.hpp\<close>,
  \<^verbatim>\<open>sync_wait.hpp\<close>, \<^verbatim>\<open>when_all.hpp\<close>).  Each holds a coroutine handle, can be moved and destroys the coroutine in its destructor; they
  differ in what assignment does with the coroutine of the object assigned to.

  The state maps objects to their handles (\<open>Some None\<close>: a null handle) and knows the coroutine frames that have not been destroyed.
  Destroying a frame a second time is a fault.  The last section holds the promises of coroutines that return \<open>void\<close>.
\<close>

section \<open>Objects and frames\<close>

record own_st =
  objs :: "nat \<rightharpoonup> nat option"
  live :: "nat list"
  next_co :: nat

definition destroy_co :: "nat option \<Rightarrow> own_st \<Rightarrow> own_st res" where
  "destroy_co h s =
     (case h of None \<Rightarrow> Inr s
      | Some f \<Rightarrow> bindE (guardE (f \<in> set (live s)) Bad_handle) (\<lambda>_. Inr (s\<lparr>live := remove1 f (live s)\<rparr>)))"

text \<open>The handle of an existing object.\<close>

definition handle_of :: "nat \<Rightarrow> own_st \<Rightarrow> nat option" where
  "handle_of x s = (case objs s x of None \<Rightarrow> None | Some h \<Rightarrow> h)"

text \<open>Calling a coroutine function: \<open>get_return_object\<close> makes the object \<open>x\<close> for the new frame.\<close>

definition co_call :: "nat \<Rightarrow> own_st \<Rightarrow> own_st res" where
  "co_call x s = Inr (s\<lparr>objs := (objs s)(x \<mapsto> Some (next_co s)), live := next_co s # live s, next_co := Suc (next_co s)\<rparr>)"

text \<open>The move constructors, with \<open>std::exchange\<close>, and the destructors.\<close>

definition task_obj_move :: "nat \<Rightarrow> nat \<Rightarrow> own_st \<Rightarrow> own_st res" where
  "task_obj_move x y s = Inr (s\<lparr>objs := (objs s)(x \<mapsto> handle_of y s, y \<mapsto> None)\<rparr>)"

definition gen_obj_move :: "nat \<Rightarrow> nat \<Rightarrow> own_st \<Rightarrow> own_st res" where
  "gen_obj_move x y s = (let s = s\<lparr>objs := (objs s)(x \<mapsto> handle_of y s)\<rparr> in Inr (s\<lparr>objs := (objs s)(y \<mapsto> None)\<rparr>))"

definition sync_obj_move :: "nat \<Rightarrow> nat \<Rightarrow> own_st \<Rightarrow> own_st res" where
  "sync_obj_move = task_obj_move"

definition when_all_obj_move :: "nat \<Rightarrow> nat \<Rightarrow> own_st \<Rightarrow> own_st res" where
  "when_all_obj_move = task_obj_move"

definition task_obj_destroy :: "nat \<Rightarrow> own_st \<Rightarrow> own_st res" where
  "task_obj_destroy x s = bindE (destroy_co (handle_of x s) s) (\<lambda>s. Inr (s\<lparr>objs := (objs s)(x := None)\<rparr>))"

definition gen_obj_destroy :: "nat \<Rightarrow> own_st \<Rightarrow> own_st res" where
  "gen_obj_destroy = task_obj_destroy"

definition sync_obj_destroy :: "nat \<Rightarrow> own_st \<Rightarrow> own_st res" where
  "sync_obj_destroy = task_obj_destroy"

definition when_all_obj_destroy :: "nat \<Rightarrow> own_st \<Rightarrow> own_st res" where
  "when_all_obj_destroy = task_obj_destroy"

text \<open>Move assignment.  A \<open>when_all_task\<close> has none.\<close>

definition task_obj_assign :: "nat \<Rightarrow> nat \<Rightarrow> own_st \<Rightarrow> own_st res" where
  "task_obj_assign x y s =
     (if y \<noteq> x then bindE (destroy_co (handle_of x s) s) (\<lambda>s. Inr (s\<lparr>objs := (objs s)(x \<mapsto> handle_of y s, y \<mapsto> None)\<rparr>))
      else Inr s)"

definition gen_obj_assign :: "nat \<Rightarrow> nat \<Rightarrow> own_st \<Rightarrow> own_st res" where
  "gen_obj_assign x y s = (let s = s\<lparr>objs := (objs s)(x \<mapsto> handle_of y s)\<rparr> in Inr (s\<lparr>objs := (objs s)(y \<mapsto> None)\<rparr>))"

definition sync_obj_assign :: "nat \<Rightarrow> nat \<Rightarrow> own_st \<Rightarrow> own_st res" where
  "sync_obj_assign x y s = (if y \<noteq> x then Inr (s\<lparr>objs := (objs s)(x \<mapsto> handle_of y s, y \<mapsto> None)\<rparr>) else Inr s)"

text \<open>The other public operations of a \<open>task\<close>: the default constructor, the constructor from a handle, \<open>handle\<close>, and \<open>destroy\<close>, which says whether there was a coroutine.\<close>

definition task_obj_default :: "nat \<Rightarrow> own_st \<Rightarrow> own_st res" where
  "task_obj_default x s = Inr (s\<lparr>objs := (objs s)(x \<mapsto> None)\<rparr>)"

definition task_obj_from :: "nat \<Rightarrow> nat option \<Rightarrow> own_st \<Rightarrow> own_st res" where
  "task_obj_from x h s = Inr (s\<lparr>objs := (objs s)(x \<mapsto> h)\<rparr>)"

definition task_handle :: "nat \<Rightarrow> own_st \<Rightarrow> nat option" where
  "task_handle x s = handle_of x s"

definition task_destroy :: "nat \<Rightarrow> own_st \<Rightarrow> (bool \<times> own_st) res" where
  "task_destroy x s =
     (case handle_of x s of None \<Rightarrow> Inr (False, s)
      | Some f \<Rightarrow> bindE (destroy_co (Some f) s) (\<lambda>s. Inr (True, s\<lparr>objs := (objs s)(x \<mapsto> None)\<rparr>)))"

section \<open>Ownership\<close>

definition owned :: "own_st \<Rightarrow> nat set" where
  "owned s = {f. \<exists>x. objs s x = Some (Some f)}"

text \<open>Frames that no object owns any more.\<close>

definition leaked :: "own_st \<Rightarrow> nat set" where
  "leaked s = set (live s) - owned s"

definition own_inv :: "own_st \<Rightarrow> bool" where
  "own_inv s \<longleftrightarrow> distinct (live s) \<and> owned s \<subseteq> set (live s) \<and> (\<forall>f\<in>set (live s). f < next_co s) \<and>
     (\<forall>x y f. objs s x = Some (Some f) \<longrightarrow> objs s y = Some (Some f) \<longrightarrow> x = y)"

lemma own_invD:
  assumes "own_inv s"
  shows "distinct (live s)" and "objs s x = Some (Some f) \<Longrightarrow> f \<in> set (live s)" and "f \<in> set (live s) \<Longrightarrow> f < next_co s"
    and "objs s x = Some (Some f) \<Longrightarrow> objs s y = Some (Some f) \<Longrightarrow> x = y"
  using assms by (auto simp: own_inv_def owned_def)

lemma handle_of_Some: "handle_of x s = Some f \<longleftrightarrow> objs s x = Some (Some f)"
  by (auto simp: handle_of_def split: option.splits)

text \<open>Passing the handle of \<open>y\<close> on to \<open>x\<close>, which must not be the only owner of another frame, unless that frame is given up.\<close>

lemma pass_on:
  assumes "own_inv s" and "x \<noteq> y"
  shows "own_inv (s\<lparr>objs := (objs s)(x \<mapsto> handle_of y s, y \<mapsto> None)\<rparr>)"
    and "owned (s\<lparr>objs := (objs s)(x \<mapsto> handle_of y s, y \<mapsto> None)\<rparr>) = owned s - set_option (handle_of x s)"
proof -
  let ?s = "s\<lparr>objs := (objs s)(x \<mapsto> handle_of y s, y \<mapsto> None)\<rparr>"
  have obj: "objs ?s z = Some (Some f) \<longleftrightarrow> z = x \<and> objs s y = Some (Some f) \<or> z \<noteq> x \<and> z \<noteq> y \<and> objs s z = Some (Some f)" for z f
    using assms(2) by (auto simp: handle_of_Some)
  have "objs s u = Some (Some f) \<Longrightarrow> objs s v = Some (Some f) \<Longrightarrow> u = v" for u v f using own_invD(4) [OF assms(1)] .
  then have uniq: "objs ?s u = Some (Some f) \<Longrightarrow> objs ?s v = Some (Some f) \<Longrightarrow> u = v" for u v f
    unfolding obj by blast
  have sub: "owned ?s \<subseteq> owned s" unfolding owned_def obj by blast
  have "distinct (live ?s)" "\<forall>f\<in>set (live ?s). f < next_co ?s" "owned s \<subseteq> set (live ?s)"
    using assms(1) by (simp_all add: own_inv_def)
  with sub show "own_inv ?s"
    unfolding own_inv_def by (intro conjI allI impI) (assumption, blast, assumption, rule uniq)
  show "owned ?s = owned s - set_option (handle_of x s)"
  proof
    show "owned ?s \<subseteq> owned s - set_option (handle_of x s)"
      using own_invD(4) [OF assms(1)] assms(2) unfolding owned_def obj by (auto simp: handle_of_Some)
    show "owned s - set_option (handle_of x s) \<subseteq> owned ?s"
    proof
      fix f assume "f \<in> owned s - set_option (handle_of x s)"
      then obtain z where z: "objs s z = Some (Some f)" "z \<noteq> x" by (auto simp: owned_def handle_of_Some)
      then have "objs ?s (if z = y then x else z) = Some (Some f)" unfolding obj by auto
      then show "f \<in> owned ?s" unfolding owned_def by blast
    qed
  qed
qed

lemma own_inv_live_less:
  assumes "own_inv s" and "f \<notin> owned s"
  shows "own_inv (s\<lparr>live := remove1 f (live s)\<rparr>)"
proof -
  have "owned (s\<lparr>live := remove1 f (live s)\<rparr>) = owned s" by (simp add: owned_def)
  moreover have "set (remove1 f (live s)) = set (live s) - {f}" using own_invD(1) [OF assms(1)] by simp
  ultimately show ?thesis using assms unfolding own_inv_def by auto
qed

lemma co_call_ok:
  assumes "own_inv s" and "objs s x = None"
  shows "\<exists>s'. co_call x s = Inr s' \<and> own_inv s' \<and> leaked s' = leaked s \<and> dom (objs s') = insert x (dom (objs s))"
proof -
  let ?s = "s\<lparr>objs := (objs s)(x \<mapsto> Some (next_co s)), live := next_co s # live s, next_co := Suc (next_co s)\<rparr>"
  have new: "next_co s \<notin> set (live s)" using own_invD(3) [OF assms(1)] by blast
  then have unused: "objs s y \<noteq> Some (Some (next_co s))" for y using own_invD(2) [OF assms(1)] by blast
  have obj: "objs ?s y = Some (Some f) \<longleftrightarrow> y = x \<and> f = next_co s \<or> objs s y = Some (Some f)" for y f
    using assms(2) by auto
  have own: "owned ?s = insert (next_co s) (owned s)" unfolding owned_def obj by auto
  have "own_inv ?s"
    unfolding own_inv_def own using assms unused own_invD [OF assms(1)] new
    by (auto simp: own_inv_def less_Suc_eq split: if_splits)
  then show ?thesis using own new by (auto simp: co_call_def leaked_def)
qed

text \<open>A program over such objects, for a class with the given move constructor, assignment and destructor.\<close>

datatype obj_op = Call nat | Move nat nat | Assign nat nat | Destroy nat

text \<open>Operations on objects that exist, of new objects on names not in use; the objects that exist afterwards.\<close>

primrec uses :: "obj_op list \<Rightarrow> nat set \<Rightarrow> bool" where
  "uses [] D \<longleftrightarrow> True"
| "uses (c # cs) D \<longleftrightarrow>
     (case c of
        Call x \<Rightarrow> x \<notin> D \<and> uses cs (insert x D)
      | Move x y \<Rightarrow> x \<notin> D \<and> y \<in> D \<and> uses cs (insert x D)
      | Assign x y \<Rightarrow> x \<in> D \<and> y \<in> D \<and> uses cs D
      | Destroy x \<Rightarrow> x \<in> D \<and> uses cs (D - {x}))"

type_synonym obj_fun2 = "nat \<Rightarrow> nat \<Rightarrow> own_st \<Rightarrow> own_st res"

definition obj_step :: "obj_fun2 \<Rightarrow> obj_fun2 \<Rightarrow> (nat \<Rightarrow> own_st \<Rightarrow> own_st res) \<Rightarrow> obj_op \<Rightarrow> own_st \<Rightarrow> own_st res" where
  "obj_step mv assign del c =
     (case c of Call x \<Rightarrow> co_call x | Move x y \<Rightarrow> mv x y | Assign x y \<Rightarrow> assign x y | Destroy x \<Rightarrow> del x)"

primrec obj_run :: "obj_fun2 \<Rightarrow> obj_fun2 \<Rightarrow> (nat \<Rightarrow> own_st \<Rightarrow> own_st res) \<Rightarrow> obj_op list \<Rightarrow> own_st \<Rightarrow> own_st res" where
  "obj_run mv assign del [] s = Inr s"
| "obj_run mv assign del (c # cs) s = bindE (obj_step mv assign del c s) (obj_run mv assign del cs)"

text \<open>What a class promises: its operations work, keep the ownership unique, and lose no frame but, at assignment, \<open>lost\<close>.\<close>

locale handle_class =
  fixes mv :: "nat \<Rightarrow> nat \<Rightarrow> own_st \<Rightarrow> own_st res" and assign :: "nat \<Rightarrow> nat \<Rightarrow> own_st \<Rightarrow> own_st res"
    and del :: "nat \<Rightarrow> own_st \<Rightarrow> own_st res" and lost :: "nat \<Rightarrow> nat \<Rightarrow> own_st \<Rightarrow> nat set"
  assumes mv_ok: "own_inv s \<Longrightarrow> objs s x = None \<Longrightarrow> objs s y \<noteq> None \<Longrightarrow>
      \<exists>s'. mv x y s = Inr s' \<and> own_inv s' \<and> leaked s' = leaked s \<and> dom (objs s') = insert x (dom (objs s))"
    and assign_ok: "own_inv s \<Longrightarrow> objs s x \<noteq> None \<Longrightarrow> objs s y \<noteq> None \<Longrightarrow>
      \<exists>s'. assign x y s = Inr s' \<and> own_inv s' \<and> leaked s' = leaked s \<union> lost x y s \<and> dom (objs s') = dom (objs s)"
    and del_ok: "own_inv s \<Longrightarrow> objs s x \<noteq> None \<Longrightarrow>
      \<exists>s'. del x s = Inr s' \<and> own_inv s' \<and> leaked s' = leaked s \<and> dom (objs s') = dom (objs s) - {x}"
begin

lemma obj_step_ok:
  assumes "own_inv s" and "uses (c # cs) (dom (objs s))"
  shows "\<exists>s'. obj_step mv assign del c s = Inr s' \<and> own_inv s' \<and> uses cs (dom (objs s')) \<and>
    leaked s' = leaked s \<union> (case c of Assign x y \<Rightarrow> lost x y s | _ \<Rightarrow> {})"
proof (cases c)
  case (Call x)
  then show ?thesis using assms co_call_ok [OF assms(1), of x] by (auto simp: obj_step_def domIff)
next
  case (Move x y)
  then show ?thesis using assms mv_ok [OF assms(1), of x y] by (auto simp: obj_step_def domIff)
next
  case (Assign x y)
  then show ?thesis using assms assign_ok [OF assms(1), of x y] by (auto simp: obj_step_def domIff)
next
  case (Destroy x)
  then show ?thesis using assms del_ok [OF assms(1), of x] by (auto simp: obj_step_def domIff)
qed

lemma obj_run_ok:
  "own_inv s \<Longrightarrow> uses cs (dom (objs s)) \<Longrightarrow> \<exists>s'. obj_run mv assign del cs s = Inr s' \<and> own_inv s' \<and> leaked s \<subseteq> leaked s'"
proof (induction cs arbitrary: s)
  case (Cons c cs)
  obtain s1 where s1: "obj_step mv assign del c s = Inr s1" "own_inv s1" "uses cs (dom (objs s1))" "leaked s \<subseteq> leaked s1"
    using obj_step_ok [OF Cons.prems] by auto
  from Cons.IH [OF s1(2,3)] s1(1,4) show ?case by auto
qed auto

lemma obj_run_leaks_nothing:
  "own_inv s \<Longrightarrow> uses cs (dom (objs s)) \<Longrightarrow> (\<And>x y s. lost x y s = {}) \<Longrightarrow>
   \<exists>s'. obj_run mv assign del cs s = Inr s' \<and> own_inv s' \<and> leaked s' = leaked s"
proof (induction cs arbitrary: s)
  case (Cons c cs)
  obtain s1 where s1: "obj_step mv assign del c s = Inr s1" "own_inv s1" "uses cs (dom (objs s1))" "leaked s1 = leaked s"
    using obj_step_ok [OF Cons.prems(1,2)] Cons.prems(3) by (cases c) auto
  from Cons.IH [OF s1(2,3) Cons.prems(3)] s1(1,4) show ?case by auto
qed auto

end

section \<open>The classes\<close>

text \<open>Giving up a frame that no object owns, and a frame that an object owned.\<close>

lemma destroy_unowned:
  assumes "own_inv s" and "f \<in> leaked s"
  shows "own_inv (s\<lparr>live := remove1 f (live s)\<rparr>)" and "leaked (s\<lparr>live := remove1 f (live s)\<rparr>) = leaked s - {f}"
  using own_inv_live_less [OF assms(1), of f] own_invD(1) [OF assms(1)] assms(2) by (auto simp: leaked_def owned_def)

lemma move_law:
  assumes "own_inv s" and "objs s x = None" and "objs s y \<noteq> None"
  shows "\<exists>s'. task_obj_move x y s = Inr s' \<and> own_inv s' \<and> leaked s' = leaked s \<and> dom (objs s') = insert x (dom (objs s))"
proof -
  have "x \<noteq> y" "handle_of x s = None" using assms(2,3) by (auto simp: handle_of_def)
  with pass_on [OF assms(1), of x y] show ?thesis using assms(3) by (auto simp: task_obj_move_def leaked_def)
qed

lemma gen_move_eq: "x \<noteq> y \<Longrightarrow> gen_obj_move x y s = task_obj_move x y s"
  by (simp add: gen_obj_move_def task_obj_move_def)

lemma leaked_pass:
  assumes "own_inv s" and "x \<noteq> y"
  shows "leaked (s\<lparr>objs := (objs s)(x \<mapsto> handle_of y s, y \<mapsto> None)\<rparr>) = leaked s \<union> set_option (handle_of x s)"
proof -
  have "set_option (handle_of x s) \<subseteq> set (live s)" using own_invD(2) [OF assms(1)] by (auto simp: handle_of_Some)
  moreover have "set_option (handle_of x s) \<subseteq> owned s" by (auto simp: owned_def handle_of_Some)
  ultimately show ?thesis unfolding leaked_def pass_on(2) [OF assms] by auto
qed

lemma owned_without:
  assumes "own_inv s" and "\<And>z f. objs s' z = Some (Some f) \<longleftrightarrow> z \<noteq> x \<and> objs s z = Some (Some f)"
  shows "owned s' = owned s - set_option (handle_of x s)"
proof -
  have "(\<exists>z. z \<noteq> x \<and> objs s z = Some (Some f)) \<longleftrightarrow> (\<exists>z. objs s z = Some (Some f)) \<and> objs s x \<noteq> Some (Some f)" for f
    using own_invD(4) [OF assms(1)] by metis
  then show ?thesis unfolding owned_def assms(2) by (auto simp: handle_of_Some)
qed

lemma destroy_law:
  assumes "own_inv s" and "objs s x \<noteq> None"
  shows "\<exists>s'. task_obj_destroy x s = Inr s' \<and> own_inv s' \<and> leaked s' = leaked s \<and> dom (objs s') = dom (objs s) - {x}"
proof -
  let ?s = "s\<lparr>objs := (objs s)(x := None)\<rparr>"
  have obj: "objs ?s z = Some (Some f) \<longleftrightarrow> z \<noteq> x \<and> objs s z = Some (Some f)" for z f by simp
  note own = owned_without [OF assms(1) obj]
  have inv: "own_inv ?s"
    using assms(1) own unfolding own_inv_def obj by auto
  show ?thesis
  proof (cases "handle_of x s")
    case None
    then show ?thesis using inv own by (auto simp: task_obj_destroy_def destroy_co_def leaked_def)
  next
    case (Some f)
    then have f: "f \<in> set (live s)" "f \<in> owned s" using own_invD(2) [OF assms(1)] by (auto simp: handle_of_Some owned_def)
    then have lk: "leaked ?s = insert f (leaked s)" using own Some by (auto simp: leaked_def)
    have run: "task_obj_destroy x s = Inr (?s\<lparr>live := remove1 f (live ?s)\<rparr>)"
      using Some f by (simp add: task_obj_destroy_def destroy_co_def)
    have "f \<notin> leaked s" using f by (simp add: leaked_def)
    with run lk destroy_unowned [OF inv, of f] show ?thesis by auto
  qed
qed

lemma task_assign_law:
  assumes "own_inv s" and "objs s x \<noteq> None" and "objs s y \<noteq> None"
  shows "\<exists>s'. task_obj_assign x y s = Inr s' \<and> own_inv s' \<and> leaked s' = leaked s \<union> {} \<and> dom (objs s') = dom (objs s)"
proof (cases "x = y")
  case True
  then show ?thesis using assms by (simp add: task_obj_assign_def)
next
  case False
  let ?s = "s\<lparr>objs := (objs s)(x \<mapsto> handle_of y s, y \<mapsto> None)\<rparr>"
  have dom: "dom (objs ?s) = dom (objs s)" using assms(2,3) by auto
  note inv = pass_on(1) [OF assms(1) False] and lk = leaked_pass [OF assms(1) False]
  show ?thesis
  proof (cases "handle_of x s")
    case None
    then show ?thesis using inv lk dom False by (auto simp: task_obj_assign_def destroy_co_def)
  next
    case (Some f)
    then have f: "f \<in> set (live s)" "f \<notin> leaked s"
      using own_invD(2) [OF assms(1)] by (auto simp: handle_of_Some owned_def leaked_def)
    have "task_obj_assign x y s = Inr (?s\<lparr>live := remove1 f (live ?s)\<rparr>)"
      using Some f(1) False by (simp add: task_obj_assign_def destroy_co_def handle_of_def)
    with destroy_unowned [OF inv, of f] lk Some f(2) dom show ?thesis by auto
  qed
qed

interpretation task_objs: handle_class task_obj_move task_obj_assign task_obj_destroy "\<lambda>x y s. {}"
  by unfold_locales (rule move_law task_assign_law destroy_law; assumption)+

lemma sync_assign_law:
  assumes "own_inv s" and "objs s x \<noteq> None" and "objs s y \<noteq> None"
  shows "\<exists>s'. sync_obj_assign x y s = Inr s' \<and> own_inv s' \<and>
    leaked s' = leaked s \<union> (if x = y then {} else set_option (handle_of x s)) \<and> dom (objs s') = dom (objs s)"
proof (cases "x = y")
  case False
  then show ?thesis using pass_on(1) [OF assms(1) False] leaked_pass [OF assms(1) False] assms(2,3) by (auto simp: sync_obj_assign_def)
qed (use assms in \<open>simp add: sync_obj_assign_def\<close>)

interpretation sync_objs: handle_class sync_obj_move sync_obj_assign sync_obj_destroy
    "\<lambda>x y s. if x = y then {} else set_option (handle_of x s)"
  unfolding sync_obj_move_def sync_obj_destroy_def
  by unfold_locales (rule move_law sync_assign_law destroy_law; assumption)+

text \<open>A generator assigned to itself gives its own coroutine up.\<close>

lemma gen_assign_law:
  assumes "own_inv s" and "objs s x \<noteq> None" and "objs s y \<noteq> None"
  shows "\<exists>s'. gen_obj_assign x y s = Inr s' \<and> own_inv s' \<and> leaked s' = leaked s \<union> set_option (handle_of x s) \<and>
    dom (objs s') = dom (objs s)"
proof (cases "x = y")
  case False
  then have "gen_obj_assign x y s = sync_obj_assign x y s" by (simp add: gen_obj_assign_def sync_obj_assign_def)
  then show ?thesis using sync_assign_law [OF assms] False by simp
next
  case True
  let ?s = "s\<lparr>objs := (objs s)(x \<mapsto> None)\<rparr>"
  have obj: "objs ?s z = Some (Some f) \<longleftrightarrow> z \<noteq> x \<and> objs s z = Some (Some f)" for z f by simp
  note own = owned_without [OF assms(1) obj]
  have "own_inv ?s" using assms(1) own unfolding own_inv_def obj by auto
  moreover have "set_option (handle_of x s) \<subseteq> set (live s)" using own_invD(2) [OF assms(1)] by (auto simp: handle_of_Some)
  moreover have "set_option (handle_of x s) \<subseteq> owned s" by (auto simp: owned_def handle_of_Some)
  ultimately show ?thesis using True own assms(2) by (auto simp: gen_obj_assign_def leaked_def)
qed

lemma gen_move_law:
  "own_inv s \<Longrightarrow> objs s x = None \<Longrightarrow> objs s y \<noteq> None \<Longrightarrow>
   \<exists>s'. gen_obj_move x y s = Inr s' \<and> own_inv s' \<and> leaked s' = leaked s \<and> dom (objs s') = insert x (dom (objs s))"
  using move_law [of s x y] gen_move_eq [of x y s] by (cases "x = y") auto

interpretation gen_objs: handle_class gen_obj_move gen_obj_assign gen_obj_destroy "\<lambda>x y s. set_option (handle_of x s)"
  unfolding gen_obj_destroy_def
  by unfold_locales (rule gen_move_law gen_assign_law destroy_law; assumption)+

section \<open>Properties\<close>

definition no_objs :: own_st where
  "no_objs = \<lparr>objs = Map.empty, live = [], next_co = 0\<rparr>"

lemma no_objs_inv: "own_inv no_objs" "leaked no_objs = {}" "dom (objs no_objs) = {}"
  by (simp_all add: no_objs_def own_inv_def owned_def leaked_def)

text \<open>A program over tasks: the operations all classes have, and those only tasks have; \<open>From x y\<close> is \<open>task x{y.handle()}\<close>.\<close>

datatype task_op = Obj obj_op | Default nat | Free nat | From nat nat

definition task_step :: "task_op \<Rightarrow> own_st \<Rightarrow> own_st res" where
  "task_step c s =
     (case c of Obj d \<Rightarrow> obj_step task_obj_move task_obj_assign task_obj_destroy d s
      | Default x \<Rightarrow> task_obj_default x s
      | Free x \<Rightarrow> bindE (task_destroy x s) (\<lambda>(b, s). Inr s)
      | From x y \<Rightarrow> task_obj_from x (task_handle y s) s)"

primrec task_run :: "task_op list \<Rightarrow> own_st \<Rightarrow> own_st res" where
  "task_run [] s = Inr s"
| "task_run (c # cs) s = bindE (task_step c s) (task_run cs)"

text \<open>Operations on tasks that exist, new tasks on names not in use, and no second task made from a handle.\<close>

primrec task_uses :: "task_op list \<Rightarrow> nat set \<Rightarrow> bool" where
  "task_uses [] D \<longleftrightarrow> True"
| "task_uses (c # cs) D \<longleftrightarrow>
     (case c of
        Obj (Call x) \<Rightarrow> x \<notin> D \<and> task_uses cs (insert x D)
      | Obj (Move x y) \<Rightarrow> x \<notin> D \<and> y \<in> D \<and> task_uses cs (insert x D)
      | Obj (Assign x y) \<Rightarrow> x \<in> D \<and> y \<in> D \<and> task_uses cs D
      | Obj (Destroy x) \<Rightarrow> x \<in> D \<and> task_uses cs (D - {x})
      | Default x \<Rightarrow> x \<notin> D \<and> task_uses cs (insert x D)
      | Free x \<Rightarrow> x \<in> D \<and> task_uses cs D
      | From x y \<Rightarrow> False)"

lemma default_law:
  assumes "own_inv s" and "objs s x = None"
  shows "\<exists>s'. task_obj_default x s = Inr s' \<and> own_inv s' \<and> leaked s' = leaked s \<and> dom (objs s') = insert x (dom (objs s))"
proof -
  let ?s = "s\<lparr>objs := (objs s)(x \<mapsto> None)\<rparr>"
  have obj: "objs ?s z = Some (Some f) \<longleftrightarrow> objs s z = Some (Some f)" for z f using assms(2) by auto
  then have "owned ?s = owned s" by (simp add: owned_def)
  then have "own_inv ?s" "leaked ?s = leaked s" using assms(1) unfolding own_inv_def leaked_def obj by simp_all
  then show ?thesis by (auto simp: task_obj_default_def)
qed

text \<open>\<open>destroy\<close> and then the destructor do what the destructor does: \<open>destroy\<close> leaves a null handle behind.\<close>

lemma task_destroy_law:
  assumes "own_inv s" and "objs s x \<noteq> None"
  shows "\<exists>s'. task_destroy x s = Inr (handle_of x s \<noteq> None, s') \<and> own_inv s' \<and> leaked s' = leaked s \<and> dom (objs s') = dom (objs s)"
proof (cases "handle_of x s")
  case None
  then show ?thesis using assms(1) by (simp add: task_destroy_def)
next
  case (Some f)
  obtain s1 where s1: "task_obj_destroy x s = Inr s1" "own_inv s1" "leaked s1 = leaked s" "dom (objs s1) = dom (objs s) - {x}"
    using destroy_law [OF assms] by blast
  then have "objs s1 x = None" by blast
  from default_law [OF s1(2) this] obtain s' where
    s': "task_obj_default x s1 = Inr s'" "own_inv s'" "leaked s' = leaked s1" "dom (objs s') = insert x (dom (objs s1))" by blast
  have "task_destroy x s = Inr (True, s')"
    using Some s1(1) s'(1) by (auto simp: task_destroy_def task_obj_destroy_def task_obj_default_def bindE_Inr_iff)
  then show ?thesis using Some s' s1(3,4) assms(2) by auto
qed

lemma task_step_ok:
  assumes "own_inv s" and "task_uses (c # cs) (dom (objs s))"
  shows "\<exists>s'. task_step c s = Inr s' \<and> own_inv s' \<and> leaked s' = leaked s \<and> task_uses cs (dom (objs s'))"
proof (cases c)
  case (Obj d)
  show ?thesis
  proof (cases d)
    case (Call x)
    then show ?thesis using Obj assms co_call_ok [OF assms(1), of x] by (auto simp: task_step_def obj_step_def domIff)
  next
    case (Move x y)
    then show ?thesis using Obj assms task_objs.mv_ok [OF assms(1), of x y] by (auto simp: task_step_def obj_step_def domIff)
  next
    case (Assign x y)
    then show ?thesis using Obj assms task_objs.assign_ok [OF assms(1), of x y] by (auto simp: task_step_def obj_step_def domIff)
  next
    case (Destroy x)
    then show ?thesis using Obj assms task_objs.del_ok [OF assms(1), of x] by (auto simp: task_step_def obj_step_def domIff)
  qed
next
  case (Default x)
  then show ?thesis using assms default_law [OF assms(1), of x] by (auto simp: task_step_def domIff)
next
  case (Free x)
  then have "objs s x \<noteq> None" using assms(2) by auto
  from task_destroy_law [OF assms(1) this] show ?thesis using Free assms(2) by (auto simp: task_step_def)
qed (use assms in simp)

lemma task_run_ok:
  "own_inv s \<Longrightarrow> task_uses cs (dom (objs s)) \<Longrightarrow> \<exists>s'. task_run cs s = Inr s' \<and> own_inv s' \<and> leaked s' = leaked s"
proof (induction cs arbitrary: s)
  case (Cons c cs)
  obtain s1 where s1: "task_step c s = Inr s1" "own_inv s1" "leaked s1 = leaked s" "task_uses cs (dom (objs s1))"
    using task_step_ok [OF Cons.prems] by blast
  from Cons.IH [OF s1(2,4)] s1(1,3) show ?case by auto
qed auto



text \<open>A second task made from the handle of a task destroys the frame a second time.\<close>

lemma second_task_destroys_twice: "task_run [Obj (Call 0), From 1 0, Obj (Destroy 0), Obj (Destroy 1)] no_objs = Inl Bad_handle"
  by (simp add: task_step_def obj_step_def no_objs_def co_call_def task_obj_from_def task_handle_def task_obj_destroy_def
      destroy_co_def handle_of_def guardE_def)

text \<open>
  The other two classes never destroy a coroutine twice either, but assigning to an object that holds a coroutine loses that coroutine
  for good; a generator loses it even when it is assigned to itself.
\<close>

lemma generators_destroy_once: "uses cs {} \<Longrightarrow> \<exists>s'. obj_run gen_obj_move gen_obj_assign gen_obj_destroy cs no_objs = Inr s' \<and> own_inv s'"
  using gen_objs.obj_run_ok [OF no_objs_inv(1)] no_objs_inv(3) by metis

lemma sync_tasks_destroy_once: "uses cs {} \<Longrightarrow> \<exists>s'. obj_run sync_obj_move sync_obj_assign sync_obj_destroy cs no_objs = Inr s' \<and> own_inv s'"
  using sync_objs.obj_run_ok [OF no_objs_inv(1)] no_objs_inv(3) by metis

lemma generator_self_assign_leaks:
  "\<exists>s'. obj_run gen_obj_move gen_obj_assign gen_obj_destroy [Call 0, Assign 0 0, Destroy 0] no_objs = Inr s' \<and> live s' = [0]"
  by (simp add: obj_step_def no_objs_def co_call_def gen_obj_assign_def gen_obj_destroy_def task_obj_destroy_def
      destroy_co_def handle_of_def)

lemma sync_task_assign_leaks:
  "\<exists>s'. obj_run sync_obj_move sync_obj_assign sync_obj_destroy [Call 0, Call 1, Assign 0 1, Destroy 0, Destroy 1] no_objs = Inr s' \<and> live s' = [0]"
  by (simp add: obj_step_def no_objs_def co_call_def sync_obj_assign_def sync_obj_destroy_def task_obj_destroy_def
      destroy_co_def handle_of_def guardE_def)

section \<open>Promises of coroutines without a result\<close>

record 'e void_promise =
  v_except :: "'e option"

text \<open>\<open>detail::promise<void>\<close> of a task.\<close>

definition tpv_return_void :: "unit \<Rightarrow> 'e void_promise \<Rightarrow> 'e void_promise" where
  "tpv_return_void u p = p"

definition tpv_unhandled_exception :: "'e \<Rightarrow> 'e void_promise \<Rightarrow> 'e void_promise" where
  "tpv_unhandled_exception e p = p\<lparr>v_except := Some e\<rparr>"

definition tpv_result :: "'e void_promise \<Rightarrow> ('e + unit) res" where
  "tpv_result p = (case v_except p of Some e \<Rightarrow> Inr (Inl e) | None \<Rightarrow> Inr (Inr ()))"

text \<open>\<open>sync_wait_task_promise<void>\<close>; \<open>unhandled_exception\<close> is that of its base class.\<close>

definition spv_return_void :: "unit \<Rightarrow> 'e void_promise \<Rightarrow> 'e void_promise" where
  "spv_return_void u p = p"

definition spv_unhandled_exception :: "'e \<Rightarrow> 'e void_promise \<Rightarrow> 'e void_promise" where
  "spv_unhandled_exception e p = p\<lparr>v_except := Some e\<rparr>"

definition spv_result :: "'e void_promise \<Rightarrow> ('e + unit) res" where
  "spv_result p = (case v_except p of Some e \<Rightarrow> Inr (Inl e) | None \<Rightarrow> Inr (Inr ()))"

text \<open>\<open>when_all_task_promise<void>\<close>.\<close>

definition wpv_return_void :: "unit \<Rightarrow> 'e void_promise \<Rightarrow> 'e void_promise" where
  "wpv_return_void u p = p"

definition wpv_unhandled_exception :: "'e \<Rightarrow> 'e void_promise \<Rightarrow> 'e void_promise" where
  "wpv_unhandled_exception e p = p\<lparr>v_except := Some e\<rparr>"

definition wpv_result :: "'e void_promise \<Rightarrow> ('e + unit) res" where
  "wpv_result p = (case v_except p of Some e \<Rightarrow> Inr (Inl e) | None \<Rightarrow> Inr (Inr ()))"

interpretation task_void: result_slot tpv_return_void tpv_unhandled_exception tpv_result "\<lambda>p. v_except p = None"
  by unfold_locales (simp_all add: tpv_return_void_def tpv_unhandled_exception_def tpv_result_def)

interpretation sync_void: result_slot spv_return_void spv_unhandled_exception spv_result "\<lambda>p. v_except p = None"
  by unfold_locales (simp_all add: spv_return_void_def spv_unhandled_exception_def spv_result_def)

interpretation when_all_void: result_slot wpv_return_void wpv_unhandled_exception wpv_result "\<lambda>p. v_except p = None"
  by unfold_locales (simp_all add: wpv_return_void_def wpv_unhandled_exception_def wpv_result_def)

end
