(* ===== verification/Schedule_Call.thy ===== *)
theory Schedule_Call
  imports Task
begin

text \<open>
  \<open>thread_pool::schedule(f, args...)\<close> of \<^verbatim>\<open>src/async/thread_pool.hpp\<close>: a coroutine that moves itself to the pool and calls a function
  there.  A call of the function is its visible actions and what it returns or throws.
\<close>

section \<open>Operation\<close>

definition functor_call :: "nat list \<Rightarrow> 'e + 'r \<Rightarrow> ('e, 'r) code" where
  "functor_call acts out = foldr Emit acts (case out of Inl e \<Rightarrow> Co_throw e | Inr r \<Rightarrow> Co_return r)"

definition schedule_functor :: "nat list \<Rightarrow> 'e + 'r \<Rightarrow> ('e, 'r) code" where
  "schedule_functor acts out = Sched (functor_call acts out)"

section \<open>Running the function\<close>

lemma functor_call_straight: "straight (functor_call acts out) = Some (acts, out)"
  by (induction acts) (auto simp: functor_call_def split: sum.splits)

text \<open>
  The call only queues: when it returns, nothing of the function has run and the task is the last one of the queue.  The worker that
  takes it runs the function once, leaves its value or its exception in the task's promise, and \<open>size_\<close> is what it was.
\<close>

theorem scheduled_functor_runs:
  assumes "\<not> pshutdown s" and "pqueue s = []"
  shows "\<exists>s1 s2. call_task eff 1 t (schedule_functor acts out) r s = Inr s1 \<and> trace s1 = trace s \<and> pqueue s1 = [t] \<and>
    run_worker eff (Suc (length acts)) s1 = Inr s2 \<and> trace s2 = trace s @ acts \<and> pqueue s2 = [] \<and> psize s2 = psize s \<and>
    (\<exists>f. frames s2 t = Some f \<and> fdone f \<and> tp_result (fpromise f) = out)"
proof -
  define s1 where "s1 = s\<lparr>psize := psize s + 1, pqueue := [t], frames := (frames s)(t \<mapsto> new_frame (functor_call acts out) r)\<rparr>"
  let ?s = "s1\<lparr>pqueue := []\<rparr>" and ?f = "new_frame (functor_call acts out) r"
  have "call_task eff 1 t (schedule_functor acts out) r s = Inr s1"
    using call_scheduled [OF assms(1), of eff 0] assms(2) by (simp add: s1_def schedule_functor_def)
  moreover have fr: "frames ?s t = Some ?f" by (simp add: s1_def)
  have "run_co eff (Suc (length acts)) t ?s = Inr (end_co t acts out ?s)"
    using run_straight [OF fr, of acts out eff 0] functor_call_straight [of acts out]
    by (simp add: new_frame_def del: run_co.simps)
  then have "run_worker eff (Suc (length acts)) s1 = Inr ((end_co t acts out ?s)\<lparr>psize := psize s\<rparr>)"
    by (simp add: run_worker_def s1_def end_co_def del: run_co.simps)
  moreover have "tp_result (fpromise (finished out ?f)) = out"
    by (rule finished_result) (simp add: new_frame_def)
  ultimately show ?thesis
    by (simp add: s1_def end_co_def)
qed

text \<open>
  Awaiting the task before the worker has taken it, as \<open>co_await pool.schedule(f)\<close> does when the pool is busy, runs the function in the
  awaiting thread, and the worker then resumes a coroutine that has ended.
\<close>

theorem awaited_functor_resumed_twice:
  assumes "\<not> pshutdown s" and "pqueue s = []" and "frames s h = Some f" and "\<not> fdone f" and "fcode f = Await t k" and "t \<noteq> h"
    and "continuation_of (fpromise f) = None" and "straight (k out) = Some (ls', out')"
  shows "\<exists>s1 s2. call_task eff 1 t (schedule_functor acts out) r s = Inr s1 \<and>
    run_co eff (Suc (Suc (length acts + Suc (Suc (length ls'))))) h s1 = Inr s2 \<and> trace s2 = trace s @ acts @ ls' \<and>
    run_worker eff 1 s2 = Inl Bad_handle"
  unfolding schedule_functor_def
  by (rule scheduled_task_resumed_twice [OF assms(1-7) functor_call_straight assms(8)])

end
