(* ===== verification/Teardown.thy ===== *)
theory Teardown
  imports Timer
begin

text \<open>
  The destructors \<open>Timer::~Timer\<close> of \<^verbatim>\<open>src/net/timer.cc\<close> and \<open>Reactor::~Reactor\<close> of \<^verbatim>\<open>src/net/reactor.cc\<close>.

  The member \<open>timer_\<close> of a reactor has no initialiser and is first assigned by \<open>getTimer\<close>: before that its value is indeterminate,
  \<open>None\<close> here, and reading it is undefined.  A timer is named by the address of its event.
\<close>

section \<open>Operations\<close>

definition destroy_Timer :: "'k sys \<Rightarrow> u64 \<Rightarrow> ('t, 'k) reactor \<Rightarrow> ('t, 'k) reactor res" where
  "destroy_Timer S p r =
     bindE (unregisterFromReactor S p r) (\<lambda>r.
     with_event p r (\<lambda>e. Inr (r\<lparr>kern := sys_close S (m_fd e) (kern r), heap := (heap r)(p := None)\<rparr>)))"

text \<open>The result is the reactor's last state with the thread's \<open>t_reactor_ptr\<close>.\<close>

definition destroy_Reactor :: "'k sys \<Rightarrow> u64 option \<Rightarrow> ('t, 'k) reactor \<Rightarrow> (('t, 'k) reactor \<times> nat option) res" where
  "destroy_Reactor S timer r =
     (let r = r\<lparr>kern := sys_close S (epfd r) (kern r)\<rparr> in
      case timer of
        None \<Rightarrow> Inl Bad_pointer
      | Some p \<Rightarrow> bindE (destroy_Timer S p r) (\<lambda>r. Inr (r, None)))"

section \<open>Lemmas\<close>

text \<open>\<open>close\<close> does not change which thread runs, and \<open>epoll_ctl\<close> neither.\<close>

definition same_thread_spec :: "'k sys \<Rightarrow> bool" where
  "same_thread_spec S \<longleftrightarrow>
     (\<forall>fd k. sys_gettid S (sys_close S fd k) = sys_gettid S k) \<and>
     (\<forall>ep c fd e k. sys_gettid S (snd (sys_epoll_ctl S ep c fd e k)) = sys_gettid S k)"

lemma destroy_Timer_in_loop:
  assumes "isLoopThread S r" and "heap r p = Some e" and "m_reactor e \<noteq> None" and "m_fd e \<noteq> -1" and "m_fd e \<in> set (fds r)"
  shows "destroy_Timer S p r = Inr (r\<lparr>
    kern := sys_close S (m_fd e) (snd (sys_epoll_ctl S (epfd r) EPOLL_CTL_DEL (m_fd e) None (kern r))),
    fds := remove1 (m_fd e) (fds r), heap := (heap r)(p := None)\<rparr>)"
  using assms
  by (auto simp: destroy_Timer_def unregisterFromReactor_def with_event_def delEvent_def delEventInLoopThread_def store_event_def
      bindE_def guardE_def Let_def split: prod.splits)

section \<open>What is left behind\<close>

text \<open>
  A reactor destroyed by its own thread, with a timer: its epoll descriptor is closed first, the timer's descriptor is then removed
  from that closed descriptor, which another thread may have got again in between, and closed.  The wakeup descriptor and the
  descriptors of timers that earlier calls of \<open>getTimer\<close> made stay open.
\<close>

theorem destroy_Reactor_order:
  assumes "same_thread_spec S" and "isLoopThread S r" and "heap r p = Some e" and "m_reactor e \<noteq> None" and "m_fd e \<noteq> -1"
    and "m_fd e \<in> set (fds r)"
  shows "\<exists>r'. destroy_Reactor S (Some p) r = Inr (r', None) \<and> heap r' = (heap r)(p := None) \<and> fds r' = remove1 (m_fd e) (fds r) \<and>
    kern r' = sys_close S (m_fd e) (snd (sys_epoll_ctl S (epfd r) EPOLL_CTL_DEL (m_fd e) None (sys_close S (epfd r) (kern r))))"
proof -
  have "isLoopThread S (r\<lparr>kern := sys_close S (epfd r) (kern r)\<rparr>)"
    using assms(1,2) by (simp add: isLoopThread_def same_thread_spec_def)
  from destroy_Timer_in_loop [OF this] assms(3-6) show ?thesis
    by (simp add: destroy_Reactor_def bindE_def)
qed

text \<open>A reactor whose timer was never asked for cannot be destroyed: the destructor tests and deletes an indeterminate pointer.\<close>

theorem destroy_Reactor_without_timer: "destroy_Reactor S None r = Inl Bad_pointer"
  by (simp add: destroy_Reactor_def)

end
