(* ===== verification/Fast_Clock.thy ===== *)
theory Fast_Clock
  imports Prelude Complex_Main "HOL-Library.Log_Nat" "HOL-Library.Signed_Division"
begin

text \<open>
  \<open>common::FastClock\<close> of \<^verbatim>\<open>src/common/fastclock.hpp\<close> and \<open>common::Thread\<close> of \<^verbatim>\<open>src/common/thread.hpp\<close>, which runs its calibration.

  Readings of the clocks and of the time stamp counter are arguments.  Time points and durations are nanoseconds, as in libstdc++;
  \<open>AccuracyT\<close> is an integer duration of \<open>u\<close> nanoseconds per unit.  A \<open>double\<close> is a rational number, rounded to 53 bits after each
  operation: all finite values here lie between \<open>2\<^sup>-\<^sup>6\<^sup>4\<close> and \<open>2\<^sup>1\<^sup>2\<^sup>8\<close>, where no exponent overflows or underflows.  The infinite value
  of \<open>1 / 0.0\<close> is \<open>None\<close>.
\<close>

section \<open>Arithmetic of \<open>double\<close>\<close>

definition round_even :: "rat \<Rightarrow> int" where
  "round_even x =
     (let n = \<lfloor>x\<rfloor>; d = x - of_int n in
      if d < 1 / 2 then n else if 1 / 2 < d then n + 1 else if even n then n else n + 1)"

text \<open>The exponent of a positive number: \<open>2\<^sup>e \<le> x < 2\<^sup>e\<^sup>+\<^sup>1\<close>.\<close>

definition binexp :: "rat \<Rightarrow> int" where
  "binexp x = (if 1 \<le> x then bitlen \<lfloor>x\<rfloor> - 1 else - bitlen (\<lceil>1 / x\<rceil> - 1))"

definition to_double :: "rat \<Rightarrow> rat" where
  "to_double x =
     (if x \<le> 0 then 0
      else let s = 2 powi (binexp x - 52) in of_int (round_even (x / s)) * s)"

section \<open>The clock\<close>

record fast_clock =
  startRealTime :: int
  startMonoTime :: int
  firstTick :: u64
  durationPerTick :: "rat option"

text \<open>\<open>rdtsc\<close> leaves the halves of the counter in two registers.\<close>

definition readTick :: "u32 \<Rightarrow> u32 \<Rightarrow> u64" where
  "readTick eax edx = push_bit 32 (ucast edx) OR ucast eax"

text \<open>\<open>calibrate\<close> at the monotonic time \<open>now\<close> and the counter \<open>tick\<close>; the quotient is that of unsigned integers.\<close>

definition calibrate :: "int \<Rightarrow> int \<Rightarrow> u64 \<Rightarrow> fast_clock \<Rightarrow> fast_clock res" where
  "calibrate u now tick c =
     (let duration = now - startMonoTime c;
          tickDiff = tick - firstTick c;
          count = word_of_int (duration sdiv u) :: u64 in
      bindE (guardE (count \<noteq> 0) Div_by_zero) (\<lambda>_.
      let tickPerDuration = to_double (of_nat (unat (tickDiff div count))) in
      Inr (c\<lparr>durationPerTick := (if tickPerDuration = 0 then None else Some (to_double (1 / tickPerDuration)))\<rparr>)))"

text \<open>The constructor: a reading of each clock, and a calibration after \<open>usleep\<close>.\<close>

definition new_FastClock :: "int \<Rightarrow> int \<Rightarrow> int \<Rightarrow> u64 \<Rightarrow> int \<Rightarrow> u64 \<Rightarrow> fast_clock res" where
  "new_FastClock u wall steady tick now tick' =
     calibrate u now tick' \<lparr>startRealTime = wall, startMonoTime = steady, firstTick = tick, durationPerTick = Some 0\<rparr>"

text \<open>The loop of the calibrator thread, one calibration per reading.\<close>

primrec calibrator :: "int \<Rightarrow> (int \<times> u64) list \<Rightarrow> fast_clock \<Rightarrow> fast_clock res" where
  "calibrator u [] c = Inr c"
| "calibrator u (x # xs) c = bindE (calibrate u (fst x) (snd x) c) (calibrator u xs)"

definition chk_int64 :: "int \<Rightarrow> int res" where
  "chk_int64 x = (if - (2 ^ 63) \<le> x \<and> x < 2 ^ 63 then Inr x else Inl Int_overflow)"

text \<open>\<open>int64_t dur = (readTick() - firstTick_) * durationPerTick_\<close>\<close>

definition elapsed :: "u64 \<Rightarrow> fast_clock \<Rightarrow> int res" where
  "elapsed tick c =
     (case durationPerTick c of
        None \<Rightarrow> Inl Int_overflow
      | Some d \<Rightarrow> chk_int64 \<lfloor>to_double (to_double (of_nat (unat (tick - firstTick c))) * d)\<rfloor>)"

definition Now :: "int \<Rightarrow> u64 \<Rightarrow> fast_clock \<Rightarrow> int res" where
  "Now u tick c =
     bindE (elapsed tick c) (\<lambda>dur.
     bindE (chk_int64 (dur * u)) (\<lambda>ns.
     bindE (chk_int64 (startRealTime c + ns)) (\<lambda>t. Inr (t sdiv 1000000000))))"

section \<open>Thread\<close>

text \<open>
  \<open>Thread::set\<close>: a \<open>string_view\<close> is its length and its pointer, and as a variadic argument it takes two argument words, in this order.
  \<open>prctl\<close> is the system call on its five arguments; 15 is \<open>PR_SET_NAME\<close>.
\<close>

definition Thread_set :: "(u64 list \<Rightarrow> 'k \<Rightarrow> 'k) \<Rightarrow> u64 \<times> u64 \<Rightarrow> ('k \<Rightarrow> 'k res) \<Rightarrow> 'k \<Rightarrow> 'k res" where
  "Thread_set prctl name f k = f (if fst name \<noteq> 0 then prctl [15, fst name, snd name, 0, 0] k else k)"

section \<open>Rounding\<close>

lemma round_even_error: "\<bar>of_int (round_even x) - x\<bar> \<le> 1 / 2"
proof -
  have "of_int \<lfloor>x\<rfloor> \<le> x" "x < of_int \<lfloor>x\<rfloor> + 1" by linarith+
  then show ?thesis by (auto simp: round_even_def Let_def)
qed

lemma powi_nat: "0 \<le> i \<Longrightarrow> (2 :: rat) powi i = of_int (2 ^ nat i)"
  by (simp add: power_int_def)

lemma bitlen_between:
  assumes "0 < n"
  shows "2 powi (bitlen n - 1) \<le> (of_int n :: rat)" and "(of_int n :: rat) + 1 \<le> 2 powi bitlen n"
proof -
  have b: "1 \<le> bitlen n" using assms bitlen_nonneg [of n] bitlen_eq_zero_iff [of n] by linarith
  have "2 ^ nat (bitlen n - 1) \<le> n" "n + 1 \<le> 2 ^ nat (bitlen n)" using bitlen_bounds [OF assms] by simp_all
  then have "of_int (2 ^ nat (bitlen n - 1)) \<le> (of_int n :: rat)" "(of_int (n + 1) :: rat) \<le> of_int (2 ^ nat (bitlen n))"
    by (simp_all only: of_int_le_iff)
  then show "2 powi (bitlen n - 1) \<le> (of_int n :: rat)" "(of_int n :: rat) + 1 \<le> 2 powi bitlen n"
    using b by (simp_all add: powi_nat)
qed

lemma powi_half: "2 * (2 :: rat) powi (i - 1) = 2 powi i"
  using power_int_add [of "2 :: rat" "i - 1" 1] by simp

lemma binexp_bounds:
  assumes "0 < x"
  shows "2 powi binexp x \<le> x \<and> x < 2 * 2 powi binexp x"
proof (cases "1 \<le> x")
  case True
  then have "0 < \<lfloor>x\<rfloor>" "of_int \<lfloor>x\<rfloor> \<le> x" "x < of_int \<lfloor>x\<rfloor> + 1" by linarith+
  then show ?thesis
    using True bitlen_between [of "\<lfloor>x\<rfloor>"] powi_half [of "bitlen \<lfloor>x\<rfloor>"] unfolding binexp_def by (auto intro: order_trans)
next
  case False
  define n where "n = \<lceil>1 / x\<rceil> - 1"
  have inv: "1 < 1 / x" using False assms by simp
  then have n: "0 < n" "of_int n < 1 / x" "1 / x \<le> of_int n + 1" unfolding n_def by linarith+
  let ?p = "(2 :: rat) powi bitlen n"
  have p: "0 < ?p" by simp
  have "1 / x \<le> ?p" "?p < 2 * (1 / x)"
    using bitlen_between [OF n(1)] n(2,3) powi_half [of "bitlen n"] by linarith+
  then have "1 \<le> ?p * x" "?p * x < 2"
    using assms by (simp_all add: field_simps)
  then show ?thesis
    using False p by (simp add: binexp_def n_def [symmetric] power_int_minus field_simps)
qed

text \<open>The result is within one part in \<open>2\<^sup>5\<^sup>3\<close> of the exact one.\<close>

lemma to_double_error:
  assumes "0 < x"
  shows "\<bar>to_double x - x\<bar> \<le> x / 2 ^ 53"
proof -
  define s where "s = (2 :: rat) powi (binexp x - 52)"
  have s: "0 < s" by (simp add: s_def)
  have e: "2 powi binexp x = 2 ^ 52 * s"
    using power_int_add [of "2 :: rat" "binexp x - 52" 52] by (simp add: s_def)
  have "to_double x - x = (of_int (round_even (x / s)) - x / s) * s"
    using assms s by (simp add: to_double_def s_def [symmetric] Let_def field_simps)
  then have "\<bar>to_double x - x\<bar> = \<bar>of_int (round_even (x / s)) - x / s\<bar> * s"
    using s by (simp add: abs_mult)
  also have "\<dots> \<le> 1 / 2 * s" using round_even_error [of "x / s"] s by (intro mult_right_mono) simp_all
  also have "\<dots> \<le> x / 2 ^ 53" using binexp_bounds [OF assms] e by simp
  finally show ?thesis .
qed

lemma to_double_bounds:
  assumes "0 \<le> x"
  shows "x * (1 - 1 / 2 ^ 53) \<le> to_double x \<and> to_double x \<le> x * (1 + 1 / 2 ^ 53)"
proof (cases "x = 0")
  case True
  then show ?thesis by (simp add: to_double_def)
next
  case False
  then have "\<bar>to_double x - x\<bar> \<le> x / 2 ^ 53" using to_double_error [of x] assms by simp
  then have "x - x / 2 ^ 53 \<le> to_double x \<and> to_double x \<le> x + x / 2 ^ 53" unfolding abs_le_iff by (simp add: algebra_simps)
  moreover have "x * (1 - 1 / 2 ^ 53) = x - x / 2 ^ 53" "x * (1 + 1 / 2 ^ 53) = x + x / 2 ^ 53"
    by (simp_all add: right_diff_distrib distrib_left)
  ultimately show ?thesis by simp
qed

lemma to_double_pos: "0 < x \<Longrightarrow> 0 < to_double x"
proof -
  assume "0 < x"
  then have "0 < x * (1 - 1 / 2 ^ 53)" by simp
  then show "0 < to_double x" using to_double_bounds [of x] \<open>0 < x\<close> by linarith
qed

text \<open>The four roundings of \<open>dur\<close> together.\<close>

lemma double_quotient:
  assumes "0 < q" and "0 \<le> d"
  shows "d / q * (1 - 1 / 2 ^ 50) \<le> to_double (to_double d * to_double (1 / to_double q)) \<and>
    to_double (to_double d * to_double (1 / to_double q)) \<le> d / q * (1 + 1 / 2 ^ 50)"
proof -
  define l h where "l = 1 - 1 / (2 :: rat) ^ 53" and "h = 1 + 1 / (2 :: rat) ^ 53"
  have lh: "0 < l" "0 < h" "1 - 1 / 2 ^ 50 \<le> l * l * l / h" "h * h * h / l \<le> 1 + 1 / 2 ^ 50"
    by (simp_all add: l_def h_def)
  have r: "x * l \<le> to_double x" "to_double x \<le> x * h" if "0 \<le> x" for x
    using to_double_bounds [OF that] by (simp_all add: l_def h_def)
  define a b e where "a = to_double q" and "b = to_double (1 / a)" and "e = to_double d"
  have a: "q * l \<le> a" "a \<le> q * h" "0 < a" using r [of q] to_double_pos assms(1) by (simp_all add: a_def)
  have "1 / (q * h) \<le> 1 / a" "1 / a \<le> 1 / (q * l)"
    using a lh assms(1) by (intro divide_left_mono; simp)+
  moreover have "1 / a * l \<le> b" "b \<le> 1 / a * h" using r [of "1 / a"] a(3) by (simp_all add: b_def)
  ultimately have b: "1 / (q * h) * l \<le> b" "b \<le> 1 / (q * l) * h"
    using lh by (meson mult_right_mono order_trans less_imp_le)+
  have e: "d * l \<le> e" "e \<le> d * h" using r [OF assms(2)] by (simp_all add: e_def)
  have nn: "0 \<le> d * l" "0 \<le> 1 / (q * h) * l" using lh assms by simp_all
  then have "0 \<le> e" "0 \<le> b" using e(1) b(1) by linarith+
  then have "d * l * (1 / (q * h) * l) \<le> e * b" "e * b \<le> d * h * (1 / (q * l) * h)" "0 \<le> e * b"
    using mult_mono [OF e(1) b(1)] mult_mono [OF e(2) b(2)] nn lh assms by simp_all
  then have "d * l * (1 / (q * h) * l) * l \<le> to_double (e * b)" "to_double (e * b) \<le> d * h * (1 / (q * l) * h) * h"
    using r [of "e * b"] lh by (meson mult_right_mono order_trans less_imp_le)+
  moreover have "d * l * (1 / (q * h) * l) * l = d / q * (l * l * l / h)" "d * h * (1 / (q * l) * h) * h = d / q * (h * h * h / l)"
    using assms(1) lh by (simp_all add: field_simps)
  moreover have "d / q * (1 - 1 / 2 ^ 50) \<le> d / q * (l * l * l / h)" "d / q * (h * h * h / l) \<le> d / q * (1 + 1 / 2 ^ 50)"
    by (rule mult_left_mono [OF lh(3)] mult_left_mono [OF lh(4)]; use assms in simp)+
  ultimately have "d / q * (1 - 1 / 2 ^ 50) \<le> to_double (e * b)" "to_double (e * b) \<le> d / q * (1 + 1 / 2 ^ 50)" by linarith+
  then show ?thesis by (simp add: a_def b_def e_def)
qed

section \<open>How fast the clock runs\<close>

definition ticks :: "u64 \<Rightarrow> fast_clock \<Rightarrow> nat" where
  "ticks t c = unat (t - firstTick c)"

text \<open>
  The time from the start to the counter value \<open>t\<close> in units, for a counter that runs as between the start and the sample
  \<open>(now, tick)\<close>.
\<close>

definition true_elapsed :: "int \<Rightarrow> int \<Rightarrow> u64 \<Rightarrow> u64 \<Rightarrow> fast_clock \<Rightarrow> rat" where
  "true_elapsed u now tick t c =
     of_nat (ticks t c) * (of_int (now - startMonoTime c) / of_int u) / of_nat (ticks tick c)"

lemma sdiv_nonneg: "0 \<le> a \<Longrightarrow> 0 < b \<Longrightarrow> a sdiv b = a div (b :: int)"
  by (simp add: signed_divide_int_def sgn_if)

lemma calibrate_eq:
  assumes "0 < u" and "startMonoTime c \<le> now" and "now - startMonoTime c < 2 ^ 63"
  defines "n \<equiv> nat ((now - startMonoTime c) div u)"
  shows "calibrate u now tick c =
    (if n = 0 then Inl Div_by_zero
     else Inr (c\<lparr>durationPerTick :=
       (let q = to_double (of_nat (ticks tick c div n)) in if q = 0 then None else Some (to_double (1 / q)))\<rparr>))"
proof -
  let ?d = "now - startMonoTime c"
  have d: "0 \<le> ?d div u" "?d div u \<le> ?d"
    using assms(1,2) zdiv_mono2 [of ?d 1 u] by (simp_all add: pos_imp_zdiv_nonneg_iff)
  have w: "unat (word_of_int (?d sdiv u) :: u64) = n"
    using d assms(1,2,3) by (simp add: sdiv_nonneg n_def unat_eq_nat_uint uint_word_of_int)
  then have "(word_of_int (?d sdiv u) :: u64) = 0 \<longleftrightarrow> n = 0" by (simp add: unat_eq_0 flip: w)
  moreover have "unat ((tick - firstTick c) div word_of_int (?d sdiv u)) = ticks tick c div n"
    by (simp add: unat_div_distrib w ticks_def)
  ultimately show ?thesis by (simp add: calibrate_def Let_def guardE_def bindE_def del: of_nat_unat)
qed

lemma quotient_between:
  fixes e :: rat
  assumes "0 < n" and "of_nat n \<le> e" and "e < of_nat n + 1" and q: "q = k div n" "0 < q" and d: "0 \<le> d"
  shows "d / of_nat q \<le> d * e / of_nat k * (1 + 1 / of_nat q)"
    and "d * e / of_nat k * (of_nat n / (of_nat n + 1)) \<le> d / of_nat q"
proof -
  have k: "q * n \<le> k" "k < (q + 1) * n" "0 < k"
    using assms(1) q dividend_less_times_div [of n k] by (auto simp: algebra_simps intro: gr0I)
  then have "(of_nat (q * n) :: rat) \<le> of_nat k" "(of_nat k :: rat) \<le> of_nat ((q + 1) * n)"
    unfolding of_nat_le_iff by simp_all
  then have kr: "of_nat q * of_nat n \<le> (of_nat k :: rat)" "of_nat k \<le> ((of_nat q + 1) * of_nat n :: rat)" "0 < (of_nat k :: rat)"
    using k(3) by (simp_all add: algebra_simps)
  have "of_nat k \<le> (of_nat q + 1) * e"
    by (rule order_trans [OF kr(2) mult_left_mono [OF assms(2)]]) simp
  then have "1 / of_nat q \<le> e / of_nat k * (1 + 1 / of_nat q)"
    using kr(3) q(2) by (simp add: field_simps)
  from mult_left_mono [OF this d] show "d / of_nat q \<le> d * e / of_nat k * (1 + 1 / of_nat q)" by simp
  have "e * (of_nat q * of_nat n) \<le> (of_nat n + 1) * of_nat k"
    using mult_mono [of e "of_nat n + 1" "of_nat q * of_nat n" "of_nat k"] kr(1) assms(3) by simp
  then have "e / of_nat k * (of_nat n / (of_nat n + 1)) \<le> 1 / of_nat q"
    using kr(3) q(2) by (simp add: divide_simps mult_ac)
  from mult_left_mono [OF this d] show "d * e / of_nat k * (of_nat n / (of_nat n + 1)) \<le> d / of_nat q" by simp
qed

section \<open>Three clocks\<close>

text \<open>A clock in seconds cannot be constructed: the calibration two milliseconds after the start divides by zero.\<close>

theorem clock_of_seconds_faults:
  assumes "steady \<le> now" and "now - steady < 1000000000"
  shows "new_FastClock 1000000000 wall steady tick now tick' = Inl Div_by_zero"
  using assms by (simp add: new_FastClock_def calibrate_eq)

text \<open>
  At 2.4 ticks per nanosecond a clock in nanoseconds gains a fifth: after ten seconds it says twelve.  A clock in milliseconds whose
  constructor slept for 2.9 milliseconds counts 689 milliseconds in the second after.
\<close>

lemma to_double_numerals:
  "to_double 2 = 2" "to_double (1 / 2) = 1 / 2" "to_double 24000000000 = 24000000000" "to_double 12000000000 = 12000000000"
proof -
  have b: "bitlen 2 = 2" "bitlen 1 = 1" "bitlen 24000000000 = 35" "bitlen 12000000000 = 34" by code_simp+
  show "to_double 2 = 2" "to_double (1 / 2) = 1 / 2" "to_double 24000000000 = 24000000000" "to_double 12000000000 = 12000000000"
    by (simp_all add: to_double_def binexp_def b round_even_def power_int_def Let_def power_one_over)
qed

theorem clock_rates:
  "bindE (new_FastClock 1 0 0 0 2000000 4800000) (elapsed 24000000000) = Inr 12000000000 \<and>
   bindE (new_FastClock 1000000 0 0 0 2900000 6960000) (elapsed 2400000000) = Inr 689"
proof -
  have "\<lfloor>to_double (to_double 2400000000 * to_double (1 / to_double 3480000))\<rfloor> = 689"
    using double_quotient [of 3480000 2400000000] by (intro floor_unique) simp_all
  moreover have "to_double 3480000 \<noteq> 0" using to_double_pos [of 3480000] by simp
  ultimately show ?thesis
    by (simp add: new_FastClock_def calibrate_eq ticks_def bindE_def elapsed_def chk_int64_def to_double_numerals)
qed

section \<open>Properties\<close>

text \<open>C28.
  How wrong the fast clock can be.  After a calibration at a time \<open>n\<close> whole units after the start, with a quotient of \<open>q\<close> ticks per
  unit, the duration computed from any later counter value is the true one up to these errors: it is too long by a factor of at most
  \<open>1 + 1/q\<close>, because the quotient of ticks and units is rounded down, too short by a factor of at most \<open>n/(n+1)\<close>, because the
  time of the calibration is rounded down to whole units, and otherwise exact up to one unit and one part in \<open>2\<^sup>5\<^sup>0\<close>.
\<close>

theorem elapsed_bounds:
  assumes "calibrate u now tick c = Inr c'" and "elapsed t c' = Inr dur"
    and "0 < u" and "startMonoTime c \<le> now" and "now - startMonoTime c < 2 ^ 63"
  shows "let n = nat ((now - startMonoTime c) div u); q = ticks tick c div n; e = true_elapsed u now tick t c in
    0 < n \<and> 0 < q \<and> of_int dur \<le> e * (1 + 1 / of_nat q) * (1 + 1 / 2 ^ 50) \<and>
    e * (of_nat n / (of_nat n + 1)) * (1 - 1 / 2 ^ 50) - 1 < of_int dur"
proof -
  define n q where "n = nat ((now - startMonoTime c) div u)" and "q = ticks tick c div n"
  define e :: rat where "e = of_int (now - startMonoTime c) / of_int u"
  define d :: rat where "d = of_nat (ticks t c)"
  define x where "x = to_double (to_double d * to_double (1 / to_double (of_nat q)))"
  have n: "0 < n" and c': "c' = c\<lparr>durationPerTick :=
       (let q = to_double (of_nat q) in if q = 0 then None else Some (to_double (1 / q)))\<rparr>"
    using assms(1) calibrate_eq [OF assms(3-5), of tick] by (auto simp: n_def q_def split: if_splits)
  have q: "0 < q" and dur: "dur = \<lfloor>x\<rfloor>"
    using assms(2) by (auto simp: c' elapsed_def chk_int64_def x_def d_def ticks_def to_double_def [of 0] Let_def intro: gr0I split: if_splits)
  have "of_nat n \<le> e" "e < of_nat n + 1"
    using n floor_divide_of_int_eq [of "now - startMonoTime c" u, where ?'a = rat]
    unfolding e_def n_def by linarith+
  note b = quotient_between [OF n this q_def q, of d]
  have x: "d / of_nat q * (1 - 1 / 2 ^ 50) \<le> x" "x \<le> d / of_nat q * (1 + 1 / 2 ^ 50)"
    using double_quotient [of "of_nat q" d] q by (simp_all add: x_def d_def)
  have te: "true_elapsed u now tick t c = d * e / of_nat (ticks tick c)" by (simp add: true_elapsed_def d_def e_def)
  have x': "of_int dur \<le> x" "x < of_int dur + 1" using dur by linarith+
  have "0 \<le> d" by (simp add: d_def)
  note b = b [OF this]
  have "of_int dur \<le> d * e / of_nat (ticks tick c) * (1 + 1 / of_nat q) * (1 + 1 / 2 ^ 50)"
    by (rule order_trans [OF x'(1) order_trans [OF x(2) mult_right_mono [OF b(1)]]]) simp
  moreover have "d * e / of_nat (ticks tick c) * (of_nat n / (of_nat n + 1)) * (1 - 1 / 2 ^ 50) < of_int dur + 1"
    by (rule order.strict_trans1 [OF order_trans [OF mult_right_mono [OF b(2)] x(1)] x'(2)]) simp
  ultimately show ?thesis
    unfolding Let_def n_def [symmetric] q_def [symmetric] te using n q by (simp only: diff_less_eq)
qed

definition started :: fast_clock where
  "started = \<lparr>startRealTime = 0, startMonoTime = 0, firstTick = 0, durationPerTick = Some 0\<rparr>"

theorem elapsed_bounds_witness:
  "\<exists>c'. calibrate 1000000 2900000 6960000 started = Inr c' \<and> elapsed 2400000000 c' = Inr 689 \<and>
     true_elapsed 1000000 2900000 6960000 2400000000 started = 1000 \<and>
     (of_int 689 :: rat) \<le> 1000 * (1 + 1 / 3480000) * (1 + 1 / 2 ^ 50) \<and> 1000 * (2 / 3) * (1 - 1 / 2 ^ 50) - 1 < (of_int 689 :: rat)"
proof -
  have "bindE (calibrate 1000000 2900000 6960000 started) (elapsed 2400000000) = Inr 689"
    using clock_rates by (simp add: new_FastClock_def started_def)
  then obtain c' where c': "calibrate 1000000 2900000 6960000 started = Inr c'" "elapsed 2400000000 c' = Inr 689"
    by (auto simp: bindE_def split: sum.splits)
  moreover have "true_elapsed 1000000 2900000 6960000 2400000000 started = 1000"
    by (simp add: true_elapsed_def ticks_def started_def)
  ultimately show ?thesis
    using elapsed_bounds [OF c'] by (simp add: started_def ticks_def Let_def)
qed

text \<open>
  No thread gets its name: \<open>prctl\<close> receives the length of the name where it expects a pointer, and such an address, in the first page,
  is not mapped.  The thread's function runs all the same.
\<close>

theorem thread_name_not_set:
  assumes "\<forall>a rest k. a < 4096 \<longrightarrow> prctl (15 # a # rest) k = k" and "fst name < 4096"
  shows "Thread_set prctl name f k = f k"
  using assms by (simp add: Thread_set_def)

end
