(* ===== verification/Defer.thy ===== *)
theory Defer
  imports Prelude "HOL-Library.Multiset"
begin

text \<open>
  \<open>common::Defer\<close> of \<^verbatim>\<open>src/common/defer.hpp\<close>: functions that run when a scope is left.

  A scope is the list of its \<open>Defer\<close> objects in the order of construction; an object is its \<open>fn_\<close>, \<open>None\<close> when empty.  Local objects
  are destroyed in the reverse order.  What a function does is a parameter.
\<close>

section \<open>Operations\<close>

definition new_Defer :: "'f \<Rightarrow> 'f option list \<Rightarrow> 'f option list" where
  "new_Defer f ds = ds @ [Some f]"

text \<open>The move constructor takes the function and empties the other object.\<close>

definition move_Defer :: "nat \<Rightarrow> 'f option list \<Rightarrow> 'f option list res" where
  "move_Defer i ds = bindE (guardE (i < length ds) Bad_pointer) (\<lambda>_. Inr (ds[i := None] @ [ds ! i]))"

definition destroy_Defer :: "('f \<Rightarrow> 's \<Rightarrow> 's) \<Rightarrow> 'f option \<Rightarrow> 's \<Rightarrow> 's" where
  "destroy_Defer run d s = (case d of None \<Rightarrow> s | Some f \<Rightarrow> run f s)"

definition leave_scope :: "('f \<Rightarrow> 's \<Rightarrow> 's) \<Rightarrow> 'f option list \<Rightarrow> 's \<Rightarrow> 's" where
  "leave_scope run ds s = fold (destroy_Defer run) (rev ds) s"

datatype 'f scope_step = Make 'f | Move nat

primrec scope_body :: "'f scope_step list \<Rightarrow> 'f option list \<Rightarrow> 'f option list res" where
  "scope_body [] ds = Inr ds"
| "scope_body (x # xs) ds =
     bindE (case x of Make f \<Rightarrow> Inr (new_Defer f ds) | Move i \<Rightarrow> move_Defer i ds) (scope_body xs)"

section \<open>Every function runs once\<close>

definition held :: "'f option list \<Rightarrow> 'f list" where
  "held ds = List.map_filter id ds"

definition made :: "'f scope_step list \<Rightarrow> 'f list" where
  "made xs = List.map_filter (\<lambda>x. case x of Make f \<Rightarrow> Some f | Move i \<Rightarrow> None) xs"

lemma leave_scope_held: "leave_scope run ds s = fold run (rev (held ds)) s"
proof -
  have "fold (destroy_Defer run) ds s = fold run (held ds) s" for ds s
    by (induction ds arbitrary: s) (auto simp: destroy_Defer_def held_def List.map_filter_simps split: option.splits)
  moreover have "held (rev ds) = rev (held ds)"
    by (simp add: held_def List.map_filter_def rev_map rev_filter)
  ultimately show ?thesis by (simp add: leave_scope_def)
qed

lemma held_append: "held (xs @ ys) = held xs @ held ys"
  by (simp add: held_def List.map_filter_def)

lemma held_moved: "i < length ds \<Longrightarrow> mset (held (ds[i := None] @ [ds ! i])) = mset (held ds)"
proof -
  assume i: "i < length ds"
  let ?a = "take i ds" and ?b = "drop (Suc i) ds"
  have "ds = ?a @ ds ! i # ?b" "ds[i := None] = ?a @ None # ?b"
    using i by (simp_all add: id_take_nth_drop upd_conv_take_nth_drop)
  moreover have "mset (held (?a @ None # ?b @ [x])) = mset (held (?a @ x # ?b))" for x
    by (cases x) (simp_all add: held_append, simp_all add: held_def List.map_filter_def)
  ultimately show ?thesis by (metis append.assoc append_Cons)
qed

lemma scope_body_held: "scope_body xs ds = Inr ds' \<Longrightarrow> mset (held ds') = mset (held ds) + mset (made xs)"
proof (induction xs arbitrary: ds)
  case (Cons x xs)
  show ?case
  proof (cases x)
    case (Make f)
    moreover have "held [Some f] = [f]" by (simp add: held_def List.map_filter_simps)
    ultimately show ?thesis using Cons by (simp add: new_Defer_def bindE_def held_append made_def List.map_filter_simps)
  next
    case (Move i)
    then have "i < length ds" "scope_body xs (ds[i := None] @ [ds ! i]) = Inr ds'"
      using Cons.prems by (auto simp: move_Defer_def bindE_def guardE_def split: if_splits)
    with Cons.IH held_moved [of i ds] Move show ?thesis by (simp add: made_def List.map_filter_simps)
  qed
qed (simp add: made_def List.map_filter_simps)

text \<open>
  However the objects of a scope were moved, leaving it runs every deferred function exactly once; without moves, the last one first.
\<close>

theorem deferred_run_once:
  assumes "scope_body xs [] = Inr ds"
  shows "mset (leave_scope (\<lambda>f ran. ran @ [f]) ds []) = mset (made xs)"
proof -
  have "fold (\<lambda>f ran. ran @ [f]) fs ran = ran @ fs" for fs ran :: "'a list"
    by (induction fs arbitrary: ran) simp_all
  then show ?thesis
    using scope_body_held [OF assms] by (simp add: leave_scope_held held_def List.map_filter_simps)
qed

theorem deferred_reverse_order:
  "\<exists>ds. scope_body (map Make fs) [] = Inr ds \<and> leave_scope run ds s = fold run (rev fs) s"
proof -
  have "scope_body (map Make fs) ds = Inr (ds @ map Some fs)" for ds
    by (induction fs arbitrary: ds) (simp_all add: new_Defer_def bindE_def)
  then show ?thesis
    by (simp add: leave_scope_held) (simp add: held_def List.map_filter_def comp_def)
qed

end
