(* ===== verification/Spec2Isabelle.thy ===== *)
theory Spec2Isabelle
  imports Rpc_Transport Tcp_Server Mutex Alloc Log Grisu_Read Magic_Tuple Tuple_Util Net_Address Echo_Server Io_Context
    Sync_Wait Generator Container_End Co_Handle Schedule_Call Teardown Fast_Clock Defer
begin

text \<open>
  Verification of tinyRPC, a C++20 library for remote procedure calls.

  \<^bold>\<open>The program.\<close>  tinyRPC has four layers.  The protocol layer (\<^verbatim>\<open>src/protocol\<close>) encodes values into a byte stream,
  registers procedures by name and dispatches requests to them.  The network layer (\<^verbatim>\<open>src/net\<close>) is an event-driven TCP server and
  client: a reactor over epoll with timers, stackful coroutines (\<^verbatim>\<open>src/common/coroutine\<close>) whose blocking system calls are hooked
  so that they yield to the reactor, connections with growing byte buffers, a time wheel that closes idle connections, and a pool of
  I/O threads.  The asynchronous layer (\<^verbatim>\<open>src/async\<close>) is a second, independent library of C++20 coroutines: tasks, generators,
  events, a thread pool, \<open>when_all\<close> and \<open>sync_wait\<close>.  The common layer (\<^verbatim>\<open>src/common\<close>) formats numbers, logs, and reflects on
  structs.

  \<^bold>\<open>Conventions.\<close>  \<open>Prelude\<close> holds them: an operation that can throw, fail an assertion or leave the defined behaviour of C++
  returns a value of type \<open>fault + 'a\<close> and \<open>bindE\<close> sequences such operations; fixed-width unsigned integers are words, \<open>int\<close> is a
  mathematical integer whose range is tested where an operation may leave it; the kernel, user callbacks and coroutine bodies are
  parameters (\<open>Sys\<close> states as named predicates what the code relies on of the kernel, after the manual pages, and holds a small kernel
  that satisfies them for the witnesses).  Code that several threads run is a relation between states whose steps are the atomic
  operations and the critical sections of the code.

  \<^bold>\<open>Protocol.\<close>
  \<^item> \<open>Endian\<close>, \<open>Binary\<close>: \<^verbatim>\<open>archive.hpp\<close>.  Byte swapping of every width and type; the overloads of \<open>operator&\<close> as \<open>put\<close> and \<open>get\<close>
    by recursion on the type.  Shown: writing and reading back is the identity between hosts of any byte order, truncated input is
    rejected, the chunked string loop equals one read; \<open>short\<close> does not survive the codec.
  \<^item> \<open>Rpc\<close>: \<^verbatim>\<open>schema.hpp\<close>, \<^verbatim>\<open>factory.hpp\<close>, \<^verbatim>\<open>rpc.hpp\<close>.  Struct metadata, the object factory, the macros \<open>rpc\<close> and
    \<open>dispatch\<close>; the registry is the interface locale \<open>registry\<close>.  Shown: a call end to end.
  \<^item> \<open>Rpc_Transport\<close>: the composition of the codec with the connection's buffer, in any fragmentation.

  \<^bold>\<open>Network.\<close>
  \<^item> \<open>Tcp_Buffer\<close>: \<^verbatim>\<open>tcp_buffer.cc\<close>, refined to a byte queue (locale \<open>byte_queue\<close>).
  \<^item> \<open>Reactor\<close>, \<open>Fd_Event\<close>, \<open>Timer\<close>: \<^verbatim>\<open>reactor.cc\<close>, \<^verbatim>\<open>fd_event.cc\<close>, \<^verbatim>\<open>timer.cc\<close>.  The event loop with its queues of pending
    registrations and tasks, the registration of masks with the kernel, timed events.  Shown: the reactor and the kernel agree on
    what is registered, every task runs once and in order, due timers run in order of time.
  \<^item> \<open>Coroutine\<close>, \<open>Coroutine_Pool\<close>, \<open>Coroutine_Hook\<close>: switching between the main coroutine and others, the pool of stacks, and the
    hooked \<open>read\<close>, \<open>write\<close>, \<open>accept\<close>, \<open>connect\<close> and \<open>sleep\<close>, each as its part before and after the yield.  Shown: the segments of a
    coroutine run in order, a pool with a free slot never hands out a coroutine in use, a hooked read is woken.
  \<^item> \<open>Teardown\<close>: the destructors of timer and reactor.
  \<^item> \<open>Tcp_Connection\<close>, \<open>Time_Wheel\<close>, \<open>Io_Thread\<close>: input, output and closing of a connection, the expiry of idle ones, the client
    table of an I/O thread, round robin, accepting and connecting.
  \<^item> \<open>Io_Loop\<close>: the event loop cut into the steps between which another thread can act, and the life of an \<open>IOThread\<close> object.  Shown: without
    other threads the steps compute what \<open>Reactor.loop\<close> computes; tasks posted by the owner run once and in order, except those that
    arrive just before the unprotected \<open>clear()\<close>; when the destructor returns.
  \<^item> \<open>Tcp_Server\<close>: \<open>IOThread::main\<close>, the constructors, \<open>start\<close> and the destructors of server, acceptor and client.  Shown: the timers an I/O
    thread ends up with; when the accept coroutine is started.
  \<^item> \<open>Mutex\<close>: \<^verbatim>\<open>mutex.h\<close>.  One scoped lock restores its mutex (locale \<open>lockable\<close>, interpreted for the three kinds); many on one
    reader-writer lock exclude each other.
  \<^item> \<open>Alloc\<close>: the block allocator of \<^verbatim>\<open>src/net2\<close> over a ledger that is a parameter: live allocations are disjoint.
  \<^item> \<open>Net_Address\<close>: \<^verbatim>\<open>net_address.cc\<close>.  \<open>Echo_Server\<close>: the server of \<^verbatim>\<open>src/lab1\<close>.

  \<^bold>\<open>Asynchronous library.\<close>
  \<^item> \<open>Event\<close>: \<^verbatim>\<open>event.cc\<close>.  The lock-free stack of awaiters over a heap of \<open>next_\<close> pointers.  Shown: \<open>set\<close> resumes every waiter once,
    in the order of its policy (the in-place list reversal is proved against lists); no interleaving of waiting, setting and resetting
    loses a waiter.  What \<open>set\<close> needs of an executor is the locale \<open>executor\<close>.
  \<^item> \<open>Thread_Pool\<close>: \<^verbatim>\<open>thread_pool.cc\<close>.  Workers as state machines; first-in-first-out, the meaning of \<open>size_\<close>, draining at shutdown
    with a measure, and the interpretation of \<open>executor\<close>.  \<open>Schedule_Call\<close>: calling a function in the pool.
  \<^item> \<open>Promise\<close>, \<open>Task\<close>, \<open>Task_Container\<close>: the three promise types as instances of the locale \<open>result_slot\<close>; tasks with symmetric
    transfer of control; the container's slots.
  \<^item> \<open>Container_End\<close>: the container's construction and destructor.  \<open>Co_Handle\<close>: the objects that own a coroutine (task, generator and the tasks of
    \<open>when_all\<close> and \<open>sync_wait\<close>) as interpretations of the locale \<open>handle_class\<close>: none destroys a coroutine twice, tasks leak none.
  \<^item> \<open>When_All\<close>: \<^verbatim>\<open>when_all.hpp\<close> and \<^verbatim>\<open>sync_wait.hpp\<close>: the latch and the waiting event under every interleaving.  \<open>When_All_Await\<close>,
    \<open>Sync_Wait\<close>: the tasks, awaitables and awaiters as objects, simulated by the steps of \<open>When_All\<close>, and \<open>sync_wait\<close> applied to \<open>when_all\<close>.
  \<^item> \<open>Generator\<close>: iteration over a generator equals the trace of its body.  \<open>Io_Context\<close>: the awaitable over epoll.

  \<^bold>\<open>Common.\<close>
  \<^item> \<open>Itoa\<close>: \<^verbatim>\<open>string.hpp\<close>.  Integers by multiplication with an approximate reciprocal.
  \<^item> \<open>Grisu\<close>, \<open>Grisu_Scale\<close>, \<open>Grisu_Digits\<close>, \<open>Grisu_Text\<close>, \<open>Grisu_Read\<close>: \<^verbatim>\<open>string.hpp\<close>, doubles by Grisu2.  Shown: the 128-bit
    product from 32-bit halves is rounded correctly; every power of ten of the table is within half a unit; the digit loops end, stay inside the
    buffer and leave a point of their interval; the text denotes the digits.  Together: the text of a finite double is closer to it
    than to any other double, unless the digit loop reads outside its table of powers.
  \<^item> \<open>Log\<close>: \<^verbatim>\<open>log.hpp\<close>.  \<open>Magic_Get\<close>: \<^verbatim>\<open>magic_get.hpp\<close>, type identifiers and the member types of a struct;
    \<open>Magic_Tuple\<close>: its tuples and \<open>get\<close>, over the layout of classes.  Shown: \<open>get\<close> reads what was stored in the member.  \<open>Tuple_Util\<close>:
    \<^verbatim>\<open>tuple_util.hpp\<close> and \<^verbatim>\<open>trait.hpp\<close>.
  \<^item> \<open>Fast_Clock\<close>: \<^verbatim>\<open>fastclock.hpp\<close> with rounded \<open>double\<close> arithmetic, and \<^verbatim>\<open>thread.hpp\<close>.  Shown: how far the clock can be off.  \<open>Defer\<close>:
    \<^verbatim>\<open>defer.hpp\<close>.

  \<^bold>\<open>Bounds and fuel.\<close>  Loops that the code does not bound (the event loop, reading until \<open>EAGAIN\<close>, \<open>output\<close>, running coroutines, walking
  the list of an event, \<open>GrisuRound\<close>) take fuel; the theorems state how much is enough (the number of unread bytes, of awaiters, of
  coroutine steps) or, where the code does not end, that no amount is.  \<open>TcpBuffer\<close> counts in \<open>int\<close>, so that its theorems bound the bytes
  written by what keeps \<open>1.5\<close> times the size within range.  \<open>id_to_type\<close> needs 33 instantiations at most, since every pointer level
  takes two of 56 bits.

  \<^bold>\<open>Not modelled.\<close>  The registers exchanged by
  \<open>coctx_swap\<close>, the C++ concepts, the rest of the unfinished \<^verbatim>\<open>src/net2\<close> (its stream
  operations have no body), \<open>slice\<close> (which does not compile), tests, benchmarks and examples.
  Memory orders weaker than sequential consistency are not distinguished.  Of Grisu2, how often its digits are the shortest possible is not
  shown.
\<close>

end
